(* ===== verification/Egl_Prelude.thy ===== *)
theory Egl_Prelude
  imports Main "HOL-Library.Word"
begin

text \<open>
  Shared vocabulary of the development: the C++ exceptions that the library
  throws, the machine integers it computes with, and the generic facts on
  lists that the component theories rely on.

  A C++ function that may throw is modelled by a function into
  \<open>cpp_error + 'a\<close>, with \<open>Inl\<close> for the exception. A failed
  \<open>assert\<close> (an abort in a debug build, undefined behaviour in a release
  build) is the error \<open>Assert_failed\<close>; an access that the standard leaves
  undefined is \<open>Undefined_behaviour\<close>. \<open>std::optional\<close> is
  \<open>option\<close>.
\<close>

section \<open>Exceptions, machine integers\<close>

datatype cpp_error =
    Out_of_range string
  | Invalid_argument string
  | Logic_error string
  | Overflow_error string
  | Runtime_error string
  | Bad_alloc
  | Assert_failed
  | Undefined_behaviour

type_synonym 'a cpp = "cpp_error + 'a"

type_synonym u8 = "8 word"
type_synonym u16 = "16 word"
type_synonym u32 = "32 word"
type_synonym u64 = "64 word"

text \<open>\<open>std::size_t\<close> and \<open>std::uintptr_t\<close> on every supported platform.\<close>

type_synonym size_t = "64 word"

section \<open>Collections of facts\<close>

named_theorems ring_simps \<open>index arithmetic of ring buffers\<close>
named_theorems inv_intros \<open>introduction rules for component invariants\<close>
named_theorems monitor_simps \<open>unfolding of the guarded sections of a monitor\<close>

section \<open>Words\<close>

lemma unat_less64: "unat (w :: 64 word) < 2 ^ 64"
  using unsigned_less [of w, where 'a = nat] by simp

lemma unat_of_nat64: "n < 2 ^ 64 \<Longrightarrow> unat (of_nat n :: 64 word) = n"
  by (simp add: unat_of_nat)

section \<open>Lists\<close>

lemma length_takeWhile_less_nth:
  assumes "i < length (takeWhile p xs)"
  shows "i < length xs" and "p (xs ! i)"
proof -
  show "i < length xs"
    using assms length_takeWhile_le [of p xs] by linarith
  have "takeWhile p xs ! i \<in> set (takeWhile p xs)"
    using assms by (rule nth_mem)
  then have "p (takeWhile p xs ! i)"
    by (auto dest: set_takeWhileD)
  then show "p (xs ! i)"
    using assms by (simp add: takeWhile_nth)
qed

lemma length_takeWhile_eqI:
  assumes "k \<le> length xs"
    and "\<And>i. i < k \<Longrightarrow> p (xs ! i)"
    and "k < length xs \<Longrightarrow> \<not> p (xs ! k)"
  shows "length (takeWhile p xs) = k"
proof -
  have "\<not> length (takeWhile p xs) < k"
    using assms(1,2) nth_length_takeWhile [of p xs] by auto
  moreover have "\<not> k < length (takeWhile p xs)"
    using assms(3) length_takeWhile_less_nth [of k p xs] by auto
  ultimately show ?thesis by linarith
qed

lemma take_length_takeWhile [simp]: "take (length (takeWhile p xs)) xs = takeWhile p xs"
  by (induction xs) auto

lemma drop_length_takeWhile [simp]: "drop (length (takeWhile p xs)) xs = dropWhile p xs"
  by (induction xs) auto

lemma nth_takeWhile_dropWhile:
  "length (takeWhile p xs) < length xs \<Longrightarrow>
   xs ! length (takeWhile p xs) = hd (dropWhile p xs) \<and> dropWhile p xs \<noteq> []"
  by (induction xs) auto

lemma dropWhile_Nil_length: "dropWhile p xs = [] \<longleftrightarrow> length (takeWhile p xs) = length xs"
  by (induction xs) (auto simp: length_takeWhile_le)

lemma drop_eq_mono: "drop n xs = drop n ys \<Longrightarrow> n \<le> m \<Longrightarrow> drop m xs = drop m ys"
  by (metis drop_drop le_add_diff_inverse2)

lemma take_eq_mono: "take n xs = take n ys \<Longrightarrow> m \<le> n \<Longrightarrow> take m xs = take m ys"
  by (metis min_absorb1 take_take)

lemma find_append:
  "find p (xs @ ys) = (case find p xs of None \<Rightarrow> find p ys | Some x \<Rightarrow> Some x)"
  by (induction xs) auto

text \<open>Overwriting a block of consecutive cells, as \<open>std::ranges::copy\<close> does.\<close>

definition overwrite :: "'a list \<Rightarrow> nat \<Rightarrow> 'a list \<Rightarrow> 'a list" where
  "overwrite dst pos src = take pos dst @ src @ drop (pos + length src) dst"

lemma length_overwrite [simp]:
  "pos + length src \<le> length dst \<Longrightarrow> length (overwrite dst pos src) = length dst"
  by (simp add: overwrite_def)

lemma take_overwrite_all [simp]:
  "pos \<le> length dst \<Longrightarrow> take (pos + length src) (overwrite dst pos src) = take pos dst @ src"
  by (simp add: overwrite_def)

lemma take_overwrite_before [simp]:
  "n \<le> pos \<Longrightarrow> pos \<le> length dst \<Longrightarrow> take n (overwrite dst pos src) = take n dst"
  by (simp add: overwrite_def min_def)

lemma drop_overwrite_after [simp]:
  "pos + length src \<le> n \<Longrightarrow> pos \<le> length dst \<Longrightarrow> drop n (overwrite dst pos src) = drop n dst"
  by (simp add: overwrite_def)

lemma overwrite_at [simp]:
  "pos \<le> length dst \<Longrightarrow> take (length src) (drop pos (overwrite dst pos src)) = src"
  by (simp add: overwrite_def)

end
