(* ===== verification/Std_Algorithms.thy ===== *)
theory Std_Algorithms
  imports Egl_Prelude "HOL-Library.Multiset"
begin

text \<open>
  The algorithms of the C++ standard library that the flat containers call, as
  the standard describes them: the halving searches \<open>std::lower_bound\<close> and
  \<open>std::upper_bound\<close>, \<open>std::stable_sort\<close> and \<open>std::unique\<close>. They take the
  comparison as an argument. What the containers assume of a comparison (it is
  a strict weak ordering) is the locale \<open>strict_weak\<close>; what they assume of the
  unstable \<open>std::sort\<close>, whose result the standard does not determine, is the
  locale \<open>std_sort\<close>.
\<close>

section \<open>Binary search\<close>

text \<open>
  The loop of \<open>lower_bound\<close>/\<open>upper_bound\<close>: \<open>first\<close> and \<open>len\<close> bound the
  part of the range that is still undecided. Indices stand for iterators, so
  the past-the-end iterator is \<open>length xs\<close>.
\<close>

function partition_loop :: "('a \<Rightarrow> bool) \<Rightarrow> 'a list \<Rightarrow> nat \<Rightarrow> nat \<Rightarrow> nat" where
  "partition_loop p xs first len =
     (if len = 0 then first
      else let half = len div 2; middle = first + half in
        if p (xs ! middle) then partition_loop p xs (middle + 1) (len - half - 1)
        else partition_loop p xs first half)"
  by pat_completeness auto
termination
  by (relation "measure (\<lambda>(p, xs, first, len). len)") auto

declare partition_loop.simps [simp del]

definition lower_bound :: "('a \<Rightarrow> 'k \<Rightarrow> bool) \<Rightarrow> 'a list \<Rightarrow> 'k \<Rightarrow> nat" where
  "lower_bound cmp xs k = partition_loop (\<lambda>e. cmp e k) xs 0 (length xs)"

definition upper_bound :: "('k \<Rightarrow> 'a \<Rightarrow> bool) \<Rightarrow> 'a list \<Rightarrow> 'k \<Rightarrow> nat" where
  "upper_bound cmp xs k = partition_loop (\<lambda>e. \<not> cmp k e) xs 0 (length xs)"

section \<open>Sorting and removing duplicates\<close>

text \<open>
  \<open>std::stable_sort\<close>: its result is determined (sorted, a permutation, and
  equivalent elements in their original order), so insertion from the right
  with a new element placed before the elements it is equivalent to computes it.
\<close>

fun stable_insert :: "('a \<Rightarrow> 'a \<Rightarrow> bool) \<Rightarrow> 'a \<Rightarrow> 'a list \<Rightarrow> 'a list" where
  "stable_insert cmp x [] = [x]"
| "stable_insert cmp x (y # ys) =
     (if cmp y x then y # stable_insert cmp x ys else x # y # ys)"

fun stable_sort :: "('a \<Rightarrow> 'a \<Rightarrow> bool) \<Rightarrow> 'a list \<Rightarrow> 'a list" where
  "stable_sort cmp [] = []"
| "stable_sort cmp (x # xs) = stable_insert cmp x (stable_sort cmp xs)"

text \<open>
  \<open>std::unique\<close> followed by \<open>erase\<close> of the tail: of each run of consecutive
  equivalent elements only the first is kept.
\<close>

fun unique_from :: "('a \<Rightarrow> 'a \<Rightarrow> bool) \<Rightarrow> 'a \<Rightarrow> 'a list \<Rightarrow> 'a list" where
  "unique_from eq prev [] = []"
| "unique_from eq prev (y # ys) =
     (if eq prev y then unique_from eq prev ys else y # unique_from eq y ys)"

fun unique :: "('a \<Rightarrow> 'a \<Rightarrow> bool) \<Rightarrow> 'a list \<Rightarrow> 'a list" where
  "unique eq [] = []"
| "unique eq (x # xs) = x # unique_from eq x xs"

text \<open>The elements of a vector with one inserted before, or removed at, a position.\<close>

definition insert_at :: "'a list \<Rightarrow> nat \<Rightarrow> 'a \<Rightarrow> 'a list" where
  "insert_at xs pos x = take pos xs @ x # drop pos xs"

definition erase_at :: "'a list \<Rightarrow> nat \<Rightarrow> 'a list" where
  "erase_at xs pos = take pos xs @ drop (Suc pos) xs"

lemma sorted_wrt_erase_at: "sorted_wrt R xs \<Longrightarrow> sorted_wrt R (erase_at xs n)"
proof (cases "n < length xs")
  case True
  assume "sorted_wrt R xs"
  then have "sorted_wrt R (take n xs @ xs ! n # drop (Suc n) xs)"
    using id_take_nth_drop [OF True] by simp
  then show ?thesis by (simp add: erase_at_def sorted_wrt_append)
qed (simp add: erase_at_def)

lemma map_erase_at: "map f (erase_at xs n) = erase_at (map f xs) n"
  by (simp add: erase_at_def take_map drop_map)

section \<open>The search finds the partition point\<close>

text \<open>A range is partitioned by \<open>p\<close> when no element satisfying \<open>p\<close> follows one that does not.\<close>

definition partitioned :: "('a \<Rightarrow> bool) \<Rightarrow> 'a list \<Rightarrow> bool" where
  "partitioned p xs \<longleftrightarrow> sorted_wrt (\<lambda>x y. p y \<longrightarrow> p x) xs"

lemma partitioned_nth:
  "partitioned p xs \<Longrightarrow> i \<le> j \<Longrightarrow> j < length xs \<Longrightarrow> p (xs ! j) \<Longrightarrow> p (xs ! i)"
  using sorted_wrt_nth_less [of "\<lambda>x y. p y \<longrightarrow> p x" xs i j]
  by (cases "i = j") (auto simp: partitioned_def)

lemma partition_loop_correct:
  assumes "partitioned p xs" and "first + len \<le> length xs"
    and "\<And>i. i < first \<Longrightarrow> p (xs ! i)"
    and "first + len < length xs \<Longrightarrow> \<not> p (xs ! (first + len))"
  shows "partition_loop p xs first len = length (takeWhile p xs)"
  using assms
proof (induction p xs first len rule: partition_loop.induct)
  case (1 p xs first len)
  let ?half = "len div 2" and ?mid = "first + len div 2"
  show ?case
  proof (cases "len = 0")
    case True
    then have "length (takeWhile p xs) = first"
      using "1.prems" by (intro length_takeWhile_eqI) auto
    with True show ?thesis by (subst partition_loop.simps) simp
  next
    case False
    then have mid: "?mid < length xs" using "1.prems"(2) by auto
    show ?thesis
    proof (cases "p (xs ! ?mid)")
      case True
      have "\<And>i. i < ?mid + 1 \<Longrightarrow> p (xs ! i)"
        using partitioned_nth [OF "1.prems"(1) _ mid True] by auto
      moreover have "?mid + 1 + (len - ?half - 1) = first + len" using False by auto
      ultimately have "partition_loop p xs (?mid + 1) (len - ?half - 1) = length (takeWhile p xs)"
        using "1.IH"(1) [OF False refl refl True] "1.prems" by auto
      with False True show ?thesis
        by (simp add: partition_loop.simps [of p xs first len] Let_def)
    next
      case neg: False
      have "partition_loop p xs first ?half = length (takeWhile p xs)"
        using "1.IH"(2) [OF False refl refl neg] "1.prems" mid neg by auto
      with False neg show ?thesis
        by (simp add: partition_loop.simps [of p xs first len] Let_def)
    qed
  qed
qed

corollary partition_loop_takeWhile:
  "partitioned p xs \<Longrightarrow> partition_loop p xs 0 (length xs) = length (takeWhile p xs)"
  by (rule partition_loop_correct) auto

text \<open>Whatever the predicate, the loop stays inside its range.\<close>

lemma partition_loop_le: "partition_loop p xs first len \<le> first + len"
proof (induction p xs first len rule: partition_loop.induct)
  case (1 p xs first len)
  show ?case
  proof (cases "len = 0 \<or> p (xs ! (first + len div 2))")
    case True
    with "1.IH"(1) [OF _ refl refl] show ?thesis
      by (subst partition_loop.simps) (force simp: Let_def)
  next
    case False
    with "1.IH"(2) [OF _ refl refl]
    have "partition_loop p xs first (len div 2) \<le> first + len div 2" by simp
    with False show ?thesis
      by (subst partition_loop.simps) (simp add: Let_def)
  qed
qed

lemma lower_bound_le: "lower_bound cmp xs k \<le> length xs"
  using partition_loop_le [of "\<lambda>e. cmp e k" xs 0 "length xs"] by (simp add: lower_bound_def)

section \<open>Strict weak orderings\<close>

text \<open>
  The requirement the containers put on \<open>Compare\<close>: irreflexive, transitive,
  and being incomparable is transitive.
\<close>

locale strict_weak =
  fixes cmp :: "'a \<Rightarrow> 'a \<Rightarrow> bool"
  assumes irrefl: "\<not> cmp x x"
    and trans: "cmp x y \<Longrightarrow> cmp y z \<Longrightarrow> cmp x z"
    and incomp_trans: "\<not> cmp x y \<Longrightarrow> \<not> cmp y x \<Longrightarrow> \<not> cmp y z \<Longrightarrow> \<not> cmp z y \<Longrightarrow>
      \<not> cmp x z \<and> \<not> cmp z x"
begin

definition equiv :: "'a \<Rightarrow> 'a \<Rightarrow> bool" where
  "equiv x y \<longleftrightarrow> \<not> cmp x y \<and> \<not> cmp y x"

lemma asym: "cmp x y \<Longrightarrow> \<not> cmp y x"
  using irrefl trans by blast

lemma equiv_refl [simp]: "equiv x x"
  by (simp add: equiv_def irrefl)

lemma equiv_sym: "equiv x y \<Longrightarrow> equiv y x"
  by (simp add: equiv_def)

lemma equiv_trans: "equiv x y \<Longrightarrow> equiv y z \<Longrightarrow> equiv x z"
  unfolding equiv_def using incomp_trans by blast

lemma less_equiv_trans: "cmp x y \<Longrightarrow> equiv y z \<Longrightarrow> cmp x z"
  unfolding equiv_def using incomp_trans trans asym by metis

lemma equiv_less_trans: "equiv x y \<Longrightarrow> cmp y z \<Longrightarrow> cmp x z"
  unfolding equiv_def using incomp_trans trans asym by metis

lemma not_less_trans: "\<not> cmp y x \<Longrightarrow> \<not> cmp z y \<Longrightarrow> \<not> cmp z x"
  using less_equiv_trans equiv_less_trans trans unfolding equiv_def by metis

lemma less_not_less_trans: "cmp x y \<Longrightarrow> \<not> cmp z y \<Longrightarrow> cmp x z"
  using not_less_trans asym by metis

lemma not_less_less_trans: "\<not> cmp y x \<Longrightarrow> cmp y z \<Longrightarrow> cmp x z"
  using not_less_trans asym by metis

text \<open>Sorted ranges are partitioned for both searches.\<close>

lemma sorted_partitioned_lower:
  "sorted_wrt cmp (map f xs) \<Longrightarrow> partitioned (\<lambda>e. cmp (f e) k) xs"
  unfolding partitioned_def sorted_wrt_map
  by (erule sorted_wrt_mono_rel [rotated]) (auto intro: trans)

lemma sorted_partitioned_upper:
  "sorted_wrt cmp (map f xs) \<Longrightarrow> partitioned (\<lambda>e. \<not> cmp k (f e)) xs"
  unfolding partitioned_def sorted_wrt_map
  by (erule sorted_wrt_mono_rel [rotated]) (auto intro: trans)

text \<open>The stable sort yields a sorted permutation.\<close>

lemma mset_stable_insert: "mset (stable_insert cmp x ys) = add_mset x (mset ys)"
  by (induction ys) auto

lemma mset_stable_sort: "mset (stable_sort cmp xs) = mset xs"
  by (induction xs) (auto simp: mset_stable_insert)

lemma set_stable_insert: "set (stable_insert cmp x ys) = insert x (set ys)"
  by (induction ys) auto

lemma set_stable_sort [simp]: "set (stable_sort cmp xs) = set xs"
  by (induction xs) (auto simp: set_stable_insert)

lemma sorted_stable_insert:
  "sorted_wrt (\<lambda>a b. \<not> cmp b a) ys \<Longrightarrow> sorted_wrt (\<lambda>a b. \<not> cmp b a) (stable_insert cmp x ys)"
  by (induction ys) (auto simp: set_stable_insert dest: asym not_less_trans)

lemma sorted_stable_sort: "sorted_wrt (\<lambda>a b. \<not> cmp b a) (stable_sort cmp xs)"
  by (induction xs) (auto simp: sorted_stable_insert)

lemma stable_insert_filter_equiv:
  "sorted_wrt (\<lambda>a b. \<not> cmp b a) ys \<Longrightarrow>
   filter (equiv k) (stable_insert cmp x ys) =
     (if equiv k x then x # filter (equiv k) ys else filter (equiv k) ys)"
proof (induction ys)
  case (Cons y ys)
  have "cmp y x \<Longrightarrow> equiv k x \<Longrightarrow> \<not> equiv k y"
    using less_equiv_trans equiv_sym equiv_trans unfolding equiv_def by blast
  then show ?case using Cons by auto
qed simp

text \<open>Stability: each class of equivalent elements keeps its order.\<close>

lemma stable_sort_stable: "filter (equiv k) (stable_sort cmp xs) = filter (equiv k) xs"
  by (induction xs) (auto simp: stable_insert_filter_equiv sorted_stable_sort)

text \<open>After removing duplicates a sorted list is strictly sorted.\<close>

lemma unique_from_subset: "set (unique_from eq prev ys) \<subseteq> set ys"
  by (induction eq prev ys rule: unique_from.induct) auto

lemma unique_from_strict:
  "sorted_wrt (\<lambda>a b. \<not> cmp b a) (prev # ys) \<Longrightarrow> sorted_wrt cmp (prev # unique_from equiv prev ys)"
proof (induction ys arbitrary: prev)
  case (Cons y ys)
  show ?case
  proof (cases "equiv prev y")
    case True
    with Cons.IH [of prev] Cons.prems show ?thesis by simp
  next
    case False
    with Cons.prems have "cmp prev y" by (simp add: equiv_def)
    moreover have "sorted_wrt cmp (y # unique_from equiv y ys)"
      using Cons.IH [of y] Cons.prems by simp
    ultimately show ?thesis using False by (auto intro: trans)
  qed
qed simp

lemma unique_strict:
  "sorted_wrt (\<lambda>a b. \<not> cmp b a) xs \<Longrightarrow> sorted_wrt cmp (unique equiv xs)"
  by (cases xs) (auto simp del: sorted_wrt.simps(2) intro: unique_from_strict)

text \<open>What is kept of each class is its first element.\<close>

lemma unique_from_find:
  assumes "\<not> equiv k prev"
  shows "find (equiv k) (unique_from equiv prev ys) = find (equiv k) ys"
  using assms
proof (induction ys arbitrary: prev)
  case (Cons y ys)
  show ?case
  proof (cases "equiv prev y")
    case True
    then have "\<not> equiv k y" using Cons.prems equiv_trans equiv_sym by blast
    with True Cons show ?thesis by simp
  next
    case False
    with Cons show ?thesis by simp
  qed
qed simp

lemma unique_find: "find (equiv k) (unique equiv xs) = find (equiv k) xs"
  by (cases xs) (auto simp: unique_from_find)

lemma find_filter_hd: "find p xs = (case filter p xs of [] \<Rightarrow> None | x # _ \<Rightarrow> Some x)"
  by (induction xs) auto

lemma stable_sort_find: "find (equiv k) (stable_sort cmp xs) = find (equiv k) xs"
  by (simp add: find_filter_hd stable_sort_stable)

end

text \<open>What \<open>std::sort\<close> promises: some sorted permutation of its range.\<close>

locale std_sort = strict_weak cmp for cmp :: "'a \<Rightarrow> 'a \<Rightarrow> bool" +
  fixes srt :: "'a list \<Rightarrow> 'a list"
  assumes mset_srt: "mset (srt xs) = mset xs"
    and sorted_srt: "sorted_wrt (\<lambda>a b. \<not> cmp b a) (srt xs)"
begin

lemma set_srt [simp]: "set (srt xs) = set xs"
  by (metis mset_srt set_mset_mset)

end

text \<open>\<open>std::less\<close> on a totally ordered type, and a stable sort as one possible \<open>std::sort\<close>.\<close>

interpretation less_order: strict_weak "(<) :: 'a :: linorder \<Rightarrow> 'a \<Rightarrow> bool"
  by unfold_locales auto

lemma std_sort_stable_sort: "strict_weak cmp \<Longrightarrow> std_sort cmp (stable_sort cmp)"
  by (simp add: std_sort_def std_sort_axioms_def strict_weak.mset_stable_sort
      strict_weak.sorted_stable_sort)

interpretation less_sort: std_sort "(<) :: 'a :: linorder \<Rightarrow> 'a \<Rightarrow> bool" "stable_sort (<)"
  by (rule std_sort_stable_sort) unfold_locales

lemma less_order_equiv [simp]: "less_order.equiv = (=)"
  by (auto simp: fun_eq_iff less_order.equiv_def)

end
