(* ===== verification/Sorted_Vector.thy ===== *)
theory Sorted_Vector
  imports Std_Algorithms
begin

text \<open>
  What \<open>FlatSet\<close> and \<open>FlatMap\<close> share: searching, inserting into and erasing
  from a vector that is strictly sorted by a key \<open>f\<close> of its elements (\<open>f\<close> is
  \<open>fst\<close> for the map and the identity for the set). The lemmas are proved for
  an arbitrary strict weak ordering. The locales at the end are the interfaces
  the two containers provide: a table in which the first entry of a key wins,
  and a set of keys up to equivalence.
\<close>

context strict_weak
begin

definition found :: "('e \<Rightarrow> 'a) \<Rightarrow> 'e list \<Rightarrow> 'a \<Rightarrow> bool" where
  "found f xs k \<longleftrightarrow> (\<exists>e \<in> set xs. equiv k (f e))"

definition entry :: "('e \<Rightarrow> 'a) \<Rightarrow> 'e list \<Rightarrow> 'a \<Rightarrow> 'e option" where
  "entry f xs k = find (\<lambda>e. equiv k (f e)) xs"

lemma entry_None: "entry f xs k = None \<longleftrightarrow> \<not> found f xs k"
  by (auto simp: entry_def found_def find_None_iff)

lemma found_entry: "found f xs k \<longleftrightarrow> entry f xs k \<noteq> None"
  by (simp add: entry_None)

lemma found_Nil [simp]: "\<not> found f [] k"
  and entry_Nil [simp]: "entry f [] k = None"
  by (simp_all add: found_def entry_def)

lemma found_append [simp]: "found f (xs @ ys) k \<longleftrightarrow> found f xs k \<or> found f ys k"
  and found_Cons [simp]: "found f (x # xs) k \<longleftrightarrow> equiv k (f x) \<or> found f xs k"
  by (auto simp: found_def)

lemma entry_Cons [simp]: "entry f (x # xs) k = (if equiv k (f x) then Some x else entry f xs k)"
  by (simp add: entry_def)

lemma entry_append [simp]:
  "entry f (xs @ ys) k = (if found f xs k then entry f xs k else entry f ys k)"
  by (induction xs) auto

lemma found_equiv: "equiv x y \<Longrightarrow> found f xs x = found f xs y"
  unfolding found_def using equiv_trans equiv_sym by blast

lemma lower_bound_split:
  assumes "sorted_wrt cmp (map f xs)"
  obtains ls rs where "xs = ls @ rs" and "lower_bound (\<lambda>e. cmp (f e)) xs k = length ls"
    and "\<forall>e \<in> set ls. cmp (f e) k" and "\<forall>e \<in> set rs. \<not> cmp (f e) k"
proof
  let ?p = "\<lambda>e. cmp (f e) k"
  show "xs = takeWhile ?p xs @ dropWhile ?p xs" by simp
  show "lower_bound (\<lambda>e. cmp (f e)) xs k = length (takeWhile ?p xs)"
    unfolding lower_bound_def
    by (rule partition_loop_takeWhile, rule sorted_partitioned_lower, rule assms)
  show "\<forall>e \<in> set (takeWhile ?p xs). ?p e" by (auto dest: set_takeWhileD)
  show "\<forall>e \<in> set (dropWhile ?p xs). \<not> ?p e"
  proof (cases "dropWhile ?p xs")
    case (Cons r rs)
    then have "\<not> ?p r" by (metis hd_dropWhile list.distinct(1) list.sel(1))
    moreover have "sorted_wrt cmp (map f (r # rs))"
      using assms Cons by (metis drop_map dropWhile_eq_drop sorted_wrt_drop)
    ultimately show ?thesis using Cons by (auto dest: trans)
  next
    case Nil
    then show ?thesis by (metis empty_iff list.set(1))
  qed
qed

lemma upper_bound_split:
  assumes "sorted_wrt cmp (map f xs)"
  obtains ls rs where "xs = ls @ rs" and "upper_bound (\<lambda>k e. cmp k (f e)) xs k = length ls"
    and "\<forall>e \<in> set ls. \<not> cmp k (f e)" and "\<forall>e \<in> set rs. cmp k (f e)"
proof
  let ?p = "\<lambda>e. \<not> cmp k (f e)"
  show "xs = takeWhile ?p xs @ dropWhile ?p xs" by simp
  show "upper_bound (\<lambda>k e. cmp k (f e)) xs k = length (takeWhile ?p xs)"
    unfolding upper_bound_def
    by (rule partition_loop_takeWhile, rule sorted_partitioned_upper, rule assms)
  show "\<forall>e \<in> set (takeWhile ?p xs). ?p e" by (auto dest: set_takeWhileD)
  show "\<forall>e \<in> set (dropWhile ?p xs). cmp k (f e)"
  proof (cases "dropWhile ?p xs")
    case (Cons r rs)
    then have "cmp k (f r)" by (metis hd_dropWhile list.distinct(1) list.sel(1))
    moreover have "sorted_wrt cmp (map f (r # rs))"
      using assms Cons by (metis drop_map dropWhile_eq_drop sorted_wrt_drop)
    ultimately show ?thesis using Cons by (auto dest: trans)
  next
    case Nil
    then show ?thesis by (metis empty_iff list.set(1))
  qed
qed

text \<open>The test every lookup makes at the position the search returns.\<close>

lemma lower_bound_hit:
  assumes sorted: "sorted_wrt cmp (map f xs)"
    and pos: "pos = lower_bound (\<lambda>e. cmp (f e)) xs k"
  shows "pos < length xs \<and> \<not> cmp k (f (xs ! pos)) \<longleftrightarrow> found f xs k"
    and "found f xs k \<Longrightarrow> entry f xs k = Some (xs ! pos)"
proof -
  obtain ls rs where split: "xs = ls @ rs" "pos = length ls"
      "\<forall>e \<in> set ls. cmp (f e) k" "\<forall>e \<in> set rs. \<not> cmp (f e) k"
    using sorted pos by (auto elim: lower_bound_split [where k = k])
  have notin: "\<not> found f ls k"
    using split(3) by (auto simp: found_def equiv_def)
  have rest: "\<And>r rs'. rs = r # rs' \<Longrightarrow> cmp k (f r) \<Longrightarrow> \<not> found f rs k"
    using sorted split(1) by (fastforce simp: found_def equiv_def sorted_wrt_append intro: trans)
  show "pos < length xs \<and> \<not> cmp k (f (xs ! pos)) \<longleftrightarrow> found f xs k"
    using split notin rest by (cases rs) (auto simp: equiv_def)
  show "found f xs k \<Longrightarrow> entry f xs k = Some (xs ! pos)"
    using split notin rest by (cases rs) (auto simp: equiv_def)
qed

lemma lower_bound_insert:
  assumes sorted: "sorted_wrt cmp (map f xs)"
    and pos: "pos = lower_bound (\<lambda>e. cmp (f e)) xs (f x)" and new: "\<not> found f xs (f x)"
  shows "sorted_wrt cmp (map f (insert_at xs pos x))"
    and "entry f (insert_at xs pos x) k = (if equiv k (f x) then Some x else entry f xs k)"
    and "insert_at xs pos x ! pos = x"
proof -
  obtain ls rs where split: "xs = ls @ rs" "pos = length ls"
      "\<forall>e \<in> set ls. cmp (f e) (f x)" "\<forall>e \<in> set rs. \<not> cmp (f e) (f x)"
    using sorted pos by (auto elim: lower_bound_split [where k = "f x"])
  have gt: "\<forall>e \<in> set rs. cmp (f x) (f e)"
    using new split by (auto simp: found_def equiv_def)
  have ins: "insert_at xs pos x = ls @ x # rs"
    using split by (simp add: insert_at_def)
  show "insert_at xs pos x ! pos = x" using ins split by simp
  show "sorted_wrt cmp (map f (insert_at xs pos x))"
    using sorted split gt unfolding ins by (auto simp: sorted_wrt_append intro: trans)
  have "equiv k (f x) \<Longrightarrow> \<not> found f xs k"
    using new found_equiv by blast
  then show "entry f (insert_at xs pos x) k = (if equiv k (f x) then Some x else entry f xs k)"
    unfolding ins using split by auto
qed

lemma lower_bound_erase:
  assumes sorted: "sorted_wrt cmp (map f xs)"
    and pos: "pos = lower_bound (\<lambda>e. cmp (f e)) xs k" and hit: "found f xs k"
  shows "sorted_wrt cmp (map f (erase_at xs pos))"
    and "entry f (erase_at xs pos) x = (if equiv x k then None else entry f xs x)"
    and "length (erase_at xs pos) = length xs - 1"
proof -
  obtain ls rs where split: "xs = ls @ rs" "pos = length ls"
      "\<forall>e \<in> set ls. cmp (f e) k" "\<forall>e \<in> set rs. \<not> cmp (f e) k"
    using sorted pos by (auto elim: lower_bound_split [where k = k])
  obtain r rs' where rs: "rs = r # rs'" and r: "equiv k (f r)"
    using lower_bound_hit(1) [OF sorted pos] hit split
    by (cases rs) (auto simp: equiv_def)
  have gt: "\<forall>e \<in> set rs'. cmp k (f e)"
    using sorted split(1) rs r by (auto simp: sorted_wrt_append intro: equiv_less_trans)
  have er: "erase_at xs pos = ls @ rs'"
    using split rs by (simp add: erase_at_def)
  show "length (erase_at xs pos) = length xs - 1" using er split rs by simp
  show "sorted_wrt cmp (map f (erase_at xs pos))"
    using sorted split rs unfolding er by (auto simp: sorted_wrt_append)
  have "equiv x k \<Longrightarrow> \<not> found f (ls @ rs') x"
    using split(3) gt by (auto simp: found_def equiv_def dest: not_less_less_trans less_not_less_trans)
  moreover have "\<not> equiv x k \<Longrightarrow> \<not> equiv x (f r)"
    using r equiv_trans equiv_sym by blast
  ultimately show "entry f (erase_at xs pos) x = (if equiv x k then None else entry f xs x)"
    unfolding er using split(1) rs by (auto simp: entry_None)
qed

text \<open>A strictly sorted vector is determined by what can be found in it.\<close>

lemma entry_member:
  "sorted_wrt cmp (map f xs) \<Longrightarrow> entry f xs (f e) = Some e \<longleftrightarrow> e \<in> set xs"
proof (induction xs)
  case (Cons x xs)
  have "e \<in> set xs \<Longrightarrow> \<not> equiv (f e) (f x)"
    using Cons.prems by (auto simp: equiv_def)
  with Cons show ?case by (auto simp: entry_def)
qed simp

lemma sorted_strict_unique:
  assumes "sorted_wrt cmp (map f xs)" and "sorted_wrt cmp (map f ys)" and "set xs = set ys"
  shows "xs = ys"
  using assms
proof (induction xs arbitrary: ys)
  case (Cons x xs)
  then obtain y ys' where ys: "ys = y # ys'" by (cases ys) auto
  have "x = y"
  proof (rule ccontr)
    assume "x \<noteq> y"
    then have "x \<in> set ys'" and "y \<in> set xs" using Cons.prems(3) ys by auto
    then have "cmp (f y) (f x)" and "cmp (f x) (f y)" using Cons.prems(1,2) ys by auto
    then show False using asym by blast
  qed
  moreover have "x \<notin> set xs" and "y \<notin> set ys'"
    using Cons.prems(1,2) ys irrefl by (auto simp: sorted_wrt_map)
  ultimately have "set xs = set ys'" using Cons.prems(3) ys by auto
  with Cons ys \<open>x = y\<close> show ?case by simp
qed simp

lemma entry_ext:
  assumes "sorted_wrt cmp (map f xs)" and "sorted_wrt cmp (map f ys)"
    and "\<And>k. entry f xs k = entry f ys k"
  shows "xs = ys"
  using assms entry_member [OF assms(1)] entry_member [OF assms(2)]
  by (intro sorted_strict_unique) auto

text \<open>Sorting stably and removing duplicates, for elements compared by their key.\<close>

lemma strict_weak_key: "strict_weak (\<lambda>a b. cmp (f a) (f b))"
  using irrefl trans incomp_trans by unfold_locales blast+

lemma key_equiv: "strict_weak.equiv (\<lambda>a b. cmp (f a) (f b)) = (\<lambda>a b. equiv (f a) (f b))"
  by (auto simp: fun_eq_iff strict_weak.equiv_def [OF strict_weak_key] equiv_def)

lemma unique_find_key:
  "find (\<lambda>e. equiv k (f e)) (unique (\<lambda>a b. equiv (f a) (f b)) xs) = find (\<lambda>e. equiv k (f e)) xs"
proof (cases "\<exists>d. equiv k (f d)")
  case True
  then obtain d where "equiv k (f d)" by blast
  then have "(\<lambda>e. equiv k (f e)) = (\<lambda>e. equiv (f d) (f e))"
    using equiv_trans equiv_sym by blast
  then show ?thesis
    using strict_weak.unique_find [OF strict_weak_key [of f], of d xs] by (simp add: key_equiv [of f])
next
  case False
  then show ?thesis by (metis find_None_iff)
qed

lemma stable_sort_find_key:
  "find (\<lambda>e. equiv k (f e)) (stable_sort (\<lambda>a b. cmp (f a) (f b)) xs) = find (\<lambda>e. equiv k (f e)) xs"
proof (cases "\<exists>d. equiv k (f d)")
  case True
  then obtain d where "equiv k (f d)" by blast
  then have "(\<lambda>e. equiv k (f e)) = (\<lambda>e. equiv (f d) (f e))"
    using equiv_trans equiv_sym by blast
  then show ?thesis
    using strict_weak.stable_sort_find [OF strict_weak_key [of f], of d xs] by (simp add: key_equiv [of f])
next
  case False
  then show ?thesis by (metis find_None_iff)
qed

lemma unique_strict_key:
  "sorted_wrt (\<lambda>a b. \<not> cmp (f b) (f a)) xs \<Longrightarrow>
   sorted_wrt cmp (map f (unique (\<lambda>a b. equiv (f a) (f b)) xs))"
  using strict_weak.unique_strict [OF strict_weak_key [of f], of xs]
  by (simp add: key_equiv [of f] sorted_wrt_map)

end

section \<open>The interfaces of the flat containers\<close>

text \<open>
  A table up to an equivalence of keys, in which an insertion never replaces
  an entry. From its laws follows what a table built from a sequence of
  insertions holds: of several entries with equivalent keys, the first.
\<close>

locale first_wins_table =
  fixes empty :: 'm
    and insert :: "'m \<Rightarrow> 'k \<times> 'v \<Rightarrow> 'm"
    and erase :: "'m \<Rightarrow> 'k \<Rightarrow> 'm"
    and lookup :: "'m \<Rightarrow> 'k \<Rightarrow> 'v option"
    and invar :: "'m \<Rightarrow> bool"
    and eqv :: "'k \<Rightarrow> 'k \<Rightarrow> bool"
  assumes eqv_refl: "eqv k k"
    and eqv_sym: "eqv k l \<Longrightarrow> eqv l k"
    and eqv_trans: "eqv k l \<Longrightarrow> eqv l j \<Longrightarrow> eqv k j"
    and invar_empty: "invar empty"
    and lookup_empty: "lookup empty k = None"
    and invar_insert: "invar m \<Longrightarrow> invar (insert m kv)"
    and lookup_insert: "invar m \<Longrightarrow> lookup (insert m (l, v)) k =
      (if eqv k l \<and> lookup m l = None then Some v else lookup m k)"
    and invar_erase: "invar m \<Longrightarrow> invar (erase m l)"
    and lookup_erase: "invar m \<Longrightarrow> lookup (erase m l) k = (if eqv k l then None else lookup m k)"
    and lookup_eqv: "invar m \<Longrightarrow> eqv k l \<Longrightarrow> lookup m k = lookup m l"
begin

lemma invar_inserts: "invar m \<Longrightarrow> invar (foldl insert m kvs)"
  by (induction kvs arbitrary: m) (auto intro: invar_insert)

lemma lookup_inserts:
  "invar m \<Longrightarrow> lookup (foldl insert m kvs) k =
    (case lookup m k of Some v \<Rightarrow> Some v | None \<Rightarrow> map_option snd (find (\<lambda>e. eqv k (fst e)) kvs))"
proof (induction kvs arbitrary: m)
  case Nil
  then show ?case by (simp split: option.splits)
next
  case (Cons kv kvs)
  obtain l v where kv: "kv = (l, v)" by (cases kv)
  have "eqv k l \<Longrightarrow> lookup m k = lookup m l" using Cons.prems by (rule lookup_eqv)
  with Cons.IH [OF invar_insert [OF Cons.prems], of kv] Cons.prems kv show ?case
    by (auto simp: lookup_insert split: option.splits)
qed

lemma lookup_of_inserts:
  "lookup (foldl insert empty kvs) k = map_option snd (find (\<lambda>e. eqv k (fst e)) kvs)"
  using lookup_inserts [OF invar_empty] by (simp add: lookup_empty)

lemma erase_then_insert:
  "invar m \<Longrightarrow> lookup (insert (erase m l) (l, v)) k = (if eqv k l then Some v else lookup m k)"
  by (simp add: lookup_insert invar_erase lookup_erase eqv_refl)

end

text \<open>A set of elements up to an equivalence.\<close>

locale element_set =
  fixes empty :: 's
    and insert :: "'s \<Rightarrow> 'a \<Rightarrow> 's"
    and erase :: "'s \<Rightarrow> 'a \<Rightarrow> 's"
    and contains :: "'s \<Rightarrow> 'a \<Rightarrow> bool"
    and invar :: "'s \<Rightarrow> bool"
    and eqv :: "'a \<Rightarrow> 'a \<Rightarrow> bool"
  assumes invar_empty: "invar empty"
    and contains_empty: "\<not> contains empty x"
    and invar_insert: "invar s \<Longrightarrow> invar (insert s x)"
    and contains_insert: "invar s \<Longrightarrow> contains (insert s x) y \<longleftrightarrow> eqv y x \<or> contains s y"
    and invar_erase: "invar s \<Longrightarrow> invar (erase s x)"
    and contains_erase: "invar s \<Longrightarrow> contains (erase s x) y \<longleftrightarrow> \<not> eqv y x \<and> contains s y"
begin

lemma invar_inserts: "invar s \<Longrightarrow> invar (foldl insert s xs)"
  by (induction xs arbitrary: s) (auto intro: invar_insert)

lemma contains_inserts:
  "invar s \<Longrightarrow> contains (foldl insert s xs) y \<longleftrightarrow> contains s y \<or> (\<exists>x \<in> set xs. eqv y x)"
  by (induction xs arbitrary: s) (auto simp: contains_insert invar_insert)

lemma contains_erases:
  "invar s \<Longrightarrow> contains (foldl erase s xs) y \<longleftrightarrow> contains s y \<and> (\<forall>x \<in> set xs. \<not> eqv y x)"
  by (induction xs arbitrary: s) (auto simp: contains_erase invar_erase)

end

end
