(* ===== verification/Flat_Map.thy ===== *)
theory Flat_Map
  imports Sorted_Vector
begin

text \<open>
  \<open>FlatMap<Key, Value, Compare>\<close> (flat\_map.hpp): a map kept as one vector of
  pairs, sorted by key. An iterator or a reference to an entry is the index of
  the entry; \<open>end()\<close> is the number of entries. A \<open>Value &\<close> returned by \<open>at\<close>
  or \<open>operator[]\<close> is such an index, read with \<open>fm_get\<close> and written with
  \<open>fm_put\<close>. The comparison is a field of the map, as in the source; its type
  parameter documentation asks for a strict weak ordering, which is the
  hypothesis \<open>strict_weak\<close> of the properties.
\<close>

section \<open>The container\<close>

record ('k, 'v) flat_map =
  fm_data :: "('k \<times> 'v) list"
  fm_comp :: "'k \<Rightarrow> 'k \<Rightarrow> bool"

definition fm_empty_map :: "('k \<Rightarrow> 'k \<Rightarrow> bool) \<Rightarrow> ('k, 'v) flat_map" where
  "fm_empty_map comp_arg = \<lparr>fm_data = [], fm_comp = comp_arg\<rparr>"

definition fm_size :: "('k, 'v) flat_map \<Rightarrow> nat" where
  "fm_size m = length (fm_data m)"

definition fm_empty :: "('k, 'v) flat_map \<Rightarrow> bool" where
  "fm_empty m \<longleftrightarrow> fm_data m = []"

definition fm_clear :: "('k, 'v) flat_map \<Rightarrow> ('k, 'v) flat_map" where
  "fm_clear m = m\<lparr>fm_data := []\<rparr>"

definition element_less :: "('k, 'v) flat_map \<Rightarrow> 'k \<times> 'v \<Rightarrow> 'k \<Rightarrow> bool" where
  "element_less m e k = fm_comp m (fst e) k"

definition key_less :: "('k, 'v) flat_map \<Rightarrow> 'k \<Rightarrow> 'k \<times> 'v \<Rightarrow> bool" where
  "key_less m k e = fm_comp m k (fst e)"

definition fm_lower_bound :: "('k, 'v) flat_map \<Rightarrow> 'k \<Rightarrow> nat" where
  "fm_lower_bound m k = lower_bound (element_less m) (fm_data m) k"

definition fm_upper_bound :: "('k, 'v) flat_map \<Rightarrow> 'k \<Rightarrow> nat" where
  "fm_upper_bound m k = upper_bound (key_less m) (fm_data m) k"

definition fm_find :: "('k, 'v) flat_map \<Rightarrow> 'k \<Rightarrow> nat" where
  "fm_find m k =
     (let pos = fm_lower_bound m k in
      if pos \<noteq> length (fm_data m) \<and> \<not> fm_comp m k (fst (fm_data m ! pos)) then pos
      else length (fm_data m))"

definition fm_contains :: "('k, 'v) flat_map \<Rightarrow> 'k \<Rightarrow> bool" where
  "fm_contains m k \<longleftrightarrow> fm_find m k \<noteq> length (fm_data m)"

definition fm_count :: "('k, 'v) flat_map \<Rightarrow> 'k \<Rightarrow> nat" where
  "fm_count m k = (if fm_contains m k then 1 else 0)"

definition locate :: "('k, 'v) flat_map \<Rightarrow> 'k \<Rightarrow> nat" where
  "locate m k =
     (let pos = lower_bound (element_less m) (fm_data m) k in
      if pos \<noteq> length (fm_data m) \<and> \<not> fm_comp m k (fst (fm_data m ! pos)) then pos
      else length (fm_data m))"

definition fm_at :: "('k, 'v) flat_map \<Rightarrow> 'k \<Rightarrow> nat cpp" where
  "fm_at m k =
     (let pos = locate m k in
      if pos = length (fm_data m) then Inl (Out_of_range ''FlatMap::at: key not found'')
      else Inr pos)"

text \<open>Reading and writing through the reference of \<open>at\<close> or \<open>operator[]\<close>.\<close>

definition fm_get :: "('k, 'v) flat_map \<Rightarrow> nat \<Rightarrow> 'v" where
  "fm_get m pos = snd (fm_data m ! pos)"

definition fm_put :: "('k, 'v) flat_map \<Rightarrow> nat \<Rightarrow> 'v \<Rightarrow> ('k, 'v) flat_map" where
  "fm_put m pos v = m\<lparr>fm_data := (fm_data m)[pos := (fst (fm_data m ! pos), v)]\<rparr>"

text \<open>\<open>operator[]\<close>; \<open>dflt\<close> is the value-initialised \<open>Value{}\<close>.\<close>

definition fm_subscript :: "'v \<Rightarrow> ('k, 'v) flat_map \<Rightarrow> 'k \<Rightarrow> ('k, 'v) flat_map \<times> nat" where
  "fm_subscript dflt m k =
     (let pos = lower_bound (element_less m) (fm_data m) k in
      if pos = length (fm_data m) \<or> fm_comp m k (fst (fm_data m ! pos))
      then (m\<lparr>fm_data := insert_at (fm_data m) pos (k, dflt)\<rparr>, pos)
      else (m, pos))"

definition fm_insert_impl ::
  "('k, 'v) flat_map \<Rightarrow> 'k \<times> 'v \<Rightarrow> ('k, 'v) flat_map \<times> nat \<times> bool" where
  "fm_insert_impl m kv =
     (let pos = lower_bound (element_less m) (fm_data m) (fst kv) in
      if pos \<noteq> length (fm_data m) \<and> \<not> fm_comp m (fst kv) (fst (fm_data m ! pos))
      then (m, pos, False)
      else (m\<lparr>fm_data := insert_at (fm_data m) pos kv\<rparr>, pos, True))"

definition fm_insert :: "('k, 'v) flat_map \<Rightarrow> 'k \<times> 'v \<Rightarrow> ('k, 'v) flat_map \<times> nat \<times> bool" where
  "fm_insert m kv = fm_insert_impl m kv"

definition fm_erase :: "('k, 'v) flat_map \<Rightarrow> 'k \<Rightarrow> ('k, 'v) flat_map \<times> nat" where
  "fm_erase m k =
     (let pos = locate m k in
      if pos = length (fm_data m) then (m, 0)
      else (m\<lparr>fm_data := erase_at (fm_data m) pos\<rparr>, 1))"

text \<open>Erasing at an iterator, which must be dereferenceable.\<close>

definition fm_erase_pos :: "('k, 'v) flat_map \<Rightarrow> nat \<Rightarrow> (('k, 'v) flat_map \<times> nat) cpp" where
  "fm_erase_pos m pos =
     (if pos < length (fm_data m) then Inr (m\<lparr>fm_data := erase_at (fm_data m) pos\<rparr>, pos)
      else Inl Undefined_behaviour)"

text \<open>
  \<open>build_from\<close>: sorted insertion during constant evaluation, otherwise a
  stable sort by key followed by the removal of later entries of the same key.
\<close>

definition build_from :: "bool \<Rightarrow> ('k, 'v) flat_map \<Rightarrow> ('k \<times> 'v) list \<Rightarrow> ('k, 'v) flat_map" where
  "build_from constant_evaluated m init =
     (if constant_evaluated then foldl (\<lambda>m kv. fst (fm_insert m kv)) m init
      else
        let sorted = stable_sort (\<lambda>lhs rhs. fm_comp m (fst lhs) (fst rhs)) init;
            same_key = (\<lambda>lhs rhs. \<not> fm_comp m (fst lhs) (fst rhs) \<and> \<not> fm_comp m (fst rhs) (fst lhs))
        in m\<lparr>fm_data := unique same_key sorted\<rparr>)"

definition fm_from_list ::
  "bool \<Rightarrow> ('k \<times> 'v) list \<Rightarrow> ('k \<Rightarrow> 'k \<Rightarrow> bool) \<Rightarrow> ('k, 'v) flat_map" where
  "fm_from_list constant_evaluated init comp_arg =
     build_from constant_evaluated (fm_empty_map comp_arg) init"

section \<open>The invariant and the abstract map\<close>

definition fm_inv :: "('k \<Rightarrow> 'k \<Rightarrow> bool) \<Rightarrow> ('k, 'v) flat_map \<Rightarrow> bool" where
  "fm_inv cmp m \<longleftrightarrow> fm_comp m = cmp \<and> sorted_wrt cmp (map fst (fm_data m))"

text \<open>The map a client sees through \<open>at\<close>: the value of the entry that \<open>at\<close> refers to.\<close>

definition fm_lookup :: "('k, 'v) flat_map \<Rightarrow> 'k \<Rightarrow> 'v option" where
  "fm_lookup m k = (case fm_at m k of Inl _ \<Rightarrow> None | Inr pos \<Rightarrow> Some (fm_get m pos))"

lemmas fm_search_defs = fm_find_def fm_lower_bound_def fm_at_def locate_def fm_insert_def
  fm_insert_impl_def fm_erase_def fm_subscript_def

lemma fm_inv_empty: "fm_inv cmp (fm_empty_map cmp)"
  by (simp add: fm_inv_def fm_empty_map_def)

lemma fm_inv_clear: "fm_inv cmp m \<Longrightarrow> fm_inv cmp (fm_clear m)"
  by (simp add: fm_inv_def fm_clear_def)

lemma map_fst_update: "map fst (xs[i := (fst (xs ! i), v)]) = map fst xs"
  by (metis fst_conv list_update_id map_update nth_map list_update_beyond not_less)

lemma fm_inv_put: "fm_inv cmp m \<Longrightarrow> fm_inv cmp (fm_put m pos v)"
  by (simp add: fm_inv_def fm_put_def map_fst_update)

lemma fm_inv_erase_pos: "fm_inv cmp m \<Longrightarrow> fm_erase_pos m pos = Inr (m', i) \<Longrightarrow> fm_inv cmp m'"
  by (auto simp: fm_inv_def fm_erase_pos_def map_erase_at sorted_wrt_erase_at split: if_splits)

context strict_weak
begin

lemma fm_lower_bound_eq:
  "fm_inv cmp m \<Longrightarrow> lower_bound (element_less m) (fm_data m) k = lower_bound (\<lambda>e. cmp (fst e)) (fm_data m) k"
  by (simp add: fm_inv_def element_less_def [abs_def])

lemma fm_locate:
  assumes "fm_inv cmp m"
  shows "locate m k = (if found fst (fm_data m) k then lower_bound (\<lambda>e. cmp (fst e)) (fm_data m) k
      else length (fm_data m))"
    and "fm_find m k = locate m k"
    and "locate m k < length (fm_data m) \<longleftrightarrow> found fst (fm_data m) k"
proof -
  have "sorted_wrt cmp (map fst (fm_data m))" and comp: "fm_comp m = cmp"
    using assms by (auto simp: fm_inv_def)
  note hit = lower_bound_hit(1) [OF this(1) refl, of k]
  show eq: "locate m k = (if found fst (fm_data m) k then lower_bound (\<lambda>e. cmp (fst e)) (fm_data m) k
      else length (fm_data m))"
    using hit comp lower_bound_le [of "\<lambda>e. cmp (fst e)" "fm_data m" k]
    by (auto simp: locate_def fm_lower_bound_eq [OF assms] Let_def)
  show "fm_find m k = locate m k" by (simp add: fm_find_def locate_def fm_lower_bound_def)
  show "locate m k < length (fm_data m) \<longleftrightarrow> found fst (fm_data m) k"
    using eq hit by auto
qed

lemma fm_lookup_entry:
  assumes "fm_inv cmp m"
  shows "fm_lookup m k = map_option snd (entry fst (fm_data m) k)"
proof -
  have "sorted_wrt cmp (map fst (fm_data m))"
    using assms by (simp add: fm_inv_def)
  note hit = lower_bound_hit [OF this refl, of k]
  show ?thesis
  proof (cases "found fst (fm_data m) k")
    case True
    with hit fm_locate [OF assms, of k] show ?thesis
      by (auto simp: fm_lookup_def fm_at_def fm_get_def Let_def)
  next
    case False
    then show ?thesis
      using entry_None [of fst "fm_data m" k]
      by (simp add: fm_lookup_def fm_at_def fm_locate(1) [OF assms])
  qed
qed

lemma fm_contains_found: "fm_inv cmp m \<Longrightarrow> fm_contains m k \<longleftrightarrow> found fst (fm_data m) k"
  using fm_locate(2,3) [of m k] fm_locate(1) [of m k] by (auto simp: fm_contains_def)

lemma fm_contains_lookup: "fm_inv cmp m \<Longrightarrow> fm_contains m k \<longleftrightarrow> fm_lookup m k \<noteq> None"
  by (simp add: fm_contains_found fm_lookup_entry entry_None)

lemma fm_insert_hit:
  assumes "fm_inv cmp m" and "found fst (fm_data m) (fst kv)"
  shows "fm_insert m kv = (m, locate m (fst kv), False)"
  using assms lower_bound_hit(1) [of fst "fm_data m" _ "fst kv"] fm_locate(1) [OF assms(1), of "fst kv"]
  by (auto simp: fm_insert_def fm_insert_impl_def fm_lower_bound_eq [OF assms(1)] fm_inv_def Let_def)

lemma fm_insert_miss:
  assumes "fm_inv cmp m" and "\<not> found fst (fm_data m) (fst kv)"
  shows "fm_insert m kv =
    (m\<lparr>fm_data := insert_at (fm_data m) (lower_bound (\<lambda>e. cmp (fst e)) (fm_data m) (fst kv)) kv\<rparr>,
     lower_bound (\<lambda>e. cmp (fst e)) (fm_data m) (fst kv), True)"
proof -
  have "sorted_wrt cmp (map fst (fm_data m))" and "fm_comp m = cmp"
    using assms(1) by (auto simp: fm_inv_def)
  then show ?thesis
    using assms(2) lower_bound_hit(1) [of fst "fm_data m" _ "fst kv"]
      lower_bound_le [of "\<lambda>e. cmp (fst e)" "fm_data m" "fst kv"]
    by (auto simp: fm_insert_def fm_insert_impl_def fm_lower_bound_eq [OF assms(1)] Let_def)
qed

lemma fm_inv_insert: "fm_inv cmp m \<Longrightarrow> fm_inv cmp (fst (fm_insert m kv))"
  using lower_bound_insert(1) [of fst "fm_data m" _ kv]
  by (cases "found fst (fm_data m) (fst kv)") (auto simp: fm_insert_hit fm_insert_miss fm_inv_def)

lemma fm_data_insert:
  assumes "fm_inv cmp m"
  shows "entry fst (fm_data (fst (fm_insert m kv))) k =
    (if equiv k (fst kv) \<and> \<not> found fst (fm_data m) (fst kv) then Some kv else entry fst (fm_data m) k)"
proof (cases "found fst (fm_data m) (fst kv)")
  case False
  have "sorted_wrt cmp (map fst (fm_data m))" using assms by (simp add: fm_inv_def)
  with False assms lower_bound_insert(2) [of fst "fm_data m" _ kv k] show ?thesis
    by (simp add: fm_insert_miss)
qed (simp add: assms fm_insert_hit)

lemma fm_lookup_insert:
  "fm_inv cmp m \<Longrightarrow> fm_lookup (fst (fm_insert m (l, v))) k =
    (if equiv k l \<and> fm_lookup m l = None then Some v else fm_lookup m k)"
  by (auto simp: fm_lookup_entry fm_inv_insert fm_data_insert entry_None)

lemma fm_insert_result:
  assumes "fm_inv cmp m" and "fm_insert m (l, v) = (m', pos, inserted)"
  shows "inserted \<longleftrightarrow> \<not> fm_contains m l" and "pos < fm_size m'"
    and "equiv l (fst (fm_data m' ! pos))"
    and "fm_size m' = fm_size m + (if inserted then 1 else 0)"
proof -
  have sorted: "sorted_wrt cmp (map fst (fm_data m))" using assms(1) by (simp add: fm_inv_def)
  note lb = lower_bound_le [of "\<lambda>e. cmp (fst e)" "fm_data m" l]
  have "(inserted \<longleftrightarrow> \<not> fm_contains m l) \<and> pos < fm_size m' \<and> equiv l (fst (fm_data m' ! pos)) \<and>
    fm_size m' = fm_size m + (if inserted then 1 else 0)"
  proof (cases "found fst (fm_data m) l")
    case True
    have "entry fst (fm_data m) l = Some (fm_data m ! locate m l)"
      using lower_bound_hit(2) [OF sorted refl True] True fm_locate(1) [OF assms(1), of l] by simp
    then have "equiv l (fst (fm_data m ! locate m l))"
      by (auto simp: entry_def find_Some_iff)
    with True fm_locate(3) [OF assms(1), of l] fm_insert_hit [OF assms(1), of "(l, v)"] assms
    show ?thesis by (auto simp: fm_contains_found fm_size_def)
  next
    case False
    then show ?thesis
      using assms fm_insert_miss [OF assms(1), of "(l, v)"] lb
        lower_bound_insert(3) [OF sorted, of _ "(l, v)"]
      by (auto simp: fm_contains_found fm_size_def insert_at_def)
  qed
  then show "inserted \<longleftrightarrow> \<not> fm_contains m l" and "pos < fm_size m'"
    and "equiv l (fst (fm_data m' ! pos))"
    and "fm_size m' = fm_size m + (if inserted then 1 else 0)" by auto
qed

lemma fm_erase_hit:
  "fm_inv cmp m \<Longrightarrow> found fst (fm_data m) k \<Longrightarrow> fm_erase m k =
    (m\<lparr>fm_data := erase_at (fm_data m) (lower_bound (\<lambda>e. cmp (fst e)) (fm_data m) k)\<rparr>, 1)"
  using fm_locate [of m k] by (auto simp: fm_erase_def Let_def)

lemma fm_erase_miss: "fm_inv cmp m \<Longrightarrow> \<not> found fst (fm_data m) k \<Longrightarrow> fm_erase m k = (m, 0)"
  using fm_locate [of m k] by (auto simp: fm_erase_def Let_def)

lemma fm_inv_erase: "fm_inv cmp m \<Longrightarrow> fm_inv cmp (fst (fm_erase m k))"
  using lower_bound_erase(1) [of fst "fm_data m" _ k]
  by (cases "found fst (fm_data m) k") (auto simp: fm_erase_hit fm_erase_miss fm_inv_def)

lemma fm_lookup_erase:
  assumes "fm_inv cmp m"
  shows "fm_lookup (fst (fm_erase m l)) k = (if equiv k l then None else fm_lookup m k)"
proof (cases "found fst (fm_data m) l")
  case True
  have "sorted_wrt cmp (map fst (fm_data m))" using assms by (simp add: fm_inv_def)
  with True assms lower_bound_erase(2) [of fst "fm_data m" _ l k] fm_inv_erase [OF assms, of l]
  show ?thesis by (simp add: fm_lookup_entry fm_erase_hit)
next
  case False
  then have "equiv k l \<Longrightarrow> entry fst (fm_data m) k = None"
    by (simp add: entry_None found_equiv)
  with False assms show ?thesis by (simp add: fm_erase_miss fm_lookup_entry)
qed

lemma fm_lookup_equiv: "fm_inv cmp m \<Longrightarrow> equiv k l \<Longrightarrow> fm_lookup m k = fm_lookup m l"
proof -
  assume "fm_inv cmp m" and eq: "equiv k l"
  have "(\<lambda>e :: 'a \<times> 'b. equiv k (fst e)) = (\<lambda>e. equiv l (fst e))"
    using eq equiv_trans equiv_sym by blast
  then show ?thesis using \<open>fm_inv cmp m\<close> by (simp add: fm_lookup_entry entry_def)
qed

lemma fm_entry_pos:
  assumes "fm_inv cmp m" and "entry fst (fm_data m) k = Some e"
  shows "fm_data m ! locate m k = e" and "locate m k < length (fm_data m)"
proof -
  have sorted: "sorted_wrt cmp (map fst (fm_data m))" using assms(1) by (simp add: fm_inv_def)
  have hit: "found fst (fm_data m) k" using assms(2) entry_None [of fst "fm_data m" k] by auto
  show "locate m k < length (fm_data m)" using hit fm_locate(3) [OF assms(1)] by simp
  show "fm_data m ! locate m k = e"
    using lower_bound_hit(2) [OF sorted refl hit] hit assms fm_locate(1) [OF assms(1), of k] by simp
qed

lemma entry_update:
  assumes "sorted_wrt cmp (map fst xs)" and "pos < length xs" and "equiv k (fst (xs ! pos))"
  shows "entry fst (xs[pos := (fst (xs ! pos), v)]) x =
    (if equiv x k then Some (fst (xs ! pos), v) else entry fst xs x)"
proof -
  define ls r rs where "ls = take pos xs" and "r = xs ! pos" and "rs = drop (Suc pos) xs"
  have xs: "xs = ls @ r # rs" and upd: "xs[pos := (fst r, v)] = ls @ (fst r, v) # rs"
    using assms(2) by (simp_all add: ls_def r_def rs_def id_take_nth_drop upd_conv_take_nth_drop)
  have "\<not> found fst ls y" if "equiv y (fst r)" for y
  proof
    assume "found fst ls y"
    then obtain e where e: "e \<in> set ls" "equiv y (fst e)" by (auto simp: found_def)
    then have "cmp (fst e) (fst r)" using assms(1) unfolding xs by (auto simp: sorted_wrt_append)
    then have "cmp y (fst r)" using e(2) equiv_less_trans by blast
    then show False using that by (simp add: equiv_def)
  qed
  moreover have "equiv x k \<longleftrightarrow> equiv x (fst r)"
    using assms(3) equiv_trans equiv_sym unfolding r_def by blast
  ultimately show ?thesis
    unfolding r_def [symmetric] upd by (simp add: xs)
qed

lemma fm_lookup_put:
  assumes "fm_inv cmp m" and "pos < fm_size m" and "equiv k (fst (fm_data m ! pos))"
  shows "fm_lookup (fm_put m pos v) x = (if equiv x k then Some v else fm_lookup m x)"
proof -
  have "sorted_wrt cmp (map fst (fm_data m))" using assms(1) by (simp add: fm_inv_def)
  from entry_update [OF this _ assms(3), of v x] assms(2) show ?thesis
    by (simp add: fm_lookup_entry [OF assms(1)] fm_lookup_entry [OF fm_inv_put [OF assms(1)]])
      (simp add: fm_put_def fm_size_def)
qed

lemma fm_find_pos:
  assumes "fm_inv cmp m" and "pos < fm_size m" and "equiv k (fst (fm_data m ! pos))"
  shows "fm_find m k = pos"
proof -
  have sorted: "sorted_wrt cmp (map fst (fm_data m))" using assms(1) by (simp add: fm_inv_def)
  have "entry fst (fm_data m) k = Some (fm_data m ! pos)"
    using entry_update [OF sorted, of pos k "snd (fm_data m ! pos)" k] assms by (simp add: fm_size_def)
  note at = fm_entry_pos [OF assms(1) this]
  have "locate m k = pos"
  proof (rule ccontr)
    assume ne: "locate m k \<noteq> pos"
    have "cmp (fst (fm_data m ! i)) (fst (fm_data m ! j))" if "i < j" "j < fm_size m" for i j
      using sorted that sorted_wrt_nth_less [of cmp "map fst (fm_data m)" i j] by (simp add: fm_size_def)
    then show False
      using ne at assms(2) irrefl by (metis fm_size_def nat_neq_iff)
  qed
  then show ?thesis by (simp add: fm_locate(2) [OF assms(1)])
qed

text \<open>\<open>operator[]\<close> inserts the default value when the key is absent, and refers to the key's entry.\<close>

lemma fm_subscript_insert:
  "fm_subscript dflt m k = (fst (fm_insert m (k, dflt)), fst (snd (fm_insert m (k, dflt))))"
  by (auto simp: fm_subscript_def fm_insert_def fm_insert_impl_def Let_def)

lemma fm_subscript_put:
  assumes "fm_inv cmp m" and "fm_subscript dflt m k = (m', pos)"
  shows "fm_inv cmp m'" and "fm_get m' pos = (case fm_lookup m k of None \<Rightarrow> dflt | Some v \<Rightarrow> v)"
    and "fm_lookup (fm_put m' pos v) x = (if equiv x k then Some v else fm_lookup m x)"
proof -
  obtain b where ins: "fm_insert m (k, dflt) = (m', pos, b)"
    using assms(2) unfolding fm_subscript_insert by (cases "fm_insert m (k, dflt)") auto
  note res = fm_insert_result [OF assms(1) ins]
  have inv: "fm_inv cmp m'" using fm_inv_insert [OF assms(1), of "(k, dflt)"] ins by simp
  have look: "fm_lookup m' y = (if equiv y k \<and> fm_lookup m k = None then Some dflt else fm_lookup m y)" for y
    using fm_lookup_insert [OF assms(1), of k dflt y] ins by simp
  show "fm_inv cmp m'" by (rule inv)
  have "sorted_wrt cmp (map fst (fm_data m'))" using inv by (simp add: fm_inv_def)
  from entry_update [OF this _ res(3), of "fm_get m' pos" k] res(2)
  have "entry fst (fm_data m') k = Some (fst (fm_data m' ! pos), fm_get m' pos)"
    by (simp add: fm_size_def fm_get_def)
  then have "fm_lookup m' k = Some (fm_get m' pos)" by (simp add: fm_lookup_entry [OF inv])
  with look [of k] show "fm_get m' pos = (case fm_lookup m k of None \<Rightarrow> dflt | Some v \<Rightarrow> v)"
    by (auto split: option.splits if_splits)
  show "fm_lookup (fm_put m' pos v) x = (if equiv x k then Some v else fm_lookup m x)"
    using fm_lookup_put [OF inv res(2,3), of v x] look [of x] by auto
qed

text \<open>Both construction strategies give the same vector.\<close>

lemma fm_data_inserts:
  "fm_inv cmp m \<Longrightarrow> entry fst (fm_data (foldl (\<lambda>m kv. fst (fm_insert m kv)) m kvs)) k =
    (case entry fst (fm_data m) k of Some e \<Rightarrow> Some e | None \<Rightarrow> entry fst kvs k)"
proof (induction kvs arbitrary: m)
  case (Cons kv kvs)
  have "equiv k (fst kv) \<Longrightarrow> found fst (fm_data m) k \<longleftrightarrow> found fst (fm_data m) (fst kv)"
    by (rule found_equiv)
  with Cons.IH [OF fm_inv_insert [OF Cons.prems], of kv] Cons.prems show ?case
    by (auto simp: fm_data_insert found_entry split: option.splits)
qed (simp split: option.splits)

lemma fm_comp_insert [simp]: "fm_comp (fst (fm_insert m kv)) = fm_comp m"
  by (simp add: fm_insert_def fm_insert_impl_def Let_def)

lemma fm_comp_inserts [simp]: "fm_comp (foldl (\<lambda>m kv. fst (fm_insert m kv)) m kvs) = fm_comp m"
  by (induction kvs arbitrary: m) auto

lemma fm_inv_inserts: "fm_inv cmp m \<Longrightarrow> fm_inv cmp (foldl (\<lambda>m kv. fst (fm_insert m kv)) m kvs)"
  by (induction kvs arbitrary: m) (auto intro: fm_inv_insert)

lemma fm_sorted_build:
  "fm_from_list False init cmp =
    \<lparr>fm_data = unique (\<lambda>a b. equiv (fst a) (fst b)) (stable_sort (\<lambda>a b. cmp (fst a) (fst b)) init),
     fm_comp = cmp\<rparr>"
  by (simp add: fm_from_list_def build_from_def fm_empty_map_def equiv_def [abs_def] Let_def)

lemma fm_sorted_build_entry:
  "fm_inv cmp (fm_from_list False init cmp)"
  "entry fst (fm_data (fm_from_list False init cmp)) k = entry fst init k"
  using strict_weak.sorted_stable_sort [OF strict_weak_key [of fst], of init]
  by (simp_all add: fm_sorted_build fm_inv_def unique_strict_key)
    (simp add: entry_def unique_find_key stable_sort_find_key)

lemma fm_builds_agree: "fm_from_list True init cmp = fm_from_list False init cmp"
proof -
  let ?c = "fm_from_list True init cmp" and ?r = "fm_from_list False init cmp"
  have c: "?c = foldl (\<lambda>m kv. fst (fm_insert m kv)) (fm_empty_map cmp) init"
    by (simp add: fm_from_list_def build_from_def)
  have inv: "fm_inv cmp ?c" "fm_inv cmp ?r"
    by (auto simp: c fm_inv_inserts fm_inv_empty fm_sorted_build_entry)
  have "fm_data ?c = fm_data ?r"
  proof (rule entry_ext)
    show "entry fst (fm_data ?c) k = entry fst (fm_data ?r) k" for k
      using fm_data_inserts [OF fm_inv_empty, of init k]
      by (simp add: c fm_sorted_build_entry fm_empty_map_def)
  qed (use inv in \<open>auto simp: fm_inv_def\<close>)
  moreover have "fm_comp ?c = fm_comp ?r" using inv by (simp add: fm_inv_def)
  ultimately show ?thesis by simp
qed

end

text \<open>Under any strict weak ordering a \<open>FlatMap\<close> is a first-wins table.\<close>

sublocale strict_weak \<subseteq> fm: first_wins_table "fm_empty_map cmp" "\<lambda>m kv. fst (fm_insert m kv)"
  "\<lambda>m k. fst (fm_erase m k)" fm_lookup "fm_inv cmp" equiv
proof unfold_locales
  show "fm_lookup (fm_empty_map cmp) k = None" for k
    by (simp add: fm_lookup_entry [OF fm_inv_empty]) (simp add: fm_empty_map_def)
qed (auto intro: equiv_sym equiv_trans fm_inv_empty fm_inv_insert fm_inv_erase
    simp: fm_lookup_insert fm_lookup_erase fm_lookup_equiv)

text \<open>What a map built from a list holds follows from the laws of the table.\<close>

context strict_weak
begin

lemma fm_build_lookup:
  "fm_lookup (fm_from_list ce init cmp) k = map_option snd (find (\<lambda>e. equiv k (fst e)) init)"
  using fm.lookup_of_inserts [of init k] fm_builds_agree [of init]
  by (cases ce) (simp_all add: fm_from_list_def build_from_def)

end

section \<open>Properties\<close>

text \<open>The modifying operations of a client, and what they do to an abstract map.\<close>

datatype ('k, 'v) fm_op = Insert 'k 'v | Erase 'k | Assign 'k 'v

fun fm_step :: "'v \<Rightarrow> ('k, 'v) flat_map \<Rightarrow> ('k, 'v) fm_op \<Rightarrow> ('k, 'v) flat_map" where
  "fm_step dflt m (Insert k v) = fst (fm_insert m (k, v))"
| "fm_step dflt m (Erase k) = fst (fm_erase m k)"
| "fm_step dflt m (Assign k v) = (case fm_subscript dflt m k of (m', pos) \<Rightarrow> fm_put m' pos v)"

fun map_step :: "('k \<rightharpoonup> 'v) \<Rightarrow> ('k, 'v) fm_op \<Rightarrow> ('k \<rightharpoonup> 'v)" where
  "map_step f (Insert k v) = (if f k = None then f(k \<mapsto> v) else f)"
| "map_step f (Erase k) = f(k := None)"
| "map_step f (Assign k v) = f(k \<mapsto> v)"

lemma fm_step_refines:
  fixes m :: "('k :: linorder, 'v) flat_map"
  assumes "fm_inv (<) m"
  shows "fm_inv (<) (fm_step dflt m oper) \<and> fm_lookup (fm_step dflt m oper) = map_step (fm_lookup m) oper"
proof (cases oper)
  case (Assign k v)
  obtain m' pos where sub: "fm_subscript dflt m k = (m', pos)" by (cases "fm_subscript dflt m k")
  show ?thesis
    using less_order.fm_subscript_put [OF assms sub] Assign sub
    by (auto simp: fm_inv_put fun_eq_iff)
qed (use assms in \<open>auto simp: fun_eq_iff less_order.fm_lookup_insert less_order.fm_lookup_erase
      less_order.fm_inv_insert less_order.fm_inv_erase\<close>)

text \<open>
  Property C1. Any sequence of \<open>insert\<close>, \<open>erase\<close> and \<open>m[k] = v\<close> on an initially empty
  \<open>FlatMap\<close> with \<open>std::less\<close> keeps the vector strictly sorted and behaves as the
  abstract map: an insertion never replaces, an erasure removes the key, an
  assignment through \<open>operator[]\<close> sets it, and no other key is touched.
\<close>

theorem flat_map_refines_map:
  fixes ops :: "('k :: linorder, 'v) fm_op list"
  shows "fm_inv (<) (foldl (fm_step dflt) (fm_empty_map (<)) ops) \<and>
    fm_lookup (foldl (fm_step dflt) (fm_empty_map (<)) ops) = foldl map_step Map.empty ops"
proof -
  have run: "fm_inv (<) (foldl (fm_step dflt) m ops) \<and>
      fm_lookup (foldl (fm_step dflt) m ops) = foldl map_step (fm_lookup m) ops"
    if "fm_inv (<) m" for m :: "('k, 'v) flat_map"
    using that by (induction ops arbitrary: m) (auto simp: fm_step_refines)
  have "fm_lookup (fm_empty_map (<)) = (Map.empty :: 'k \<rightharpoonup> 'v)"
    by (rule ext) (rule less_order.fm.lookup_empty)
  with run [OF fm_inv_empty] show ?thesis by simp
qed

text \<open>
  Property C7. The two construction strategies of \<open>build_from\<close> agree for every strict
  weak ordering: sorted insertion (constant evaluation) and stable sort with
  removal of duplicates (run time) build the same vector, which is strictly
  sorted, and in which of several entries with equivalent keys the first wins.
\<close>

theorem flat_map_construction_agrees:
  assumes "strict_weak cmp"
  shows "fm_from_list True init cmp = fm_from_list False init cmp \<and>
    fm_inv cmp (fm_from_list False init cmp) \<and>
    fm_lookup (fm_from_list False init cmp) k =
      map_option snd (find (\<lambda>e. \<not> cmp k (fst e) \<and> \<not> cmp (fst e) k) init)"
  using strict_weak.fm_builds_agree [OF assms, of init]
    strict_weak.fm_sorted_build_entry(1) [OF assms, of init]
    strict_weak.fm_build_lookup [OF assms, of False init k]
  by (simp add: strict_weak.equiv_def [OF assms])

text \<open>Witness: keys compared modulo ten, so that 13 and 3 are equivalent and the first one wins.\<close>

lemma strict_weak_mod: "strict_weak (\<lambda>a b. a mod 10 < b mod (10 :: nat))"
  using less_order.strict_weak_key [of "\<lambda>a. a mod 10"] by simp

theorem flat_map_construction_agrees_witness:
  "fm_lookup (fm_from_list False [(13, ''x''), (2, ''y''), (3, ''z'')] (\<lambda>a b. a mod 10 < b mod (10 :: nat))) 3
    = Some ''x''"
  using flat_map_construction_agrees [OF strict_weak_mod, of "[(13, ''x''), (2, ''y''), (3, ''z'')]" 3]
  by simp

text \<open>
  \<open>insert\<close> reports what it did: the flag is false exactly when an
  equivalent key was present, the returned position is that of the key's
  entry, and the size grows by one exactly when the entry is new.
\<close>

theorem flat_map_insert_result:
  assumes "strict_weak cmp" and "fm_inv cmp m" and "fm_insert m (l, v) = (m', pos, inserted)"
  shows "fm_inv cmp m' \<and> (inserted \<longleftrightarrow> \<not> fm_contains m l) \<and> pos < fm_size m' \<and>
    \<not> cmp l (fst (fm_data m' ! pos)) \<and> \<not> cmp (fst (fm_data m' ! pos)) l \<and>
    fm_size m' = fm_size m + (if inserted then 1 else 0) \<and> fm_find m' l = pos \<and>
    fm_get m' pos = (case fm_lookup m l of None \<Rightarrow> v | Some w \<Rightarrow> w)"
proof -
  note res = strict_weak.fm_insert_result [OF assms]
  have sub: "fm_subscript v m l = (m', pos)"
    using assms(3) by (simp add: strict_weak.fm_subscript_insert [OF assms(1)])
  note put = strict_weak.fm_subscript_put [OF assms(1,2) sub]
  have "fm_find m' l = pos"
    using strict_weak.fm_find_pos [OF assms(1) put(1) _ res(3)] res(2) by simp
  with res put show ?thesis by (simp add: strict_weak.equiv_def [OF assms(1)])
qed

theorem flat_map_insert_result_witness:
  "fm_find (fst (fm_insert (fm_empty_map (<)) (7 :: nat, ''a''))) 7 = 0"
proof -
  have ins: "fm_insert (fm_empty_map (<)) (7 :: nat, ''a'') =
      (\<lparr>fm_data = [(7, ''a'')], fm_comp = (<)\<rparr>, 0, True)"
    by (simp add: fm_insert_def fm_insert_impl_def fm_empty_map_def insert_at_def lower_bound_def
        partition_loop.simps)
  from flat_map_insert_result [OF less_order.strict_weak_axioms fm_inv_empty ins]
  show ?thesis by (simp add: ins)
qed

end
