(* ===== verification/Flat_Set.thy ===== *)
theory Flat_Set
  imports Sorted_Vector
begin

text \<open>
  \<open>FlatSet<T, Compare>\<close> (flat\_set.hpp): a set kept as one sorted vector. The
  representation of iterators is that of \<open>Flat_Map\<close>. The constructors sort with the
  unstable \<open>std::sort\<close>, whose order of equivalent elements the standard leaves
  open: it is the argument \<open>srt\<close> of the definitions, assumed to satisfy \<open>std_sort\<close>.
\<close>

section \<open>The container\<close>

record 'a flat_set =
  fs_data :: "'a list"
  fs_comp :: "'a \<Rightarrow> 'a \<Rightarrow> bool"

definition fs_empty_set :: "('a \<Rightarrow> 'a \<Rightarrow> bool) \<Rightarrow> 'a flat_set" where
  "fs_empty_set comp_arg = \<lparr>fs_data = [], fs_comp = comp_arg\<rparr>"

definition fs_size :: "'a flat_set \<Rightarrow> nat" where
  "fs_size s = length (fs_data s)"

definition fs_empty :: "'a flat_set \<Rightarrow> bool" where
  "fs_empty s \<longleftrightarrow> fs_data s = []"

definition fs_clear :: "'a flat_set \<Rightarrow> 'a flat_set" where
  "fs_clear s = s\<lparr>fs_data := []\<rparr>"

definition fs_lower_bound :: "'a flat_set \<Rightarrow> 'a \<Rightarrow> nat" where
  "fs_lower_bound s x = lower_bound (fs_comp s) (fs_data s) x"

definition fs_upper_bound :: "'a flat_set \<Rightarrow> 'a \<Rightarrow> nat" where
  "fs_upper_bound s x = upper_bound (fs_comp s) (fs_data s) x"

definition fs_find :: "'a flat_set \<Rightarrow> 'a \<Rightarrow> nat" where
  "fs_find s x =
     (let it = fs_lower_bound s x in
      if it \<noteq> length (fs_data s) \<and> \<not> fs_comp s x (fs_data s ! it) then it
      else length (fs_data s))"

definition fs_contains :: "'a flat_set \<Rightarrow> 'a \<Rightarrow> bool" where
  "fs_contains s x \<longleftrightarrow> fs_find s x \<noteq> length (fs_data s)"

definition fs_count :: "'a flat_set \<Rightarrow> 'a \<Rightarrow> nat" where
  "fs_count s x = (if fs_contains s x then 1 else 0)"

definition fs_insert_impl :: "'a flat_set \<Rightarrow> 'a \<Rightarrow> 'a flat_set \<times> nat \<times> bool" where
  "fs_insert_impl s x =
     (let pos = lower_bound (fs_comp s) (fs_data s) x in
      if pos \<noteq> length (fs_data s) \<and> \<not> fs_comp s x (fs_data s ! pos) then (s, pos, False)
      else (s\<lparr>fs_data := insert_at (fs_data s) pos x\<rparr>, pos, True))"

definition fs_insert :: "'a flat_set \<Rightarrow> 'a \<Rightarrow> 'a flat_set \<times> nat \<times> bool" where
  "fs_insert s x = fs_insert_impl s x"

definition fs_erase :: "'a flat_set \<Rightarrow> 'a \<Rightarrow> 'a flat_set \<times> nat" where
  "fs_erase s x =
     (let it = fs_find s x in
      if it = length (fs_data s) then (s, 0)
      else (s\<lparr>fs_data := erase_at (fs_data s) it\<rparr>, 1))"

definition fs_erase_pos :: "'a flat_set \<Rightarrow> nat \<Rightarrow> ('a flat_set \<times> nat) cpp" where
  "fs_erase_pos s pos =
     (if pos < length (fs_data s) then Inr (s\<lparr>fs_data := erase_at (fs_data s) pos\<rparr>, pos)
      else Inl Undefined_behaviour)"

definition sort_unique :: "('a list \<Rightarrow> 'a list) \<Rightarrow> 'a flat_set \<Rightarrow> 'a flat_set" where
  "sort_unique srt s =
     (let equivalent = (\<lambda>lhs rhs. \<not> fs_comp s lhs rhs \<and> \<not> fs_comp s rhs lhs)
      in s\<lparr>fs_data := unique equivalent (srt (fs_data s))\<rparr>)"

definition fs_from_list :: "('a list \<Rightarrow> 'a list) \<Rightarrow> 'a list \<Rightarrow> ('a \<Rightarrow> 'a \<Rightarrow> bool) \<Rightarrow> 'a flat_set" where
  "fs_from_list srt init comp_arg = sort_unique srt (\<lparr>fs_data = init, fs_comp = comp_arg\<rparr>)"

section \<open>The invariant and the operations\<close>

definition fs_inv :: "('a \<Rightarrow> 'a \<Rightarrow> bool) \<Rightarrow> 'a flat_set \<Rightarrow> bool" where
  "fs_inv cmp s \<longleftrightarrow> fs_comp s = cmp \<and> sorted_wrt cmp (fs_data s)"

lemma fs_inv_empty: "fs_inv cmp (fs_empty_set cmp)"
  by (simp add: fs_inv_def fs_empty_set_def)

lemma fs_inv_clear: "fs_inv cmp s \<Longrightarrow> fs_inv cmp (fs_clear s)"
  by (simp add: fs_inv_def fs_clear_def)

lemma fs_inv_erase_pos: "fs_inv cmp s \<Longrightarrow> fs_erase_pos s pos = Inr (s', i) \<Longrightarrow> fs_inv cmp s'"
  by (auto simp: fs_inv_def fs_erase_pos_def sorted_wrt_erase_at split: if_splits)

context strict_weak
begin

text \<open>The lemmas on sorted vectors, for elements that are their own keys.\<close>

lemmas set_hit = lower_bound_hit [where f = "\<lambda>x. x", simplified]
lemmas set_insert = lower_bound_insert [where f = "\<lambda>x. x", simplified]
lemmas set_erase = lower_bound_erase [where f = "\<lambda>x. x", simplified]

lemma fs_find_eq:
  assumes "fs_inv cmp s"
  shows "fs_find s x = (if found (\<lambda>x. x) (fs_data s) x then lower_bound cmp (fs_data s) x
      else length (fs_data s))"
    and "fs_contains s x \<longleftrightarrow> found (\<lambda>x. x) (fs_data s) x"
proof -
  have "sorted_wrt cmp (fs_data s)" and comp: "fs_comp s = cmp" using assms by (auto simp: fs_inv_def)
  note hit = set_hit(1) [OF this(1) refl, of x]
  show "fs_find s x = (if found (\<lambda>x. x) (fs_data s) x then lower_bound cmp (fs_data s) x
      else length (fs_data s))"
    using hit comp lower_bound_le [of cmp "fs_data s" x]
    by (auto simp: fs_find_def fs_lower_bound_def Let_def)
  with hit show "fs_contains s x \<longleftrightarrow> found (\<lambda>x. x) (fs_data s) x"
    by (auto simp: fs_contains_def)
qed

lemma fs_insert_eq:
  assumes "fs_inv cmp s"
  shows "fs_insert s x = (if fs_contains s x then (s, lower_bound cmp (fs_data s) x, False)
    else (s\<lparr>fs_data := insert_at (fs_data s) (lower_bound cmp (fs_data s) x) x\<rparr>,
      lower_bound cmp (fs_data s) x, True))"
proof -
  have "sorted_wrt cmp (fs_data s)" and "fs_comp s = cmp" using assms by (auto simp: fs_inv_def)
  with set_hit(1) [of "fs_data s" _ x] fs_find_eq(2) [OF assms, of x]
    lower_bound_le [of cmp "fs_data s" x] show ?thesis
    by (auto simp: fs_insert_def fs_insert_impl_def Let_def)
qed

lemma fs_inv_insert: "fs_inv cmp s \<Longrightarrow> fs_inv cmp (fst (fs_insert s x))"
  using set_insert(1) [of "fs_data s" _ x] by (auto simp: fs_insert_eq fs_find_eq(2) fs_inv_def)

lemma fs_contains_insert:
  assumes "fs_inv cmp s"
  shows "fs_contains (fst (fs_insert s x)) y \<longleftrightarrow> equiv y x \<or> fs_contains s y"
proof (cases "fs_contains s x")
  case True
  have "equiv y x \<Longrightarrow> fs_contains s y"
    using True found_equiv [of y x "\<lambda>x. x"] by (simp add: fs_find_eq(2) [OF assms])
  then show ?thesis using True by (auto simp: fs_insert_eq [OF assms])
next
  case False
  have "sorted_wrt cmp (fs_data s)" using assms by (simp add: fs_inv_def)
  from set_insert(2) [OF this refl, of x y] False fs_inv_insert [OF assms, of x] show ?thesis
    by (simp add: fs_find_eq(2) assms found_entry) (simp add: fs_insert_eq assms fs_find_eq(2) found_entry)
qed

lemma fs_erase_eq:
  "fs_inv cmp s \<Longrightarrow> fs_erase s x = (if fs_contains s x
    then (s\<lparr>fs_data := erase_at (fs_data s) (lower_bound cmp (fs_data s) x)\<rparr>, 1) else (s, 0))"
  using fs_find_eq [of s x] by (auto simp: fs_erase_def fs_contains_def Let_def)

lemma fs_inv_erase: "fs_inv cmp s \<Longrightarrow> fs_inv cmp (fst (fs_erase s x))"
  using set_erase(1) [of "fs_data s" _ x] by (auto simp: fs_erase_eq fs_find_eq(2) fs_inv_def)

lemma fs_contains_erase:
  assumes "fs_inv cmp s"
  shows "fs_contains (fst (fs_erase s x)) y \<longleftrightarrow> \<not> equiv y x \<and> fs_contains s y"
proof (cases "fs_contains s x")
  case True
  have "sorted_wrt cmp (fs_data s)" using assms by (simp add: fs_inv_def)
  from set_erase(2) [OF this refl, of x y] True fs_inv_erase [OF assms, of x] show ?thesis
    by (simp add: fs_find_eq(2) assms found_entry) (simp add: fs_erase_eq assms fs_find_eq(2) found_entry)
next
  case False
  then have "equiv y x \<Longrightarrow> \<not> fs_contains s y"
    using found_equiv [of y x "\<lambda>x. x"] by (simp add: fs_find_eq(2) [OF assms])
  with False show ?thesis by (auto simp: fs_erase_eq [OF assms])
qed

end

sublocale strict_weak \<subseteq> fs: element_set "fs_empty_set cmp" "\<lambda>s x. fst (fs_insert s x)"
  "\<lambda>s x. fst (fs_erase s x)" fs_contains "fs_inv cmp" equiv
proof unfold_locales
  show "\<not> fs_contains (fs_empty_set cmp) x" for x
    by (simp add: fs_find_eq(2) [OF fs_inv_empty]) (simp add: fs_empty_set_def)
qed (auto simp: fs_inv_empty fs_inv_insert fs_inv_erase fs_contains_insert fs_contains_erase)

context strict_weak
begin

lemmas fs_runs = fs.invar_inserts fs.contains_inserts fs.contains_erases

end

context std_sort
begin

lemma fs_from_list_eq:
  "fs_from_list srt init cmp = \<lparr>fs_data = unique equiv (srt init), fs_comp = cmp\<rparr>"
  by (simp add: fs_from_list_def sort_unique_def equiv_def [abs_def] Let_def)

lemma fs_inv_from_list: "fs_inv cmp (fs_from_list srt init cmp)"
  by (simp add: fs_from_list_eq fs_inv_def unique_strict sorted_srt)

lemma fs_contains_from_list:
  "fs_contains (fs_from_list srt init cmp) x \<longleftrightarrow> (\<exists>y \<in> set init. equiv x y)"
proof -
  have "found (\<lambda>x. x) (unique equiv (srt init)) x \<longleftrightarrow> found (\<lambda>x. x) (srt init) x"
    using unique_find [of x "srt init"] by (simp add: found_entry entry_def)
  then show ?thesis
    by (simp add: fs_find_eq(2) [OF fs_inv_from_list]) (simp add: fs_from_list_eq found_def)
qed

end

section \<open>Properties\<close>

text \<open>
  Built from any initialiser list with any conforming \<open>std::sort\<close> and then
  changed by any insertions followed by any erasures, a \<open>FlatSet\<close> stays strictly
  sorted and contains exactly the elements equivalent to one that was put in
  and not taken out.
\<close>

theorem flat_set_contents:
  assumes "std_sort cmp srt"
  shows "fs_inv cmp (foldl (\<lambda>s x. fst (fs_erase s x))
        (foldl (\<lambda>s x. fst (fs_insert s x)) (fs_from_list srt init cmp) ins) del) \<and>
    (fs_contains (foldl (\<lambda>s x. fst (fs_erase s x))
        (foldl (\<lambda>s x. fst (fs_insert s x)) (fs_from_list srt init cmp) ins) del) y \<longleftrightarrow>
      (\<exists>x \<in> set init \<union> set ins. \<not> cmp y x \<and> \<not> cmp x y) \<and>
      \<not> (\<exists>x \<in> set del. \<not> cmp y x \<and> \<not> cmp x y))"
proof -
  have sw: "strict_weak cmp" using assms by (simp add: std_sort_def)
  let ?s = "fs_from_list srt init cmp"
  let ?i = "foldl (\<lambda>s x. fst (fs_insert s x)) ?s ins"
  have s: "fs_inv cmp ?s" by (rule std_sort.fs_inv_from_list [OF assms])
  have i: "fs_inv cmp ?i" by (rule strict_weak.fs_runs(1) [OF sw s])
  have "fs_inv cmp (foldl (\<lambda>s x. fst (fs_erase s x)) ?i del)"
    using i by (induction del rule: rev_induct) (auto intro: strict_weak.fs_inv_erase [OF sw])
  then show ?thesis
    by (auto simp: strict_weak.fs_runs(3) [OF sw i] strict_weak.fs_runs(2) [OF sw s]
        std_sort.fs_contains_from_list [OF assms] strict_weak.equiv_def [OF sw])
qed

theorem flat_set_contents_witness:
  "fs_contains (foldl (\<lambda>s x. fst (fs_erase s x))
     (foldl (\<lambda>s x. fst (fs_insert s x)) (fs_from_list (stable_sort (<)) [3, 1, 3] (<)) [2 :: nat]) [1]) 3"
  using flat_set_contents [OF less_sort.std_sort_axioms, of "[3, 1, 3]" "[2 :: nat]" "[1]" 3] by simp

end
