(* ===== verification/Bounded_Queue.thy ===== *)
theory Bounded_Queue
  imports Egl_Prelude
begin

text \<open>
  The interface that the library's queues provide: a FIFO of bounded capacity
  whose \<open>try_push\<close> refuses when full and whose \<open>pop\<close> reports emptiness by
  value. The client lemmas are about whole sequences of calls; they are proved
  here once, from the laws of single calls.
\<close>

datatype 'a queue_op = Push 'a | Pop

datatype 'a queue_out = Pushed bool | Popped "'a option"

text \<open>A sequence of calls and the values they return.\<close>

fun queue_run ::
  "('q \<Rightarrow> 'a \<Rightarrow> 'q \<times> bool) \<Rightarrow> ('q \<Rightarrow> 'q \<times> 'a option) \<Rightarrow> 'q \<Rightarrow> 'a queue_op list \<Rightarrow> 'q \<times> 'a queue_out list"
where
  "queue_run push pop q [] = (q, [])"
| "queue_run push pop q (Push x # ops) =
     (case push q x of (q', ok) \<Rightarrow>
        case queue_run push pop q' ops of (q'', outs) \<Rightarrow> (q'', Pushed ok # outs))"
| "queue_run push pop q (Pop # ops) =
     (case pop q of (q', r) \<Rightarrow>
        case queue_run push pop q' ops of (q'', outs) \<Rightarrow> (q'', Popped r # outs))"

text \<open>The specification: a list of at most \<open>cap\<close> elements, oldest first.\<close>

definition fifo_push :: "nat \<Rightarrow> 'a list \<Rightarrow> 'a \<Rightarrow> 'a list \<times> bool" where
  "fifo_push cap xs x = (if length xs < cap then (xs @ [x], True) else (xs, False))"

definition fifo_pop :: "'a list \<Rightarrow> 'a list \<times> 'a option" where
  "fifo_pop xs = (case xs of [] \<Rightarrow> ([], None) | x # xs' \<Rightarrow> (xs', Some x))"

locale bounded_queue =
  fixes push :: "'q \<Rightarrow> 'a \<Rightarrow> 'q \<times> bool"
    and pop :: "'q \<Rightarrow> 'q \<times> 'a option"
    and contents :: "'q \<Rightarrow> 'a list"
    and cap :: "'q \<Rightarrow> nat"
    and invar :: "'q \<Rightarrow> bool"
  assumes push_law: "invar q \<Longrightarrow> push q x = (q', ok) \<Longrightarrow>
      invar q' \<and> cap q' = cap q \<and> fifo_push (cap q) (contents q) x = (contents q', ok)"
    and pop_law: "invar q \<Longrightarrow> pop q = (q', r) \<Longrightarrow>
      invar q' \<and> cap q' = cap q \<and> fifo_pop (contents q) = (contents q', r)"
begin

text \<open>Every sequence of calls returns what the specification returns.\<close>

lemma run_refines:
  "invar q \<Longrightarrow> queue_run push pop q ops = (q', outs) \<Longrightarrow>
    invar q' \<and> cap q' = cap q \<and>
    queue_run (fifo_push (cap q)) fifo_pop (contents q) ops = (contents q', outs)"
proof (induction ops arbitrary: q outs)
  case (Cons oper ops)
  show ?case
  proof (cases oper)
    case (Push x)
    obtain p ok where "push q x = (p, ok)" by (cases "push q x")
    moreover obtain s outs' where "queue_run push pop p ops = (s, outs')"
      by (cases "queue_run push pop p ops")
    ultimately show ?thesis
      using push_law [OF Cons.prems(1), of x p ok] Cons.IH [of p outs'] Cons.prems Push by simp
  next
    case Pop
    obtain p r where "pop q = (p, r)" by (cases "pop q")
    moreover obtain s outs' where "queue_run push pop p ops = (s, outs')"
      by (cases "queue_run push pop p ops")
    ultimately show ?thesis
      using pop_law [OF Cons.prems(1), of p r] Cons.IH [of p outs'] Cons.prems Pop by simp
  qed
qed simp

text \<open>First in, first out: what fits is taken out in the order it was put in.\<close>

lemma push_all:
  "invar q \<Longrightarrow> length (contents q) + length xs \<le> cap q \<Longrightarrow> queue_run push pop q (map Push xs) = (q', outs) \<Longrightarrow>
    invar q' \<and> contents q' = contents q @ xs \<and> outs = replicate (length xs) (Pushed True)"
proof (induction xs arbitrary: q outs)
  case (Cons x xs)
  obtain p ok where p: "push q x = (p, ok)" by (cases "push q x")
  obtain r outs' where r: "queue_run push pop p (map Push xs) = (r, outs')" by (cases "queue_run push pop p (map Push xs)")
  have "invar p" "cap p = cap q" "contents p = contents q @ [x]" "ok"
    using push_law [OF Cons.prems(1) p] Cons.prems(2) by (auto simp: fifo_push_def)
  with Cons.IH [of p outs'] Cons.prems p r show ?case by auto
qed simp

lemma pop_all:
  "invar q \<Longrightarrow> contents q = xs \<Longrightarrow> queue_run push pop q (replicate (length xs) Pop) = (q', outs) \<Longrightarrow>
    invar q' \<and> contents q' = [] \<and> outs = map (\<lambda>x. Popped (Some x)) xs"
proof (induction xs arbitrary: q outs)
  case (Cons x xs)
  obtain p r where p: "pop q = (p, r)" by (cases "pop q")
  obtain s outs' where s: "queue_run push pop p (replicate (length xs) Pop) = (s, outs')"
    by (cases "queue_run push pop p (replicate (length xs) Pop)")
  have "invar p" "contents p = xs" "r = Some x"
    using pop_law [OF Cons.prems(1) p] Cons.prems(2) by (auto simp: fifo_pop_def)
  with Cons.IH [of p outs'] Cons.prems p s show ?case by auto
qed simp

end

end
