(* ===== verification/Circular_Buffer.thy ===== *)
theory Circular_Buffer
  imports Bounded_Queue
begin

text \<open>
  \<open>CircularBuffer<T>\<close> (circular\_buffer.hpp): a ring over one vector of fixed
  size, with the index of the oldest element and the number of elements. The
  indices are natural numbers: the vector's size is at most \<open>PTRDIFF_MAX\<close>, and
  \<open>cb_no_wrap\<close> shows that then no index expression of the source exceeds 64 bits.
  Moving an element out leaves an unspecified value in its slot: \<open>moved x\<close>
  stands for what a moved-from \<open>x\<close> is.
\<close>

section \<open>The ring\<close>

record 'a circular_buffer =
  cb_buffer :: "'a list"
  cb_head :: nat
  cb_count :: nat

text \<open>The constructor; \<open>dflt\<close> is the value-initialised \<open>T{}\<close>.\<close>

definition cb_construct :: "'a \<Rightarrow> nat \<Rightarrow> 'a circular_buffer cpp" where
  "cb_construct dflt cap =
     (if cap > 0 then Inr \<lparr>cb_buffer = replicate cap dflt, cb_head = 0, cb_count = 0\<rparr>
      else Inl Assert_failed)"

definition cb_capacity :: "'a circular_buffer \<Rightarrow> nat" where
  "cb_capacity b = length (cb_buffer b)"

definition cb_size :: "'a circular_buffer \<Rightarrow> nat" where
  "cb_size b = cb_count b"

definition cb_empty :: "'a circular_buffer \<Rightarrow> bool" where
  "cb_empty b \<longleftrightarrow> cb_count b = 0"

definition cb_full :: "'a circular_buffer \<Rightarrow> bool" where
  "cb_full b \<longleftrightarrow> cb_count b = length (cb_buffer b)"

definition cb_clear :: "'a circular_buffer \<Rightarrow> 'a circular_buffer" where
  "cb_clear b = b\<lparr>cb_head := 0, cb_count := 0\<rparr>"

definition advance :: "'a circular_buffer \<Rightarrow> nat \<Rightarrow> nat" where
  "advance b index = (let next = index + 1 in if next = length (cb_buffer b) then 0 else next)"

definition tail_index :: "'a circular_buffer \<Rightarrow> nat" where
  "tail_index b =
     (let tail = cb_head b + cb_count b in
      if tail \<ge> length (cb_buffer b) then tail - length (cb_buffer b) else tail)"

definition back_index :: "'a circular_buffer \<Rightarrow> nat" where
  "back_index b =
     (let back = cb_head b + cb_count b - 1 in
      if back \<ge> length (cb_buffer b) then back - length (cb_buffer b) else back)"

definition push_impl :: "'a circular_buffer \<Rightarrow> 'a \<Rightarrow> 'a circular_buffer \<times> bool" where
  "push_impl b v =
     (if cb_full b then (b, False)
      else (b\<lparr>cb_buffer := (cb_buffer b)[tail_index b := v], cb_count := cb_count b + 1\<rparr>, True))"

definition cb_try_push :: "'a circular_buffer \<Rightarrow> 'a \<Rightarrow> 'a circular_buffer \<times> bool" where
  "cb_try_push b v = push_impl b v"

definition push_overwrite_impl :: "'a circular_buffer \<Rightarrow> 'a \<Rightarrow> 'a circular_buffer" where
  "push_overwrite_impl b v =
     (if cb_full b
      then b\<lparr>cb_buffer := (cb_buffer b)[cb_head b := v], cb_head := advance b (cb_head b)\<rparr>
      else b\<lparr>cb_buffer := (cb_buffer b)[tail_index b := v], cb_count := cb_count b + 1\<rparr>)"

definition cb_push_overwrite :: "'a circular_buffer \<Rightarrow> 'a \<Rightarrow> 'a circular_buffer" where
  "cb_push_overwrite b v = push_overwrite_impl b v"

definition cb_pop :: "('a \<Rightarrow> 'a) \<Rightarrow> 'a circular_buffer \<Rightarrow> 'a circular_buffer \<times> 'a option" where
  "cb_pop moved b =
     (if cb_empty b then (b, None)
      else
        let v = cb_buffer b ! cb_head b in
        (b\<lparr>cb_buffer := (cb_buffer b)[cb_head b := moved v],
           cb_head := advance b (cb_head b), cb_count := cb_count b - 1\<rparr>, Some v))"

definition cb_front :: "'a circular_buffer \<Rightarrow> 'a cpp" where
  "cb_front b = (if cb_empty b then Inl Assert_failed else Inr (cb_buffer b ! cb_head b))"

definition cb_back :: "'a circular_buffer \<Rightarrow> 'a cpp" where
  "cb_back b = (if cb_empty b then Inl Assert_failed else Inr (cb_buffer b ! back_index b))"

section \<open>The invariant and the queue of elements\<close>

definition cb_inv :: "'a circular_buffer \<Rightarrow> bool" where
  "cb_inv b \<longleftrightarrow> cb_head b < length (cb_buffer b) \<and> cb_count b \<le> length (cb_buffer b)"

text \<open>The stored elements, oldest first.\<close>

definition cb_list :: "'a circular_buffer \<Rightarrow> 'a list" where
  "cb_list b = map (\<lambda>i. cb_buffer b ! ((cb_head b + i) mod length (cb_buffer b))) [0..<cb_count b]"

lemma length_cb_list [simp]: "length (cb_list b) = cb_count b"
  by (simp add: cb_list_def)

lemma nth_cb_list [simp]:
  "i < cb_count b \<Longrightarrow> cb_list b ! i = cb_buffer b ! ((cb_head b + i) mod length (cb_buffer b))"
  by (simp add: cb_list_def)

lemma cb_list_Nil: "cb_list b = [] \<longleftrightarrow> cb_count b = 0"
  by (simp add: cb_list_def)

text \<open>The conditional subtractions of the source compute the remainder.\<close>

lemma wrap_mod: "i < 2 * n \<Longrightarrow> (if i \<ge> n then i - n else i) = i mod (n :: nat)"
  by (simp add: mod_if)

lemma ring_index [ring_simps]:
  assumes "cb_inv b"
  shows "tail_index b = (cb_head b + cb_count b) mod length (cb_buffer b)"
    and "advance b (cb_head b) = (cb_head b + 1) mod length (cb_buffer b)"
    and "cb_count b \<noteq> 0 \<Longrightarrow> back_index b = (cb_head b + (cb_count b - 1)) mod length (cb_buffer b)"
  using assms wrap_mod [of "cb_head b + cb_count b" "length (cb_buffer b)"]
    wrap_mod [of "cb_head b + (cb_count b - 1)" "length (cb_buffer b)"]
  by (auto simp: cb_inv_def tail_index_def advance_def back_index_def Let_def)

lemma cb_no_wrap:
  assumes "cb_inv b" and "cb_capacity b < 2 ^ 63"
  shows "cb_head b + cb_count b < 2 ^ 64" and "cb_head b + 1 < 2 ^ 64"
  using assms by (auto simp: cb_inv_def cb_capacity_def)

lemma ring_distinct:
  fixes i j n h :: nat
  assumes "i < n" and "j < n" and "(h + i) mod n = (h + j) mod n"
  shows "i = j"
  using assms
proof (induction i j rule: linorder_wlog)
  case (le i j)
  then have "n dvd j - i" using mod_eq_dvd_iff_nat [of "h + i" "h + j" n] by simp
  then have "n \<le> j - i" if "i < j" using that by (intro dvd_imp_le) auto
  with le show ?case by (cases "i < j") auto
qed simp

lemma ring_update:
  assumes "k < n" and "length buf = n"
  shows "map (\<lambda>i. buf[(h + k) mod n := v] ! ((h + i) mod n)) [0..<k] = map (\<lambda>i. buf ! ((h + i) mod n)) [0..<k]"
proof (intro map_cong refl)
  fix i assume "i \<in> set [0..<k]"
  then have "(h + k) mod n \<noteq> (h + i) mod n"
    using ring_distinct [of i n k h] assms(1) by (cases "(h + i) mod n = (h + k) mod n") auto
  then show "buf[(h + k) mod n := v] ! ((h + i) mod n) = buf ! ((h + i) mod n)" by simp
qed

subsection \<open>Each operation on the queue of elements\<close>

lemma cb_inv_construct: "cb_construct dflt cap = Inr b \<Longrightarrow> cb_inv b \<and> cb_list b = [] \<and> cb_capacity b = cap"
  by (auto simp: cb_construct_def cb_inv_def cb_list_def cb_capacity_def split: if_splits)

lemma cb_clear_correct: "cb_inv b \<Longrightarrow> cb_inv (cb_clear b) \<and> cb_list (cb_clear b) = []"
  by (auto simp: cb_clear_def cb_inv_def cb_list_def)

text \<open>Storing behind the newest element, in a ring that is not full.\<close>

lemma ring_append:
  assumes "cb_inv b" and "\<not> cb_full b"
    and "b' = b\<lparr>cb_buffer := (cb_buffer b)[tail_index b := v], cb_count := cb_count b + 1\<rparr>"
  shows "cb_inv b' \<and> cb_capacity b' = cb_capacity b \<and> cb_list b' = cb_list b @ [v]"
proof -
  have "cb_count b < length (cb_buffer b)" using assms(1,2) by (auto simp: cb_inv_def cb_full_def)
  moreover from this have "(cb_head b + cb_count b) mod length (cb_buffer b) < length (cb_buffer b)"
    by (intro mod_less_divisor) linarith
  moreover note ring_update [of "cb_count b" "length (cb_buffer b)" "cb_buffer b" "cb_head b" v]
  ultimately show ?thesis
    using assms by (simp add: cb_inv_def cb_capacity_def cb_list_def ring_index(1))
qed

lemma cb_try_push_correct:
  assumes "cb_inv b" and "cb_try_push b v = (b', ok)"
  shows "cb_inv b' \<and> cb_capacity b' = cb_capacity b \<and>
    fifo_push (cb_capacity b) (cb_list b) v = (cb_list b', ok)"
proof (cases "cb_full b")
  case True
  with assms show ?thesis
    by (simp add: cb_try_push_def push_impl_def fifo_push_def cb_capacity_def cb_full_def)
next
  case False
  with assms have "cb_count b < cb_capacity b" by (auto simp: cb_inv_def cb_full_def cb_capacity_def)
  with assms False ring_append [OF assms(1) False refl, of v] show ?thesis
    by (auto simp: cb_try_push_def push_impl_def fifo_push_def)
qed

text \<open>Dropping the oldest element moves the head on by one.\<close>

lemma ring_tail:
  assumes "cb_inv b" and "cb_count b > 0"
    and "cb_buffer b' = (cb_buffer b)[cb_head b := w]"
    and "cb_head b' = advance b (cb_head b)" and "cb_count b' = cb_count b - 1"
  shows "cb_list b' = tl (cb_list b)"
proof (rule nth_equalityI)
  show "length (cb_list b') = length (tl (cb_list b))" using assms by simp
  fix i assume "i < length (cb_list b')"
  then have i: "Suc i < cb_count b" using assms(5) by simp
  let ?n = "length (cb_buffer b)"
  have n: "cb_count b \<le> ?n" "cb_head b < ?n" using assms(1) by (auto simp: cb_inv_def)
  have "(cb_head b' + i) mod ?n = (cb_head b + Suc i) mod ?n"
    using assms(1,4) by (simp add: ring_index(2) mod_simps)
  moreover have "(cb_head b + Suc i) mod ?n \<noteq> cb_head b"
    using ring_distinct [of 0 ?n "Suc i" "cb_head b"] n i by force
  ultimately show "cb_list b' ! i = tl (cb_list b) ! i"
    using assms i by (simp add: nth_tl)
qed

lemma cb_list_hd: "cb_inv b \<Longrightarrow> cb_count b > 0 \<Longrightarrow> hd (cb_list b) = cb_buffer b ! cb_head b"
  by (subst hd_conv_nth) (auto simp: cb_list_Nil cb_inv_def)

lemma cb_list_last:
  "cb_inv b \<Longrightarrow> cb_count b > 0 \<Longrightarrow> last (cb_list b) = cb_buffer b ! back_index b"
  by (subst last_conv_nth) (auto simp: cb_list_Nil ring_index(3))

lemma cb_pop_correct:
  assumes "cb_inv b" and "cb_pop moved b = (b', r)"
  shows "cb_inv b' \<and> cb_capacity b' = cb_capacity b \<and> fifo_pop (cb_list b) = (cb_list b', r)"
proof (cases "cb_empty b")
  case True
  with assms have "cb_list b = []" "b' = b" "r = None"
    by (auto simp: cb_pop_def cb_empty_def cb_list_def)
  with assms show ?thesis by (simp add: fifo_pop_def)
next
  case False
  let ?v = "cb_buffer b ! cb_head b"
  have b': "b' = b\<lparr>cb_buffer := (cb_buffer b)[cb_head b := moved ?v],
      cb_head := advance b (cb_head b), cb_count := cb_count b - 1\<rparr>" and r: "r = Some ?v"
    using assms(2) False by (auto simp: cb_pop_def Let_def)
  have pos: "cb_count b > 0" using False by (simp add: cb_empty_def)
  have tl: "cb_list b' = tl (cb_list b)"
    using ring_tail [OF assms(1) pos, of b' "moved ?v"] by (simp add: b')
  have "(cb_head b + 1) mod length (cb_buffer b) < length (cb_buffer b)"
    using assms(1) by (intro mod_less_divisor) (auto simp: cb_inv_def)
  then have "cb_inv b'"
    using assms(1) by (auto simp: ring_index(2) [OF assms(1)] cb_inv_def b')
  moreover have "cb_list b \<noteq> []" using pos by (simp add: cb_list_Nil)
  ultimately show ?thesis
    using tl r cb_list_hd [OF assms(1) pos]
    by (auto simp: fifo_pop_def cb_capacity_def b' split: list.splits)
qed

lemma cb_push_overwrite_correct:
  assumes "cb_inv b"
  shows "cb_inv (cb_push_overwrite b v) \<and> cb_capacity (cb_push_overwrite b v) = cb_capacity b \<and>
    cb_list (cb_push_overwrite b v) =
      (if length (cb_list b) = cb_capacity b then tl (cb_list b) else cb_list b) @ [v]"
proof (cases "cb_full b")
  case False
  with ring_append [OF assms False refl, of v] show ?thesis
    by (simp add: cb_push_overwrite_def push_overwrite_impl_def cb_full_def cb_capacity_def)
next
  case True
  let ?b = "cb_push_overwrite b v" and ?n = "length (cb_buffer b)"
  have n: "0 < ?n" "cb_head b < ?n" "cb_count b = ?n"
    using assms True by (auto simp: cb_inv_def cb_full_def)
  have fields: "cb_buffer ?b = (cb_buffer b)[cb_head b := v]" "cb_head ?b = advance b (cb_head b)"
      "cb_count ?b = cb_count b"
    using True by (simp_all add: cb_push_overwrite_def push_overwrite_impl_def)
  define c where "c = ?b\<lparr>cb_count := cb_count b - 1\<rparr>"
  have "cb_list c = tl (cb_list b)"
    using n fields by (intro ring_tail [OF assms]) (auto simp: c_def)
  moreover have "cb_list ?b = cb_list c @ [cb_buffer ?b ! ((cb_head ?b + (?n - 1)) mod ?n)]"
    using n fields by (cases ?n) (auto simp: cb_list_def c_def)
  moreover have "(cb_head ?b + (?n - 1)) mod ?n = cb_head b"
  proof -
    have "(cb_head ?b + (?n - 1)) mod ?n = (cb_head b + 1 + (?n - 1)) mod ?n"
      unfolding fields(2) ring_index(2) [OF assms] by (rule mod_add_left_eq)
    with n show ?thesis by simp
  qed
  ultimately have "cb_list ?b = tl (cb_list b) @ [v]" using n fields by simp
  moreover have "cb_inv ?b" using n fields by (simp add: cb_inv_def ring_index(2) [OF assms])
  ultimately show ?thesis using n fields by (simp add: cb_capacity_def)
qed

interpretation cb: bounded_queue cb_try_push "cb_pop moved" cb_list cb_capacity cb_inv
  by unfold_locales (auto dest: cb_try_push_correct cb_pop_correct)

section \<open>Every sequence of calls\<close>

datatype 'a cb_op = Try_push 'a | Push_overwrite 'a | Pop_front | Clear_all | Front | Back

datatype 'a cb_out = Accepted bool | Done | Element "'a option" | Access "'a cpp"

fun cb_step :: "('a \<Rightarrow> 'a) \<Rightarrow> 'a cb_op \<Rightarrow> 'a circular_buffer \<Rightarrow> 'a circular_buffer \<times> 'a cb_out" where
  "cb_step moved (Try_push v) b = (case cb_try_push b v of (b', ok) \<Rightarrow> (b', Accepted ok))"
| "cb_step moved (Push_overwrite v) b = (cb_push_overwrite b v, Done)"
| "cb_step moved Pop_front b = (case cb_pop moved b of (b', r) \<Rightarrow> (b', Element r))"
| "cb_step moved Clear_all b = (cb_clear b, Done)"
| "cb_step moved Front b = (b, Access (cb_front b))"
| "cb_step moved Back b = (b, Access (cb_back b))"

fun cb_run :: "('a \<Rightarrow> 'a) \<Rightarrow> 'a cb_op list \<Rightarrow> 'a circular_buffer \<Rightarrow> 'a circular_buffer \<times> 'a cb_out list" where
  "cb_run moved [] b = (b, [])"
| "cb_run moved (c # cs) b =
     (case cb_step moved c b of (b', out) \<Rightarrow>
      case cb_run moved cs b' of (b'', outs) \<Rightarrow> (b'', out # outs))"

text \<open>The specification keeps the last elements in a list, oldest first.\<close>

fun ring_step :: "nat \<Rightarrow> 'a cb_op \<Rightarrow> 'a list \<Rightarrow> 'a list \<times> 'a cb_out" where
  "ring_step cap (Try_push v) xs =
     (if length xs < cap then (xs @ [v], Accepted True) else (xs, Accepted False))"
| "ring_step cap (Push_overwrite v) xs =
     ((if length xs = cap then tl xs else xs) @ [v], Done)"
| "ring_step cap Pop_front xs = (case xs of [] \<Rightarrow> ([], Element None) | x # xs' \<Rightarrow> (xs', Element (Some x)))"
| "ring_step cap Clear_all xs = ([], Done)"
| "ring_step cap Front xs = (xs, Access (if xs = [] then Inl Assert_failed else Inr (hd xs)))"
| "ring_step cap Back xs = (xs, Access (if xs = [] then Inl Assert_failed else Inr (last xs)))"

fun ring_run :: "nat \<Rightarrow> 'a cb_op list \<Rightarrow> 'a list \<Rightarrow> 'a list \<times> 'a cb_out list" where
  "ring_run cap [] xs = (xs, [])"
| "ring_run cap (c # cs) xs =
     (case ring_step cap c xs of (xs', out) \<Rightarrow>
      case ring_run cap cs xs' of (xs'', outs) \<Rightarrow> (xs'', out # outs))"

lemma cb_step_refines:
  assumes "cb_inv b" and "cb_step moved c b = (b', out)"
  shows "cb_inv b' \<and> cb_capacity b' = cb_capacity b \<and>
    ring_step (cb_capacity b) c (cb_list b) = (cb_list b', out)"
proof (cases c)
  case (Try_push v)
  with assms cb_try_push_correct [OF assms(1), of v] show ?thesis
    by (auto simp: fifo_push_def split: prod.splits if_splits)
next
  case (Push_overwrite v)
  with assms cb_push_overwrite_correct [OF assms(1), of v] show ?thesis by auto
next
  case Pop_front
  with assms cb_pop_correct [OF assms(1), of moved] show ?thesis
    by (auto simp: fifo_pop_def split: prod.splits list.splits)
next
  case Clear_all
  with assms cb_clear_correct [OF assms(1)] show ?thesis
    by (auto simp: cb_capacity_def cb_clear_def)
next
  case Front
  with assms cb_list_hd [OF assms(1)] show ?thesis
    by (auto simp: cb_front_def cb_empty_def cb_list_Nil)
next
  case Back
  with assms cb_list_last [OF assms(1)] show ?thesis
    by (auto simp: cb_back_def cb_empty_def cb_list_Nil)
qed

lemma cb_run_refines:
  "cb_inv b \<Longrightarrow> cb_run moved cs b = (b', outs) \<Longrightarrow>
    cb_inv b' \<and> cb_capacity b' = cb_capacity b \<and>
    ring_run (cb_capacity b) cs (cb_list b) = (cb_list b', outs)"
proof (induction cs arbitrary: b outs)
  case (Cons c cs)
  obtain d out where d: "cb_step moved c b = (d, out)" by (cases "cb_step moved c b")
  obtain e outs' where "cb_run moved cs d = (e, outs')" by (cases "cb_run moved cs d")
  with d Cons.prems cb_step_refines [OF Cons.prems(1) d] Cons.IH [of d outs'] show ?case by simp
qed simp

text \<open>
  Property C8. From construction on, every sequence of \<open>try_push\<close>, \<open>push_overwrite\<close>,
  \<open>pop\<close>, \<open>clear\<close>, \<open>front\<close> and \<open>back\<close> calls returns exactly what a list of at most
  \<open>capacity\<close> elements returns, whatever moved-from slots hold; the size never
  exceeds the capacity and the capacity never changes.
\<close>

theorem circular_buffer_refines_list:
  assumes "cb_construct dflt cap = Inr b" and "cb_run moved cs b = (b', outs)"
  shows "ring_run cap cs [] = (cb_list b', outs) \<and> cb_size b' = length (cb_list b') \<and>
    cb_size b' \<le> cap \<and> cb_capacity b' = cap \<and> (cb_full b' \<longleftrightarrow> length (cb_list b') = cap)"
proof -
  have "cb_inv b" "cb_list b = []" "cb_capacity b = cap" using cb_inv_construct [OF assms(1)] by auto
  with cb_run_refines [OF _ assms(2)] show ?thesis
    by (auto simp: cb_size_def cb_inv_def cb_capacity_def cb_full_def)
qed

theorem circular_buffer_refines_list_witness:
  "ring_run 2 [Try_push 1, Push_overwrite 2, Push_overwrite 3, Try_push 4, Back, Pop_front, Front]
     [] = ([3 :: nat], [Accepted True, Done, Done, Accepted False, Access (Inr 3), Element (Some 2), Access (Inr 3)])"
proof -
  let ?b = "\<lparr>cb_buffer = [0, 0 :: nat], cb_head = 0, cb_count = 0\<rparr>"
  let ?cs = "[Try_push 1, Push_overwrite 2, Push_overwrite 3, Try_push 4, Back, Pop_front, Front]"
  have c: "cb_construct 0 2 = Inr ?b" by (simp add: cb_construct_def numeral_2_eq_2)
  have r: "cb_run (\<lambda>_. 0) ?cs ?b = (\<lparr>cb_buffer = [3, 0], cb_head = 0, cb_count = 1\<rparr>,
      [Accepted True, Done, Done, Accepted False, Access (Inr 3), Element (Some 2), Access (Inr 3)])"
    by code_simp
  show ?thesis
    using circular_buffer_refines_list [OF c r] by (simp add: cb_list_def)
qed

text \<open>
  First in, first out: on a fresh buffer, pushing up to \<open>capacity\<close> elements
  succeeds and popping as often returns them in the order of the pushes and leaves
  the buffer empty.
\<close>

theorem circular_buffer_fifo:
  assumes "cb_construct dflt cap = Inr b" and "length xs \<le> cap"
    and "queue_run cb_try_push (cb_pop moved) b (map Push xs) = (b1, outs1)"
    and "queue_run cb_try_push (cb_pop moved) b1 (replicate (length xs) Pop) = (b2, outs2)"
  shows "outs1 = replicate (length xs) (Pushed True) \<and> outs2 = map (\<lambda>x. Popped (Some x)) xs \<and> cb_empty b2"
proof -
  have b: "cb_inv b" "cb_list b = []" "cb_capacity b = cap" using cb_inv_construct [OF assms(1)] by auto
  have p: "cb_inv b1" "cb_list b1 = xs" "outs1 = replicate (length xs) (Pushed True)"
    using cb.push_all [OF b(1) _ assms(3)] b assms(2) by auto
  show ?thesis
    using cb.pop_all [OF p(1,2) assms(4)] p by (simp add: cb_list_Nil cb_empty_def)
qed

theorem circular_buffer_fifo_witness:
  "queue_run cb_try_push (cb_pop (\<lambda>_. 0)) \<lparr>cb_buffer = [7, 8 :: nat], cb_head = 1, cb_count = 2\<rparr> [Pop, Pop]
     = (\<lparr>cb_buffer = [0, 0], cb_head = 1, cb_count = 0\<rparr>, [Popped (Some 8), Popped (Some 7)])
   \<and> map (\<lambda>x. Popped (Some x)) [5, 6 :: nat] = [Popped (Some 5), Popped (Some 6)]"
proof -
  let ?b = "\<lparr>cb_buffer = [0, 0 :: nat], cb_head = 0, cb_count = 0\<rparr>"
  have c: "cb_construct 0 2 = Inr ?b" by (simp add: cb_construct_def numeral_2_eq_2)
  have r1: "queue_run cb_try_push (cb_pop (\<lambda>_. 0)) ?b (map Push [5, 6]) =
      (\<lparr>cb_buffer = [5, 6], cb_head = 0, cb_count = 2\<rparr>, [Pushed True, Pushed True])" by code_simp
  have r2: "queue_run cb_try_push (cb_pop (\<lambda>_. 0)) \<lparr>cb_buffer = [5, 6 :: nat], cb_head = 0, cb_count = 2\<rparr>
      (replicate (length [5, 6 :: nat]) Pop) =
      (\<lparr>cb_buffer = [0, 0], cb_head = 0, cb_count = 0\<rparr>, [Popped (Some 5), Popped (Some 6)])" by code_simp
  have "queue_run cb_try_push (cb_pop (\<lambda>_. 0)) \<lparr>cb_buffer = [7, 8 :: nat], cb_head = 1, cb_count = 2\<rparr> [Pop, Pop]
     = (\<lparr>cb_buffer = [0, 0], cb_head = 1, cb_count = 0\<rparr>, [Popped (Some 8), Popped (Some 7)])" by code_simp
  then show ?thesis using circular_buffer_fifo [OF c _ r1 r2] by simp
qed

end
