(* ===== verification/Object_Pool.thy ===== *)
theory Object_Pool
  imports Egl_Prelude "HOL-Library.Multiset"
begin

text \<open>
  \<open>ObjectPool<T>\<close> (object\_pool.hpp): a fixed set of objects lent through move-only
  handles. The pool keeps the free slots on a stack; a handle is a pair of a
  pool pointer, modelled by the flag that it is not null, and a slot index. The
  mutex serialises \<open>try_acquire\<close>, \<open>release\<close> and the size queries, so that a
  concurrent execution is a sequence of the operations of this theory. The
  client of the properties owns an array of handle variables and acquires, moves,
  assigns, destroys and writes through them in any order.
\<close>

section \<open>The pool and its handles\<close>

record 'a object_pool =
  op_storage :: "'a list"
  op_free_slots :: "nat list"
  op_free_count :: nat

record handle =
  h_pool :: bool
  h_index :: nat

fun init_loop :: "nat \<Rightarrow> nat \<Rightarrow> nat list \<Rightarrow> nat list" where
  "init_loop i 0 slots = slots"
| "init_loop i (Suc k) slots = init_loop (i + 1) k (slots[i := i])"

definition init_free_list :: "'a object_pool \<Rightarrow> 'a object_pool" where
  "init_free_list p =
     (let n = length (op_storage p); slots = take n (op_free_slots p) @ replicate (n - length (op_free_slots p)) 0 in
      p\<lparr>op_free_slots := init_loop 0 n slots, op_free_count := n\<rparr>)"

definition op_construct :: "'a \<Rightarrow> nat \<Rightarrow> 'a object_pool" where
  "op_construct dflt cap =
     init_free_list \<lparr>op_storage = replicate cap dflt, op_free_slots = [], op_free_count = 0\<rparr>"

text \<open>The factory is a callable with a state of its own.\<close>

fun factory_loop :: "('s \<Rightarrow> 'a \<times> 's) \<Rightarrow> nat \<Rightarrow> 's \<Rightarrow> 'a list \<Rightarrow> 'a list" where
  "factory_loop factory 0 s storage = storage"
| "factory_loop factory (Suc k) s storage =
     (case factory s of (x, s') \<Rightarrow> factory_loop factory k s' (storage @ [x]))"

definition op_construct_factory :: "('s \<Rightarrow> 'a \<times> 's) \<Rightarrow> 's \<Rightarrow> nat \<Rightarrow> 'a object_pool" where
  "op_construct_factory factory s cap =
     init_free_list \<lparr>op_storage = factory_loop factory cap s [], op_free_slots = [], op_free_count = 0\<rparr>"

definition try_acquire :: "'a object_pool \<Rightarrow> 'a object_pool \<times> handle option" where
  "try_acquire p =
     (if op_free_count p = 0 then (p, None)
      else
        let free_count = op_free_count p - 1 in
        (p\<lparr>op_free_count := free_count\<rparr>, Some \<lparr>h_pool = True, h_index = op_free_slots p ! free_count\<rparr>))"

definition op_capacity :: "'a object_pool \<Rightarrow> nat" where
  "op_capacity p = length (op_storage p)"

definition available :: "'a object_pool \<Rightarrow> nat" where
  "available p = op_free_count p"

definition in_use :: "'a object_pool \<Rightarrow> nat" where
  "in_use p = length (op_storage p) - op_free_count p"

definition release :: "'a object_pool \<Rightarrow> nat \<Rightarrow> 'a object_pool" where
  "release p index =
     p\<lparr>op_free_slots := (op_free_slots p)[op_free_count p := index], op_free_count := op_free_count p + 1\<rparr>"

definition release_slot :: "'a object_pool \<Rightarrow> handle \<Rightarrow> 'a object_pool \<times> handle" where
  "release_slot p h = (if h_pool h then (release p (h_index h), h\<lparr>h_pool := False\<rparr>) else (p, h))"

text \<open>The move constructor returns the new handle and what is left of the other one.\<close>

definition handle_move :: "handle \<Rightarrow> handle \<times> handle" where
  "handle_move other = (\<lparr>h_pool = h_pool other, h_index = h_index other\<rparr>, other\<lparr>h_pool := False\<rparr>)"

text \<open>Move assignment of a different handle; a self-assignment does nothing.\<close>

definition handle_assign :: "'a object_pool \<Rightarrow> handle \<Rightarrow> handle \<Rightarrow> 'a object_pool \<times> handle \<times> handle" where
  "handle_assign p this other =
     (case release_slot p this of (p', this') \<Rightarrow>
        (p', this'\<lparr>h_pool := h_pool other, h_index := h_index other\<rparr>, other\<lparr>h_pool := False\<rparr>))"

definition handle_get :: "'a object_pool \<Rightarrow> handle \<Rightarrow> 'a cpp" where
  "handle_get p h =
     (if h_pool h \<and> h_index h < length (op_storage p) then Inr (op_storage p ! h_index h)
      else Inl Undefined_behaviour)"

text \<open>Assignment through the reference that \<open>operator*\<close> returns.\<close>

definition handle_put :: "'a object_pool \<Rightarrow> handle \<Rightarrow> 'a \<Rightarrow> 'a object_pool cpp" where
  "handle_put p h v =
     (if h_pool h \<and> h_index h < length (op_storage p) then Inr (p\<lparr>op_storage := (op_storage p)[h_index h := v]\<rparr>)
      else Inl Undefined_behaviour)"

section \<open>A client with handle variables\<close>

datatype 'a pool_op =
    Acquire
  | Move_construct nat
  | Move_assign nat nat
  | Destroy nat
  | Write nat 'a

text \<open>A dereference of a null handle, which has no defined behaviour, is not a step.\<close>

fun pool_step :: "'a pool_op \<Rightarrow> 'a object_pool \<times> handle list \<Rightarrow> 'a object_pool \<times> handle list" where
  "pool_step Acquire (p, hs) =
     (case try_acquire p of (p', None) \<Rightarrow> (p', hs) | (p', Some h) \<Rightarrow> (p', hs @ [h]))"
| "pool_step (Move_construct i) (p, hs) =
     (if i < length hs then case handle_move (hs ! i) of (h, old) \<Rightarrow> (p, hs[i := old] @ [h]) else (p, hs))"
| "pool_step (Move_assign i j) (p, hs) =
     (if i < length hs \<and> j < length hs \<and> i \<noteq> j
      then case handle_assign p (hs ! i) (hs ! j) of (p', this, other) \<Rightarrow> (p', hs[i := this, j := other])
      else (p, hs))"
| "pool_step (Destroy i) (p, hs) =
     (if i < length hs then case release_slot p (hs ! i) of (p', h) \<Rightarrow> (p', hs[i := h]) else (p, hs))"
| "pool_step (Write i v) (p, hs) =
     (if i < length hs then case handle_put p (hs ! i) v of Inr p' \<Rightarrow> (p', hs) | Inl _ \<Rightarrow> (p, hs) else (p, hs))"

definition pool_run :: "'a \<Rightarrow> nat \<Rightarrow> 'a pool_op list \<Rightarrow> 'a object_pool \<times> handle list" where
  "pool_run dflt cap ops = fold pool_step ops (op_construct dflt cap, [])"

section \<open>Every slot is free once or lent once\<close>

definition held :: "handle \<Rightarrow> nat multiset" where
  "held h = (if h_pool h then {#h_index h#} else {#})"

fun lent :: "handle list \<Rightarrow> nat multiset" where
  "lent [] = {#}"
| "lent (h # hs) = held h + lent hs"

definition pool_inv :: "'a object_pool \<times> handle list \<Rightarrow> bool" where
  "pool_inv s \<longleftrightarrow> (case s of (p, hs) \<Rightarrow>
     length (op_free_slots p) = length (op_storage p) \<and> op_free_count p \<le> length (op_storage p) \<and>
     mset (take (op_free_count p) (op_free_slots p)) + lent hs = mset [0..<length (op_storage p)])"

lemma lent_append [simp]: "lent (xs @ ys) = lent xs + lent ys"
  by (induction xs) auto

lemma lent_update: "i < length hs \<Longrightarrow> lent (hs[i := h]) + held (hs ! i) = lent hs + held h"
  by (induction hs arbitrary: i) (auto simp: nth_Cons ac_simps split: nat.splits)

lemma lent_nth: "i < length hs \<Longrightarrow> held (hs ! i) \<subseteq># lent hs"
  by (induction hs arbitrary: i) (auto simp: nth_Cons mset_subset_eq_add_left subset_mset.add_increasing split: nat.splits)

lemma lent_nth2: "i < length hs \<Longrightarrow> j < length hs \<Longrightarrow> i \<noteq> j \<Longrightarrow> held (hs ! i) + held (hs ! j) \<subseteq># lent hs"
proof (induction hs arbitrary: i j)
  case (Cons h hs)
  then show ?case
    by (cases i; cases j)
      (auto simp: lent_nth subset_mset.add_increasing add.commute [of "held (hs ! _)" "held h"] subset_mset.add_left_mono)
qed simp

lemma size_lent: "size (lent hs) = length (filter h_pool hs)"
  by (induction hs) (auto simp: held_def)

lemma init_loop_nth:
  "i + k = length slots \<Longrightarrow> init_loop i k slots = take i slots @ [i..<i + k]"
proof (induction k arbitrary: i slots)
  case (Suc k)
  then have "init_loop i (Suc k) slots = take (i + 1) (slots[i := i]) @ [i + 1..<i + 1 + k]" by simp
  also have "take (i + 1) (slots[i := i]) = take i slots @ [i]"
    using Suc.prems by (simp add: take_Suc_conv_app_nth)
  also have "(take i slots @ [i]) @ [i + 1..<i + 1 + k] = take i slots @ [i..<i + Suc k]"
    by (simp add: upt_rec)
  finally show ?case .
qed simp

lemma pool_inv_init: "pool_inv (init_free_list p, [])"
  by (simp add: pool_inv_def init_free_list_def Let_def init_loop_nth)

lemma op_construct_inv: "pool_inv (op_construct dflt cap, [])"
    and op_construct_factory_inv: "pool_inv (op_construct_factory factory s cap, [])"
  by (simp_all add: op_construct_def op_construct_factory_def pool_inv_init)

lemma pool_inv_size:
  assumes "pool_inv (p, hs)"
  shows "op_free_count p + size (lent hs) = length (op_storage p)"
proof -
  have "mset (take (op_free_count p) (op_free_slots p)) + lent hs = mset [0..<length (op_storage p)]"
    and "length (take (op_free_count p) (op_free_slots p)) = op_free_count p"
    using assms by (auto simp: pool_inv_def)
  then show ?thesis by (metis size_mset size_union length_upt diff_zero)
qed

text \<open>Returning a slot that is lent: there is room on the stack of free slots.\<close>

lemma pool_inv_release:
  assumes "pool_inv (p, hs)" and "i < length hs" and "h_pool (hs ! i)"
  shows "op_free_count p < length (op_free_slots p)"
    and "held h = {#} \<Longrightarrow> pool_inv (release p (h_index (hs ! i)), hs[i := h])"
proof -
  let ?n = "length (op_storage p)" and ?k = "op_free_count p"
  have inv: "length (op_free_slots p) = ?n" "?k \<le> ?n" "mset (take ?k (op_free_slots p)) + lent hs = mset [0..<?n]"
    using assms(1) by (auto simp: pool_inv_def)
  have "?k + size (lent hs) = ?n" using pool_inv_size [OF assms(1)] .
  moreover have "size (lent hs) \<ge> 1"
    using size_mset_mono [OF lent_nth [OF assms(2)]] assms(3) by (simp add: held_def)
  ultimately show k: "?k < length (op_free_slots p)" using inv(1) by simp
  assume h: "held h = {#}"
  have "take (?k + 1) ((op_free_slots p)[?k := h_index (hs ! i)]) = take ?k (op_free_slots p) @ [h_index (hs ! i)]"
    using k by (simp add: take_Suc_conv_app_nth)
  moreover have "lent (hs[i := h]) + {#h_index (hs ! i)#} = lent hs"
    using lent_update [OF assms(2), of h] h assms(3) by (simp add: held_def)
  then have "add_mset (h_index (hs ! i)) (mset (take ?k (op_free_slots p)) + lent (hs[i := h])) = mset [0..<?n]"
    using inv(3) by (metis add_mset_add_single union_mset_add_mset_right)
  ultimately show "pool_inv (release p (h_index (hs ! i)), hs[i := h])"
    using inv k by (simp add: pool_inv_def release_def)
qed

lemma pool_inv_release_slot:
  assumes "pool_inv (p, hs)" and "i < length hs" and "release_slot p (hs ! i) = (p', h)"
  shows "pool_inv (p', hs[i := h]) \<and> \<not> h_pool h \<and> op_storage p' = op_storage p"
proof (cases "h_pool (hs ! i)")
  case True
  with assms pool_inv_release(2) [OF assms(1,2) True, of h] show ?thesis
    by (auto simp: release_slot_def held_def release_def)
next
  case False
  with assms show ?thesis by (auto simp: release_slot_def)
qed

text \<open>Moving a handle from variable \<open>j\<close> to a variable that holds nothing.\<close>

lemma pool_inv_shift:
  assumes "pool_inv (p, hs)" and "i < length hs" and "j < length hs" and "i \<noteq> j" and "\<not> h_pool (hs ! i)"
    and "held h = held (hs ! j)" and "\<not> h_pool h'"
  shows "pool_inv (p, hs[i := h, j := h'])"
proof -
  have "lent (hs[i := h, j := h']) + held (hs ! j) = lent (hs[i := h]) + held h'"
    using lent_update [of j "hs[i := h]" h'] assms(3,4) by simp
  moreover have "lent (hs[i := h]) = lent hs + held h"
    using lent_update [OF assms(2), of h] assms(5) by (simp add: held_def)
  ultimately have "lent (hs[i := h, j := h']) = lent hs" using assms(6,7) by (simp add: held_def)
  with assms(1) show ?thesis by (simp add: pool_inv_def)
qed

lemma pool_inv_move:
  assumes "pool_inv (p, hs)" and "i < length hs" and "handle_move (hs ! i) = (h, old)"
  shows "pool_inv (p, hs[i := old] @ [h])"
proof -
  have "lent (hs[i := old]) + held h = lent hs"
    using lent_update [OF assms(2), of old] assms(3) by (auto simp: handle_move_def held_def)
  with assms(1) show ?thesis by (simp add: pool_inv_def)
qed

lemma pool_inv_acquire:
  assumes "pool_inv (p, hs)" and "try_acquire p = (p', r)"
  shows "pool_inv (p', hs @ (case r of None \<Rightarrow> [] | Some h \<Rightarrow> [h]))"
    and "r = None \<longleftrightarrow> available p = 0" and "op_storage p' = op_storage p"
    and "r = Some h \<Longrightarrow> h_pool h"
proof -
  show "r = None \<longleftrightarrow> available p = 0" "op_storage p' = op_storage p" "r = Some h \<Longrightarrow> h_pool h"
    using assms(2) by (auto simp: try_acquire_def available_def Let_def split: if_splits)
  have "pool_inv (p\<lparr>op_free_count := k\<rparr>, hs @ [\<lparr>h_pool = True, h_index = op_free_slots p ! k\<rparr>])"
    if "op_free_count p = Suc k" for k
    using that assms(1) by (auto simp: pool_inv_def held_def take_Suc_conv_app_nth ac_simps)
  then show "pool_inv (p', hs @ (case r of None \<Rightarrow> [] | Some h \<Rightarrow> [h]))"
    using assms by (cases "op_free_count p") (auto simp: try_acquire_def)
qed

lemma pool_step_inv: "pool_inv s \<Longrightarrow> pool_inv (pool_step c s)"
proof (cases s)
  case (Pair p hs)
  assume "pool_inv s"
  with Pair have inv: "pool_inv (p, hs)" by simp
  show ?thesis
  proof (cases c)
    case Acquire
    with Pair pool_inv_acquire(1) [OF inv] show ?thesis
      by (auto split: prod.splits option.splits)
  next
    case (Move_construct i)
    with Pair inv pool_inv_move [OF inv, of i] show ?thesis by (auto split: prod.splits)
  next
    case (Move_assign i j)
    obtain p' h where r: "release_slot p (hs ! i) = (p', h)" by (cases "release_slot p (hs ! i)")
    show ?thesis
    proof (cases "i < length hs \<and> j < length hs \<and> i \<noteq> j")
      case True
      then have "pool_inv (p', hs[i := h])" "\<not> h_pool h"
        using pool_inv_release_slot [OF inv _ r] by auto
      with True have "pool_inv (p', hs[i := h, i := h\<lparr>h_pool := h_pool (hs ! j), h_index := h_index (hs ! j)\<rparr>,
          j := (hs ! j)\<lparr>h_pool := False\<rparr>])"
        by (intro pool_inv_shift) (auto simp: held_def)
      with True r Move_assign Pair show ?thesis by (simp add: handle_assign_def)
    qed (use Move_assign Pair inv in auto)
  next
    case (Destroy i)
    with Pair inv pool_inv_release_slot [OF inv, of i] show ?thesis by (auto split: prod.splits)
  next
    case (Write i v)
    with Pair inv show ?thesis by (auto simp: handle_put_def pool_inv_def split: sum.splits)
  qed
qed

lemma pool_step_capacity: "length (op_storage (fst (pool_step c s))) = length (op_storage (fst s))"
proof (cases s)
  case (Pair p hs)
  then show ?thesis
    by (cases c) (auto simp: try_acquire_def Let_def handle_assign_def release_slot_def release_def handle_put_def
        handle_move_def split: prod.splits option.splits sum.splits if_splits)
qed

lemma pool_run_inv: "pool_inv (pool_run dflt cap ops) \<and> length (op_storage (fst (pool_run dflt cap ops))) = cap"
proof -
  have "pool_inv (fold pool_step ops s) \<and> length (op_storage (fst (fold pool_step ops s))) = length (op_storage (fst s))"
    if "pool_inv s" for s :: "'a object_pool \<times> handle list"
    using that by (induction ops arbitrary: s) (auto simp: pool_step_inv pool_step_capacity)
  from this [OF op_construct_inv] show ?thesis
    by (simp add: pool_run_def op_construct_def init_free_list_def Let_def)
qed

text \<open>Distinct variables that hold a slot hold distinct slots, inside the storage.\<close>

lemma pool_inv_exclusive:
  assumes "pool_inv (p, hs)" and "i < length hs" and "h_pool (hs ! i)"
  shows "h_index (hs ! i) < op_capacity p"
    and "h_index (hs ! i) \<notin> set (take (op_free_count p) (op_free_slots p))"
    and "j < length hs \<Longrightarrow> j \<noteq> i \<Longrightarrow> h_pool (hs ! j) \<Longrightarrow> h_index (hs ! j) \<noteq> h_index (hs ! i)"
proof -
  let ?free = "mset (take (op_free_count p) (op_free_slots p))" and ?x = "h_index (hs ! i)"
  have sum: "?free + lent hs = mset [0..<length (op_storage p)]" using assms(1) by (simp add: pool_inv_def)
  have c: "count (?free + lent hs) ?x \<le> 1" unfolding sum by (simp add: count_mset_set')
  have l: "?x \<in># lent hs" using lent_nth [OF assms(2)] assms(3) by (auto simp: held_def)
  then have "?x \<in># mset [0..<length (op_storage p)]" unfolding sum [symmetric] by simp
  then show "?x < op_capacity p" by (simp add: op_capacity_def)
  show "?x \<notin> set (take (op_free_count p) (op_free_slots p))"
  proof
    assume "?x \<in> set (take (op_free_count p) (op_free_slots p))"
    then have "count ?free ?x \<ge> 1" by simp
    with c l show False by (simp add: Suc_le_eq flip: count_greater_zero_iff)
  qed
  assume j: "j < length hs" "j \<noteq> i" "h_pool (hs ! j)"
  show "h_index (hs ! j) \<noteq> ?x"
  proof
    assume "h_index (hs ! j) = ?x"
    with lent_nth2 [OF assms(2) j(1)] j assms(3) have "{#?x, ?x#} \<subseteq># lent hs" by (simp add: held_def)
    then have "count (lent hs) ?x \<ge> 2" using mset_subset_eq_count [of "{#?x, ?x#}" "lent hs" ?x] by simp
    with c show False by simp
  qed
qed

text \<open>
  Property C9. Exclusive lending. Whatever a client does with its handles (acquire, move,
  assign, destroy, write), two handles never refer to the same slot, no handle refers to a
  slot that is free, every handle refers to a slot of the storage, and writing through
  one handle does not change what another one reads.
\<close>

theorem object_pool_exclusive:
  assumes "pool_run dflt cap ops = (p, hs)" and "i < length hs" and "h_pool (hs ! i)"
  shows "h_index (hs ! i) < op_capacity p \<and> op_capacity p = cap \<and>
    h_index (hs ! i) \<notin> set (take (available p) (op_free_slots p)) \<and>
    (\<exists>x. handle_get p (hs ! i) = Inr x) \<and>
    (\<forall>j < length hs. j \<noteq> i \<longrightarrow> h_pool (hs ! j) \<longrightarrow> h_index (hs ! j) \<noteq> h_index (hs ! i) \<and>
      (\<exists>p'. handle_put p (hs ! j) v = Inr p' \<and> handle_get p' (hs ! i) = handle_get p (hs ! i)))"
proof -
  have inv: "pool_inv (p, hs)" and "length (op_storage p) = cap"
    using pool_run_inv [of dflt cap ops] assms(1) by auto
  moreover have "\<exists>p'. handle_put p (hs ! j) v = Inr p' \<and> handle_get p' (hs ! i) = handle_get p (hs ! i)"
    if "j < length hs" "j \<noteq> i" "h_pool (hs ! j)" for j
    using pool_inv_exclusive(1) [OF inv that(1,3)] pool_inv_exclusive(3) [OF inv assms(2,3) that] that(3)
    by (simp add: handle_put_def handle_get_def op_capacity_def)
  ultimately show ?thesis
    using pool_inv_exclusive [OF inv assms(2,3)] assms(3)
    by (auto simp: op_capacity_def available_def handle_get_def)
qed

theorem object_pool_exclusive_witness:
  "pool_run (0 :: nat) 2 [Acquire, Acquire, Acquire, Destroy 0, Move_construct 1, Acquire] =
     (\<lparr>op_storage = [0, 0], op_free_slots = [1, 1], op_free_count = 0\<rparr>,
      [\<lparr>h_pool = False, h_index = 1\<rparr>, \<lparr>h_pool = False, h_index = 0\<rparr>, \<lparr>h_pool = True, h_index = 0\<rparr>,
       \<lparr>h_pool = True, h_index = 1\<rparr>]) \<and> (1 :: nat) < 2"
proof -
  let ?p = "\<lparr>op_storage = [0, 0 :: nat], op_free_slots = [1, 1], op_free_count = 0\<rparr>"
  let ?hs = "[\<lparr>h_pool = False, h_index = 1\<rparr>, \<lparr>h_pool = False, h_index = 0\<rparr>, \<lparr>h_pool = True, h_index = 0\<rparr>,
       \<lparr>h_pool = True, h_index = 1\<rparr>]"
  have r: "pool_run (0 :: nat) 2 [Acquire, Acquire, Acquire, Destroy 0, Move_construct 1, Acquire] = (?p, ?hs)"
    by code_simp
  with object_pool_exclusive [OF r, of 3] show ?thesis by (simp add: op_capacity_def)
qed

text \<open>
  Accounting. \<open>in_use\<close> is the number of handles that hold a slot,
  \<open>available\<close> and \<open>in_use\<close> add up to the capacity, \<open>try_acquire\<close> fails exactly when all
  slots are lent, and the write of \<open>release\<close> into the free-slot stack stays inside it
  whenever a handle returns its slot.
\<close>

theorem object_pool_accounting:
  assumes "pool_run dflt cap ops = (p, hs)"
  shows "in_use p = length (filter h_pool hs) \<and> available p + in_use p = cap \<and>
    (snd (try_acquire p) = None \<longleftrightarrow> length (filter h_pool hs) = cap) \<and>
    (\<forall>h \<in> set hs. h_pool h \<longrightarrow> op_free_count p < length (op_free_slots p))"
proof -
  have inv: "pool_inv (p, hs)" and cap: "length (op_storage p) = cap"
    using pool_run_inv [of dflt cap ops] assms(1) by auto
  have slots: "length (op_free_slots p) = cap" "op_free_count p \<le> cap"
    "mset (take (op_free_count p) (op_free_slots p)) + lent hs = mset [0..<cap]"
    using inv cap by (auto simp: pool_inv_def)
  have "op_free_count p + size (lent hs) = cap" using pool_inv_size [OF inv] cap by simp
  moreover have "op_free_count p < length (op_free_slots p)" if "h \<in> set hs" "h_pool h" for h
    using that pool_inv_release(1) [OF inv] by (auto simp: in_set_conv_nth)
  ultimately show ?thesis
    using cap by (auto simp: in_use_def available_def size_lent try_acquire_def Let_def)
qed

theorem object_pool_accounting_witness:
  "in_use \<lparr>op_storage = [0, 7, 0 :: nat], op_free_slots = [0, 2, 2], op_free_count = 2\<rparr> = 1"
proof -
  have r: "pool_run (0 :: nat) 3 [Acquire, Acquire, Write 1 7, Move_assign 0 1] =
      (\<lparr>op_storage = [0, 7, 0], op_free_slots = [0, 2, 2], op_free_count = 2\<rparr>,
       [\<lparr>h_pool = True, h_index = 1\<rparr>, \<lparr>h_pool = False, h_index = 1\<rparr>])"
    by code_simp
  from object_pool_accounting [OF r] show ?thesis by simp
qed

end
