(* ===== verification/Stack_Allocator.thy ===== *)
theory Stack_Allocator
  imports Egl_Prelude
begin

text \<open>
  \<open>StackAllocator<Size>\<close> (stack\_allocator.hpp): a bump allocator over a buffer inside
  the object. Sizes, offsets and alignments are 64-bit words, as \<open>std::size_t\<close> is,
  and wrap around as the source's do. The buffer starts at the address \<open>sa_base\<close>;
  addresses are natural numbers. The client of the properties keeps the list of
  the blocks it was given and has not released.
\<close>

section \<open>The allocator\<close>

record stack_allocator =
  sa_base :: nat
  sa_capacity :: size_t
  sa_offset :: size_t

definition sa_construct :: "nat \<Rightarrow> size_t \<Rightarrow> stack_allocator cpp" where
  "sa_construct base size_arg =
     (if size_arg > 0 then Inr \<lparr>sa_base = base, sa_capacity = size_arg, sa_offset = 0\<rparr>
      else Inl Assert_failed)"

text \<open>
  \<open>std::align\<close>: the first multiple of the alignment that is not below the given
  address, if \<open>bytes\<close> bytes from there on fit into the space.
\<close>

definition std_align :: "nat \<Rightarrow> nat \<Rightarrow> nat \<Rightarrow> nat \<Rightarrow> nat option" where
  "std_align alignment bytes ptr space =
     (let aligned = (ptr + (alignment - 1)) div alignment * alignment; diff = aligned - ptr in
      if space < bytes \<or> diff > space - bytes then None else Some aligned)"

definition allocate :: "stack_allocator \<Rightarrow> size_t \<Rightarrow> size_t \<Rightarrow> stack_allocator \<times> nat cpp" where
  "allocate a bytes alignment =
     (if \<not> (alignment > 0 \<and> and alignment (alignment - 1) = 0) then (a, Inl Assert_failed)
      else
        let cursor = sa_base a + unat (sa_offset a);
            space = sa_capacity a - sa_offset a
        in
          case std_align (unat alignment) (unat bytes) cursor (unat space) of
            None \<Rightarrow> (a, Inl Bad_alloc)
          | Some aligned \<Rightarrow>
              (a\<lparr>sa_offset := of_nat (aligned - sa_base a) + bytes\<rparr>, Inr aligned))"

text \<open>\<open>allocate_uninitialized<T>\<close>, given \<open>sizeof(T)\<close> and \<open>alignof(T)\<close>.\<close>

definition allocate_uninitialized ::
  "stack_allocator \<Rightarrow> size_t \<Rightarrow> size_t \<Rightarrow> size_t \<Rightarrow> stack_allocator \<times> nat cpp" where
  "allocate_uninitialized a size_of align_of count = allocate a (count * size_of) align_of"

definition sa_reset :: "stack_allocator \<Rightarrow> stack_allocator" where
  "sa_reset a = a\<lparr>sa_offset := 0\<rparr>"

definition sa_mark :: "stack_allocator \<Rightarrow> size_t" where
  "sa_mark a = sa_offset a"

definition sa_rewind :: "stack_allocator \<Rightarrow> size_t \<Rightarrow> stack_allocator cpp" where
  "sa_rewind a marker =
     (if marker \<le> sa_offset a then Inr (a\<lparr>sa_offset := marker\<rparr>) else Inl Assert_failed)"

definition sa_used :: "stack_allocator \<Rightarrow> size_t" where
  "sa_used a = sa_offset a"

definition sa_remaining :: "stack_allocator \<Rightarrow> size_t" where
  "sa_remaining a = sa_capacity a - sa_offset a"

section \<open>A client with its blocks\<close>

datatype sa_op = Allocate size_t size_t | Allocate_objects size_t size_t size_t | Reset | Rewind size_t

record block =
  b_addr :: nat
  b_bytes :: nat
  b_align :: nat

definition block_end :: "block \<Rightarrow> nat" where
  "block_end b = b_addr b + b_bytes b"

text \<open>
  The newest block comes first. \<open>reset\<close> ends the life of every block, \<open>rewind\<close> of
  every block that reaches beyond the marker; a call whose precondition is violated is not made.
\<close>

definition give :: "nat \<Rightarrow> nat \<Rightarrow> stack_allocator \<times> nat cpp \<Rightarrow> block list \<Rightarrow> stack_allocator \<times> block list" where
  "give bytes alignment r bs =
     (case r of (a, Inl _) \<Rightarrow> (a, bs)
      | (a, Inr addr) \<Rightarrow> (a, \<lparr>b_addr = addr, b_bytes = bytes, b_align = alignment\<rparr> # bs))"

fun sa_step :: "sa_op \<Rightarrow> stack_allocator \<times> block list \<Rightarrow> stack_allocator \<times> block list" where
  "sa_step (Allocate bytes alignment) (a, bs) =
     give (unat bytes) (unat alignment) (allocate a bytes alignment) bs"
| "sa_step (Allocate_objects size_of align_of count) (a, bs) =
     give (unat (count * size_of)) (unat align_of) (allocate_uninitialized a size_of align_of count) bs"
| "sa_step Reset (a, bs) = (sa_reset a, [])"
| "sa_step (Rewind marker) (a, bs) =
     (case sa_rewind a marker of Inl _ \<Rightarrow> (a, bs)
      | Inr a' \<Rightarrow> (a', filter (\<lambda>b. block_end b \<le> sa_base a + unat marker) bs))"

section \<open>Alignment\<close>

lemma align_up:
  fixes p n :: nat
  assumes "n > 0"
  defines "q \<equiv> (p + (n - 1)) div n * n"
  shows "p \<le> q" and "q mod n = 0" and "r mod n = 0 \<Longrightarrow> p \<le> r \<Longrightarrow> q \<le> r"
proof -
  have "(p + (n - 1)) mod n < n" using assms by simp
  moreover have "q + (p + (n - 1)) mod n = p + (n - 1)" by (simp add: q_def)
  ultimately show "p \<le> q" using assms(1) by linarith
  show "q mod n = 0" by (simp add: q_def)
  assume "r mod n = 0" "p \<le> r"
  then obtain k where k: "r = k * n" by (auto simp: mod_eq_0_iff_dvd dvd_def mult.commute)
  have "p + (n - 1) < Suc k * n" using \<open>p \<le> r\<close> assms(1) k by (simp add: algebra_simps)
  then have "(p + (n - 1)) div n < Suc k" by (rule less_mult_imp_div_less)
  then have "(p + (n - 1)) div n \<le> k" by simp
  then show "q \<le> r" unfolding q_def k by (rule mult_le_mono1)
qed

lemma std_align_Some:
  assumes "alignment > 0" and "std_align alignment bytes ptr space = Some q"
  shows "ptr \<le> q" and "q mod alignment = 0" and "q + bytes \<le> ptr + space"
  using assms align_up [OF assms(1), of ptr] by (auto simp: std_align_def Let_def split: if_splits)

lemma std_align_None:
  assumes "alignment > 0" and "std_align alignment bytes ptr space = None"
    and "q mod alignment = 0" and "ptr \<le> q"
  shows "\<not> q + bytes \<le> ptr + space"
  using assms align_up [OF assms(1), of ptr] align_up(3) [OF assms(1,3,4)]
  by (auto simp: std_align_def Let_def split: if_splits)

section \<open>The blocks stay apart\<close>

definition sa_inv :: "stack_allocator \<times> block list \<Rightarrow> bool" where
  "sa_inv s \<longleftrightarrow> (case s of (a, bs) \<Rightarrow>
     sa_offset a \<le> sa_capacity a \<and>
     (\<forall>b \<in> set bs. sa_base a \<le> b_addr b \<and> block_end b \<le> sa_base a + unat (sa_offset a) \<and>
        b_addr b mod b_align b = 0) \<and>
     sorted_wrt (\<lambda>later earlier. block_end earlier \<le> b_addr later) bs)"

lemma allocate_correct:
  assumes "sa_inv (a, bs)" and "allocate a bytes alignment = (a', Inr q)"
  shows "sa_inv (a', \<lparr>b_addr = q, b_bytes = unat bytes, b_align = unat alignment\<rparr> # bs) \<and>
    unat (sa_offset a') = q - sa_base a + unat bytes \<and> sa_base a + unat (sa_offset a) \<le> q \<and>
    sa_base a' = sa_base a \<and> sa_capacity a' = sa_capacity a"
proof -
  let ?cursor = "sa_base a + unat (sa_offset a)" and ?space = "unat (sa_capacity a - sa_offset a)"
  have le: "sa_offset a \<le> sa_capacity a" using assms(1) by (simp add: sa_inv_def)
  then have space: "?space = unat (sa_capacity a) - unat (sa_offset a)" by (rule unat_sub)
  have pos: "unat alignment > 0"
    and q: "std_align (unat alignment) (unat bytes) ?cursor ?space = Some q"
    and a': "a' = a\<lparr>sa_offset := of_nat (q - sa_base a) + bytes\<rparr>"
    using assms(2) by (auto simp: allocate_def Let_def word_neq_0_conv [symmetric] unat_gt_0 split: if_splits option.splits)
  note fit = std_align_Some [OF pos q]
  have bound: "q - sa_base a + unat bytes \<le> unat (sa_capacity a)"
    using fit space le by (simp add: word_le_nat_alt)
  have off: "unat (sa_offset a') = q - sa_base a + unat bytes"
  proof -
    have "sa_offset a' = of_nat (q - sa_base a + unat bytes)" by (simp add: a')
    moreover have "q - sa_base a + unat bytes < 2 ^ 64"
      using bound unat_less64 [of "sa_capacity a"] by linarith
    ultimately show ?thesis by (simp only: unat_of_nat64)
  qed
  have "\<forall>b \<in> set bs. block_end b \<le> q" using assms(1) fit(1) by (auto simp: sa_inv_def)
  then have "sa_inv (a', \<lparr>b_addr = q, b_bytes = unat bytes, b_align = unat alignment\<rparr> # bs)"
    using assms(1) off bound fit by (auto simp: sa_inv_def a' block_end_def word_le_nat_alt)
  with off fit a' show ?thesis by simp
qed

lemma allocate_Inl: "allocate a bytes alignment = (a', Inl e) \<Longrightarrow> a' = a"
  by (auto simp: allocate_def Let_def split: if_splits option.splits)

lemma sa_inv_give:
  assumes "sa_inv (a, bs)"
  shows "sa_inv (give (unat bytes) (unat alignment) (allocate a bytes alignment) bs)"
proof (cases "allocate a bytes alignment")
  case (Pair a' r)
  then show ?thesis
    using assms allocate_correct [OF assms] by (cases r) (auto simp: give_def dest: allocate_Inl)
qed

lemma sa_step_inv: "sa_inv s \<Longrightarrow> sa_inv (sa_step c s)"
proof (cases s)
  case (Pair a bs)
  assume "sa_inv s"
  with Pair have inv: "sa_inv (a, bs)" by simp
  show ?thesis
  proof (cases c)
    case (Rewind m)
    with Pair inv show ?thesis
      by (auto simp: sa_inv_def sa_rewind_def sorted_wrt_filter split: sum.splits)
  next
    case Reset
    with Pair inv show ?thesis by (simp add: sa_reset_def sa_inv_def)
  qed (use Pair inv in \<open>simp_all add: sa_inv_give allocate_uninitialized_def\<close>)
qed

lemma sa_step_fixed:
  "sa_base (fst (sa_step c s)) = sa_base (fst s) \<and> sa_capacity (fst (sa_step c s)) = sa_capacity (fst s)"
  by (cases s; cases c)
    (auto simp: give_def allocate_uninitialized_def allocate_def Let_def sa_reset_def sa_rewind_def
      split: prod.splits sum.splits option.splits if_splits)

lemma sa_run_inv:
  assumes "sa_construct base size_arg = Inr a" and "fold sa_step ops (a, []) = (a', bs)"
  shows "sa_inv (a', bs) \<and> sa_base a' = base \<and> sa_capacity a' = size_arg"
proof -
  have "sa_inv (fold sa_step ops s) \<and> sa_base (fst (fold sa_step ops s)) = sa_base (fst s) \<and>
      sa_capacity (fst (fold sa_step ops s)) = sa_capacity (fst s)" if "sa_inv s" for s
    using that by (induction ops arbitrary: s) (auto simp: sa_step_inv sa_step_fixed)
  moreover have "sa_inv (a, [])" "sa_base a = base" "sa_capacity a = size_arg"
    using assms(1) by (auto simp: sa_construct_def sa_inv_def split: if_splits)
  ultimately show ?thesis using assms(2) by (metis fst_conv)
qed

lemma sorted_wrt_nth_either:
  "sorted_wrt (\<lambda>later earlier. block_end earlier \<le> b_addr later) bs \<Longrightarrow> i < length bs \<Longrightarrow> j < length bs \<Longrightarrow> i \<noteq> j \<Longrightarrow>
    block_end (bs ! i) \<le> b_addr (bs ! j) \<or> block_end (bs ! j) \<le> b_addr (bs ! i)"
  by (metis sorted_wrt_nth_less linorder_neqE_nat)



text \<open>
  \<open>allocate\<close> throws \<open>std::bad_alloc\<close> exactly when no aligned address at or
  above the high-water mark leaves room for the bytes inside the buffer, and then
  changes nothing.
\<close>

theorem stack_allocator_bad_alloc:
  assumes "sa_construct base size_arg = Inr a" and "fold sa_step ops (a, []) = (a', bs)"
    and "alignment > 0" and "and alignment (alignment - 1) = 0"
    and "allocate a' bytes alignment = (a'', r)"
  shows "(r = Inl Bad_alloc \<longleftrightarrow>
      \<not> (\<exists>q. q mod unat alignment = 0 \<and> base + unat (sa_used a') \<le> q \<and> q + unat bytes \<le> base + unat size_arg)) \<and>
    (r = Inl Bad_alloc \<longrightarrow> a'' = a') \<and> (\<forall>e. r = Inl e \<longrightarrow> e = Bad_alloc)"
proof -
  have inv: "sa_offset a' \<le> sa_capacity a'" "sa_base a' = base" "sa_capacity a' = size_arg"
    using sa_run_inv [OF assms(1,2)] by (auto simp: sa_inv_def)
  have pos: "unat alignment > 0" using assms(3) by (simp add: word_less_nat_alt)
  have end_eq: "sa_base a' + unat (sa_offset a') + unat (sa_capacity a' - sa_offset a') = base + unat size_arg"
    using inv by (simp add: unat_sub word_le_nat_alt)
  show ?thesis
  proof (cases "std_align (unat alignment) (unat bytes) (sa_base a' + unat (sa_offset a'))
      (unat (sa_capacity a' - sa_offset a'))")
    case None
    with assms(3-5) have "r = Inl Bad_alloc" "a'' = a'" by (auto simp: allocate_def)
    moreover have "\<not> q + unat bytes \<le> base + unat size_arg"
      if "q mod unat alignment = 0" "base + unat (sa_used a') \<le> q" for q
      using std_align_None [OF pos None, of q] that end_eq inv(2) by (simp add: sa_used_def)
    ultimately show ?thesis by auto
  next
    case (Some q)
    with assms(3-5) have "r = Inr q" by (auto simp: allocate_def)
    moreover have "q mod unat alignment = 0 \<and> base + unat (sa_used a') \<le> q \<and> q + unat bytes \<le> base + unat size_arg"
      using std_align_Some [OF pos Some] end_eq inv(2) by (simp add: sa_used_def)
    ultimately show ?thesis by auto
  qed
qed

theorem stack_allocator_bad_alloc_witness:
  "snd (allocate \<lparr>sa_base = 1024, sa_capacity = 32, sa_offset = 3\<rparr> 29 2) = Inl Bad_alloc \<and>
   \<not> (\<exists>q. q mod 2 = 0 \<and> 1024 + 3 \<le> q \<and> q + 29 \<le> (1024 + 32 :: nat))"
proof -
  have c: "sa_construct 1024 32 = Inr \<lparr>sa_base = 1024, sa_capacity = 32, sa_offset = 0\<rparr>"
    by (simp add: sa_construct_def)
  have r: "fold sa_step [Allocate 3 1] (\<lparr>sa_base = 1024, sa_capacity = 32, sa_offset = 0\<rparr>, []) =
    (\<lparr>sa_base = 1024, sa_capacity = 32, sa_offset = 3\<rparr>, [\<lparr>b_addr = 1024, b_bytes = 3, b_align = 1\<rparr>])"
    by code_simp
  have al: "allocate \<lparr>sa_base = 1024, sa_capacity = 32, sa_offset = 3\<rparr> 29 2 =
      (\<lparr>sa_base = 1024, sa_capacity = 32, sa_offset = 3\<rparr>, Inl Bad_alloc)" by code_simp
  show ?thesis using stack_allocator_bad_alloc [OF c r _ _ al] al by (simp add: sa_used_def)
qed

text \<open>
  Property C11. The byte count of \<open>allocate_uninitialized\<close> is a product of two words and wraps
  around: a successful call advances the high-water mark by \<open>count * sizeof(T)\<close> modulo
  \<open>2 ^ 64\<close>, and the \<open>count\<close> objects fit into the buffer from the returned address on
  exactly when the product did not wrap around. The witness is a call that succeeds
  for \<open>2 ^ 61\<close> objects of eight bytes in a buffer of sixteen bytes.
\<close>

theorem allocate_uninitialized_wraps:
  assumes "sa_inv (a, bs)" and "allocate_uninitialized a size_of align_of count = (a', Inr q)"
  shows "unat (sa_used a') = q - sa_base a + unat count * unat size_of mod 2 ^ 64 \<and>
    (q + unat count * unat size_of \<le> sa_base a + unat (sa_capacity a) \<longleftrightarrow> unat count * unat size_of < 2 ^ 64)"
proof -
  have m: "unat (count * size_of) = unat count * unat size_of mod 2 ^ 64"
    using unat_word_ariths(2) [of count size_of] by simp
  note c = allocate_correct [OF assms(1) assms(2) [unfolded allocate_uninitialized_def]]
  have "unat (sa_capacity a) < 2 ^ 64" by (rule unat_less64)
  moreover have "sa_base a \<le> q" using c by simp
  moreover have "q + unat (count * size_of) \<le> sa_base a + unat (sa_capacity a)"
    using c by (auto simp: sa_inv_def block_end_def word_le_nat_alt)
  moreover have "unat (count * size_of) = unat count * unat size_of" if "unat count * unat size_of < 2 ^ 64"
    using m that by simp
  ultimately show ?thesis using c m by (auto simp: sa_used_def)
qed

theorem allocate_uninitialized_wraps_witness:
  "allocate_uninitialized \<lparr>sa_base = 1024, sa_capacity = 16, sa_offset = 0\<rparr> 8 8 (2 ^ 61) =
     (\<lparr>sa_base = 1024, sa_capacity = 16, sa_offset = 0\<rparr>, Inr 1024) \<and> \<not> 1024 + 2 ^ 61 * 8 \<le> (1024 + 16 :: nat)"
proof -
  have r: "allocate_uninitialized \<lparr>sa_base = 1024, sa_capacity = 16, sa_offset = 0\<rparr> 8 8 (2 ^ 61) =
     (\<lparr>sa_base = 1024, sa_capacity = 16, sa_offset = 0\<rparr>, Inr 1024)" by code_simp
  have "sa_inv (\<lparr>sa_base = 1024, sa_capacity = 16, sa_offset = 0\<rparr>, [])" by (simp add: sa_inv_def)
  from allocate_uninitialized_wraps [OF this r] r show ?thesis by simp
qed

end
