(* ===== verification/Heap_Array.thy ===== *)
theory Heap_Array
  imports Egl_Prelude
begin

text \<open>
  \<open>HeapArray<T>\<close> (heap\_array.hpp): an array whose length is fixed at construction.
  A reference to an element is its index, read and written with \<open>ha_read\<close> and
  \<open>ha_write\<close>. The locale \<open>fixed_array\<close> is the contract of a fixed-length array:
  what every write keeps and what a read returns after it.
\<close>

section \<open>The contract\<close>

locale fixed_array =
  fixes lookup :: "'arr \<Rightarrow> nat \<Rightarrow> 'a cpp"
    and update :: "'arr \<Rightarrow> nat \<Rightarrow> 'a \<Rightarrow> 'arr cpp"
    and len :: "'arr \<Rightarrow> nat"
  assumes lookup_total: "(\<exists>x. lookup a i = Inr x) \<longleftrightarrow> i < len a"
    and update_total: "(\<exists>a'. update a i v = Inr a') \<longleftrightarrow> i < len a"
    and update_len: "update a i v = Inr a' \<Longrightarrow> len a' = len a"
    and lookup_update: "update a i v = Inr a' \<Longrightarrow> lookup a' j = (if j = i then Inr v else lookup a j)"
begin

text \<open>A sequence of writes; a write that fails leaves the array as it is.\<close>

fun writes :: "(nat \<times> 'a) list \<Rightarrow> 'arr \<Rightarrow> 'arr" where
  "writes [] a = a"
| "writes ((i, v) # ws) a = writes ws (case update a i v of Inr a' \<Rightarrow> a' | Inl _ \<Rightarrow> a)"

lemma len_writes: "len (writes ws a) = len a"
  by (induction ws a rule: writes.induct) (auto simp: update_len split: sum.splits)

text \<open>A read returns the last value written to the index.\<close>

lemma lookup_writes:
  "i < len a \<Longrightarrow> lookup (writes ws a) i = (case map_of (rev ws) i of Some v \<Rightarrow> Inr v | None \<Rightarrow> lookup a i)"
proof (induction ws a rule: writes.induct)
  case (2 k v ws a)
  show ?case
  proof (cases "update a k v")
    case (Inl e)
    with update_total [of a k v] have "\<not> k < len a" by auto
    with 2 Inl show ?thesis by (auto simp: map_add_def split: option.splits)
  next
    case (Inr a')
    with 2 lookup_update [OF Inr] update_len [OF Inr] show ?thesis
      by (auto simp: map_add_def split: option.splits)
  qed
qed simp

end

section \<open>The array\<close>

record 'a heap_array =
  ha_data :: "'a list"

definition ha_sized :: "'a \<Rightarrow> nat \<Rightarrow> 'a heap_array" where
  "ha_sized dflt n = \<lparr>ha_data = replicate n dflt\<rparr>"

definition ha_filled :: "nat \<Rightarrow> 'a \<Rightarrow> 'a heap_array" where
  "ha_filled n v = \<lparr>ha_data = replicate n v\<rparr>"

definition ha_init :: "'a list \<Rightarrow> 'a heap_array" where
  "ha_init xs = \<lparr>ha_data = xs\<rparr>"

definition ha_size :: "'a heap_array \<Rightarrow> nat" where
  "ha_size a = length (ha_data a)"

definition ha_empty :: "'a heap_array \<Rightarrow> bool" where
  "ha_empty a \<longleftrightarrow> ha_data a = []"

text \<open>The reference that \<open>at\<close> returns: \<open>std::vector::at\<close> throws out of range.\<close>

definition ha_at :: "'a heap_array \<Rightarrow> nat \<Rightarrow> nat cpp" where
  "ha_at a i = (if i < length (ha_data a) then Inr i else Inl (Out_of_range ''vector''))"

definition ha_subscript :: "'a heap_array \<Rightarrow> nat \<Rightarrow> nat cpp" where
  "ha_subscript a i = (if i < length (ha_data a) then Inr i else Inl Assert_failed)"

definition ha_front :: "'a heap_array \<Rightarrow> nat cpp" where
  "ha_front a = (if ha_data a = [] then Inl Undefined_behaviour else Inr 0)"

definition ha_back :: "'a heap_array \<Rightarrow> nat cpp" where
  "ha_back a = (if ha_data a = [] then Inl Undefined_behaviour else Inr (length (ha_data a) - 1))"

definition ha_read :: "'a heap_array \<Rightarrow> nat \<Rightarrow> 'a cpp" where
  "ha_read a i = (case ha_at a i of Inl e \<Rightarrow> Inl e | Inr k \<Rightarrow> Inr (ha_data a ! k))"

definition ha_write :: "'a heap_array \<Rightarrow> nat \<Rightarrow> 'a \<Rightarrow> 'a heap_array cpp" where
  "ha_write a i v = (case ha_at a i of Inl e \<Rightarrow> Inl e | Inr k \<Rightarrow> Inr (a\<lparr>ha_data := (ha_data a)[k := v]\<rparr>))"

definition ha_fill :: "'a heap_array \<Rightarrow> 'a \<Rightarrow> 'a heap_array" where
  "ha_fill a v = a\<lparr>ha_data := map (\<lambda>_. v) (ha_data a)\<rparr>"

definition ha_swap :: "'a heap_array \<Rightarrow> 'a heap_array \<Rightarrow> 'a heap_array \<times> 'a heap_array" where
  "ha_swap a b = (a\<lparr>ha_data := ha_data b\<rparr>, b\<lparr>ha_data := ha_data a\<rparr>)"

interpretation ha: fixed_array ha_read ha_write ha_size
  by unfold_locales (auto simp: ha_read_def ha_write_def ha_at_def ha_size_def split: if_splits)

lemma ha_fill_read: "i < ha_size a \<Longrightarrow> ha_read (ha_fill a v) i = Inr v"
  by (simp add: ha_read_def ha_at_def ha_fill_def ha_size_def)

fun ha_writes :: "(nat \<times> 'a) list \<Rightarrow> 'a heap_array \<Rightarrow> 'a heap_array" where
  "ha_writes [] a = a"
| "ha_writes ((i, v) # ws) a = ha_writes ws (case ha_write a i v of Inr a' \<Rightarrow> a' | Inl _ \<Rightarrow> a)"

lemma ha_writes_eq: "ha.writes ws a = ha_writes ws a"
  by (induction ws a rule: ha_writes.induct) (auto split: sum.splits)

text \<open>
  The size never changes, whatever is written; \<open>at\<close> throws
  \<open>std::out_of_range\<close> exactly for the indices from \<open>size()\<close> on; and below, a read
  through \<open>at\<close> returns the last value written there, or the fill value.
\<close>

theorem heap_array_reads:
  assumes "i < n"
  shows "ha_size (ha_writes ws (ha_filled n v)) = n \<and>
    ha_read (ha_writes ws (ha_filled n v)) i = Inr (case map_of (rev ws) i of Some x \<Rightarrow> x | None \<Rightarrow> v) \<and>
    ha_at (ha_writes ws (ha_filled n v)) (n + i) = Inl (Out_of_range ''vector'') \<and>
    ha_read (ha_fill (ha_writes ws (ha_filled n v)) w) i = Inr w"
proof -
  have size_eq: "ha_size (ha_writes ws (ha_filled n v)) = n"
    using ha.len_writes [of ws "ha_filled n v"] by (simp add: ha_writes_eq ha_size_def ha_filled_def)
  moreover have "ha_read (ha_writes ws (ha_filled n v)) i = Inr (case map_of (rev ws) i of Some x \<Rightarrow> x | None \<Rightarrow> v)"
    using ha.lookup_writes [of i "ha_filled n v" ws] assms
    by (auto simp: ha_writes_eq ha_size_def ha_filled_def ha_read_def ha_at_def split: option.splits)
  ultimately show ?thesis
    using assms ha_fill_read [of i "ha_writes ws (ha_filled n v)" w] by (simp add: ha_at_def ha_size_def)
qed

theorem heap_array_reads_witness:
  "ha_read (ha_writes [(0, 5), (7, 1), (0, 6)] (ha_filled 2 (9 :: nat))) 0 = Inr 6"
  using heap_array_reads [of 0 2 "[(0, 5), (7, 1), (0, 6)]" "9 :: nat"] by (simp del: ha_writes.simps)

end
