(* ===== verification/Binary_Serializer.thy ===== *)
theory Binary_Serializer
  imports Egl_Prelude
begin

text \<open>
  \<open>BinarySerializer\<close> and \<open>BinaryDeserializer\<close> (binary\_serializer.hpp): a writer and
  a reader over a fixed buffer, with a byte order of their own. A scalar of type \<open>T\<close>
  is its \<open>sizeof(T)\<close> and its bit pattern, a natural number below
  \<open>256 ^ sizeof(T)\<close>; \<open>std::bit_cast\<close> to and from the array of its bytes is defined
  by the byte order of the host, a parameter \<open>native\<close> of the operations. Bytes are 8-bit words.
\<close>

section \<open>Scalars and their object representation\<close>

datatype endian = Little | Big

fun le_bytes :: "nat \<Rightarrow> nat \<Rightarrow> u8 list" where
  "le_bytes 0 v = []"
| "le_bytes (Suc n) v = of_nat v # le_bytes n (v div 256)"

fun le_value :: "u8 list \<Rightarrow> nat" where
  "le_value [] = 0"
| "le_value (b # bs) = unat b + 256 * le_value bs"

text \<open>\<open>std::bit_cast\<close> between a scalar and the bytes that represent it on the host.\<close>

definition bytes_of :: "endian \<Rightarrow> nat \<Rightarrow> nat \<Rightarrow> u8 list" where
  "bytes_of native n v = (case native of Little \<Rightarrow> le_bytes n v | Big \<Rightarrow> rev (le_bytes n v))"

definition value_of :: "endian \<Rightarrow> u8 list \<Rightarrow> nat" where
  "value_of native raw = (case native of Little \<Rightarrow> le_value raw | Big \<Rightarrow> le_value (rev raw))"

section \<open>The writer\<close>

record serializer =
  bs_buffer :: "u8 list"
  bs_pos :: nat
  bs_order :: endian
  bs_overflowed :: bool

definition bs_construct :: "u8 list \<Rightarrow> endian \<Rightarrow> serializer" where
  "bs_construct buffer order = \<lparr>bs_buffer = buffer, bs_pos = 0, bs_order = order, bs_overflowed = False\<rparr>"

definition bs_remaining :: "serializer \<Rightarrow> nat" where
  "bs_remaining s = length (bs_buffer s) - bs_pos s"

definition bs_data :: "serializer \<Rightarrow> u8 list" where
  "bs_data s = take (bs_pos s) (bs_buffer s)"

definition bytes_written :: "serializer \<Rightarrow> nat" where
  "bytes_written s = bs_pos s"

definition bs_capacity :: "serializer \<Rightarrow> nat" where
  "bs_capacity s = length (bs_buffer s)"

definition write_raw :: "endian \<Rightarrow> serializer \<Rightarrow> u8 list \<Rightarrow> serializer \<times> bool" where
  "write_raw native s raw =
     (if length raw > bs_remaining s then (s\<lparr>bs_overflowed := True\<rparr>, False)
      else
        let raw' = (if bs_order s \<noteq> native then rev raw else raw) in
        (s\<lparr>bs_buffer := overwrite (bs_buffer s) (bs_pos s) raw', bs_pos := bs_pos s + length raw\<rparr>, True))"

definition bs_write :: "endian \<Rightarrow> serializer \<Rightarrow> nat \<Rightarrow> nat \<Rightarrow> serializer \<times> bool" where
  "bs_write native s size_of v = write_raw native s (bytes_of native size_of v)"

definition write_bytes :: "serializer \<Rightarrow> u8 list \<Rightarrow> serializer \<times> bool" where
  "write_bytes s src =
     (if length src > bs_remaining s then (s\<lparr>bs_overflowed := True\<rparr>, False)
      else (s\<lparr>bs_buffer := overwrite (bs_buffer s) (bs_pos s) src, bs_pos := bs_pos s + length src\<rparr>, True))"

section \<open>The reader\<close>

record deserializer =
  bd_buffer :: "u8 list"
  bd_pos :: nat
  bd_order :: endian

definition bd_construct :: "u8 list \<Rightarrow> endian \<Rightarrow> deserializer" where
  "bd_construct buffer order = \<lparr>bd_buffer = buffer, bd_pos = 0, bd_order = order\<rparr>"

definition bd_remaining :: "deserializer \<Rightarrow> nat" where
  "bd_remaining d = length (bd_buffer d) - bd_pos d"

definition bytes_read :: "deserializer \<Rightarrow> nat" where
  "bytes_read d = bd_pos d"

definition exhausted :: "deserializer \<Rightarrow> bool" where
  "exhausted d \<longleftrightarrow> bd_pos d = length (bd_buffer d)"

definition bd_read :: "endian \<Rightarrow> deserializer \<Rightarrow> nat \<Rightarrow> deserializer \<times> nat option" where
  "bd_read native d size_of =
     (if size_of > bd_remaining d then (d, None)
      else
        let raw = take size_of (drop (bd_pos d) (bd_buffer d));
            raw' = (if bd_order d \<noteq> native then rev raw else raw)
        in (d\<lparr>bd_pos := bd_pos d + size_of\<rparr>, Some (value_of native raw')))"

definition read_bytes :: "deserializer \<Rightarrow> nat \<Rightarrow> deserializer \<times> u8 list option" where
  "read_bytes d n =
     (if n > bd_remaining d then (d, None)
      else (d\<lparr>bd_pos := bd_pos d + n\<rparr>, Some (take n (drop (bd_pos d) (bd_buffer d)))))"

section \<open>Sequences of fields\<close>

datatype field = Scalar nat nat | Raw "u8 list"

datatype field_read = Read_scalar "nat option" | Read_raw "u8 list option"

fun field_size :: "field \<Rightarrow> nat" where
  "field_size (Scalar n v) = n"
| "field_size (Raw bs) = length bs"

fun field_ok :: "field \<Rightarrow> bool" where
  "field_ok (Scalar n v) \<longleftrightarrow> v < 256 ^ n"
| "field_ok (Raw bs) \<longleftrightarrow> True"

fun write_field :: "endian \<Rightarrow> serializer \<Rightarrow> field \<Rightarrow> serializer \<times> bool" where
  "write_field native s (Scalar n v) = bs_write native s n v"
| "write_field native s (Raw bs) = write_bytes s bs"

fun write_fields :: "endian \<Rightarrow> serializer \<Rightarrow> field list \<Rightarrow> serializer \<times> bool list" where
  "write_fields native s [] = (s, [])"
| "write_fields native s (f # fs) =
     (case write_field native s f of (s', ok) \<Rightarrow>
      case write_fields native s' fs of (s'', oks) \<Rightarrow> (s'', ok # oks))"

fun read_field :: "endian \<Rightarrow> deserializer \<Rightarrow> field \<Rightarrow> deserializer \<times> field_read" where
  "read_field native d (Scalar n v) = (case bd_read native d n of (d', r) \<Rightarrow> (d', Read_scalar r))"
| "read_field native d (Raw bs) = (case read_bytes d (length bs) of (d', r) \<Rightarrow> (d', Read_raw r))"

fun read_fields :: "endian \<Rightarrow> deserializer \<Rightarrow> field list \<Rightarrow> deserializer \<times> field_read list" where
  "read_fields native d [] = (d, [])"
| "read_fields native d (f # fs) =
     (case read_field native d f of (d', r) \<Rightarrow>
      case read_fields native d' fs of (d'', rs) \<Rightarrow> (d'', r # rs))"

fun field_value :: "field \<Rightarrow> field_read" where
  "field_value (Scalar n v) = Read_scalar (Some v)"
| "field_value (Raw bs) = Read_raw (Some bs)"

text \<open>The wire format, which does not depend on the host.\<close>

fun wire :: "endian \<Rightarrow> field \<Rightarrow> u8 list" where
  "wire order (Scalar n v) = bytes_of order n v"
| "wire order (Raw bs) = bs"

definition bs_inv :: "serializer \<Rightarrow> bool" where
  "bs_inv s \<longleftrightarrow> bs_pos s \<le> length (bs_buffer s)"

lemma length_le_bytes [simp]: "length (le_bytes n v) = n"
  by (induction n arbitrary: v) auto

lemma length_bytes_of [simp]: "length (bytes_of native n v) = n"
  by (simp add: bytes_of_def split: endian.splits)

lemma length_wire [simp]: "length (wire order f) = field_size f"
  by (cases f) auto

lemma le_value_bytes: "v < 256 ^ n \<Longrightarrow> le_value (le_bytes n v) = v"
proof (induction n arbitrary: v)
  case (Suc n)
  have "v div 256 < 256 ^ n" using Suc.prems by (simp add: less_mult_imp_div_less mult.commute)
  moreover have "unat (of_nat v :: u8) = v mod 256" by (simp add: unat_of_nat)
  ultimately show ?case using Suc.IH [of "v div 256"] by simp
qed simp

lemma value_bytes_of: "v < 256 ^ n \<Longrightarrow> value_of native (bytes_of native n v) = v"
  by (simp add: value_of_def bytes_of_def le_value_bytes split: endian.splits)

lemma bytes_of_swap: "(if order \<noteq> native then rev (bytes_of native n v) else bytes_of native n v) = bytes_of order n v"
  by (cases order; cases native) (auto simp: bytes_of_def)

text \<open>One write: it fits and appends the wire bytes, or it is refused and latched.\<close>

lemma write_field_correct:
  assumes "bs_inv s" and "write_field native s f = (s', ok)"
  shows "bs_inv s' \<and> bs_order s' = bs_order s \<and> bs_capacity s' = bs_capacity s \<and>
    (ok \<longleftrightarrow> field_size f \<le> bs_remaining s) \<and>
    bs_data s' = bs_data s @ (if ok then wire (bs_order s) f else []) \<and>
    drop (bs_pos s') (bs_buffer s') = drop (bs_pos s') (bs_buffer s) \<and>
    (bs_overflowed s' \<longleftrightarrow> bs_overflowed s \<or> \<not> ok)"
proof -
  have w: "write_field native s f =
      (if field_size f > bs_remaining s then (s\<lparr>bs_overflowed := True\<rparr>, False)
       else (s\<lparr>bs_buffer := overwrite (bs_buffer s) (bs_pos s) (wire (bs_order s) f),
               bs_pos := bs_pos s + length (wire (bs_order s) f)\<rparr>, True))"
    by (cases f) (auto simp: bs_write_def write_raw_def write_bytes_def bytes_of_swap Let_def)
  show ?thesis
  proof (cases "field_size f > bs_remaining s")
    case True
    with assms w show ?thesis by (auto simp: bs_data_def bs_inv_def bs_capacity_def)
  next
    case False
    have "bs_pos s + length (wire (bs_order s) f) \<le> length (bs_buffer s)" "bs_pos s \<le> length (bs_buffer s)"
      using False assms(1) by (auto simp: bs_inv_def bs_remaining_def)
    with False assms w show ?thesis
      by (auto simp: bs_data_def bs_inv_def bs_capacity_def simp del: length_wire)
  qed
qed

lemma bs_data_length: "bs_inv s \<Longrightarrow> length (bs_data s) + bs_remaining s = bs_capacity s"
  by (simp add: bs_data_def bs_inv_def bs_capacity_def bs_remaining_def)

text \<open>A sequence of writes: the accepted fields, in order, and the latch.\<close>

lemma write_fields_correct:
  "bs_inv s \<Longrightarrow> write_fields native s fs = (s', oks) \<Longrightarrow>
    bs_inv s' \<and> bs_order s' = bs_order s \<and> bs_capacity s' = bs_capacity s \<and> length oks = length fs \<and>
    bs_data s' = bs_data s @ concat (map (wire (bs_order s) \<circ> fst) (filter snd (zip fs oks))) \<and>
    drop (bs_pos s') (bs_buffer s') = drop (bs_pos s') (bs_buffer s) \<and> bs_pos s \<le> bs_pos s' \<and>
    (bs_overflowed s' \<longleftrightarrow> bs_overflowed s \<or> False \<in> set oks)"
proof (induction fs arbitrary: s oks)
  case (Cons f fs)
  obtain t ok where t: "write_field native s f = (t, ok)" by (cases "write_field native s f")
  obtain u oks' where u: "write_fields native t fs = (u, oks')" by (cases "write_fields native t fs")
  note c = write_field_correct [OF Cons.prems(1) t]
  have s': "s' = u" "oks = ok # oks'" using Cons.prems(2) t u by auto
  note IH = Cons.IH [of t oks', OF _ u [folded s'(1)]]
  have "length (bs_data s) \<le> length (bs_data t)" using c by simp
  then have le: "bs_pos s \<le> bs_pos t" using c Cons.prems(1) by (simp add: bs_data_def bs_inv_def)
  have "drop (bs_pos s') (bs_buffer t) = drop (bs_pos s') (bs_buffer s)"
    using drop_eq_mono [of "bs_pos t" "bs_buffer t" "bs_buffer s" "bs_pos s'"] IH c by simp
  then show ?case using IH c le s' by auto
qed simp

lemma write_fields_all:
  assumes "bs_inv s" and "write_fields native s fs = (s', oks)"
    and "sum_list (map field_size fs) \<le> bs_remaining s"
  shows "oks = replicate (length fs) True"
  using assms
proof (induction fs arbitrary: s oks)
  case (Cons f fs)
  obtain t ok where t: "write_field native s f = (t, ok)" by (cases "write_field native s f")
  obtain u oks' where u: "write_fields native t fs = (u, oks')" by (cases "write_fields native t fs")
  note c = write_field_correct [OF Cons.prems(1) t]
  have s': "s' = u" "oks = ok # oks'" using Cons.prems(2) t u by auto
  have ok using c Cons.prems(3) by simp
  moreover have "sum_list (map field_size fs) \<le> bs_remaining t"
    using c Cons.prems \<open>ok\<close> bs_data_length [of s] bs_data_length [of t] by simp
  ultimately show ?case using Cons.IH [of t oks'] c u s' by simp
qed simp

lemma read_field_wire:
  assumes "bd_buffer d = pre @ wire (bd_order d) f @ post" and "bd_pos d = length pre" and "field_ok f"
  shows "read_field native d f = (d\<lparr>bd_pos := bd_pos d + field_size f\<rparr>, field_value f)"
proof (cases f)
  case (Scalar n v)
  moreover have "(if bd_order d \<noteq> native then rev (bytes_of (bd_order d) n v) else bytes_of (bd_order d) n v) =
      bytes_of native n v"
    using bytes_of_swap [of native "bd_order d" n v] by (auto split: if_splits)
  ultimately show ?thesis
    using assms by (simp add: bd_read_def bd_remaining_def Let_def value_bytes_of)
qed (use assms in \<open>simp add: read_bytes_def bd_remaining_def\<close>)

lemma read_fields_wire:
  "bd_buffer d = pre @ concat (map (wire (bd_order d)) fs) @ post \<Longrightarrow> bd_pos d = length pre \<Longrightarrow> list_all field_ok fs \<Longrightarrow>
    read_fields native d fs = (d\<lparr>bd_pos := bd_pos d + sum_list (map field_size fs)\<rparr>, map field_value fs)"
proof (induction fs arbitrary: d pre)
  case (Cons f fs)
  let ?d = "d\<lparr>bd_pos := bd_pos d + field_size f\<rparr>"
  have r: "read_field native d f = (?d, field_value f)"
    using read_field_wire [of d pre f "concat (map (wire (bd_order d)) fs) @ post"] Cons.prems by simp
  have "read_fields native ?d fs = (?d\<lparr>bd_pos := bd_pos ?d + sum_list (map field_size fs)\<rparr>, map field_value fs)"
    using Cons.prems Cons.IH [of ?d "pre @ wire (bd_order d) f"] by simp
  with r show ?case by (simp add: add.assoc)
qed simp

text \<open>
  Property C12. What is written is read back, across hosts: a sequence of scalars and raw
  blocks that fits the buffer is written completely on a host of one byte order,
  and a reader on a host of any byte order returns exactly these values from the
  written bytes and ends exhausted, for both wire orders.
\<close>

theorem serializer_roundtrip:
  assumes "sum_list (map field_size fs) \<le> length buffer" and "list_all field_ok fs"
    and "write_fields writer_host (bs_construct buffer order) fs = (s, oks)"
    and "read_fields reader_host (bd_construct (bs_data s) order) fs = (d, rs)"
  shows "oks = replicate (length fs) True \<and> \<not> bs_overflowed s \<and> rs = map field_value fs \<and> exhausted d"
proof -
  let ?s = "bs_construct buffer order"
  have s: "bs_inv ?s" "bs_order ?s = order" "bs_data ?s = []" "bs_remaining ?s = length buffer" "\<not> bs_overflowed ?s"
    by (simp_all add: bs_construct_def bs_inv_def bs_data_def bs_remaining_def)
  have oks: "oks = replicate (length fs) True"
    using write_fields_all [OF s(1) assms(3)] assms(1) s(4) by simp
  moreover have "filter snd (zip fs (replicate (length fs) True)) = zip fs (replicate (length fs) True)"
    by (rule filter_True) (auto simp: in_set_zip)
  moreover have "map (wire order \<circ> fst) (zip fs (replicate (length fs) True)) = map (wire order) fs"
    by (simp flip: map_map)
  ultimately have data: "bs_data s = concat (map (wire order) fs)"
    using write_fields_correct [OF s(1) assms(3)] s(2,3) by simp
  have "read_fields reader_host (bd_construct (bs_data s) order) fs =
      ((bd_construct (bs_data s) order)\<lparr>bd_pos := sum_list (map field_size fs)\<rparr>, map field_value fs)"
    using read_fields_wire [of "bd_construct (bs_data s) order" "[]" fs "[]" reader_host] data assms(2)
    by (simp add: bd_construct_def)
  then have "rs = map field_value fs" "exhausted d"
    using assms(4) data by (auto simp: exhausted_def bd_construct_def length_concat comp_def)
  then show ?thesis using oks write_fields_correct [OF s(1) assms(3)] s(5) by simp
qed

theorem serializer_roundtrip_witness:
  "write_fields Little (bs_construct (replicate 7 0) Big) [Scalar 4 258, Raw [7, 8]] =
     (\<lparr>bs_buffer = [0, 0, 1, 2, 7, 8, 0], bs_pos = 6, bs_order = Big, bs_overflowed = False\<rparr>, [True, True]) \<and>
   read_fields Little (bd_construct [0, 0, 1, 2, 7, 8] Big) [Scalar 4 258, Raw [7, 8]] =
     (\<lparr>bd_buffer = [0, 0, 1, 2, 7, 8], bd_pos = 6, bd_order = Big\<rparr>,
      [Read_scalar (Some 258), Read_raw (Some [7, 8])])"
proof -
  have w: "write_fields Little (bs_construct (replicate 7 0) Big) [Scalar 4 258, Raw [7, 8]] =
     (\<lparr>bs_buffer = [0, 0, 1, 2, 7, 8, 0], bs_pos = 6, bs_order = Big, bs_overflowed = False\<rparr>, [True, True])"
    by code_simp
  have r: "read_fields Little (bd_construct [0, 0, 1, 2, 7, 8] Big) [Scalar 4 258, Raw [7, 8]] =
     (\<lparr>bd_buffer = [0, 0, 1, 2, 7, 8], bd_pos = 6, bd_order = Big\<rparr>,
      [Read_scalar (Some 258), Read_raw (Some [7, 8])])"
    by code_simp
  show ?thesis
    using serializer_roundtrip [OF _ _ w, of Little] w r by (simp add: bs_data_def)
qed

text \<open>
  Overflow. A write succeeds exactly when it fits into what remains;
  a refused write changes no byte and no position; \<open>overflowed()\<close> is set exactly when some
  write was refused; and the bytes behind the written ones are never touched.
\<close>

theorem serializer_overflow:
  assumes "write_fields native (bs_construct buffer order) fs = (s, oks)" and "write_field native s f = (s', ok)"
  shows "(ok \<longleftrightarrow> field_size f \<le> bs_remaining s) \<and> bytes_written s' = bytes_written s + (if ok then field_size f else 0) \<and>
    bytes_written s' \<le> length buffer \<and> bs_capacity s' = length buffer \<and>
    bs_data s' = bs_data s @ (if ok then wire order f else []) \<and>
    (bs_overflowed s' \<longleftrightarrow> False \<in> set oks \<or> \<not> ok) \<and>
    drop (bytes_written s') (bs_buffer s') = drop (bytes_written s') buffer"
proof -
  let ?s = "bs_construct buffer order"
  have s: "bs_inv ?s" by (simp add: bs_construct_def bs_inv_def)
  note a = write_fields_correct [OF s assms(1)]
  note b = write_field_correct [OF _ assms(2)]
  have pos: "bs_pos t = length (bs_data t)" if "bs_inv t" for t using that by (simp add: bs_inv_def bs_data_def)
  have le: "bs_pos s \<le> bs_pos s'" using a b pos [of s] pos [of s'] by simp
  have "drop (bs_pos s') (bs_buffer s) = drop (bs_pos s') buffer"
    using drop_eq_mono [of "bs_pos s" "bs_buffer s" buffer "bs_pos s'"] a le by (simp add: bs_construct_def)
  then show ?thesis
    using a b pos [of s] pos [of s'] bs_data_length [of s']
    by (auto simp: bytes_written_def bs_construct_def bs_capacity_def)
qed

theorem serializer_overflow_witness:
  "write_field Little \<lparr>bs_buffer = [1, 2, 9], bs_pos = 2, bs_order = Little, bs_overflowed = False\<rparr> (Scalar 2 5) =
     (\<lparr>bs_buffer = [1, 2, 9], bs_pos = 2, bs_order = Little, bs_overflowed = True\<rparr>, False)"
proof -
  have w: "write_fields Little (bs_construct [8, 8, 9] Little) [Scalar 2 513] =
     (\<lparr>bs_buffer = [1, 2, 9], bs_pos = 2, bs_order = Little, bs_overflowed = False\<rparr>, [True])" by code_simp
  have r: "write_field Little \<lparr>bs_buffer = [1, 2, 9], bs_pos = 2, bs_order = Little, bs_overflowed = False\<rparr> (Scalar 2 5) =
     (\<lparr>bs_buffer = [1, 2, 9], bs_pos = 2, bs_order = Little, bs_overflowed = True\<rparr>, False)" by code_simp
  from serializer_overflow [OF w r] r show ?thesis by simp
qed

text \<open>
  Truncated input. A read returns \<open>nullopt\<close> exactly when fewer bytes remain
  than it needs, and then the cursor does not move; otherwise the cursor advances by
  exactly the bytes read and never passes the end.
\<close>

theorem deserializer_truncated:
  assumes "bd_pos d \<le> length (bd_buffer d)" and "bd_read native d n = (d', r)" and "read_bytes d n = (d'', r')"
  shows "(r = None \<longleftrightarrow> n > bd_remaining d) \<and> (r' = None \<longleftrightarrow> r = None) \<and> d'' = d' \<and>
    bytes_read d' = (if r = None then bytes_read d else bytes_read d + n) \<and>
    bd_buffer d' = bd_buffer d \<and> bytes_read d' \<le> length (bd_buffer d) \<and>
    (\<forall>bs. r' = Some bs \<longrightarrow> length bs = n \<and> r = Some (le_value (if bd_order d = Little then bs else rev bs)))"
  using assms
  by (cases native; cases "bd_order d")
    (auto simp: bd_read_def read_bytes_def bytes_read_def bd_remaining_def Let_def value_of_def split: if_splits)

theorem deserializer_truncated_witness:
  "bd_read Little \<lparr>bd_buffer = [1, 2, 3], bd_pos = 1, bd_order = Big\<rparr> 2 =
     (\<lparr>bd_buffer = [1, 2, 3], bd_pos = 3, bd_order = Big\<rparr>, Some 515)"
proof -
  have r: "bd_read Little \<lparr>bd_buffer = [1, 2, 3], bd_pos = 1, bd_order = Big\<rparr> 2 =
     (\<lparr>bd_buffer = [1, 2, 3], bd_pos = 3, bd_order = Big\<rparr>, Some 515)" by code_simp
  have b: "read_bytes \<lparr>bd_buffer = [1, 2, 3], bd_pos = 1, bd_order = Big\<rparr> 2 =
     (\<lparr>bd_buffer = [1, 2, 3], bd_pos = 3, bd_order = Big\<rparr>, Some [2, 3])" by code_simp
  from deserializer_truncated [OF _ r b] r show ?thesis by simp
qed

end
