(* ===== verification/Egl_Words.thy ===== *)
theory Egl_Words
  imports Egl_Prelude
begin

unbundle bit_operations_syntax

text \<open>
  Facts on machine words that the hash functions rest on: the mixing steps of a
  hash (multiplication by an odd constant, rotation, xor with a shifted copy,
  assembling a word from bytes) lose no information.
\<close>

section \<open>Steps that lose no information\<close>

lemma mult_unit_inj:
  fixes c c' :: "'a::len word"
  assumes "c * c' = 1" and "x * c = y * c"
  shows "x = y"
proof -
  have "x = x * c * c'" using assms(1) by (simp add: mult.assoc)
  also have "\<dots> = y * c * c'" using assms(2) by simp
  also have "\<dots> = y" using assms(1) by (simp add: mult.assoc)
  finally show ?thesis .
qed

lemma xor_cancel_left [simp]: "(a :: 'a::len word) XOR b = a XOR c \<longleftrightarrow> b = c"
  by (metis xor.assoc xor.left_neutral xor_self_eq)

lemma xor_cancel_right [simp]: "(b :: 'a::len word) XOR a = c XOR a \<longleftrightarrow> b = c"
  by (metis xor.commute xor_cancel_left)

lemma xor_drop_bit_inj:
  fixes x y :: "'a::len word"
  assumes "n > 0" and eq: "x XOR drop_bit n x = y XOR drop_bit n y"
  shows "x = y"
proof (rule bit_word_eqI)
  fix i :: nat
  show "bit x i = bit y i"
  proof (induction "LENGTH('a) - i" arbitrary: i rule: less_induct)
    case less
    show ?case
    proof (cases "i < LENGTH('a)")
      case True
      with assms(1) less have "bit x (i + n) = bit y (i + n)" by simp
      moreover have "bit (x XOR drop_bit n x) i = bit (y XOR drop_bit n y) i" by (simp only: eq)
      ultimately show ?thesis by (auto simp: bit_simps add.commute)
    qed (auto dest: bit_imp_le_length)
  qed
qed

text \<open>\<open>(x << n) | (x >> (w - n))\<close> rotates to the left, \<open>(x >> n) | (x << (w - n))\<close> to the right.\<close>

lemma shift_or_rotr:
  fixes x :: "32 word"
  assumes "0 < n" "n < 32"
  shows "drop_bit n x OR push_bit (32 - n) x = word_rotr n x"
proof (rule bit_word_eqI)
  fix i assume i: "i < LENGTH(32)"
  show "bit (drop_bit n x OR push_bit (32 - n) x) i = bit (word_rotr n x) i"
  proof (cases "i + n < 32")
    case True
    then have "\<not> 32 - n \<le> i" by simp
    with True show ?thesis using i by (simp add: bit_word_rotr_iff bit_simps add.commute)
  next
    case False
    then have "(i + n) mod 32 = i - (32 - n)" using i assms by (simp add: mod_if)
    moreover have "\<not> bit x (n + i)" using False by (auto dest!: bit_imp_le_length)
    moreover have "32 - n \<le> i" using False assms by simp
    ultimately show ?thesis using i by (simp add: bit_word_rotr_iff bit_simps add.commute)
  qed
qed

lemma shift_or_rotl:
  fixes x :: "32 word"
  assumes "0 < n" "n < 32"
  shows "push_bit n x OR drop_bit (32 - n) x = word_rotl n x"
proof -
  have "push_bit n x OR drop_bit (32 - n) x = word_rotr (32 - n) x"
    using shift_or_rotr [of "32 - n" x] assms by (simp add: or.commute)
  also have "\<dots> = word_rotl n x"
    by (rule bit_word_eqI) (use assms in \<open>simp add: bit_word_rotr_iff bit_word_rotl_iff mod_if\<close>)
  finally show ?thesis .
qed

lemma word_rotl_inj: "word_rotl n x = word_rotl n (y :: 32 word) \<Longrightarrow> x = y"
  by (metis word_rot_lr)

lemma shift_or_rotl_inj:
  fixes x y :: "32 word"
  assumes "push_bit n x OR drop_bit (32 - n) x = push_bit n y OR drop_bit (32 - n) y" and "0 < n" "n < 32"
  shows "x = y"
  using assms by (simp add: shift_or_rotl word_rotl_inj)

section \<open>Bytes\<close>

definition byte_word :: "u8 \<Rightarrow> u8 \<Rightarrow> u8 \<Rightarrow> u8 \<Rightarrow> u32" where
  "byte_word a b c d = ucast a OR push_bit 8 (ucast b) OR push_bit 16 (ucast c) OR push_bit 24 (ucast d)"

lemma byte_word_parts:
  "ucast (byte_word a b c d) = a" "ucast (drop_bit 8 (byte_word a b c d)) = b"
  "ucast (drop_bit 16 (byte_word a b c d)) = c" "ucast (drop_bit 24 (byte_word a b c d)) = d"
  by (rule bit_word_eqI; auto simp: byte_word_def bit_simps dest: bit_imp_le_length)+

lemma byte_word_inj: "byte_word a b c d = byte_word a' b' c' d' \<longleftrightarrow> a = a' \<and> b = b' \<and> c = c' \<and> d = d'"
  by (metis byte_word_parts)

end
