(* ===== verification/Hash_Functions.thy ===== *)
theory Hash_Functions
  imports Egl_Words
begin

unbundle bit_operations_syntax

text \<open>
  The non-cryptographic hashes of hash.hpp: \<open>fnv1a_64\<close>, \<open>fnv1a_32\<close> and
  \<open>murmur3_x86_32\<close>. A \<open>std::string_view\<close> is the list of its bytes, each already
  cast to \<open>std::uint8_t\<close> as the source does before using it.
\<close>

section \<open>FNV-1a\<close>

definition fnv1a_64 :: "u8 list \<Rightarrow> u64" where
  "fnv1a_64 data = fold (\<lambda>ch hash. (hash XOR ucast ch) * 0x100000001b3) data 0xcbf29ce484222325"

definition fnv1a_32 :: "u8 list \<Rightarrow> u32" where
  "fnv1a_32 data = fold (\<lambda>ch hash. (hash XOR ucast ch) * 0x01000193) data 0x811c9dc5"

section \<open>MurmurHash3, x86, 32 bits\<close>

definition murmur_mix_k1 :: "u32 \<Rightarrow> u32" where
  "murmur_mix_k1 k0 =
     (let k1 = k0 * 0xcc9e2d51;
          k1 = push_bit 15 k1 OR drop_bit 17 k1
      in k1 * 0x1b873593)"

definition murmur_mix_h1 :: "u32 \<Rightarrow> u32 \<Rightarrow> u32" where
  "murmur_mix_h1 h0 k1 =
     (let h1 = h0 XOR k1;
          h1 = push_bit 13 h1 OR drop_bit 19 h1
      in h1 * 5 + 0xe6546b64)"

definition murmur_byte :: "u8 list \<Rightarrow> nat \<Rightarrow> u32" where
  "murmur_byte data i = ucast (data ! i)"

definition murmur_block :: "u8 list \<Rightarrow> nat \<Rightarrow> u32" where
  "murmur_block data j =
     murmur_byte data j OR push_bit 8 (murmur_byte data (j + 1)) OR push_bit 16 (murmur_byte data (j + 2)) OR
     push_bit 24 (murmur_byte data (j + 3))"

definition murmur_body :: "u8 list \<Rightarrow> u32 \<Rightarrow> u32" where
  "murmur_body data seed =
     fold (\<lambda>i h1. murmur_mix_h1 h1 (murmur_mix_k1 (murmur_block data (i * 4)))) [0..<length data div 4] seed"

text \<open>The switch on the number of bytes behind the last block, with its fall-through.\<close>

definition murmur_tail :: "u8 list \<Rightarrow> u32 \<Rightarrow> u32" where
  "murmur_tail data h1 =
     (let tail = length data div 4 * 4;
          r = length data mod 4;
          k1 = 0;
          k1 = (if r \<ge> 3 then k1 XOR push_bit 16 (murmur_byte data (tail + 2)) else k1);
          k1 = (if r \<ge> 2 then k1 XOR push_bit 8 (murmur_byte data (tail + 1)) else k1)
      in if r \<ge> 1 then h1 XOR murmur_mix_k1 (k1 XOR murmur_byte data tail) else h1)"

definition murmur_final :: "u32 \<Rightarrow> u32 \<Rightarrow> u32" where
  "murmur_final len h0 =
     (let h1 = h0 XOR len;
          h1 = h1 XOR drop_bit 16 h1;
          h1 = h1 * 0x85ebca6b;
          h1 = h1 XOR drop_bit 13 h1;
          h1 = h1 * 0xc2b2ae35
      in h1 XOR drop_bit 16 h1)"

definition murmur3_x86_32 :: "u8 list \<Rightarrow> u32 \<Rightarrow> u32" where
  "murmur3_x86_32 data seed = murmur_final (of_nat (length data)) (murmur_tail data (murmur_body data seed))"

section \<open>No collisions from one changed byte or block\<close>

text \<open>
  A hash built by folding a step that is injective in the state and in the input
  distinguishes inputs that differ in one place.
\<close>

locale hash_step =
  fixes hstep :: "'b \<Rightarrow> 'h \<Rightarrow> 'h"
  assumes state_inj: "hstep b h = hstep b h' \<Longrightarrow> h = h'"
    and input_inj: "hstep b h = hstep b' h \<Longrightarrow> b = b'"
begin

lemma fold_state_inj: "fold hstep bs h = fold hstep bs h' \<Longrightarrow> h = h'"
  by (induction bs arbitrary: h h') (auto dest: state_inj)

lemma fold_substitution:
  assumes "fold hstep (pre @ b # post) h = fold hstep (pre @ b' # post) h"
  shows "b = b'"
  using assms by (auto dest!: fold_state_inj input_inj)

end

lemma ucast_up_inj: "LENGTH('b) \<ge> LENGTH('a) \<Longrightarrow> ucast (a :: 'a::len word) = (ucast b :: 'b::len word) \<Longrightarrow> a = b"
  by (metis bit_ucast_iff bit_word_eqI order_less_le_trans)

interpretation fnv64: hash_step "\<lambda>ch hash. (hash XOR ucast (ch :: u8)) * (0x100000001b3 :: u64)"
proof
  fix ch ch' :: u8 and h h' :: u64
  have unit: "(0x100000001b3 :: u64) * 0xce965057aff6957b = 1" by simp
  show "h = h'" if "(h XOR ucast ch) * 0x100000001b3 = (h' XOR ucast ch) * 0x100000001b3"
    using mult_unit_inj [OF unit that] by simp
  show "ch = ch'" if "(h XOR ucast ch) * 0x100000001b3 = (h XOR ucast ch') * 0x100000001b3"
    using mult_unit_inj [OF unit that] by (auto dest: ucast_up_inj [rotated])
qed

interpretation fnv32: hash_step "\<lambda>ch hash. (hash XOR ucast (ch :: u8)) * (0x01000193 :: u32)"
proof
  fix ch ch' :: u8 and h h' :: u32
  have unit: "(0x01000193 :: u32) * 0x359c449b = 1" by simp
  show "h = h'" if "(h XOR ucast ch) * 0x01000193 = (h' XOR ucast ch) * 0x01000193"
    using mult_unit_inj [OF unit that] by simp
  show "ch = ch'" if "(h XOR ucast ch) * 0x01000193 = (h XOR ucast ch') * 0x01000193"
    using mult_unit_inj [OF unit that] by (auto dest: ucast_up_inj [rotated])
qed

text \<open>
  FNV-1a, in both widths, never maps two strings to the same hash that
  differ in exactly one byte.
\<close>

theorem fnv1a_substitution:
  assumes "b \<noteq> b'"
  shows "fnv1a_64 (pre @ b # post) \<noteq> fnv1a_64 (pre @ b' # post) \<and> fnv1a_32 (pre @ b # post) \<noteq> fnv1a_32 (pre @ b' # post)"
  using assms fnv64.fold_substitution [of pre b post _ b'] fnv32.fold_substitution [of pre b post _ b']
  unfolding fnv1a_64_def fnv1a_32_def by blast

theorem fnv1a_substitution_witness:
  "fnv1a_32 [97, 98] \<noteq> fnv1a_32 [97, 99] \<and> fnv1a_32 [97] = 0xe40c292c"
proof -
  have "fnv1a_32 [97] = 0xe40c292c" by code_simp
  then show ?thesis using fnv1a_substitution [of 98 99 "[97]" "[]"] by simp
qed

lemma rotl_inj:
  "push_bit 15 x OR drop_bit 17 x = push_bit 15 y OR drop_bit 17 y \<Longrightarrow> x = (y :: u32)"
  "push_bit 13 x OR drop_bit 19 x = push_bit 13 y OR drop_bit 19 y \<Longrightarrow> x = (y :: u32)"
  using shift_or_rotl_inj [of 15 x y] shift_or_rotl_inj [of 13 x y] by simp_all

lemma murmur_mix_k1_inj: "murmur_mix_k1 k = murmur_mix_k1 k' \<Longrightarrow> k = k'"
  unfolding murmur_mix_k1_def Let_def
  apply (drule mult_unit_inj [of "0x1b873593 :: u32" "0x56ed309b", rotated], simp)
  apply (drule rotl_inj(1))
  apply (drule mult_unit_inj [of "0xcc9e2d51 :: u32" "0xdee13bb1", rotated], simp_all)
  done

lemma murmur_mix_h1_inj: "murmur_mix_h1 h k = murmur_mix_h1 h' k' \<Longrightarrow> h XOR k = h' XOR k'"
  unfolding murmur_mix_h1_def Let_def add_right_cancel
  apply (drule mult_unit_inj [of "5 :: u32" "0xcccccccd", rotated], simp)
  apply (erule rotl_inj(2))
  done

lemma murmur_final_inj:
  assumes "murmur_final len h = murmur_final len h'"
  shows "h = h'"
proof -
  let ?a = "\<lambda>h :: u32. h XOR drop_bit 16 h" and ?b = "\<lambda>h :: u32. h XOR drop_bit 13 h"
  have "?b (?a (h XOR len) * 0x85ebca6b) * 0xc2b2ae35 = ?b (?a (h' XOR len) * 0x85ebca6b) * 0xc2b2ae35"
    by (rule xor_drop_bit_inj [of 16]) (simp, rule assms [unfolded murmur_final_def Let_def])
  then have "?b (?a (h XOR len) * 0x85ebca6b) = ?b (?a (h' XOR len) * 0x85ebca6b)"
    by (rule mult_unit_inj [of "0xc2b2ae35 :: u32" "0x7ed1b41d", rotated]) simp
  then have "?a (h XOR len) * 0x85ebca6b = ?a (h' XOR len) * 0x85ebca6b"
    by (rule xor_drop_bit_inj [rotated]) simp
  then have "?a (h XOR len) = ?a (h' XOR len)"
    by (rule mult_unit_inj [of "0x85ebca6b :: u32" "0xa5cb9243", rotated]) simp
  then have "h XOR len = h' XOR len" by (rule xor_drop_bit_inj [rotated]) simp
  then show ?thesis by simp
qed

text \<open>The words that the loop and the switch mix in, as one list of keys.\<close>

definition murmur_keys :: "u8 list \<Rightarrow> u32 list" where
  "murmur_keys data = map (\<lambda>i. murmur_block data (i * 4)) [0..<length data div 4]"

definition murmur_tail_key :: "u8 list \<Rightarrow> u32" where
  "murmur_tail_key data =
     (let tail = length data div 4 * 4; r = length data mod 4 in
      byte_word (if r \<ge> 1 then data ! tail else 0) (if r \<ge> 2 then data ! (tail + 1) else 0)
        (if r \<ge> 3 then data ! (tail + 2) else 0) 0)"

interpretation murmur: hash_step "\<lambda>k h1. murmur_mix_h1 h1 (murmur_mix_k1 k)"
  by unfold_locales (auto dest!: murmur_mix_h1_inj murmur_mix_k1_inj)

lemma murmur_body_keys:
  "murmur_body data seed = fold (\<lambda>k h1. murmur_mix_h1 h1 (murmur_mix_k1 k)) (murmur_keys data) seed"
  by (simp add: murmur_body_def murmur_keys_def fold_map comp_def)

lemma murmur_block_word: "murmur_block data j = byte_word (data ! j) (data ! (j + 1)) (data ! (j + 2)) (data ! (j + 3))"
  by (simp add: murmur_block_def murmur_byte_def byte_word_def)

lemma xor_bytes_or:
  fixes a b c :: u8
  shows "(push_bit 16 (ucast c) XOR push_bit 8 (ucast b)) XOR ucast a = byte_word a b c 0"
  by (rule bit_word_eqI) (auto simp: byte_word_def bit_simps dest: bit_imp_le_length)

lemma murmur_tail_word:
  "murmur_tail data h1 =
     (if length data mod 4 = 0 then h1 else h1 XOR murmur_mix_k1 (murmur_tail_key data))"
proof -
  have "length data mod 4 < 4" by simp
  then consider "length data mod 4 = 0" | "length data mod 4 = 1" | "length data mod 4 = 2" | "length data mod 4 = 3"
    by linarith
  then show ?thesis
    by cases (simp_all add: murmur_tail_def murmur_tail_key_def murmur_byte_def Let_def
        flip: xor_bytes_or)
qed

lemma murmur_keys_differ:
  assumes "length xs = length ys" and "\<And>i. i < length xs \<Longrightarrow> i div 4 \<noteq> j \<Longrightarrow> xs ! i = ys ! i"
    and "j < length xs div 4"
  shows "murmur_keys ys = (murmur_keys xs)[j := murmur_block ys (j * 4)]"
    and "murmur_tail_key xs = murmur_tail_key ys"
    and "murmur_block xs (j * 4) = murmur_block ys (j * 4) \<Longrightarrow> xs = ys"
proof -
  have blk: "murmur_block xs (i * 4) = murmur_block ys (i * 4)" if "i < length xs div 4" "i \<noteq> j" for i
  proof -
    have "i * 4 + k < length xs \<and> (i * 4 + k) div 4 \<noteq> j" if "k < 4" for k
      using \<open>i < length xs div 4\<close> \<open>i \<noteq> j\<close> that by auto
    from this [of 0] this [of 1] this [of 2] this [of 3] show ?thesis
      by (simp add: murmur_block_word assms(2))
  qed
  then show "murmur_keys ys = (murmur_keys xs)[j := murmur_block ys (j * 4)]"
    using assms(1)
    by (intro nth_equalityI, simp add: murmur_keys_def)
      (case_tac "i = j"; simp add: murmur_keys_def)
  have "xs ! (length xs div 4 * 4 + k) = ys ! (length xs div 4 * 4 + k)" if "k < length xs mod 4" for k
  proof (rule assms(2))
    show "length xs div 4 * 4 + k < length xs" using that div_mult_mod_eq [of "length xs" 4] by linarith
    show "(length xs div 4 * 4 + k) div 4 \<noteq> j" using that assms(3) by auto
  qed
  from this [of 0] this [of 1] this [of 2] show "murmur_tail_key xs = murmur_tail_key ys"
    using assms(1) by (auto simp: murmur_tail_key_def Let_def)
  assume "murmur_block xs (j * 4) = murmur_block ys (j * 4)"
  then have same: "xs ! (j * 4 + k) = ys ! (j * 4 + k)" if "k < 4" for k
    using that by (auto simp: murmur_block_word byte_word_inj less_Suc_eq numeral_eq_Suc)
  show "xs = ys"
  proof (rule nth_equalityI [OF assms(1)])
    fix i assume "i < length xs"
    then show "xs ! i = ys ! i"
      using assms(2) [of i] same [of "i mod 4"] by (cases "i div 4 = j") auto
  qed
qed

lemma murmur_tail_differ:
  assumes "length xs = length ys" and "\<And>i. i < length xs \<Longrightarrow> i div 4 \<noteq> length xs div 4 \<Longrightarrow> xs ! i = ys ! i"
  shows "murmur_keys xs = murmur_keys ys"
    and "murmur_tail_key xs = murmur_tail_key ys \<Longrightarrow> xs = ys"
proof -
  have "murmur_block xs (i * 4) = murmur_block ys (i * 4)" if "i < length xs div 4" for i
  proof -
    have "i * 4 + k < length xs \<and> (i * 4 + k) div 4 \<noteq> length xs div 4" if "k < 4" for k
      using \<open>i < length xs div 4\<close> that by auto
    from this [of 0] this [of 1] this [of 2] this [of 3] show ?thesis
      by (simp add: murmur_block_word assms(2))
  qed
  then show "murmur_keys xs = murmur_keys ys" using assms(1) by (simp add: murmur_keys_def)
  assume "murmur_tail_key xs = murmur_tail_key ys"
  then have bytes: "length xs mod 4 \<ge> 1 \<Longrightarrow> xs ! (length xs div 4 * 4) = ys ! (length xs div 4 * 4)"
      "length xs mod 4 \<ge> 2 \<Longrightarrow> xs ! (length xs div 4 * 4 + 1) = ys ! (length xs div 4 * 4 + 1)"
      "length xs mod 4 \<ge> 3 \<Longrightarrow> xs ! (length xs div 4 * 4 + 2) = ys ! (length xs div 4 * 4 + 2)"
    using assms(1) by (simp_all add: murmur_tail_key_def Let_def byte_word_inj)
  have same: "xs ! (length xs div 4 * 4 + k) = ys ! (length xs div 4 * 4 + k)" if "k < length xs mod 4" for k
  proof -
    have "length xs mod 4 < 4" by simp
    with that have "k = 0 \<and> length xs mod 4 \<ge> 1 \<or> k = 1 \<and> length xs mod 4 \<ge> 2 \<or> k = 2 \<and> length xs mod 4 \<ge> 3"
      by linarith
    with bytes show ?thesis by auto
  qed
  show "xs = ys"
  proof (rule nth_equalityI [OF assms(1)])
    fix i assume "i < length xs"
    then show "xs ! i = ys ! i"
      using assms(2) [of i] same [of "i mod 4"] div_mult_mod_eq [of i 4] div_mult_mod_eq [of "length xs" 4]
      by (cases "i div 4 = length xs div 4") auto
  qed
qed

text \<open>Inputs that differ in one block, or in the tail, and have the same state before the final mixing are the same.\<close>

lemma murmur_block_determined:
  assumes "length xs = length ys" and "\<And>i. i < length xs \<Longrightarrow> i div 4 \<noteq> j \<Longrightarrow> xs ! i = ys ! i" and j: "j < length xs div 4"
    and tail: "murmur_tail xs (murmur_body xs seed) = murmur_tail ys (murmur_body ys seed)"
  shows "xs = ys"
proof -
  note d = murmur_keys_differ [OF assms(1,2) j]
  have len: "length (murmur_keys xs) = length xs div 4" by (simp add: murmur_keys_def)
  with j have split: "murmur_keys xs = take j (murmur_keys xs) @ murmur_block xs (j * 4) # drop (Suc j) (murmur_keys xs)"
    using id_take_nth_drop [of j "murmur_keys xs"] by (simp add: murmur_keys_def)
  have body: "murmur_body xs seed = murmur_body ys seed"
    using tail d(2) assms(1) by (simp add: murmur_tail_word split: if_splits)
  have ys: "murmur_keys ys = take j (murmur_keys xs) @ murmur_block ys (j * 4) # drop (Suc j) (murmur_keys xs)"
    using j len trans [OF d(1) upd_conv_take_nth_drop [of j "murmur_keys xs"]] by simp
  have "murmur_block xs (j * 4) = murmur_block ys (j * 4)"
    using body unfolding murmur_body_keys ys by (subst (asm) split) (rule murmur.fold_substitution)
  then show ?thesis using d(3) by simp
qed

lemma murmur_tail_determined:
  assumes "length xs = length ys" and "\<And>i. i < length xs \<Longrightarrow> i div 4 \<noteq> length xs div 4 \<Longrightarrow> xs ! i = ys ! i"
    and tail: "murmur_tail xs (murmur_body xs seed) = murmur_tail ys (murmur_body ys seed)"
  shows "xs = ys"
proof -
  note d = murmur_tail_differ [OF assms(1,2)]
  have "murmur_tail_key xs = murmur_tail_key ys"
  proof (cases "length xs mod 4 = 0")
    case True
    with assms(1) show ?thesis by (simp add: murmur_tail_key_def Let_def)
  next
    case False
    with tail d(1) assms(1) show ?thesis
      by (auto simp: murmur_tail_word murmur_body_keys dest: murmur_mix_k1_inj)
  qed
  then show ?thesis using d(2) by simp
qed

text \<open>
  Property C13. MurmurHash3 never maps two strings of the same length to the same hash that
  differ only inside one aligned group of four bytes (a block of the loop, or the tail),
  and for a given string it never maps two seeds to the same hash.
\<close>

theorem murmur3_substitution:
  assumes "length xs = length ys" and "\<And>i. i < length xs \<Longrightarrow> i div 4 \<noteq> j \<Longrightarrow> xs ! i = ys ! i" and "xs \<noteq> ys"
  shows "murmur3_x86_32 xs seed \<noteq> murmur3_x86_32 ys seed \<and>
    (seed \<noteq> seed' \<longrightarrow> murmur3_x86_32 xs seed \<noteq> murmur3_x86_32 xs seed')"
proof (intro conjI impI notI)
  assume "seed \<noteq> seed'" and "murmur3_x86_32 xs seed = murmur3_x86_32 xs seed'"
  then show False
    by (auto simp: murmur3_x86_32_def murmur_tail_word murmur_body_keys dest!: murmur_final_inj murmur.fold_state_inj
        split: if_splits)
next
  assume eq: "murmur3_x86_32 xs seed = murmur3_x86_32 ys seed"
  then have tail: "murmur_tail xs (murmur_body xs seed) = murmur_tail ys (murmur_body ys seed)"
    using assms(1) by (auto simp: murmur3_x86_32_def dest: murmur_final_inj)
  have "j \<le> length xs div 4"
  proof (rule ccontr)
    assume "\<not> j \<le> length xs div 4"
    then have "i div 4 \<noteq> j" if "i < length xs" for i using that div_le_mono [of i "length xs" 4] by auto
    then show False using assms by (auto intro: nth_equalityI)
  qed
  then consider "j < length xs div 4" | "j = length xs div 4" by linarith
  then have "xs = ys"
  proof cases
    case 1
    from murmur_block_determined [OF assms(1,2) 1 tail] show ?thesis .
  next
    case 2
    from murmur_tail_determined [OF assms(1) assms(2) [unfolded 2] tail] show ?thesis .
  qed
  with assms(3) show False by simp
qed

theorem murmur3_substitution_witness:
  "murmur3_x86_32 [1, 2, 3, 4, 5] 7 \<noteq> murmur3_x86_32 [1, 9, 3, 8, 5] 7"
proof -
  have "[1, 2, 3, 4, 5] ! i = [1, 9, 3, 8, 5 :: u8] ! i" if "i < 5" "i div 4 \<noteq> 0" for i :: nat
  proof -
    from that have "i = 4" by (auto simp: div_eq_0_iff)
    then show ?thesis by simp
  qed
  then show ?thesis using murmur3_substitution [of "[1, 2, 3, 4, 5]" "[1, 9, 3, 8, 5]" 0] by simp
qed

end
