(* ===== verification/Sha256.thy ===== *)
theory Sha256
  imports Egl_Words
begin

unbundle bit_operations_syntax

text \<open>
  \<open>sha256\<close> and \<open>sha256_hex\<close> (hash.hpp), and the definition of SHA-256 they implement.
  The source never builds the padded message: the lambda \<open>padded\<close> computes its bytes
  one by one. It keeps the message schedule in an array that it fills in place. The
  specification follows the standard instead: the message is padded, cut into
  blocks, and each block's schedule is a recursive function of the round.
\<close>

section \<open>The routine\<close>

definition sha256_k :: "u32 list" where
  "sha256_k =
    concat
     [[0x428a2f98, 0x71374491, 0xb5c0fbcf, 0xe9b5dba5, 0x3956c25b, 0x59f111f1, 0x923f82a4, 0xab1c5ed5],
      [0xd807aa98, 0x12835b01, 0x243185be, 0x550c7dc3, 0x72be5d74, 0x80deb1fe, 0x9bdc06a7, 0xc19bf174],
      [0xe49b69c1, 0xefbe4786, 0x0fc19dc6, 0x240ca1cc, 0x2de92c6f, 0x4a7484aa, 0x5cb0a9dc, 0x76f988da],
      [0x983e5152, 0xa831c66d, 0xb00327c8, 0xbf597fc7, 0xc6e00bf3, 0xd5a79147, 0x06ca6351, 0x14292967],
      [0x27b70a85, 0x2e1b2138, 0x4d2c6dfc, 0x53380d13, 0x650a7354, 0x766a0abb, 0x81c2c92e, 0x92722c85],
      [0xa2bfe8a1, 0xa81a664b, 0xc24b8b70, 0xc76c51a3, 0xd192e819, 0xd6990624, 0xf40e3585, 0x106aa070],
      [0x19a4c116, 0x1e376c08, 0x2748774c, 0x34b0bcb5, 0x391c0cb3, 0x4ed8aa4a, 0x5b9cca4f, 0x682e6ff3],
      [0x748f82ee, 0x78a5636f, 0x84c87814, 0x8cc70208, 0x90befffa, 0xa4506ceb, 0xbef9a3f7, 0xc67178f2]]"

definition rotr :: "u32 \<Rightarrow> nat \<Rightarrow> u32" where
  "rotr x n = drop_bit n x OR push_bit (32 - n) x"

definition sha256_init :: "u32 list" where
  "sha256_init = [0x6a09e667, 0xbb67ae85, 0x3c6ef372, 0xa54ff53a, 0x510e527f, 0x9b05688c, 0x1f83d9ab, 0x5be0cd19]"

lemma pad_rem: "(120 - n mod 64) mod 64 = (if n mod 64 \<le> 56 then 56 - n mod 64 else 120 - n mod 64)" for n :: nat
proof (cases "n mod 64 \<le> 56")
  case True
  then have "120 - n mod 64 = (56 - n mod 64) + 64" by simp
  then have "(120 - n mod 64) mod 64 = (56 - n mod 64) mod 64" by (simp only: mod_add_self2)
  with True show ?thesis by simp
qed simp

lemma pad_rem_Suc:
  fixes n :: nat
  assumes "n mod 64 \<noteq> 56"
  shows "(120 - n mod 64) mod 64 = Suc ((120 - Suc n mod 64) mod 64)"
proof (cases "Suc (n mod 64) = 64")
  case True
  then have "n mod 64 = 63" by simp
  then show ?thesis by (simp add: mod_Suc)
next
  case False
  have G: "(if r \<le> 56 then 56 - r else 120 - r) = Suc (if Suc r \<le> 56 then 56 - Suc r else 120 - Suc r)"
    if "r < 64" "r \<noteq> 56" "Suc r \<noteq> 64" for r :: nat
    using that by auto
  have "Suc n mod 64 = Suc (n mod 64)" using False by (simp add: mod_Suc)
  then show ?thesis unfolding pad_rem using G [of "n mod 64"] assms False by simp
qed

text \<open>The loop that rounds the length up; sizes are below \<open>2 ^ 63\<close>, so it does not overflow.\<close>

function pad_loop :: "nat \<Rightarrow> nat" where
  "pad_loop tot = (if tot mod 64 \<noteq> 56 then pad_loop (tot + 1) else tot)"
  by auto
termination
  by (relation "measure (\<lambda>tot. (120 - tot mod 64) mod 64)") (auto simp: pad_rem_Suc)

declare pad_loop.simps [simp del]

definition sha256_total :: "nat \<Rightarrow> nat" where
  "sha256_total len = pad_loop (len + 1) + 8"

definition padded :: "u8 list \<Rightarrow> nat \<Rightarrow> u32" where
  "padded data i =
     (let len = length data; bitlen = of_nat len * 8 :: u64; tot = sha256_total len in
      if i < len then ucast (data ! i)
      else if i = len then 0x80
      else if i \<ge> tot - 8 then ucast (drop_bit ((tot - 1 - i) * 8) bitlen AND 0xff)
      else 0)"

definition schedule_word :: "u8 list \<Rightarrow> nat \<Rightarrow> nat \<Rightarrow> u32" where
  "schedule_word data blk t =
     (let base = blk * 64 + t * 4 in
      push_bit 24 (padded data base) OR push_bit 16 (padded data (base + 1)) OR
      push_bit 8 (padded data (base + 2)) OR padded data (base + 3))"

definition extend_word :: "u32 list \<Rightarrow> nat \<Rightarrow> u32 list" where
  "extend_word w t =
     (let s0 = rotr (w ! (t - 15)) 7 XOR rotr (w ! (t - 15)) 18 XOR drop_bit 3 (w ! (t - 15));
          s1 = rotr (w ! (t - 2)) 17 XOR rotr (w ! (t - 2)) 19 XOR drop_bit 10 (w ! (t - 2))
      in w[t := w ! (t - 16) + s0 + w ! (t - 7) + s1])"

definition sha256_schedule :: "u8 list \<Rightarrow> nat \<Rightarrow> u32 list" where
  "sha256_schedule data blk =
     (let w = fold (\<lambda>t w. w[t := schedule_word data blk t]) [0..<16] (replicate 64 0)
      in fold (\<lambda>t w. extend_word w t) [16..<64] w)"

text \<open>The working variables \<open>a\<close> to \<open>hh\<close> and one round on them.\<close>

record sha_state =
  sa :: u32
  sb :: u32
  sc :: u32
  sd :: u32
  se :: u32
  sf :: u32
  sg :: u32
  sh :: u32

definition sha_round :: "u32 list \<Rightarrow> nat \<Rightarrow> sha_state \<Rightarrow> sha_state" where
  "sha_round w t v =
     (let s1 = rotr (se v) 6 XOR rotr (se v) 11 XOR rotr (se v) 25;
          ch = (se v AND sf v) XOR (NOT (se v) AND sg v);
          temp1 = sh v + s1 + ch + sha256_k ! t + w ! t;
          s0 = rotr (sa v) 2 XOR rotr (sa v) 13 XOR rotr (sa v) 22;
          maj = (sa v AND sb v) XOR (sa v AND sc v) XOR (sb v AND sc v);
          temp2 = s0 + maj
      in \<lparr>sa = temp1 + temp2, sb = sa v, sc = sb v, sd = sc v, se = sd v + temp1, sf = se v, sg = sf v, sh = sg v\<rparr>)"

definition sha_block :: "u8 list \<Rightarrow> nat \<Rightarrow> u32 list \<Rightarrow> u32 list" where
  "sha_block data blk h =
     (let w = sha256_schedule data blk;
          v = fold (sha_round w) [0..<64]
            \<lparr>sa = h ! 0, sb = h ! 1, sc = h ! 2, sd = h ! 3, se = h ! 4, sf = h ! 5, sg = h ! 6, sh = h ! 7\<rparr>
      in [h ! 0 + sa v, h ! 1 + sb v, h ! 2 + sc v, h ! 3 + sd v, h ! 4 + se v, h ! 5 + sf v, h ! 6 + sg v, h ! 7 + sh v])"

definition sha256_words :: "u8 list \<Rightarrow> u32 list" where
  "sha256_words data = fold (sha_block data) [0..<sha256_total (length data) div 64] sha256_init"

definition sha256 :: "u8 list \<Rightarrow> u8 list" where
  "sha256 data =
     (let h = sha256_words data in
      fold (\<lambda>i digest. digest[i * 4 := ucast (drop_bit 24 (h ! i)), i * 4 + 1 := ucast (drop_bit 16 (h ! i)),
          i * 4 + 2 := ucast (drop_bit 8 (h ! i)), i * 4 + 3 := ucast (h ! i)]) [0..<8] (replicate 32 0))"

definition hex_digits :: string where
  "hex_digits = ''0123456789abcdef''"

definition sha256_hex :: "u8 list \<Rightarrow> string" where
  "sha256_hex data =
     (let digest = sha256 data in
      fold (\<lambda>i out. out[i * 2 := hex_digits ! unat (drop_bit 4 (digest ! i) AND 0x0f),
          i * 2 + 1 := hex_digits ! unat (digest ! i AND 0x0f)]) [0..<32] (replicate 64 (CHR 0x00)))"

section \<open>The standard\<close>

definition be64 :: "u64 \<Rightarrow> u8 list" where
  "be64 x = map (\<lambda>k. ucast (drop_bit (8 * (7 - k)) x)) [0..<8]"

text \<open>The message, a one bit, the fewest zero bits that leave room for the length, and the length in bits.\<close>

definition pad :: "u8 list \<Rightarrow> u8 list" where
  "pad data = data @ [0x80] @ replicate ((120 - Suc (length data) mod 64) mod 64) 0 @ be64 (of_nat (8 * length data))"

fun chunks :: "u8 list \<Rightarrow> u8 list list" where
  "chunks xs = (if length xs < 64 then [] else take 64 xs # chunks (drop 64 xs))"

declare chunks.simps [simp del]

definition be_word :: "u8 list \<Rightarrow> nat \<Rightarrow> u32" where
  "be_word block t = byte_word (block ! (4 * t + 3)) (block ! (4 * t + 2)) (block ! (4 * t + 1)) (block ! (4 * t))"

definition small_sigma0 :: "u32 \<Rightarrow> u32" where
  "small_sigma0 x = word_rotr 7 x XOR word_rotr 18 x XOR drop_bit 3 x"

definition small_sigma1 :: "u32 \<Rightarrow> u32" where
  "small_sigma1 x = word_rotr 17 x XOR word_rotr 19 x XOR drop_bit 10 x"

definition big_sigma0 :: "u32 \<Rightarrow> u32" where
  "big_sigma0 x = word_rotr 2 x XOR word_rotr 13 x XOR word_rotr 22 x"

definition big_sigma1 :: "u32 \<Rightarrow> u32" where
  "big_sigma1 x = word_rotr 6 x XOR word_rotr 11 x XOR word_rotr 25 x"

definition Ch :: "u32 \<Rightarrow> u32 \<Rightarrow> u32 \<Rightarrow> u32" where
  "Ch x y z = (x AND y) XOR (NOT x AND z)"

definition Maj :: "u32 \<Rightarrow> u32 \<Rightarrow> u32 \<Rightarrow> u32" where
  "Maj x y z = (x AND y) XOR (x AND z) XOR (y AND z)"

fun message_word :: "u8 list \<Rightarrow> nat \<Rightarrow> u32" where
  "message_word block t =
     (if t < 16 then be_word block t
      else small_sigma1 (message_word block (t - 2)) + message_word block (t - 7) +
        small_sigma0 (message_word block (t - 15)) + message_word block (t - 16))"

declare message_word.simps [simp del]

fun std_round :: "(nat \<Rightarrow> u32) \<Rightarrow> nat \<Rightarrow> u32 list \<Rightarrow> u32 list" where
  "std_round W t [a, b, c, d, e, f, g, h] =
     (let T1 = h + big_sigma1 e + Ch e f g + sha256_k ! t + W t; T2 = big_sigma0 a + Maj a b c
      in [T1 + T2, a, b, c, d + T1, e, f, g])"
| "std_round W t _ = []"

definition std_compress :: "u8 list \<Rightarrow> u32 list \<Rightarrow> u32 list" where
  "std_compress block H = map2 (+) H (fold (std_round (message_word block)) [0..<64] H)"

definition be32 :: "u32 \<Rightarrow> u8 list" where
  "be32 x = [ucast (drop_bit 24 x), ucast (drop_bit 16 x), ucast (drop_bit 8 x), ucast x]"

definition sha256_standard :: "u8 list \<Rightarrow> u8 list" where
  "sha256_standard data = concat (map be32 (fold std_compress (chunks (pad data)) sha256_init))"

section \<open>Padding\<close>

lemma pad_loop_eq: "pad_loop n = n + (120 - n mod 64) mod 64"
proof (induction n rule: pad_loop.induct)
  case (1 n)
  show ?case
  proof (cases "n mod 64 = 56")
    case False
    with 1 pad_rem_Suc [OF this] show ?thesis by (simp add: pad_loop.simps [of n])
  qed (simp add: pad_loop.simps)
qed

lemma sha256_total_eq: "sha256_total n = n + 1 + (120 - Suc n mod 64) mod 64 + 8"
  by (simp add: sha256_total_def pad_loop_eq)

lemma length_pad: "length (pad data) = sha256_total (length data)"
  by (simp add: pad_def be64_def sha256_total_eq)

lemma sha256_total_mod: "sha256_total n mod 64 = 0"
proof -
  have "(Suc n + (120 - Suc n mod 64) mod 64) mod 64 = (Suc n mod 64 + (120 - Suc n mod 64)) mod 64"
    by (simp only: mod_add_right_eq mod_add_left_eq)
  also have "\<dots> = 120 mod 64" using mod_less_divisor [of 64 "Suc n"] by (simp add: le_add_diff_inverse)
  finally have "(Suc n + (120 - Suc n mod 64) mod 64) mod 64 = 56" by simp
  then have "(Suc n + (120 - Suc n mod 64) mod 64 + 8) mod 64 = (56 + 8) mod 64" by (metis mod_add_left_eq)
  then show ?thesis by (simp add: sha256_total_eq)
qed

lemma mask_numeral_8: "(0xff :: u64) = mask 8"
  by (simp add: mask_eq_exp_minus_1)

text \<open>The lambda of the source gives the bytes of the padded message.\<close>

lemma padded_pad:
  assumes "i < length (pad data)"
  shows "padded data i = ucast (pad data ! i)"
proof -
  let ?len = "length data" and ?z = "(120 - Suc (length data) mod 64) mod 64"
  have tot: "sha256_total ?len = ?len + 1 + ?z + 8" by (rule sha256_total_eq)
  consider "i < ?len" | "i = ?len" | "?len < i" "i < ?len + 1 + ?z" | "i \<ge> ?len + 1 + ?z" by linarith
  then show ?thesis
  proof cases
    case 3
    then have "pad data ! i = 0" by (auto simp: pad_def nth_append nth_Cons split: nat.splits)
    with 3 tot show ?thesis by (simp add: padded_def Let_def)
  next
    case 4
    define k where "k = i - (?len + 1 + ?z)"
    have "i < ?len + 1 + ?z + 8" using assms by (simp only: length_pad tot)
    with 4 have k: "i = ?len + 1 + ?z + k" "k < 8" unfolding k_def by linarith+
    have "pad data ! i = ucast (drop_bit (8 * (7 - k)) (of_nat (8 * ?len) :: u64))"
      using k by (simp add: pad_def be64_def nth_append nth_Cons split: nat.splits)
    moreover have "(sha256_total ?len - 1 - i) * 8 = 8 * (7 - k)" using k tot by simp
    moreover have "ucast (x AND 0xff) = (ucast (ucast x :: u8) :: u32)" for x :: u64
      unfolding mask_numeral_8 by (intro bit_word_eqI) (auto simp: bit_simps dest: bit_imp_le_length)
    ultimately show ?thesis using k tot by (simp add: padded_def Let_def mult.commute)
  qed (simp_all add: padded_def pad_def nth_append Let_def)
qed

lemma length_chunks: "length xs mod 64 = 0 \<Longrightarrow> length (chunks xs) = length xs div 64"
proof (induction xs rule: chunks.induct)
  case (1 xs)
  show ?case
  proof (cases "length xs < 64")
    case False
    then have "(length xs - 64) mod 64 = 0" "length xs div 64 = Suc ((length xs - 64) div 64)"
      using 1(2) by (simp_all add: le_mod_geq le_div_geq)
    with False 1 show ?thesis by (simp add: chunks.simps [of xs])
  qed (simp add: chunks.simps)
qed

lemma nth_chunks: "k < length xs div 64 \<Longrightarrow> chunks xs ! k = take 64 (drop (k * 64) xs)"
proof (induction xs arbitrary: k rule: chunks.induct)
  case (1 xs)
  then have "\<not> length xs < 64" by (cases "length xs < 64") auto
  with 1 show ?case
    by (cases k) (simp_all add: chunks.simps [of xs] le_div_geq add.commute)
qed

section \<open>Schedule and rounds\<close>

lemma rotr_word_rotr: "0 < n \<Longrightarrow> n < 32 \<Longrightarrow> rotr x n = word_rotr n x"
  by (simp add: rotr_def shift_or_rotr)

lemma schedule_word_be:
  assumes "blk < length (pad data) div 64" and "t < 16"
  shows "schedule_word data blk t = be_word (chunks (pad data) ! blk) t"
proof -
  have "blk * 64 + 64 \<le> length (pad data)"
  proof -
    have "(blk + 1) * 64 \<le> length (pad data) div 64 * 64" using assms(1) by (intro mult_le_mono) auto
    then have "(blk + 1) * 64 \<le> length (pad data)"
      using div_times_less_eq_dividend [of "length (pad data)" 64] by (rule le_trans)
    then show ?thesis by simp
  qed
  then have "padded data (blk * 64 + t * 4 + k) = ucast (chunks (pad data) ! blk ! (4 * t + k))" if "k < 4" for k
    using assms that by (simp add: padded_pad nth_chunks add.assoc mult.commute)
  from this [of 0] this [of 1] this [of 2] this [of 3] show ?thesis
    by (simp add: schedule_word_def be_word_def byte_word_def Let_def ac_simps)
qed

lemma fold_update_upt:
  "n \<le> length w \<Longrightarrow> fold (\<lambda>t w. w[t := f t]) [0..<n] w = map f [0..<n] @ drop n w"
proof (induction n)
  case (Suc n)
  then have "(map f [0..<n] @ drop n w)[n := f n] = map f [0..<Suc n] @ drop (Suc n) w"
    by (simp add: list_update_append Cons_nth_drop_Suc [symmetric])
  with Suc show ?case by simp
qed simp

lemma extend_word_message:
  assumes "length w = 64" and "\<forall>i<t. w ! i = message_word block i" and "16 \<le> t" and "t < 64"
  shows "length (extend_word w t) = 64 \<and> (\<forall>i<Suc t. extend_word w t ! i = message_word block i)"
proof -
  have "t - 15 < t" "t - 2 < t" "t - 16 < t" "t - 7 < t" using assms(3) by auto
  then have "extend_word w t = w[t := message_word block t]"
    using assms by (simp add: extend_word_def message_word.simps [of block t] small_sigma0_def small_sigma1_def
        rotr_word_rotr Let_def ac_simps)
  with assms show ?thesis by (auto simp: nth_list_update less_Suc_eq)
qed

lemma fold_extend_word:
  assumes "length w = 64" and "\<forall>i<16. w ! i = message_word block i" and "16 \<le> n" and "n \<le> 64"
  shows "length (fold (\<lambda>t w. extend_word w t) [16..<n] w) = 64 \<and>
    (\<forall>i<n. fold (\<lambda>t w. extend_word w t) [16..<n] w ! i = message_word block i)"
  using assms(3,4)
proof (induction n rule: dec_induct)
  case (step n)
  then show ?case using extend_word_message [of "fold (\<lambda>t w. extend_word w t) [16..<n] w" n block] by simp
qed (use assms in simp)

lemma sha256_schedule_message:
  assumes "blk < length (pad data) div 64" and "t < 64"
  shows "sha256_schedule data blk ! t = message_word (chunks (pad data) ! blk) t"
proof -
  let ?w = "fold (\<lambda>t w. w[t := schedule_word data blk t]) [0..<16] (replicate 64 0)"
  have w: "?w = map (schedule_word data blk) [0..<16] @ replicate 48 0"
    using fold_update_upt [of 16 "replicate 64 0" "schedule_word data blk"] by simp
  have "\<forall>i<16. ?w ! i = message_word (chunks (pad data) ! blk) i"
    unfolding w using assms(1) by (simp add: nth_append schedule_word_be message_word.simps)
  moreover have "length ?w = 64" unfolding w by simp
  ultimately show ?thesis
    using fold_extend_word [of ?w "chunks (pad data) ! blk" 64] assms(2) by (simp add: sha256_schedule_def Let_def)
qed

definition state_list :: "sha_state \<Rightarrow> u32 list" where
  "state_list v = [sa v, sb v, sc v, sd v, se v, sf v, sg v, sh v]"

lemma sha_round_std: "w ! t = W t \<Longrightarrow> state_list (sha_round w t v) = std_round W t (state_list v)"
  by (simp add: state_list_def sha_round_def Let_def rotr_word_rotr big_sigma0_def big_sigma1_def Ch_def Maj_def)

lemma sha_rounds_std:
  "(\<And>t. t \<in> set ts \<Longrightarrow> w ! t = W t) \<Longrightarrow>
    state_list (fold (sha_round w) ts v) = fold (std_round W) ts (state_list v)"
  by (induction ts arbitrary: v) (auto simp: sha_round_std)

lemma length_8_conv: "length h = 8 \<Longrightarrow> h = [h ! 0, h ! 1, h ! 2, h ! 3, h ! 4, h ! 5, h ! 6, h ! 7]"
  by (auto simp: length_Suc_conv numeral_eq_Suc)

lemma map2_8:
  "length h = 8 \<Longrightarrow> map2 g h [a, b, c, d, e, f, i, k] =
    [g (h ! 0) a, g (h ! 1) b, g (h ! 2) c, g (h ! 3) d, g (h ! 4) e, g (h ! 5) f, g (h ! 6) i, g (h ! 7) k]"
  by (subst length_8_conv) simp_all

lemma sha_block_std:
  assumes "blk < length (pad data) div 64" and "length h = 8"
  shows "sha_block data blk h = std_compress (chunks (pad data) ! blk) h \<and> length (sha_block data blk h) = 8"
proof -
  let ?v = "\<lparr>sa = h ! 0, sb = h ! 1, sc = h ! 2, sd = h ! 3, se = h ! 4, sf = h ! 5, sg = h ! 6, sh = h ! 7\<rparr>"
  let ?w = "sha256_schedule data blk"
  have "state_list ?v = h" using length_8_conv [OF assms(2)] by (simp add: state_list_def)
  moreover have "state_list (fold (sha_round ?w) [0..<64] ?v) =
      fold (std_round (message_word (chunks (pad data) ! blk))) [0..<64] (state_list ?v)"
    by (rule sha_rounds_std) (simp add: sha256_schedule_message [OF assms(1)])
  moreover have "sha_block data blk h = map2 (+) h (state_list (fold (sha_round ?w) [0..<64] ?v))"
    by (simp add: sha_block_def state_list_def Let_def map2_8 [OF assms(2)])
  moreover have "length (sha_block data blk h) = 8" by (simp add: sha_block_def Let_def)
  ultimately show ?thesis by (simp add: std_compress_def)
qed

lemma sha256_words_std:
  "sha256_words data = fold std_compress (chunks (pad data)) sha256_init" (is ?words)
  "length (sha256_words data) = 8" (is ?len)
proof -
  let ?cs = "chunks (pad data)" and ?n = "length (pad data) div 64"
  have "fold (sha_block data) [0..<k] sha256_init = fold std_compress (take k ?cs) sha256_init \<and>
      length (fold (sha_block data) [0..<k] sha256_init) = 8" if "k \<le> ?n" for k
    using that
  proof (induction k)
    case 0
    then show ?case by (simp add: sha256_init_def)
  next
    case (Suc k)
    then have "k < length ?cs" by (simp add: length_chunks length_pad sha256_total_mod)
    moreover note IH = Suc.IH [OF Suc_leD [OF Suc.prems]]
    moreover have "k < ?n" using Suc.prems by simp
    note B = sha_block_std [OF this, of "fold (sha_block data) [0..<k] sha256_init", OF conjunct2 [OF IH]]
    moreover note conjunct1 [OF IH] conjunct1 [OF B] conjunct2 [OF B]
    ultimately show ?case by (simp add: take_Suc_conv_app_nth)
  qed
  note all = this [of ?n, OF order.refl]
  have n: "sha256_total (length data) div 64 = ?n" "take ?n ?cs = ?cs"
    using length_chunks [of "pad data"] by (simp_all add: length_pad sha256_total_mod)
  show ?words ?len unfolding sha256_words_def n(1) using all n(2) by auto
qed

text \<open>Filling the digest and the hexadecimal string position by position.\<close>

lemma length_ge_4: "4 \<le> length xs \<Longrightarrow> \<exists>a b c e rest. xs = a # b # c # e # rest"
  by (auto simp: numeral_eq_Suc Suc_le_length_iff)

lemma fold_fill4:
  "n * 4 \<le> length d \<Longrightarrow>
   fold (\<lambda>i d. d[i * 4 := f0 i, i * 4 + 1 := f1 i, i * 4 + 2 := f2 i, i * 4 + 3 := f3 i]) [0..<n] d =
   concat (map (\<lambda>i. [f0 i, f1 i, f2 i, f3 i]) [0..<n]) @ drop (n * 4) d"
proof (induction n)
  case (Suc n)
  let ?c = "concat (map (\<lambda>i. [f0 i, f1 i, f2 i, f3 i]) [0..<n])"
  have len: "length ?c = n * 4" by (induction n) simp_all
  have "4 \<le> length (drop (n * 4) d)" using Suc.prems by simp
  then obtain a b c e rest where d: "drop (n * 4) d = a # b # c # e # rest"
    using length_ge_4 by blast
  have "drop (Suc n * 4) d = drop 4 (drop (n * 4) d)" by (simp add: add.commute)
  with d have "drop (Suc n * 4) d = rest" by simp
  with Suc d len show ?case by (simp add: list_update_append)
qed simp

lemma length_ge_2: "2 \<le> length xs \<Longrightarrow> \<exists>a b rest. xs = a # b # rest"
  by (auto simp: numeral_eq_Suc Suc_le_length_iff)

lemma fold_fill2:
  "n * 2 \<le> length d \<Longrightarrow>
   fold (\<lambda>i d. d[i * 2 := f0 i, i * 2 + 1 := f1 i]) [0..<n] d =
   concat (map (\<lambda>i. [f0 i, f1 i]) [0..<n]) @ drop (n * 2) d"
proof (induction n)
  case (Suc n)
  let ?c = "concat (map (\<lambda>i. [f0 i, f1 i]) [0..<n])"
  have len: "length ?c = n * 2" by (induction n) simp_all
  have "2 \<le> length (drop (n * 2) d)" using Suc.prems by simp
  then obtain a b rest where d: "drop (n * 2) d = a # b # rest"
    using length_ge_2 by blast
  have "drop (Suc n * 2) d = drop 2 (drop (n * 2) d)" by (simp add: add.commute)
  with d have "drop (Suc n * 2) d = rest" by simp
  with Suc d len show ?case by (simp add: list_update_append)
qed simp

lemma sha256_concat: "sha256 data = concat (map be32 (sha256_words data))"
proof -
  let ?h = "sha256_words data"
  have "sha256 data = concat (map (\<lambda>i. be32 (?h ! i)) [0..<8])"
    using fold_fill4 [of 8 "replicate 32 (0 :: u8)" "\<lambda>i. ucast (drop_bit 24 (?h ! i))"
        "\<lambda>i. ucast (drop_bit 16 (?h ! i))" "\<lambda>i. ucast (drop_bit 8 (?h ! i))" "\<lambda>i. ucast (?h ! i)"]
    by (simp add: sha256_def be32_def Let_def)
  also have "map (\<lambda>i. be32 (?h ! i)) [0..<8] = map be32 ?h"
    by (rule nth_equalityI) (simp_all add: sha256_words_std(2))
  finally show ?thesis .
qed

lemma length_sha256: "length (sha256 data) = 32"
  by (simp add: sha256_concat length_concat comp_def be32_def sum_list_triv sha256_words_std(2))

text \<open>
  Property C14. \<open>sha256\<close> computes SHA-256 as the standard defines it, for every input: its
  byte-by-byte padding, its in-place message schedule, its rotations by shifts and its
  digest layout agree with padding the message, cutting it into blocks and compressing them.
\<close>

theorem sha256_is_standard: "sha256 data = sha256_standard data \<and> length (sha256 data) = 32"
  using length_sha256 [of data] by (simp add: sha256_concat sha256_standard_def sha256_words_std(1))

text \<open>The first example of the standard, which also fixes the constants.\<close>

lemma sha256_words_abc:
  "sha256_words [97, 98, 99] =
    [0xba7816bf, 0x8f01cfea, 0x414140de, 0x5dae2223, 0xb00361a3, 0x96177a9c, 0xb410ff61, 0xf20015ad]"
  by code_simp

section \<open>Hexadecimal digests\<close>

text \<open>Reading a pair of lower-case hexadecimal digits.\<close>

definition hex_value :: "char \<Rightarrow> nat" where
  "hex_value c = length (takeWhile (\<lambda>d. d \<noteq> c) hex_digits)"

fun unhex :: "string \<Rightarrow> u8 list" where
  "unhex (c # d # s) = of_nat (16 * hex_value c + hex_value d) # unhex s"
| "unhex _ = []"

lemma hex_value_digit: "n < 16 \<Longrightarrow> hex_value (hex_digits ! n) = n"
proof -
  have "\<forall>n \<in> set [0..<16]. hex_value (hex_digits ! n) = n" by code_simp
  then show "n < 16 \<Longrightarrow> hex_value (hex_digits ! n) = n" by simp
qed

lemma hex_digit_mem: "n < 16 \<Longrightarrow> hex_digits ! n \<in> set hex_digits"
  by (rule nth_mem) (simp add: hex_digits_def)

lemma nibbles:
  fixes b :: u8
  shows "unat (drop_bit 4 b AND 0x0f) < 16" "unat (b AND 0x0f) < 16"
    "of_nat (16 * unat (drop_bit 4 b AND 0x0f) + unat (b AND 0x0f)) = b"
proof -
  have m: "(0x0f :: u8) = mask 4" by (simp add: mask_eq_exp_minus_1)
  have lo: "unat (x AND 0x0f) = unat x mod 16" for x :: u8
    unfolding m by (simp add: take_bit_eq_mask [symmetric] unat_mod_distrib take_bit_eq_mod)
  have hi: "unat (drop_bit 4 b) = unat b div 16"
    by (simp add: drop_bit_eq_div unat_div_distrib)
  have "unat b < 256" using unsigned_less [of b, where 'a = nat] by simp
  then have "unat b div 16 mod 16 = unat b div 16" by simp
  then show "of_nat (16 * unat (drop_bit 4 b AND 0x0f) + unat (b AND 0x0f)) = b"
    unfolding lo hi by simp
  show "unat (drop_bit 4 b AND 0x0f) < 16" "unat (b AND 0x0f) < 16" unfolding lo by simp_all
qed

lemma sha256_hex_concat:
  "sha256_hex data = concat (map (\<lambda>b. [hex_digits ! unat (drop_bit 4 b AND 0x0f), hex_digits ! unat (b AND 0x0f)]) (sha256 data))"
proof -
  let ?f = "\<lambda>b. [hex_digits ! unat (drop_bit 4 b AND 0x0f), hex_digits ! unat (b AND 0x0f :: u8)]"
  have "sha256_hex data = concat (map (\<lambda>i. ?f (sha256 data ! i)) [0..<32])"
    using fold_fill2 [of 32 "replicate 64 (CHR 0x00)" "\<lambda>i. hex_digits ! unat (drop_bit 4 (sha256 data ! i) AND 0x0f)"
        "\<lambda>i. hex_digits ! unat (sha256 data ! i AND 0x0f)"]
    by (simp add: sha256_hex_def Let_def)
  also have "map (\<lambda>i. ?f (sha256 data ! i)) [0..<32] = map ?f (sha256 data)"
    by (rule nth_equalityI) (simp_all add: length_sha256)
  finally show ?thesis .
qed

lemma unhex_concat:
  "unhex (concat (map (\<lambda>b. [hex_digits ! unat (drop_bit 4 b AND 0x0f), hex_digits ! unat (b AND 0x0f)]) bs)) = bs"
  by (induction bs) (simp_all add: hex_value_digit nibbles(1,2) nibbles(3) [simplified of_nat_simps, simplified])

text \<open>
  \<open>sha256_hex\<close> is the digest in hexadecimal: 64 characters, all of them lower-case
  hexadecimal digits, from which the 32 bytes of \<open>sha256\<close> are read back.
\<close>

theorem sha256_hex_digest:
  "length (sha256_hex data) = 64 \<and> set (sha256_hex data) \<subseteq> set ''0123456789abcdef'' \<and>
   unhex (sha256_hex data) = sha256_standard data"
proof -
  have "set (sha256_hex data) \<subseteq> set hex_digits"
    by (auto simp: sha256_hex_concat nibbles intro: hex_digit_mem)
  moreover have "length (sha256_hex data) = 64"
    by (simp add: sha256_hex_concat length_concat comp_def length_sha256 sum_list_triv)
  moreover have "unhex (sha256_hex data) = sha256_standard data"
    by (simp add: sha256_hex_concat unhex_concat sha256_concat sha256_standard_def sha256_words_std(1))
  ultimately show ?thesis by (simp only: hex_digits_def simp_thms)
qed

end
