(* ===== verification/String_Splitter.thy ===== *)
theory String_Splitter
  imports Egl_Prelude "HOL-Library.Sublist"
begin

text \<open>
  \<open>StringSplitter\<close> (string\_splitter.hpp): the tokens of a text, produced lazily by
  an iterator that keeps a cursor into the text. A \<open>std::string_view\<close> is the
  string it views; for the current token, whose pointer is compared, \<open>si_data\<close> is
  the offset in the text at which it starts. The loop over all tokens has fuel, because the iterator of an
  empty delimiter never reaches the end.
\<close>

section \<open>The iterator\<close>

text \<open>\<open>std::string_view::find\<close>: the first occurrence at or behind an offset.\<close>

definition find_from :: "string \<Rightarrow> string \<Rightarrow> nat \<Rightarrow> nat option" where
  "find_from s d start = find (\<lambda>p. prefix d (drop p s)) [start..<Suc (length s)]"

record split_iter =
  si_text :: string
  si_delimiter :: string
  si_data :: nat
  si_current :: string
  si_cursor :: nat
  si_final :: bool
  si_done :: bool

definition si_advance :: "split_iter \<Rightarrow> split_iter" where
  "si_advance it =
     (if si_final it then it\<lparr>si_done := True, si_data := 0, si_current := []\<rparr>
      else
        case find_from (si_text it) (si_delimiter it) (si_cursor it) of
          None \<Rightarrow> it\<lparr>si_data := si_cursor it, si_current := drop (si_cursor it) (si_text it), si_final := True\<rparr>
        | Some pos \<Rightarrow>
            it\<lparr>si_data := si_cursor it, si_current := take (pos - si_cursor it) (drop (si_cursor it) (si_text it)),
               si_cursor := pos + length (si_delimiter it)\<rparr>)"

definition si_end :: split_iter where
  "si_end = \<lparr>si_text = [], si_delimiter = [], si_data = 0, si_current = [], si_cursor = 0, si_final = False, si_done = True\<rparr>"

definition si_begin :: "string \<Rightarrow> string \<Rightarrow> split_iter" where
  "si_begin s d =
     si_advance \<lparr>si_text = s, si_delimiter = d, si_data = 0, si_current = [], si_cursor = 0, si_final = False, si_done = False\<rparr>"

text \<open>\<open>operator==\<close>, for iterators over the same text.\<close>

definition si_equal :: "split_iter \<Rightarrow> split_iter \<Rightarrow> bool" where
  "si_equal it other \<longleftrightarrow>
     (if si_done it \<or> si_done other then si_done it \<and> si_done other
      else si_data it = si_data other \<and> length (si_current it) = length (si_current other))"

text \<open>The range-based loop: it stops at \<open>end()\<close> and collects the tokens before it.\<close>

fun split_loop :: "nat \<Rightarrow> split_iter \<Rightarrow> string list option" where
  "split_loop 0 it = None"
| "split_loop (Suc fuel) it =
     (if si_equal it si_end then Some []
      else map_option ((#) (si_current it)) (split_loop fuel (si_advance it)))"

definition split_tokens :: "nat \<Rightarrow> string \<Rightarrow> string \<Rightarrow> string list option" where
  "split_tokens fuel s d = split_loop fuel (si_begin s d)"

section \<open>What splitting means\<close>

fun join :: "string \<Rightarrow> string list \<Rightarrow> string" where
  "join d [] = []"
| "join d [t] = t"
| "join d (t # ts) = t @ d @ join d ts"

text \<open>Occurrences of the delimiter, scanned from the left without overlap.\<close>

fun occurrences :: "string \<Rightarrow> string \<Rightarrow> nat" where
  "occurrences d [] = 0"
| "occurrences d (c # s) =
     (if d \<noteq> [] \<and> prefix d (c # s) then Suc (occurrences d (drop (length d) (c # s))) else occurrences d s)"

lemma find_from_Some:
  assumes "find_from s d start = Some p"
  shows "start \<le> p" and "p + length d \<le> length s" and "prefix d (drop p s)"
    and "\<And>q. start \<le> q \<Longrightarrow> q < p \<Longrightarrow> \<not> prefix d (drop q s)"
proof -
  obtain i where i: "i < length [start..<Suc (length s)]" "prefix d (drop p s)" "p = [start..<Suc (length s)] ! i"
    "\<And>j. j < i \<Longrightarrow> \<not> prefix d (drop ([start..<Suc (length s)] ! j) s)"
    using assms unfolding find_from_def find_Some_iff by auto
  then have p: "p = start + i" "p \<le> length s" by (auto simp del: upt_Suc)
  show "start \<le> p" "prefix d (drop p s)" using p i by auto
  show "p + length d \<le> length s" using p prefix_length_le [OF i(2)] by simp
  fix q assume "start \<le> q" "q < p"
  then show "\<not> prefix d (drop q s)" using i(4) [of "q - start"] i(1) p by (simp del: upt_Suc)
qed

lemma find_from_None:
  assumes "find_from s d start = None" and "start \<le> q" and "q \<le> length s"
  shows "\<not> prefix d (drop q s)"
  using assms by (auto simp: find_from_def find_None_iff simp del: upt_Suc)

text \<open>Skipping text in which no occurrence starts.\<close>

lemma occurrences_skip:
  "(\<And>q. q < k \<Longrightarrow> \<not> prefix d (drop q s)) \<Longrightarrow> k \<le> length s \<Longrightarrow> occurrences d s = occurrences d (drop k s)"
proof (induction k arbitrary: s)
  case (Suc k)
  then obtain c s' where s: "s = c # s'" by (cases s) auto
  have "\<not> prefix d (c # s')" using Suc.prems(1) [of 0] s by simp
  moreover have "occurrences d s' = occurrences d (drop k s')"
    using Suc.prems(1) [of "Suc _"] Suc.prems(2) s by (intro Suc.IH) auto
  ultimately show ?case using s by simp
qed simp

lemma occurrences_hit: "d \<noteq> [] \<Longrightarrow> prefix d s \<Longrightarrow> occurrences d s = Suc (occurrences d (drop (length d) s))"
  by (cases s) auto

lemma occurrences_0:
  assumes "\<And>q. q \<le> length s \<Longrightarrow> \<not> prefix d (drop q s)"
  shows "occurrences d s = 0"
  using occurrences_skip [of "length s" d s] assms by auto

text \<open>The tokens from an offset on, as the iterator's loop returns them.\<close>

definition tail_tokens :: "string \<Rightarrow> string \<Rightarrow> nat \<Rightarrow> string list \<Rightarrow> bool" where
  "tail_tokens s d start ts \<longleftrightarrow> ts \<noteq> [] \<and> join d ts = drop start s \<and>
     length ts = Suc (occurrences d (drop start s)) \<and> (\<forall>t \<in> set ts. \<not> sublist d t)"

lemma sublist_prefix_drop: "sublist d t \<longleftrightarrow> (\<exists>q \<le> length t. prefix d (drop q t))"
proof
  assume "sublist d t"
  then obtain ps ss where "t = ps @ d @ ss" by (auto simp: sublist_def)
  then show "\<exists>q \<le> length t. prefix d (drop q t)" by (intro exI [of _ "length ps"]) simp
next
  assume "\<exists>q \<le> length t. prefix d (drop q t)"
  then obtain q ss where "drop q t = d @ ss" by (auto simp: prefix_def)
  then have "t = take q t @ d @ ss" by (metis append_take_drop_id)
  then show "sublist d t" unfolding sublist_def by blast
qed

lemma tail_tokens_last:
  assumes "find_from s d start = None" and "start \<le> length s"
  shows "tail_tokens s d start [drop start s]"
proof -
  have no: "\<not> prefix d (drop q (drop start s))" if "q \<le> length (drop start s)" for q
    using find_from_None [OF assms(1), of "start + q"] that assms(2) by (simp add: add.commute)
  then show ?thesis
    using occurrences_0 [of "drop start s" d] by (auto simp: tail_tokens_def sublist_prefix_drop simp del: drop_drop)
qed

lemma tail_tokens_step:
  assumes "d \<noteq> []" and "find_from s d start = Some p" and "start \<le> length s" and "tail_tokens s d (p + length d) ts"
  shows "tail_tokens s d start (take (p - start) (drop start s) # ts)"
proof -
  note f = find_from_Some [OF assms(2)]
  obtain r where r: "drop p s = d @ r" using f(3) by (auto simp: prefix_def)
  then have r': "r = drop (p + length d) s" by (metis append_eq_conv_conj add.commute drop_drop)
  have split: "drop start s = take (p - start) (drop start s) @ d @ drop (p + length d) s"
    using r r' f(1) by (metis append_take_drop_id drop_drop le_add_diff_inverse2)
  have "occurrences d (drop start s) = occurrences d (drop (p - start) (drop start s))"
    using f(4) [of "start + _"] f(1,2) by (intro occurrences_skip) (auto simp: add.commute)
  also have "\<dots> = occurrences d (d @ drop (p + length d) s)" using r r' f(1) by simp
  also have "\<dots> = Suc (occurrences d (drop (p + length d) s))" using occurrences_hit [OF assms(1)] by simp
  finally have occ: "occurrences d (drop start s) = Suc (occurrences d (drop (p + length d) s))" .
  have "\<not> sublist d (take (p - start) (drop start s))"
  proof
    assume "sublist d (take (p - start) (drop start s))"
    then obtain q where q: "q \<le> p - start" "prefix d (drop q (take (p - start) (drop start s)))"
      unfolding sublist_prefix_drop by auto
    then have "prefix d (take (p - start - q) (drop (start + q) s))" by (simp add: drop_take add.commute)
    then have "prefix d (drop (start + q) s)" and "length d \<le> p - start - q"
      using take_is_prefix prefix_order.trans by (blast, auto dest: prefix_length_le)
    moreover have "start + q < p" using \<open>length d \<le> p - start - q\<close> assms(1) by (cases d) auto
    ultimately show False using f(4) by simp
  qed
  moreover have "join d (take (p - start) (drop start s) # ts) = drop start s"
    using assms(4) split by (cases ts) (auto simp: tail_tokens_def)
  ultimately show ?thesis using assms(4) occ by (auto simp: tail_tokens_def)
qed

lemma split_loop_final:
  "si_final it \<Longrightarrow> \<not> si_done it \<Longrightarrow> split_loop (Suc (Suc fuel)) it = Some [si_current it]"
  by (simp add: si_equal_def si_end_def si_advance_def)

text \<open>Each token that is not the last one moves the cursor on by the delimiter.\<close>

lemma split_loop_tokens:
  assumes "d \<noteq> []" and "start \<le> length s" and "length s - start + 2 < fuel"
    and "it = si_advance \<lparr>si_text = s, si_delimiter = d, si_data = k, si_current = c, si_cursor = start, si_final = False, si_done = False\<rparr>"
  shows "\<exists>ts. split_loop fuel it = Some ts \<and> tail_tokens s d start ts"
  using assms(2-4)
proof (induction "length s - start" arbitrary: start fuel it k c rule: less_induct)
  case less
  then obtain fuel' where fuel: "fuel = Suc (Suc fuel')" "length s - start + 1 < Suc fuel'"
    by (cases fuel; cases "fuel - 1") auto
  show ?case
  proof (cases "find_from s d start")
    case None
    with less.prems have "si_final it" "\<not> si_done it" "si_current it = drop start s"
      by (auto simp: si_advance_def)
    with fuel split_loop_final tail_tokens_last [OF None less.prems(1)] show ?thesis by auto
  next
    case (Some p)
    note f = find_from_Some [OF Some]
    let ?t = "take (p - start) (drop start s)"
    let ?it = "\<lparr>si_text = s, si_delimiter = d, si_data = start, si_current = ?t, si_cursor = p + length d, si_final = False, si_done = False\<rparr>"
    have it: "it = ?it" using less.prems(3) Some by (simp add: si_advance_def)
    have shorter: "length s - (p + length d) < length s - start" using f(1,2) assms(1) less.prems(1) by (cases d) auto
    obtain ts where ts: "split_loop (Suc fuel') (si_advance ?it) = Some ts" "tail_tokens s d (p + length d) ts"
      using less.hyps [OF shorter _ _ refl, of "Suc fuel'" start ?t] f(2) fuel shorter by auto
    have "split_loop fuel it = Some (?t # ts)"
      using ts(1) unfolding fuel(1) it by (simp add: si_equal_def si_end_def)
    then show ?thesis using tail_tokens_step [OF assms(1) Some less.prems(1) ts(2)] by blast
  qed
qed

text \<open>
  Property C15. For every text and every non-empty delimiter the loop over the splitter
  ends, and its tokens joined by the delimiter are the text: nothing is lost, empty fields
  included. There is one token more than there are occurrences of the delimiter, and no
  token contains it.
\<close>

theorem string_splitter_faithful:
  assumes "d \<noteq> []"
  shows "\<exists>ts. split_tokens (length s + 3) s d = Some ts \<and> join d ts = s \<and>
    length ts = Suc (occurrences d s) \<and> (\<forall>t \<in> set ts. \<not> sublist d t)"
  using split_loop_tokens [OF assms, of 0 s "length s + 3" _ 0 "[]", OF _ _ refl]
  by (simp add: split_tokens_def si_begin_def tail_tokens_def) blast

theorem string_splitter_faithful_witness:
  "split_tokens 9 ''a,,b,'' '','' = Some [''a'', [], ''b'', []] \<and> occurrences '','' ''a,,b,'' = 3"
proof -
  have t: "split_tokens 9 ''a,,b,'' '','' = Some [''a'', [], ''b'', []]" by code_simp
  obtain ts where "split_tokens 8 ''a,,b,'' '','' = Some ts" "length ts = Suc (occurrences '','' ''a,,b,'')"
    using string_splitter_faithful [of "'',''" "''a,,b,''"] by auto
  moreover have "split_tokens 8 ''a,,b,'' '','' = Some [''a'', [], ''b'', []]" by code_simp
  ultimately show ?thesis using t by simp
qed

text \<open>With an empty delimiter the iterator stays where it is and the loop never ends.\<close>

lemma split_empty_delimiter: "split_tokens fuel s [] = None"
proof -
  have find: "find_from s [] 0 = Some 0" by (simp add: find_from_def upt_rec)
  let ?it = "\<lparr>si_text = s, si_delimiter = [], si_data = 0, si_current = [], si_cursor = 0, si_final = False, si_done = False\<rparr>"
  have stay: "si_advance ?it = ?it" by (simp add: si_advance_def find)
  have "split_loop fuel ?it = None" by (induction fuel) (simp_all add: stay si_equal_def si_end_def)
  then show ?thesis by (simp add: split_tokens_def si_begin_def stay)
qed

end
