(* ===== verification/Decimal.thy ===== *)
theory Decimal
  imports Egl_Prelude
begin

text \<open>
  Decimal integers as characters: what \<open>std::to_chars\<close> writes in base 10 and the
  value that reading the digits back gives.
\<close>

definition is_digit :: "char \<Rightarrow> bool" where
  "is_digit c \<longleftrightarrow> 48 \<le> (of_char c :: nat) \<and> (of_char c :: nat) \<le> 57"

definition digit_char :: "nat \<Rightarrow> char" where
  "digit_char d = char_of (48 + d)"

definition digit_value :: "char \<Rightarrow> nat" where
  "digit_value c = of_char c - 48"

fun nat_digits :: "nat \<Rightarrow> string" where
  "nat_digits n = (if n < 10 then [digit_char n] else nat_digits (n div 10) @ [digit_char (n mod 10)])"

declare nat_digits.simps [simp del]

definition int_digits :: "int \<Rightarrow> string" where
  "int_digits v = (if v < 0 then CHR ''-'' # nat_digits (nat (- v)) else nat_digits (nat v))"

text \<open>\<open>std::to_chars\<close> into a range of \<open>size\<close> characters: nothing when it does not fit.\<close>

definition to_chars :: "nat \<Rightarrow> int \<Rightarrow> string option" where
  "to_chars size_arg v = (if length (int_digits v) \<le> size_arg then Some (int_digits v) else None)"

definition digits_value :: "string \<Rightarrow> nat" where
  "digits_value s = foldl (\<lambda>v c. 10 * v + digit_value c) 0 s"

definition int_value :: "string \<Rightarrow> int" where
  "int_value s = (if s \<noteq> [] \<and> hd s = CHR ''-'' then - int (digits_value (tl s)) else int (digits_value s))"

lemma of_char_digit [simp]: "d < 10 \<Longrightarrow> of_char (digit_char d) = 48 + d"
  by (simp add: digit_char_def)

lemma digit_value_char [simp]: "d < 10 \<Longrightarrow> digit_value (digit_char d) = d"
  by (simp add: digit_value_def)

lemma is_digit_char [simp]: "d < 10 \<Longrightarrow> is_digit (digit_char d)"
  by (simp add: is_digit_def)

lemma nat_digits_not_Nil [simp]: "nat_digits n \<noteq> []"
  by (simp add: nat_digits.simps [of n])

lemma nat_digits_all: "list_all is_digit (nat_digits n)"
  by (induction n rule: nat_digits.induct) (simp add: nat_digits.simps)

lemma nat_digits_value [simp]: "digits_value (nat_digits n) = n"
  unfolding digits_value_def
proof (induction n rule: nat_digits.induct)
  case (1 n)
  then show ?case by (cases "n < 10") (simp_all add: nat_digits.simps [of n])
qed

lemma length_nat_digits: "n < 10 ^ k \<Longrightarrow> 0 < k \<Longrightarrow> length (nat_digits n) \<le> k"
proof (induction n arbitrary: k rule: nat_digits.induct)
  case (1 n)
  show ?case
  proof (cases "n < 10")
    case False
    with 1(2) obtain j where k: "k = Suc j" "0 < j" by (cases k; cases "k = 1") auto
    with 1(2) have "n div 10 < 10 ^ j" by (simp add: less_mult_imp_div_less mult.commute)
    from 1(1) [OF False this k(2)] False k show ?thesis by (simp add: nat_digits.simps [of n])
  qed (use 1 in \<open>simp add: nat_digits.simps\<close>)
qed

lemma hd_nat_digits: "hd (nat_digits n) \<noteq> CHR ''-''"
proof -
  have "is_digit (hd (nat_digits n))" using nat_digits_all [of n] by (cases "nat_digits n") auto
  then show ?thesis by (auto simp: is_digit_def)
qed

lemma int_digits_value: "int_value (int_digits v) = v"
  by (auto simp: int_value_def int_digits_def hd_nat_digits)

text \<open>Every 64-bit integer, signed or unsigned, takes at most 20 characters.\<close>

lemma length_int_digits:
  assumes "- (2 ^ 63) \<le> v" and "v < 2 ^ 64"
  shows "length (int_digits v) \<le> 20"
proof (cases "v < 0")
  case True
  then have "nat (- v) < 10 ^ 19" using assms(1) by simp
  then have "length (nat_digits (nat (- v))) \<le> 19" by (rule length_nat_digits) simp
  with True show ?thesis by (simp add: int_digits_def)
next
  case False
  then have "nat v < 10 ^ 20" using assms(2) by simp
  then have "length (nat_digits (nat v)) \<le> 20" by (rule length_nat_digits) simp
  with False show ?thesis by (simp add: int_digits_def)
qed

section \<open>Reading\<close>

text \<open>
  \<open>std::from_chars\<close> in base 10 for an integer type with the range \<open>lo\<close> to \<open>hi\<close>: an optional minus
  sign (for signed types only), then as many digits as there are. The result is the value and the
  characters behind it; nothing when there is no digit or the value is not in the range.
\<close>

definition from_chars_int :: "bool \<Rightarrow> int \<Rightarrow> int \<Rightarrow> string \<Rightarrow> (int \<times> string) option" where
  "from_chars_int is_signed lo hi s =
     (let neg = is_signed \<and> s \<noteq> [] \<and> hd s = CHR ''-'';
          body = (if neg then tl s else s);
          ds = takeWhile is_digit body;
          v = (if neg then - int (digits_value ds) else int (digits_value ds))
      in if ds = [] \<or> v < lo \<or> hi < v then None else Some (v, dropWhile is_digit body))"

text \<open>Reading what \<open>std::to_chars\<close> wrote gives the value back, with nothing left over.\<close>

lemma from_chars_int_digits:
  assumes "lo \<le> v" and "v \<le> hi" and "is_signed \<or> 0 \<le> v"
  shows "from_chars_int is_signed lo hi (int_digits v) = Some (v, [])"
proof -
  have all: "takeWhile is_digit (nat_digits n) = nat_digits n" "dropWhile is_digit (nat_digits n) = []" for n
    using nat_digits_all [of n] by (simp_all add: list_all_iff)
  show ?thesis
    using assms nat_digits_all by (auto simp: from_chars_int_def int_digits_def all hd_nat_digits Let_def list_all_iff)
qed

text \<open>What is read lies in the range of the type.\<close>

lemma from_chars_int_range: "from_chars_int is_signed lo hi s = Some (v, r) \<Longrightarrow> lo \<le> v \<and> v \<le> hi"
  by (auto simp: from_chars_int_def Let_def split: if_splits)

end
