(* ===== verification/String_Builder.thy ===== *)
theory String_Builder
  imports Decimal
begin

text \<open>
  \<open>StringBuilder\<close> (string\_builder.hpp): text accumulated in one owned string. A
  chained call returns the builder itself, so each \<open>append\<close> is a function on it.
\<close>

record string_builder =
  sb_buffer :: string

definition sb_empty_builder :: string_builder where
  "sb_empty_builder = \<lparr>sb_buffer = []\<rparr>"

definition sb_seeded :: "string \<Rightarrow> string_builder" where
  "sb_seeded initial = \<lparr>sb_buffer = initial\<rparr>"

definition append_text :: "string_builder \<Rightarrow> string \<Rightarrow> string_builder" where
  "append_text b text_arg = b\<lparr>sb_buffer := sb_buffer b @ text_arg\<rparr>"

definition append_char :: "string_builder \<Rightarrow> char \<Rightarrow> string_builder" where
  "append_char b c = b\<lparr>sb_buffer := sb_buffer b @ [c]\<rparr>"

text \<open>An integer is rendered into an array of 24 characters first.\<close>

definition append_int :: "string_builder \<Rightarrow> int \<Rightarrow> string_builder" where
  "append_int b v = (case to_chars 24 v of Some s \<Rightarrow> b\<lparr>sb_buffer := sb_buffer b @ s\<rparr> | None \<Rightarrow> b)"

definition sb_clear :: "string_builder \<Rightarrow> string_builder" where
  "sb_clear b = b\<lparr>sb_buffer := []\<rparr>"

definition sb_size :: "string_builder \<Rightarrow> nat" where
  "sb_size b = length (sb_buffer b)"

definition sb_empty :: "string_builder \<Rightarrow> bool" where
  "sb_empty b \<longleftrightarrow> sb_buffer b = []"

definition sb_view :: "string_builder \<Rightarrow> string" where
  "sb_view b = sb_buffer b"

text \<open>\<open>std::move(b).str()\<close> returns the contents and leaves the builder empty.\<close>

definition sb_take :: "string_builder \<Rightarrow> string_builder \<times> string" where
  "sb_take b = (b\<lparr>sb_buffer := []\<rparr>, sb_buffer b)"

section \<open>A sequence of appends\<close>

datatype piece = Text string | Character char | Integer int

fun append_piece :: "string_builder \<Rightarrow> piece \<Rightarrow> string_builder" where
  "append_piece b (Text s) = append_text b s"
| "append_piece b (Character c) = append_char b c"
| "append_piece b (Integer v) = append_int b v"

fun piece_text :: "piece \<Rightarrow> string" where
  "piece_text (Text s) = s"
| "piece_text (Character c) = [c]"
| "piece_text (Integer v) = int_digits v"

text \<open>The integer types that \<open>append\<close> accepts have at most 64 bits.\<close>

fun piece_ok :: "piece \<Rightarrow> bool" where
  "piece_ok (Integer v) \<longleftrightarrow> - (2 ^ 63) \<le> v \<and> v < 2 ^ 64"
| "piece_ok _ \<longleftrightarrow> True"

lemma sb_view_append_text [simp]: "sb_view (append_text b s) = sb_view b @ s"
  by (simp add: append_text_def sb_view_def)

lemma sb_view_append_char [simp]: "sb_view (append_char b c) = sb_view b @ [c]"
  by (simp add: append_char_def sb_view_def)

lemma sb_view_append_int [simp]:
  "- (2 ^ 63) \<le> v \<Longrightarrow> v < 2 ^ 64 \<Longrightarrow> sb_view (append_int b v) = sb_view b @ int_digits v"
  using length_int_digits [of v] by (simp add: append_int_def sb_view_def to_chars_def)

lemma sb_view_append_piece: "piece_ok p \<Longrightarrow> sb_view (append_piece b p) = sb_view b @ piece_text p"
  by (cases p) simp_all

text \<open>
  A chain of appends accumulates the concatenation of the renderings, with
  none dropped: the array of 24 characters is large enough for every integer type that is
  accepted, and the digits of each integer read back as its value. Moving the string
  out returns all of it and leaves an empty builder.
\<close>

theorem string_builder_appends:
  assumes "list_all piece_ok ps"
  shows "sb_view (foldl append_piece b ps) = sb_view b @ concat (map piece_text ps) \<and>
    (\<forall>v. Integer v \<in> set ps \<longrightarrow> int_value (piece_text (Integer v)) = v) \<and>
    (\<exists>b'. sb_take (foldl append_piece b ps) = (b', sb_view b @ concat (map piece_text ps)) \<and> sb_empty b')"
proof -
  have view: "sb_view (foldl append_piece b ps) = sb_view b @ concat (map piece_text ps)"
    using assms by (induction ps arbitrary: b) (simp_all add: sb_view_append_piece)
  then show ?thesis by (simp add: int_digits_value sb_take_def sb_empty_def sb_view_def)
qed

theorem string_builder_appends_witness:
  "sb_view (foldl append_piece sb_empty_builder [Text ''x='', Integer (-42), Character (CHR '';'')]) = ''x=-42;''"
proof -
  have "piece_text (Integer (-42)) = ''-42''" by code_simp
  then show ?thesis
    using string_builder_appends [of "[Text ''x='', Integer (-42), Character (CHR '';'')]" sb_empty_builder]
    by (simp add: sb_empty_builder_def sb_view_def)
qed

end
