(* ===== verification/String_Formatter.thy ===== *)
theory String_Formatter
  imports String_Builder
begin

text \<open>
  \<open>StringFormatter\<close> (string\_formatter.hpp): format strings are checked when the
  program is compiled (\<open>check_format_string\<close>), and the renderer relies on the check: it reads
  the character behind a brace without looking whether there is one. Here that
  read is \<open>Undefined_behaviour\<close> when it is out of range, and the properties show that a checked
  string never gets there. The rendering of a floating-point value, by the
  standard library, is a parameter \<open>render_float\<close>.
\<close>

section \<open>The check\<close>

datatype format_string_error = No_error | Unterminated_open_brace | Stray_close_brace | Argument_count_mismatch

abbreviation (input) open_brace :: char where
  "open_brace \<equiv> CHR ''{''"

abbreviation (input) close_brace :: char where
  "close_brace \<equiv> CHR ''}''"

function check_loop :: "string \<Rightarrow> nat \<Rightarrow> nat \<Rightarrow> nat \<Rightarrow> format_string_error" where
  "check_loop str argument_count placeholders i =
     (if i < length str then
        let ch = str ! i in
        if ch = open_brace then
          if i + 1 = length str then Unterminated_open_brace
          else if str ! (i + 1) = open_brace then check_loop str argument_count placeholders (i + 2)
          else if str ! (i + 1) = close_brace then check_loop str argument_count (placeholders + 1) (i + 2)
          else Unterminated_open_brace
        else if ch = close_brace then
          if i + 1 = length str \<or> str ! (i + 1) \<noteq> close_brace then Stray_close_brace
          else check_loop str argument_count placeholders (i + 2)
        else check_loop str argument_count placeholders (i + 1)
      else if placeholders = argument_count then No_error else Argument_count_mismatch)"
  by auto
termination
  by (relation "measure (\<lambda>(str, _, _, i). length str - i)") auto

declare check_loop.simps [simp del]

definition check_format_string :: "string \<Rightarrow> nat \<Rightarrow> format_string_error" where
  "check_format_string str argument_count = check_loop str argument_count 0 0"

text \<open>The constructor of \<open>BasicFormatString\<close>: a string that fails the check does not compile.\<close>

definition basic_format_string :: "string \<Rightarrow> nat \<Rightarrow> string option" where
  "basic_format_string str argument_count =
     (if check_format_string str argument_count = No_error then Some str else None)"

section \<open>The renderer\<close>

datatype 'f format_arg = Bool_arg bool | Char_arg char | Int_arg int | Float_arg 'f | String_arg string

definition append_float :: "('f \<Rightarrow> string option) \<Rightarrow> string_builder \<Rightarrow> 'f \<Rightarrow> string_builder" where
  "append_float render_float out v = (case render_float v of Some s \<Rightarrow> append_text out s | None \<Rightarrow> out)"

fun append_value :: "('f \<Rightarrow> string option) \<Rightarrow> string_builder \<Rightarrow> 'f format_arg \<Rightarrow> string_builder" where
  "append_value render_float out (Bool_arg b) = append_text out (if b then ''true'' else ''false'')"
| "append_value render_float out (Char_arg c) = append_char out c"
| "append_value render_float out (Int_arg v) = append_int out v"
| "append_value render_float out (Float_arg v) = append_float render_float out v"
| "append_value render_float out (String_arg s) = append_text out s"

text \<open>The scan from the positions \<open>run\<close> and \<open>i\<close>; the result is the builder, the rest and the flag.\<close>

function placeholder_loop ::
  "string \<Rightarrow> nat \<Rightarrow> nat \<Rightarrow> string_builder \<Rightarrow> (string_builder \<times> string \<times> bool) cpp" where
  "placeholder_loop rest run i out =
     (if i < length rest then
        let ch = rest ! i in
        if ch \<noteq> open_brace \<and> ch \<noteq> close_brace then placeholder_loop rest run (i + 1) out
        else
          let out = append_text out (take (i - run) (drop run rest)) in
          if i + 1 \<ge> length rest then Inl Undefined_behaviour
          else if rest ! (i + 1) = ch then placeholder_loop rest (i + 2) (i + 2) (append_char out ch)
          else Inr (out, drop (i + 2) rest, True)
      else Inr (append_text out (drop run rest), [], False))"
  by pat_completeness auto
termination
  by (relation "measure (\<lambda>(rest, _, i, _). length rest - i)") auto

declare placeholder_loop.simps [simp del]

definition advance_to_placeholder :: "string_builder \<Rightarrow> string \<Rightarrow> (string_builder \<times> string \<times> bool) cpp" where
  "advance_to_placeholder out rest = placeholder_loop rest 0 0 out"

definition append_segment ::
  "('f \<Rightarrow> string option) \<Rightarrow> string_builder \<Rightarrow> string \<Rightarrow> 'f format_arg \<Rightarrow> (string_builder \<times> string) cpp" where
  "append_segment render_float out rest v =
     (case advance_to_placeholder out rest of
        Inl e \<Rightarrow> Inl e
      | Inr (out', rest', found_one) \<Rightarrow>
          Inr (if found_one then append_value render_float out' v else out', rest'))"

fun append_segments ::
  "('f \<Rightarrow> string option) \<Rightarrow> string_builder \<Rightarrow> string \<Rightarrow> 'f format_arg list \<Rightarrow> (string_builder \<times> string) cpp" where
  "append_segments render_float out rest [] = Inr (out, rest)"
| "append_segments render_float out rest (v # vs) =
     (case append_segment render_float out rest v of
        Inl e \<Rightarrow> Inl e
      | Inr (out', rest') \<Rightarrow> append_segments render_float out' rest' vs)"

definition format_to ::
  "('f \<Rightarrow> string option) \<Rightarrow> string_builder \<Rightarrow> string \<Rightarrow> 'f format_arg list \<Rightarrow> string_builder cpp" where
  "format_to render_float out fmt vs =
     (case append_segments render_float out fmt vs of
        Inl e \<Rightarrow> Inl e
      | Inr (out', rest) \<Rightarrow>
          (case advance_to_placeholder out' rest of Inl e \<Rightarrow> Inl e | Inr (out'', _, _) \<Rightarrow> Inr out''))"

definition format :: "('f \<Rightarrow> string option) \<Rightarrow> string \<Rightarrow> 'f format_arg list \<Rightarrow> string cpp" where
  "format render_float fmt vs =
     (case format_to render_float sb_empty_builder fmt vs of Inl e \<Rightarrow> Inl e | Inr out \<Rightarrow> Inr (snd (sb_take out)))"

section \<open>The grammar of format strings\<close>

datatype segment = Literal char | Hole

fun parse_format :: "string \<Rightarrow> segment list option" where
  "parse_format [] = Some []"
| "parse_format (c # s) =
     (if c = open_brace then
        (case s of [] \<Rightarrow> None
         | d # s' \<Rightarrow> if d = open_brace then map_option ((#) (Literal open_brace)) (parse_format s')
                     else if d = close_brace then map_option ((#) Hole) (parse_format s') else None)
      else if c = close_brace then
        (case s of [] \<Rightarrow> None
         | d # s' \<Rightarrow> if d = close_brace then map_option ((#) (Literal close_brace)) (parse_format s') else None)
      else map_option ((#) (Literal c)) (parse_format s))"

definition holes :: "segment list \<Rightarrow> nat" where
  "holes segs = length (filter (\<lambda>g. g = Hole) segs)"

fun arg_text :: "('f \<Rightarrow> string option) \<Rightarrow> 'f format_arg \<Rightarrow> string" where
  "arg_text render_float (Bool_arg b) = (if b then ''true'' else ''false'')"
| "arg_text render_float (Char_arg c) = [c]"
| "arg_text render_float (Int_arg v) = int_digits v"
| "arg_text render_float (Float_arg v) = (case render_float v of Some s \<Rightarrow> s | None \<Rightarrow> [])"
| "arg_text render_float (String_arg s) = s"

fun arg_ok :: "'f format_arg \<Rightarrow> bool" where
  "arg_ok (Int_arg v) \<longleftrightarrow> - (2 ^ 63) \<le> v \<and> v < 2 ^ 64"
| "arg_ok _ \<longleftrightarrow> True"

fun fill_holes :: "string list \<Rightarrow> segment list \<Rightarrow> string" where
  "fill_holes ts [] = []"
| "fill_holes ts (Literal c # gs) = c # fill_holes ts gs"
| "fill_holes (t # ts) (Hole # gs) = t @ fill_holes ts gs"
| "fill_holes [] (Hole # gs) = fill_holes [] gs"

section \<open>The check accepts the grammar\<close>

lemma drop_two:
  assumes "i + 1 < length s"
  shows "drop i s = s ! i # s ! (i + 1) # drop (i + 2) s"
  using assms by (metis Cons_nth_drop_Suc Suc_eq_plus1 add_2_eq_Suc' add_lessD1)

lemma drop_last: "i + 1 = length s \<Longrightarrow> drop i s = [s ! i]"
  by (metis Cons_nth_drop_Suc Suc_eq_plus1 drop_all lessI order_refl)

lemma drop_one: "i < length s \<Longrightarrow> drop i s = s ! i # drop (i + 1) s"
  by (simp add: Cons_nth_drop_Suc)

lemma check_loop_grammar:
  "i \<le> length str \<Longrightarrow> check_loop str n k i = No_error \<longleftrightarrow>
    (\<exists>segs. parse_format (drop i str) = Some segs \<and> k + holes segs = n)"
proof (induction str n k i rule: check_loop.induct)
  case (1 str n k i)
  show ?case
  proof (cases "i < length str")
    case False
    with 1(5) show ?thesis by (simp add: check_loop.simps [of str] holes_def)
  next
    case True
    show ?thesis
    proof (cases "str ! i = open_brace \<or> str ! i = close_brace")
      case brace: True
      show ?thesis
      proof (cases "i + 1 = length str")
        case last: True
        with True brace show ?thesis by (auto simp: check_loop.simps [of str] drop_last [OF last])
      next
        case False
        with True have i: "i + 1 < length str" by simp
        with True brace 1(1,2) [OF True refl] 1(3) [OF True refl] show ?thesis
          by (auto simp: check_loop.simps [of str n k i] drop_two [OF i] holes_def Let_def)
      qed
    next
      case False
      with True 1(4) [OF True refl] show ?thesis
        by (auto simp: check_loop.simps [of str n k i] drop_one holes_def Let_def)
    qed
  qed
qed

lemma check_format_string_grammar:
  "check_format_string str n = No_error \<longleftrightarrow> (\<exists>segs. parse_format str = Some segs \<and> holes segs = n)"
  using check_loop_grammar [of 0 str n 0] by (simp add: check_format_string_def)

section \<open>Rendering a checked string\<close>

text \<open>The literal prefix and what follows the first hole.\<close>

fun to_hole :: "segment list \<Rightarrow> string \<times> segment list option" where
  "to_hole [] = ([], None)"
| "to_hole (Hole # gs) = ([], Some gs)"
| "to_hole (Literal c # gs) = (case to_hole gs of (s, r) \<Rightarrow> (c # s, r))"

lemma append_text_append [simp]: "append_text (append_text out s) t = append_text out (s @ t)"
  by (simp add: append_text_def)

lemma append_char_text: "append_char out c = append_text out [c]"
  by (simp add: append_char_def append_text_def)

text \<open>From a position whose pending run holds no brace, the scan stops behind the first hole.\<close>

lemma placeholder_loop_correct:
  "run \<le> i \<Longrightarrow> i \<le> length rest \<Longrightarrow> parse_format (drop i rest) = Some segs \<Longrightarrow>
    \<exists>rest'. placeholder_loop rest run i out =
      Inr (append_text out (take (i - run) (drop run rest) @ fst (to_hole segs)), rest', snd (to_hole segs) \<noteq> None) \<and>
    parse_format rest' = Some (case snd (to_hole segs) of None \<Rightarrow> [] | Some gs \<Rightarrow> gs)"
proof (induction rest run i out arbitrary: segs rule: placeholder_loop.induct)
  case (1 rest run i out)
  show ?case
  proof (cases "i < length rest")
    case False
    with 1(3,4,5) show ?thesis by (auto simp: placeholder_loop.simps [of rest])
  next
    case True
    show ?thesis
    proof (cases "rest ! i = open_brace \<or> rest ! i = close_brace")
      case False
      with True 1(5) obtain gs where gs: "parse_format (drop (i + 1) rest) = Some gs" "segs = Literal (rest ! i) # gs"
        by (auto simp: drop_one)
      have "take (i + 1 - run) (drop run rest) = take (i - run) (drop run rest) @ [rest ! i]"
        using True 1(3) by (simp add: Suc_diff_le take_Suc_conv_app_nth)
      with 1(1) [OF True refl _ _ _ gs(1)] 1(3) True False gs(2) show ?thesis
        by (auto simp: placeholder_loop.simps [of rest run i] Let_def split: prod.splits)
    next
      case brace: True
      have i: "i + 1 < length rest"
        using 1(5) True brace drop_last [of i rest] by (cases "i + 1 = length rest") auto
      show ?thesis
      proof (cases "rest ! (i + 1) = rest ! i")
        case same: True
        with 1(5) brace obtain gs where gs: "parse_format (drop (i + 2) rest) = Some gs" "segs = Literal (rest ! i) # gs"
          by (auto simp: drop_two [OF i])
        from 1(2) [OF True refl _ refl _ _ _ _ gs(1)] True brace i same gs(2) show ?thesis
          by (auto simp: placeholder_loop.simps [of rest run i] Let_def append_char_text split: prod.splits)
      next
        case False
        with 1(5) brace obtain gs where "parse_format (drop (i + 2) rest) = Some gs" "segs = Hole # gs"
          by (auto simp: drop_two [OF i] split: if_splits)
        with True brace i False show ?thesis
          by (auto simp: placeholder_loop.simps [of rest run i] Let_def)
      qed
    qed
  qed
qed

lemma advance_to_placeholder_correct:
  assumes "parse_format rest = Some segs"
  obtains rest' where "advance_to_placeholder out rest =
      Inr (append_text out (fst (to_hole segs)), rest', snd (to_hole segs) \<noteq> None)"
    and "parse_format rest' = Some (case snd (to_hole segs) of None \<Rightarrow> [] | Some gs \<Rightarrow> gs)"
  using placeholder_loop_correct [of 0 0 rest segs out] assms unfolding advance_to_placeholder_def by auto

lemma append_int_text: "- (2 ^ 63) \<le> v \<Longrightarrow> v < 2 ^ 64 \<Longrightarrow> append_int out v = append_text out (int_digits v)"
  using length_int_digits [of v] by (simp add: append_int_def append_text_def to_chars_def)

lemma append_value_text: "arg_ok v \<Longrightarrow> append_value render_float out v = append_text out (arg_text render_float v)"
  by (cases v) (auto simp: append_int_text append_char_text append_float_def append_text_def split: option.splits)

lemma to_hole_None: "snd (to_hole segs) = None \<longleftrightarrow> holes segs = 0"
  by (induction segs rule: to_hole.induct) (auto simp: holes_def split: prod.splits)

lemma to_hole_holes: "snd (to_hole segs) = Some gs \<Longrightarrow> holes segs = Suc (holes gs)"
  by (induction segs rule: to_hole.induct) (auto simp: holes_def split: prod.splits)

lemma fill_holes_Some: "snd (to_hole segs) = Some gs \<Longrightarrow> fill_holes (t # ts) segs = fst (to_hole segs) @ t @ fill_holes ts gs"
  by (induction segs rule: to_hole.induct) (auto split: prod.splits)

lemma fill_holes_None: "snd (to_hole segs) = None \<Longrightarrow> fill_holes ts segs = fst (to_hole segs)"
  by (induction segs rule: to_hole.induct) (auto split: prod.splits)

lemma append_segments_correct:
  "parse_format rest = Some segs \<Longrightarrow> holes segs = length vs \<Longrightarrow> list_all arg_ok vs \<Longrightarrow>
    format_to render_float out rest vs = Inr (append_text out (fill_holes (map (arg_text render_float) vs) segs))"
proof (induction vs arbitrary: out rest segs)
  case Nil
  obtain rest' where "advance_to_placeholder out rest =
      Inr (append_text out (fst (to_hole segs)), rest', snd (to_hole segs) \<noteq> None)"
    using advance_to_placeholder_correct [OF Nil.prems(1)] by blast
  moreover have "snd (to_hole segs) = None" using Nil.prems(2) by (simp add: to_hole_None)
  ultimately show ?case by (simp add: format_to_def fill_holes_None)
next
  case (Cons v vs)
  obtain rest' where adv: "advance_to_placeholder out rest =
      Inr (append_text out (fst (to_hole segs)), rest', snd (to_hole segs) \<noteq> None)"
    and rest': "parse_format rest' = Some (case snd (to_hole segs) of None \<Rightarrow> [] | Some gs \<Rightarrow> gs)"
    using advance_to_placeholder_correct [OF Cons.prems(1)] by blast
  obtain gs where gs: "snd (to_hole segs) = Some gs"
    using Cons.prems(2) to_hole_None [of segs] by (cases "snd (to_hole segs)") auto
  let ?out = "append_text out (fst (to_hole segs) @ arg_text render_float v)"
  have "append_segment render_float out rest v = Inr (?out, rest')"
    using adv gs Cons.prems(3) by (simp add: append_segment_def append_value_text)
  then have "format_to render_float out rest (v # vs) = format_to render_float ?out rest' vs"
    by (simp add: format_to_def)
  then show ?case
    using Cons.IH [of rest' gs ?out] rest' gs Cons.prems to_hole_holes [OF gs] by (simp add: fill_holes_Some)
qed

lemma format_renders:
  assumes "basic_format_string fmt (length vs) = Some str" and "list_all arg_ok vs"
  shows "\<exists>segs. parse_format fmt = Some segs \<and> holes segs = length vs \<and>
    format render_float str vs = Inr (fill_holes (map (arg_text render_float) vs) segs)"
proof -
  from assms(1) have str: "str = fmt" and "check_format_string fmt (length vs) = No_error"
    by (auto simp: basic_format_string_def split: if_splits)
  then obtain segs where segs: "parse_format fmt = Some segs" "holes segs = length vs"
    by (auto simp: check_format_string_grammar)
  then show ?thesis
    using append_segments_correct [OF segs assms(2), of render_float sb_empty_builder] str
    by (auto simp: format_def sb_take_def append_text_def sb_empty_builder_def)
qed

text \<open>
  Property C16. A format string passes the check for a number of arguments exactly when it is
  a sequence of literal characters, doubled braces and that many placeholders; and
  then rendering it with that many arguments never reads behind the end of the string and
  gives the literal text with the arguments in place of the placeholders, in order.
\<close>

theorem format_checked:
  assumes "basic_format_string fmt (length vs) = Some str" and "list_all arg_ok vs"
  shows "\<exists>segs. parse_format fmt = Some segs \<and> holes segs = length vs \<and>
    format render_float str vs = Inr (fill_holes (map (arg_text render_float) vs) segs)"
  using assms by (rule format_renders)

theorem format_checked_witness:
  "format (\<lambda>_ :: unit. None) ''{} + {{{}}} = {}'' [Int_arg 1, Bool_arg True, String_arg ''x''] = Inr ''1 + {true} = x'' \<and>
   parse_format ''{}}'' = None"
proof -
  have c: "basic_format_string ''{} + {{{}}} = {}'' (length [Int_arg 1, Bool_arg True, String_arg ''x'' :: unit format_arg]) =
      Some ''{} + {{{}}} = {}''" by code_simp
  have p: "parse_format ''{} + {{{}}} = {}'' =
      Some [Hole, Literal (CHR '' ''), Literal (CHR ''+''), Literal (CHR '' ''), Literal (CHR ''{''), Hole,
        Literal (CHR ''}''), Literal (CHR '' ''), Literal (CHR ''=''), Literal (CHR '' ''), Hole]" by code_simp
  have n: "int_digits 1 = ''1''" "parse_format ''{}}'' = None" by code_simp+
  show ?thesis using format_checked [OF c, of "\<lambda>_. None"] p n by simp
qed

text \<open>
  The check is exact: it reports an error for every string outside the grammar
  and for every count that differs from the number of placeholders, and the error tells
  which of the two it is.
\<close>

theorem check_format_string_exact:
  "(check_format_string str n = No_error \<longleftrightarrow> (\<exists>segs. parse_format str = Some segs \<and> holes segs = n)) \<and>
   (check_format_string str n = Argument_count_mismatch \<longleftrightarrow> (\<exists>segs. parse_format str = Some segs \<and> holes segs \<noteq> n))"
proof -
  have "check_loop str n k i = Argument_count_mismatch \<longleftrightarrow>
      (\<exists>m. m \<noteq> n \<and> check_loop str m k i = No_error)" for k i
  proof (induction str n k i rule: check_loop.induct)
    case (1 str n k i)
    show ?case
      using 1 by (subst (1 2) check_loop.simps) (auto simp: Let_def)
  qed
  from this [of 0 0] have "check_format_string str n = Argument_count_mismatch \<longleftrightarrow>
      (\<exists>m. m \<noteq> n \<and> check_format_string str m = No_error)"
    by (simp add: check_format_string_def)
  then show ?thesis by (auto simp: check_format_string_grammar)
qed

end
