(* ===== verification/Json_Parser.thy ===== *)
theory Json_Parser
  imports Decimal
begin

text \<open>
  \<open>JsonParser<MaxDepth>\<close> (json\_parser.hpp): a pull parser that returns one event per
  call of \<open>next\<close> and keeps the nesting in an array of \<open>MaxDepth\<close> frames. The
  parser is a record with the fields of the class; \<open>MaxDepth\<close> is the length of the frame
  array. The scanners move a position over the source; as functions they return
  the new position, or the message of the error together with the position at
  which it is latched.
\<close>

section \<open>Events and state\<close>

datatype json_token =
    Begin_object | End_object | Begin_array | End_array | Key | Str | Number | Boolean | Null_value | End | Error

record json_event =
  je_type :: json_token
  je_text :: string

abbreviation event :: "json_token \<Rightarrow> string \<Rightarrow> json_event" where
  "event t s \<equiv> \<lparr>je_type = t, je_text = s\<rparr>"

datatype json_state = Running | Finished | Errored

record frame =
  is_object :: bool
  seen_element :: bool
  expect_value :: bool

record json_parser =
  jp_source :: string
  jp_pos :: nat
  jp_stack :: "frame list"
  jp_depth :: nat
  jp_started :: bool
  jp_state :: json_state
  jp_message :: string
  jp_offset :: nat

definition jp_construct :: "nat \<Rightarrow> string \<Rightarrow> json_parser" where
  "jp_construct max_depth src =
     \<lparr>jp_source = src, jp_pos = 0,
      jp_stack = replicate max_depth \<lparr>is_object = False, seen_element = False, expect_value = False\<rparr>,
      jp_depth = 0, jp_started = False, jp_state = Running, jp_message = [], jp_offset = 0\<rparr>"

definition jp_done :: "json_parser \<Rightarrow> bool" where
  "jp_done p \<longleftrightarrow> jp_state p \<noteq> Running"

definition jp_failed :: "json_parser \<Rightarrow> bool" where
  "jp_failed p \<longleftrightarrow> jp_state p = Errored"

section \<open>The cursor\<close>

definition is_ws :: "char \<Rightarrow> bool" where
  "is_ws c \<longleftrightarrow> c = CHR '' '' \<or> c = CHR 0x09 \<or> c = CHR 0x0A \<or> c = CHR 0x0D"

definition is_hex :: "char \<Rightarrow> bool" where
  "is_hex c \<longleftrightarrow> is_digit c \<or> 97 \<le> (of_char c :: nat) \<and> (of_char c :: nat) \<le> 102 \<or>
     65 \<le> (of_char c :: nat) \<and> (of_char c :: nat) \<le> 70"

text \<open>The loops that advance over a run of characters of one kind.\<close>

function skip_loop :: "(char \<Rightarrow> bool) \<Rightarrow> string \<Rightarrow> nat \<Rightarrow> nat" where
  "skip_loop ok src pos = (if pos < length src \<and> ok (src ! pos) then skip_loop ok src (pos + 1) else pos)"
  by auto
termination
  by (relation "measure (\<lambda>(_, src, pos). length src - pos)") auto

declare skip_loop.simps [simp del]

definition skip_whitespace :: "json_parser \<Rightarrow> json_parser" where
  "skip_whitespace p = p\<lparr>jp_pos := skip_loop is_ws (jp_source p) (jp_pos p)\<rparr>"

definition char_at :: "string \<Rightarrow> nat \<Rightarrow> char" where
  "char_at src pos = (if pos < length src then src ! pos else CHR 0x00)"

definition peek :: "json_parser \<Rightarrow> char" where
  "peek p = char_at (jp_source p) (jp_pos p)"

definition make_error :: "string \<Rightarrow> json_parser \<Rightarrow> json_parser \<times> json_event" where
  "make_error message p =
     (if jp_state p \<noteq> Errored
      then p\<lparr>jp_state := Errored, jp_message := message, jp_offset := jp_pos p\<rparr> else p, event Error [])"

text \<open>A character between single quotes, as the messages have it.\<close>

definition squote :: "char \<Rightarrow> string" where
  "squote c = [CHR 0x27, c, CHR 0x27]"

section \<open>Scanners\<close>

fun hex_loop :: "nat \<Rightarrow> string \<Rightarrow> nat \<Rightarrow> (string \<times> nat) + nat" where
  "hex_loop 0 src pos = Inr pos"
| "hex_loop (Suc k) src pos =
     (if pos \<ge> length src \<or> \<not> is_hex (src ! pos)
      then Inl (''invalid '' @ [CHR 0x5C] @ ''u escape: expected four hex digits'', pos)
      else hex_loop k src (pos + 1))"

text \<open>The characters of the escapes of one letter.\<close>

definition simple_escape :: "char \<Rightarrow> bool" where
  "simple_escape c \<longleftrightarrow> c \<in> {CHR 0x22, CHR 0x5C, CHR ''/'', CHR ''b'', CHR ''f'', CHR ''n'', CHR ''r'', CHR ''t''}"

definition validate_escape :: "string \<Rightarrow> nat \<Rightarrow> (string \<times> nat) + nat" where
  "validate_escape src start =
     (let pos = start + 1 in
      if pos \<ge> length src then Inl (''unterminated escape sequence'', start)
      else if simple_escape (src ! pos) then Inr (pos + 1)
      else if src ! pos = CHR ''u'' then hex_loop 4 src (pos + 1)
      else Inl (''invalid escape sequence'', pos))"

lemma hex_loop_less: "hex_loop k src pos = Inr q \<Longrightarrow> q = pos + k \<and> pos + k \<le> max (length src) pos"
  by (induction k src pos rule: hex_loop.induct) (auto split: if_splits)

lemma validate_escape_less: "validate_escape src start = Inr q \<Longrightarrow> start < q \<and> q \<le> length src"
  using hex_loop_less [of 4 src "start + 2" q] by (auto simp: validate_escape_def Let_def split: if_splits)

text \<open>The loop of \<open>scan_string\<close>; the result is the position of the closing quote.\<close>

function string_loop :: "string \<Rightarrow> nat \<Rightarrow> nat \<Rightarrow> (string \<times> nat) + nat" where
  "string_loop src open_pos pos =
     (if pos < length src then
        let c = src ! pos in
        if c = CHR 0x22 then Inr pos
        else if c = CHR 0x5C then
          (case validate_escape src pos of Inl e \<Rightarrow> Inl e | Inr q \<Rightarrow> string_loop src open_pos q)
        else if (of_char c :: nat) < 0x20 then Inl (''unescaped control character in string'', pos)
        else string_loop src open_pos (pos + 1)
      else Inl (''unterminated string'', open_pos))"
  by pat_completeness auto
termination
  by (relation "measure (\<lambda>(src, _, pos). length src - pos)") (auto dest: validate_escape_less)

declare string_loop.simps [simp del]

definition fail_at :: "string \<times> nat \<Rightarrow> json_parser \<Rightarrow> json_parser \<times> json_event" where
  "fail_at e p = (case e of (message, pos) \<Rightarrow> make_error message (p\<lparr>jp_pos := pos\<rparr>))"

definition scan_string :: "json_parser \<Rightarrow> json_parser \<times> string option" where
  "scan_string p =
     (let content = jp_pos p + 1 in
      case string_loop (jp_source p) (jp_pos p) content of
        Inl e \<Rightarrow> (fst (fail_at e p), None)
      | Inr q \<Rightarrow> (p\<lparr>jp_pos := q + 1\<rparr>, Some (take (q - content) (drop content (jp_source p)))))"

text \<open>The three parts of a number; each starts where the one before ended.\<close>

definition integer_part :: "string \<Rightarrow> nat \<Rightarrow> (string \<times> nat) + nat" where
  "integer_part src pos =
     (if char_at src pos = CHR ''0'' then Inr (pos + 1)
      else if is_digit (char_at src pos) then Inr (skip_loop is_digit src pos)
      else Inl (''invalid number: expected a digit'', pos))"

definition fraction_part :: "string \<Rightarrow> nat \<Rightarrow> (string \<times> nat) + nat" where
  "fraction_part src pos =
     (if char_at src pos = CHR ''.'' then
        if is_digit (char_at src (pos + 1)) then Inr (skip_loop is_digit src (pos + 1))
        else Inl (''invalid number: expected a digit after '' @ squote (CHR ''.''), pos + 1)
      else Inr pos)"

definition exponent_part :: "string \<Rightarrow> nat \<Rightarrow> (string \<times> nat) + nat" where
  "exponent_part src pos =
     (if char_at src pos = CHR ''e'' \<or> char_at src pos = CHR ''E'' then
        let pos = pos + 1;
            pos = (if char_at src pos = CHR ''+'' \<or> char_at src pos = CHR ''-'' then pos + 1 else pos)
        in if is_digit (char_at src pos) then Inr (skip_loop is_digit src pos)
           else Inl (''invalid number: expected a digit in the exponent'', pos)
      else Inr pos)"

definition number_end :: "string \<Rightarrow> nat \<Rightarrow> (string \<times> nat) + nat" where
  "number_end src start =
     (case integer_part src (if char_at src start = CHR ''-'' then start + 1 else start) of
        Inl e \<Rightarrow> Inl e
      | Inr p1 \<Rightarrow> (case fraction_part src p1 of Inl e \<Rightarrow> Inl e | Inr p2 \<Rightarrow> exponent_part src p2))"

definition scan_number :: "json_parser \<Rightarrow> json_parser \<times> json_event" where
  "scan_number p =
     (case number_end (jp_source p) (jp_pos p) of
        Inl e \<Rightarrow> fail_at e p
      | Inr q \<Rightarrow> (p\<lparr>jp_pos := q\<rparr>, event Number (take (q - jp_pos p) (drop (jp_pos p) (jp_source p)))))"

definition scan_literal :: "string \<Rightarrow> json_token \<Rightarrow> json_parser \<Rightarrow> json_parser \<times> json_event" where
  "scan_literal literal token p =
     (if take (length literal) (drop (jp_pos p) (jp_source p)) = literal
      then (p\<lparr>jp_pos := jp_pos p + length literal\<rparr>, event token literal)
      else make_error ''invalid literal'' p)"

section \<open>Values and containers\<close>

definition open_frame :: "bool \<Rightarrow> json_token \<Rightarrow> json_parser \<Rightarrow> json_parser \<times> json_event" where
  "open_frame is_obj token p =
     (if jp_depth p \<ge> length (jp_stack p) then make_error ''maximum nesting depth exceeded'' p
      else
        (p\<lparr>jp_pos := jp_pos p + 1,
           jp_stack := (jp_stack p)[jp_depth p := \<lparr>is_object = is_obj, seen_element = False, expect_value = False\<rparr>],
           jp_depth := jp_depth p + 1\<rparr>, event token []))"

definition close_frame :: "json_token \<Rightarrow> json_parser \<Rightarrow> json_parser \<times> json_event" where
  "close_frame token p = (p\<lparr>jp_depth := jp_depth p - 1\<rparr>, event token [])"

definition start_value :: "json_parser \<Rightarrow> json_parser \<times> json_event" where
  "start_value p0 =
     (let p = skip_whitespace p0 in
      if jp_pos p \<ge> length (jp_source p) then make_error ''expected a value but reached end of input'' p
      else
        let c = jp_source p ! jp_pos p in
        if c = CHR ''{'' then open_frame True Begin_object p
        else if c = CHR ''['' then open_frame False Begin_array p
        else if c = CHR 0x22 then
          (case scan_string p of (p', Some raw) \<Rightarrow> (p', event Str raw) | (p', None) \<Rightarrow> (p', event Error []))
        else if c = CHR ''t'' then scan_literal ''true'' Boolean p
        else if c = CHR ''f'' then scan_literal ''false'' Boolean p
        else if c = CHR ''n'' then scan_literal ''null'' Null_value p
        else if c = CHR ''-'' \<or> is_digit c then scan_number p
        else make_error ''unexpected character; expected a value'' p)"

text \<open>\<open>frame.seen_element = true\<close> and the like, on the frame on top of the stack.\<close>

definition top_frame :: "json_parser \<Rightarrow> frame" where
  "top_frame p = jp_stack p ! (jp_depth p - 1)"

definition set_top :: "(frame \<Rightarrow> frame) \<Rightarrow> json_parser \<Rightarrow> json_parser" where
  "set_top f p = p\<lparr>jp_stack := (jp_stack p)[jp_depth p - 1 := f (jp_stack p ! (jp_depth p - 1))]\<rparr>"

definition advance_pos :: "json_parser \<Rightarrow> json_parser" where
  "advance_pos p = p\<lparr>jp_pos := jp_pos p + 1\<rparr>"

text \<open>The part of \<open>next_in_object\<close> behind the comma handling.\<close>

definition scan_key :: "json_parser \<Rightarrow> json_parser \<times> json_event" where
  "scan_key p0 =
     (let p = set_top (\<lambda>f. f\<lparr>seen_element := True\<rparr>) p0 in
      if peek p \<noteq> CHR 0x22 then make_error ''expected a string key'' p
      else
        case scan_string p of
          (p1, None) \<Rightarrow> (p1, event Error [])
        | (p1, Some raw) \<Rightarrow>
            let p2 = skip_whitespace p1 in
            if peek p2 \<noteq> CHR '':'' then make_error (''expected '' @ squote (CHR '':'') @ '' after object key'') p2
            else (set_top (\<lambda>f. f\<lparr>expect_value := True\<rparr>) (advance_pos p2), event Key raw))"

definition next_in_object :: "json_parser \<Rightarrow> json_parser \<times> json_event" where
  "next_in_object p0 =
     (if expect_value (top_frame p0) then start_value (set_top (\<lambda>f. f\<lparr>expect_value := False\<rparr>) p0)
      else
        let p = skip_whitespace p0 in
        if peek p = CHR ''}'' then close_frame End_object (advance_pos p)
        else if seen_element (top_frame p) then
          if peek p \<noteq> CHR '','' then make_error (''expected '' @ squote (CHR '','') @ '' or '' @ squote (CHR ''}'') @ '' in object'') p
          else
            let p1 = skip_whitespace (advance_pos p) in
            if peek p1 = CHR ''}'' then make_error (''trailing comma before '' @ squote (CHR ''}'')) p1
            else scan_key p1
        else scan_key p)"

definition next_in_array :: "json_parser \<Rightarrow> json_parser \<times> json_event" where
  "next_in_array p0 =
     (let p = skip_whitespace p0 in
      if peek p = CHR '']'' then close_frame End_array (advance_pos p)
      else if seen_element (top_frame p) then
        if peek p \<noteq> CHR '','' then make_error (''expected '' @ squote (CHR '','') @ '' or '' @ squote (CHR '']'') @ '' in array'') p
        else
          let p1 = skip_whitespace (advance_pos p) in
          if peek p1 = CHR '']'' then make_error (''trailing comma before '' @ squote (CHR '']'')) p1
          else start_value (set_top (\<lambda>f. f\<lparr>seen_element := True\<rparr>) p1)
      else start_value (set_top (\<lambda>f. f\<lparr>seen_element := True\<rparr>) p))"

definition jp_next :: "json_parser \<Rightarrow> json_parser \<times> json_event" where
  "jp_next p =
     (if jp_state p = Errored then (p, event Error [])
      else if jp_state p = Finished then (p, event End [])
      else if jp_depth p = 0 then
        if \<not> jp_started p then start_value (p\<lparr>jp_started := True\<rparr>)
        else
          let p1 = skip_whitespace p in
          if jp_pos p1 < length (jp_source p1)
          then make_error ''unexpected trailing characters after the top-level value'' p1
          else (p1\<lparr>jp_state := Finished\<rparr>, event End [])
      else if is_object (top_frame p) then next_in_object p
      else next_in_array p)"

text \<open>Calling \<open>next\<close> a number of times.\<close>

fun jp_run :: "nat \<Rightarrow> json_parser \<Rightarrow> json_parser \<times> json_event list" where
  "jp_run 0 p = (p, [])"
| "jp_run (Suc n) p =
     (case jp_next p of (p', e) \<Rightarrow> case jp_run n p' of (p'', es) \<Rightarrow> (p'', e # es))"

end
