(* ===== verification/Json_Safety.thy ===== *)
theory Json_Safety
  imports Json_Parser
begin

text \<open>
  What every call of \<open>JsonParser::next\<close> keeps: the position stays inside the source, the depth
  inside the frame array, every event but \<open>end\<close> and \<open>error\<close> consumes
  input, and the events come in the order of a walk over one JSON value.
\<close>

section \<open>Positions\<close>

definition jp_inv :: "json_parser \<Rightarrow> bool" where
  "jp_inv p \<longleftrightarrow> jp_pos p \<le> length (jp_source p) \<and> jp_depth p \<le> length (jp_stack p) \<and>
     jp_offset p \<le> length (jp_source p) \<and> (jp_depth p > 0 \<longrightarrow> jp_started p) \<and> (jp_state p = Finished \<longrightarrow> jp_depth p = 0 \<and> jp_started p)"

lemma skip_loop_ge: "pos \<le> skip_loop ok src pos"
proof (induction ok src pos rule: skip_loop.induct)
  case (1 ok src pos)
  then show ?case by (subst skip_loop.simps) auto
qed

lemma skip_loop_le: "pos \<le> length src \<Longrightarrow> skip_loop ok src pos \<le> length src"
proof (induction ok src pos rule: skip_loop.induct)
  case (1 ok src pos)
  then show ?case by (subst skip_loop.simps) auto
qed

lemma skip_loop_gr: "pos < length src \<Longrightarrow> ok (src ! pos) \<Longrightarrow> pos < skip_loop ok src pos"
  using skip_loop_ge [of "pos + 1" ok src] by (subst skip_loop.simps) auto

lemma char_at_less: "char_at src pos \<noteq> CHR 0x00 \<Longrightarrow> pos < length src \<and> src ! pos = char_at src pos"
  by (auto simp: char_at_def split: if_splits)

lemma digit_at_less: "is_digit (char_at src pos) \<Longrightarrow> pos < length src \<and> src ! pos = char_at src pos"
  by (rule char_at_less) (auto simp: is_digit_def)

lemma string_loop_Inr:
  "string_loop src open_pos pos = Inr q \<Longrightarrow> pos \<le> q \<and> q < length src \<and> src ! q = CHR 0x22"
proof (induction src open_pos pos rule: string_loop.induct)
  case (1 src open_pos pos)
  note eq = 1(3) [unfolded string_loop.simps [of src open_pos pos] Let_def]
  have less: "pos < length src" using eq by (auto split: if_splits)
  consider "src ! pos = CHR 0x22" | "src ! pos = CHR 0x5C" | "src ! pos \<noteq> CHR 0x22" "src ! pos \<noteq> CHR 0x5C" by blast
  then show ?case
  proof cases
    case 1
    with eq less show ?thesis by auto
  next
    case 2
    with eq less obtain r where "validate_escape src pos = Inr r" "string_loop src open_pos r = Inr q"
      by (auto split: sum.splits)
    with 1(1) [OF less refl _ 2 this(1)] 2 validate_escape_less [OF this(1)] show ?thesis by auto
  next
    case 3
    with eq less have "\<not> of_char (src ! pos) < (0x20 :: nat)" "string_loop src open_pos (pos + 1) = Inr q"
      by (auto split: if_splits)
    with 1(2) [OF less refl 3 this(1)] show ?thesis by auto
  qed
qed

lemma validate_escape_Inl: "validate_escape src pos = Inl (m, q) \<Longrightarrow> pos < length src \<Longrightarrow> q \<le> length src"
  by (auto simp: validate_escape_def Let_def numeral_eq_Suc split: if_splits)

lemma string_loop_Inl:
  "string_loop src open_pos pos = Inl (m, q) \<Longrightarrow> open_pos \<le> length src \<Longrightarrow> q \<le> length src"
proof (induction src open_pos pos rule: string_loop.induct)
  case (1 src open_pos pos)
  note eq = 1(3) [unfolded string_loop.simps [of src open_pos pos] Let_def]
  show ?case
  proof (cases "pos < length src \<and> src ! pos = CHR 0x5C")
    case True
    with eq 1(1) [OF _ refl] 1(4) show ?thesis
      by (cases "validate_escape src pos") (auto dest: validate_escape_Inl)
  next
    case False
    with eq 1(2) [OF _ refl] 1(4) show ?thesis by (auto split: if_splits)
  qed
qed

lemma integer_part_bounds:
  "integer_part src pos = Inr q \<Longrightarrow> pos < q \<and> q \<le> length src"
  "integer_part src pos = Inl (m, q) \<Longrightarrow> q = pos"
  using char_at_less [of src pos] digit_at_less [of src pos] skip_loop_le [of pos src is_digit] skip_loop_gr [of pos src is_digit]
  by (auto simp: integer_part_def split: if_splits)

lemma fraction_part_bounds:
  "fraction_part src pos = Inr q \<Longrightarrow> pos \<le> length src \<Longrightarrow> pos \<le> q \<and> q \<le> length src"
  "fraction_part src pos = Inl (m, q) \<Longrightarrow> q \<le> length src"
  using char_at_less [of src pos] digit_at_less [of src "pos + 1"] skip_loop_ge [of "pos + 1" is_digit src]
    skip_loop_le [of "pos + 1" src is_digit]
  by (auto simp: fraction_part_def split: if_splits)

lemma exponent_part_bounds:
  "exponent_part src pos = Inr q \<Longrightarrow> pos \<le> length src \<Longrightarrow> pos \<le> q \<and> q \<le> length src"
  "exponent_part src pos = Inl (m, q) \<Longrightarrow> q \<le> length src"
proof -
  let ?s = "if char_at src (pos + 1) = CHR ''+'' \<or> char_at src (pos + 1) = CHR ''-'' then pos + 2 else pos + 1"
  have s: "pos < length src \<Longrightarrow> ?s \<le> length src" using char_at_less [of src "pos + 1"] by auto
  have e: "exponent_part src pos =
      (if char_at src pos = CHR ''e'' \<or> char_at src pos = CHR ''E'' then
         if is_digit (char_at src ?s) then Inr (skip_loop is_digit src ?s)
         else Inl (''invalid number: expected a digit in the exponent'', ?s)
       else Inr pos)"
    by (simp add: exponent_part_def Let_def)
  have hit: "char_at src pos = CHR ''e'' \<or> char_at src pos = CHR ''E'' \<Longrightarrow> pos < length src"
    using char_at_less [of src pos] by auto
  note b = skip_loop_ge [of ?s is_digit src] skip_loop_le [of ?s src is_digit]
  show "exponent_part src pos = Inr q \<Longrightarrow> pos \<le> length src \<Longrightarrow> pos \<le> q \<and> q \<le> length src"
    using b s hit unfolding e by (auto split: if_splits)
  show "exponent_part src pos = Inl (m, q) \<Longrightarrow> q \<le> length src"
    using s hit unfolding e by (auto split: if_splits)
qed

lemma number_end_bounds:
  "number_end src start = Inr q \<Longrightarrow> start < q \<and> q \<le> length src"
  "number_end src start = Inl (m, q) \<Longrightarrow> start < length src \<Longrightarrow> q \<le> length src"
  using char_at_less [of src start]
  by (auto simp: number_end_def split: sum.splits if_splits
      dest!: integer_part_bounds fraction_part_bounds exponent_part_bounds)

section \<open>Results of the scanners\<close>

text \<open>A result either latched an error inside the source or consumed input and is still running.\<close>

definition progress :: "json_parser \<Rightarrow> json_parser \<times> json_event \<Rightarrow> bool" where
  "progress p r \<longleftrightarrow> (case r of (p', e) \<Rightarrow>
     jp_source p' = jp_source p \<and> length (jp_stack p') = length (jp_stack p) \<and> jp_pos p' \<le> length (jp_source p) \<and>
     jp_started p' = jp_started p \<and> jp_depth p' \<le> length (jp_stack p) \<and>
     (if je_type e = Error then jp_state p' = Errored \<and> jp_offset p' \<le> length (jp_source p)
      else je_type e \<noteq> End \<and> jp_state p' = Running \<and> jp_pos p < jp_pos p' \<and> jp_offset p' = jp_offset p))"

lemma make_error_progress:
  "jp_inv p \<Longrightarrow> jp_state p = Running \<Longrightarrow> progress p (make_error m p)"
  by (auto simp: progress_def make_error_def jp_inv_def)

lemma make_error_type [simp]: "je_type (snd (make_error m p)) = Error"
  by (simp add: make_error_def)

lemma fail_at_progress:
  "jp_inv p \<Longrightarrow> jp_state p = Running \<Longrightarrow> snd e \<le> length (jp_source p) \<Longrightarrow> progress p (fail_at e p)"
  by (cases e) (auto simp: progress_def fail_at_def make_error_def jp_inv_def)

lemma progress_trans:
  "progress p' r \<Longrightarrow> jp_source p' = jp_source p \<Longrightarrow> length (jp_stack p') = length (jp_stack p) \<Longrightarrow>
    jp_started p' = jp_started p \<Longrightarrow> jp_pos p \<le> jp_pos p' \<Longrightarrow> jp_offset p' = jp_offset p \<Longrightarrow> progress p r"
  by (auto simp: progress_def split: prod.splits if_splits)

lemma scan_string_fields:
  assumes "jp_inv p" and "jp_state p = Running" and "jp_pos p < length (jp_source p)" and "scan_string p = (p', r)"
  shows "(r = None \<longrightarrow> progress p (p', event Error [])) \<and>
    (\<forall>raw. r = Some raw \<longrightarrow> (\<exists>q. p' = p\<lparr>jp_pos := q\<rparr> \<and> jp_pos p < q \<and> q \<le> length (jp_source p)))"
proof (cases "string_loop (jp_source p) (jp_pos p) (jp_pos p + 1)")
  case (Inl e)
  have "snd e \<le> length (jp_source p)"
    using string_loop_Inl [of "jp_source p" "jp_pos p" "jp_pos p + 1" "fst e" "snd e"] Inl assms(3) by simp
  from fail_at_progress [OF assms(1,2) this] show ?thesis
    using assms(4) Inl by (auto simp: scan_string_def Let_def fail_at_def make_error_def split: prod.splits)
next
  case (Inr q)
  with string_loop_Inr [OF Inr] assms(4) show ?thesis by (auto simp: scan_string_def Let_def)
qed

section \<open>The open containers\<close>

text \<open>The containers that are open, innermost first: is it an object, and is a member's value due.\<close>

definition shape :: "json_parser \<Rightarrow> (bool \<times> bool) list" where
  "shape p = rev (map (\<lambda>f. (is_object f, expect_value f)) (take (jp_depth p) (jp_stack p)))"

lemma shape_Nil: "jp_inv p \<Longrightarrow> shape p = [] \<longleftrightarrow> jp_depth p = 0"
  by (auto simp: shape_def jp_inv_def)

lemma shape_top:
  assumes "0 < jp_depth p" and "jp_depth p \<le> length (jp_stack p)"
  shows "shape p = (is_object (top_frame p), expect_value (top_frame p)) # shape (p\<lparr>jp_depth := jp_depth p - 1\<rparr>)"
  using assms by (cases "jp_depth p") (auto simp: shape_def top_frame_def take_Suc_conv_app_nth)

lemma shape_set_top:
  assumes "0 < jp_depth p" and "jp_depth p \<le> length (jp_stack p)"
  shows "shape (set_top g p) = (is_object (g (top_frame p)), expect_value (g (top_frame p))) # tl (shape p)"
  using assms by (cases "jp_depth p") (auto simp: shape_def set_top_def top_frame_def take_Suc_conv_app_nth)

lemma shape_cong: "jp_stack p' = jp_stack p \<Longrightarrow> jp_depth p' = jp_depth p \<Longrightarrow> shape p' = shape p"
  by (simp add: shape_def)

text \<open>Which values may come next, and what a value does to the containers around it.\<close>

definition scalar_token :: "json_token \<Rightarrow> bool" where
  "scalar_token t \<longleftrightarrow> t \<in> {Str, Number, Boolean, Null_value}"

fun value_slot :: "bool \<times> (bool \<times> bool) list \<Rightarrow> (bool \<times> (bool \<times> bool) list) option" where
  "value_slot (started, []) = (if started then None else Some (True, []))"
| "value_slot (started, (obj, due) # fs) =
     (if obj then if due then Some (started, (True, False) # fs) else None else Some (started, (obj, due) # fs))"

fun walk_step :: "json_token \<Rightarrow> bool \<times> (bool \<times> bool) list \<Rightarrow> (bool \<times> (bool \<times> bool) list) option" where
  "walk_step Begin_object s = map_option (\<lambda>(st, fs). (st, (True, False) # fs)) (value_slot s)"
| "walk_step Begin_array s = map_option (\<lambda>(st, fs). (st, (False, False) # fs)) (value_slot s)"
| "walk_step End_object s = (case s of (st, (True, False) # fs) \<Rightarrow> Some (st, fs) | _ \<Rightarrow> None)"
| "walk_step End_array s = (case s of (st, (False, d) # fs) \<Rightarrow> Some (st, fs) | _ \<Rightarrow> None)"
| "walk_step Key s = (case s of (st, (True, False) # fs) \<Rightarrow> Some (st, (True, True) # fs) | _ \<Rightarrow> None)"
| "walk_step End s = None"
| "walk_step Error s = None"
| "walk_step _ s = value_slot s"

definition pushed :: "json_token \<Rightarrow> (bool \<times> bool) list \<Rightarrow> (bool \<times> bool) list" where
  "pushed t fs = (if t = Begin_object then (True, False) # fs else if t = Begin_array then (False, False) # fs else fs)"

definition value_result :: "json_parser \<Rightarrow> json_parser \<times> json_event \<Rightarrow> bool" where
  "value_result p r \<longleftrightarrow> progress p r \<and>
     (je_type (snd r) \<noteq> Error \<longrightarrow> shape (fst r) = pushed (je_type (snd r)) (shape p) \<and>
       (scalar_token (je_type (snd r)) \<or> je_type (snd r) = Begin_object \<or> je_type (snd r) = Begin_array))"

lemma make_error_value: "jp_inv p \<Longrightarrow> jp_state p = Running \<Longrightarrow> value_result p (make_error m p)"
  by (simp add: value_result_def make_error_progress)

lemma fail_at_value:
  "jp_inv p \<Longrightarrow> jp_state p = Running \<Longrightarrow> snd e \<le> length (jp_source p) \<Longrightarrow> value_result p (fail_at e p)"
  using fail_at_progress [of p e] by (simp add: value_result_def fail_at_def split: prod.splits)

lemma open_frame_value:
  assumes "jp_inv p" and "jp_state p = Running" and "jp_pos p < length (jp_source p)"
  shows "value_result p (open_frame True Begin_object p)" and "value_result p (open_frame False Begin_array p)"
proof -
  have *: "value_result p (open_frame b t p)"
    if "t = Begin_object \<and> b \<or> t = Begin_array \<and> \<not> b" for b t
  proof (cases "jp_depth p \<ge> length (jp_stack p)")
    case True
    with assms show ?thesis by (simp add: open_frame_def make_error_value)
  next
    case False
    with assms that show ?thesis
      by (auto simp: open_frame_def value_result_def progress_def jp_inv_def shape_def pushed_def take_Suc_conv_app_nth)
  qed
  show "value_result p (open_frame True Begin_object p)" "value_result p (open_frame False Begin_array p)"
    by (simp_all add: *)
qed

lemma scan_literal_value:
  assumes "jp_inv p" and "jp_state p = Running" and "scalar_token t" and "l \<noteq> []"
  shows "value_result p (scan_literal l t p)"
proof (cases "take (length l) (drop (jp_pos p) (jp_source p)) = l")
  case True
  then have "length l \<le> length (jp_source p) - jp_pos p" by (metis length_drop length_take min.cobounded1)
  with True assms show ?thesis
    by (auto simp: scan_literal_def value_result_def progress_def jp_inv_def shape_def scalar_token_def pushed_def)
next
  case False
  with assms show ?thesis by (simp add: scan_literal_def make_error_value)
qed

lemma scan_number_value:
  assumes "jp_inv p" and "jp_state p = Running" and "jp_pos p < length (jp_source p)"
  shows "value_result p (scan_number p)"
proof (cases "number_end (jp_source p) (jp_pos p)")
  case (Inl e)
  with assms number_end_bounds(2) [of "jp_source p" "jp_pos p" "fst e" "snd e"] show ?thesis
    by (simp add: scan_number_def fail_at_value)
next
  case (Inr q)
  with number_end_bounds(1) [OF Inr] assms show ?thesis
    by (simp add: scan_number_def value_result_def progress_def jp_inv_def shape_def pushed_def scalar_token_def)
qed

lemma scan_string_value:
  assumes "jp_inv p" and "jp_state p = Running" and "jp_pos p < length (jp_source p)"
  shows "value_result p (case scan_string p of (p', Some raw) \<Rightarrow> (p', event Str raw) | (p', None) \<Rightarrow> (p', event Error []))"
proof -
  obtain p1 r where p1: "scan_string p = (p1, r)" by (cases "scan_string p")
  note f = scan_string_fields [OF assms p1]
  show ?thesis
  proof (cases r)
    case None
    with f p1 show ?thesis by (simp add: value_result_def)
  next
    case (Some raw)
    with f obtain q where "p1 = p\<lparr>jp_pos := q\<rparr>" "jp_pos p < q" "q \<le> length (jp_source p)" by auto
    with p1 Some assms show ?thesis
      by (simp add: value_result_def progress_def jp_inv_def shape_def pushed_def scalar_token_def)
  qed
qed

lemma skip_whitespace_fields [simp]:
  "jp_state (skip_whitespace p) = jp_state p" "jp_source (skip_whitespace p) = jp_source p"
  "jp_stack (skip_whitespace p) = jp_stack p" "jp_depth (skip_whitespace p) = jp_depth p"
  "jp_started (skip_whitespace p) = jp_started p" "jp_offset (skip_whitespace p) = jp_offset p"
  "top_frame (skip_whitespace p) = top_frame p" "shape (skip_whitespace p) = shape p"
  by (simp_all add: skip_whitespace_def top_frame_def shape_def)

lemma skip_whitespace_pos: "jp_pos p \<le> jp_pos (skip_whitespace p)"
  by (simp add: skip_whitespace_def skip_loop_ge)

lemma skip_whitespace_inv: "jp_inv p \<Longrightarrow> jp_inv (skip_whitespace p)"
  by (simp add: jp_inv_def skip_whitespace_def skip_loop_le)

lemma start_value_step:
  assumes "jp_inv p" and "jp_state p = Running"
  shows "value_result p (start_value p)"
proof -
  let ?p = "skip_whitespace p"
  have inv: "jp_inv ?p" "jp_state ?p = Running" using assms by (simp_all add: skip_whitespace_inv)
  have "value_result ?p (start_value p)"
  proof (cases "jp_pos ?p \<ge> length (jp_source ?p)")
    case True
    with inv make_error_value show ?thesis by (simp add: start_value_def Let_def)
  next
    case False
    then have less: "jp_pos ?p < length (jp_source ?p)" by simp
    show ?thesis
      unfolding start_value_def Let_def
      using False open_frame_value [OF inv less] scan_string_value [OF inv less] scan_number_value [OF inv less]
        scan_literal_value [OF inv, of Boolean "''true''"] scan_literal_value [OF inv, of Boolean "''false''"]
        scan_literal_value [OF inv, of Null_value "''null''"] make_error_value [OF inv]
      by (simp add: scalar_token_def)
  qed
  then show ?thesis
    using progress_trans [of ?p "start_value p" p] skip_whitespace_pos [of p] by (simp add: value_result_def)
qed

section \<open>One call of next\<close>

text \<open>What one call does to a parser that is running.\<close>

definition step_result :: "json_parser \<Rightarrow> json_parser \<times> json_event \<Rightarrow> bool" where
  "step_result p r \<longleftrightarrow> (case r of (p', e) \<Rightarrow>
     jp_inv p' \<and> jp_source p' = jp_source p \<and> length (jp_stack p') = length (jp_stack p) \<and>
     (if je_type e = Error then jp_state p' = Errored
      else if je_type e = End then jp_state p' = Finished \<and> jp_started p \<and> shape p = []
      else jp_state p' = Running \<and> jp_pos p < jp_pos p' \<and>
        walk_step (je_type e) (jp_started p, shape p) = Some (jp_started p', shape p')))"

lemma progress_inv: "progress p r \<Longrightarrow> jp_started p \<Longrightarrow> jp_inv p \<Longrightarrow> jp_inv (fst r)"
  by (auto simp: progress_def jp_inv_def split: prod.splits if_splits)

lemma value_result_step:
  assumes "value_result p1 r" and "jp_inv p1" and "jp_started p1" and "jp_source p1 = jp_source p"
    and "length (jp_stack p1) = length (jp_stack p)" and "jp_pos p \<le> jp_pos p1"
    and "value_slot (jp_started p, shape p) = Some (True, shape p1)"
  shows "step_result p r"
proof -
  obtain p' e where r: "r = (p', e)" by (cases r)
  have g: "progress p1 (p', e)" using assms(1) r by (simp add: value_result_def)
  have inv: "jp_inv p'" using progress_inv [OF g assms(3,2)] by simp
  show ?thesis
  proof (cases "je_type e = Error")
    case True
    with g inv assms(4,5) show ?thesis by (simp add: step_result_def progress_def r)
  next
    case False
    with assms(1) r have "shape p' = pushed (je_type e) (shape p1)"
        "scalar_token (je_type e) \<or> je_type e = Begin_object \<or> je_type e = Begin_array"
      by (simp_all add: value_result_def)
    then have "walk_step (je_type e) (jp_started p, shape p) = Some (True, shape p')"
      using assms(7) by (cases "je_type e") (auto simp: pushed_def scalar_token_def)
    moreover have "jp_started p' \<and> jp_state p' = Running \<and> jp_pos p1 < jp_pos p' \<and> je_type e \<noteq> End"
      using g False assms(3) by (simp add: progress_def)
    ultimately show ?thesis
      using g False inv assms(4-6) by (simp add: step_result_def progress_def r)
  qed
qed

lemma make_error_step:
  assumes "jp_inv p1" and "jp_state p1 = Running" and "jp_source p1 = jp_source p"
    and "length (jp_stack p1) = length (jp_stack p)"
  shows "step_result p (make_error m p1)"
  using assms by (auto simp: step_result_def make_error_def jp_inv_def)

lemma set_top_fields [simp]:
  "jp_state (set_top f p) = jp_state p" "jp_source (set_top f p) = jp_source p" "jp_pos (set_top f p) = jp_pos p"
  "length (jp_stack (set_top f p)) = length (jp_stack p)" "jp_depth (set_top f p) = jp_depth p"
  "jp_started (set_top f p) = jp_started p" "jp_offset (set_top f p) = jp_offset p"
  by (simp_all add: set_top_def)

lemma advance_pos_fields [simp]:
  "jp_state (advance_pos p) = jp_state p" "jp_source (advance_pos p) = jp_source p" "jp_pos (advance_pos p) = jp_pos p + 1"
  "jp_stack (advance_pos p) = jp_stack p" "jp_depth (advance_pos p) = jp_depth p"
  "jp_started (advance_pos p) = jp_started p" "jp_offset (advance_pos p) = jp_offset p"
  "shape (advance_pos p) = shape p" "top_frame (advance_pos p) = top_frame p"
  by (simp_all add: advance_pos_def shape_def top_frame_def)

lemma set_top_inv: "jp_inv p \<Longrightarrow> jp_inv (set_top f p)"
  by (simp add: jp_inv_def)

lemma advance_pos_inv: "jp_inv p \<Longrightarrow> peek p \<noteq> CHR 0x00 \<Longrightarrow> jp_inv (advance_pos p)"
  using char_at_less [of "jp_source p" "jp_pos p"] by (auto simp: jp_inv_def peek_def)

lemma close_frame_step:
  assumes "jp_inv p" and "jp_state p = Running" and "0 < jp_depth p" and "jp_inv p1"
    and "jp_source p1 = jp_source p" "jp_stack p1 = jp_stack p" "jp_depth p1 = jp_depth p" "jp_started p1 = jp_started p"
      "jp_state p1 = Running" "jp_pos p < jp_pos p1"
    and "t = End_object \<and> is_object (top_frame p) \<and> \<not> expect_value (top_frame p) \<or> t = End_array \<and> \<not> is_object (top_frame p)"
  shows "step_result p (close_frame t p1)"
proof -
  have "shape p = (is_object (top_frame p), expect_value (top_frame p)) # shape (p1\<lparr>jp_depth := jp_depth p1 - 1\<rparr>)"
    using shape_top [of p] assms by (simp add: jp_inv_def shape_def)
  moreover have "jp_inv (p1\<lparr>jp_depth := jp_depth p1 - 1\<rparr>)" using assms(3,4,7,9) by (auto simp: jp_inv_def)
  ultimately show ?thesis
    using assms by (auto simp: step_result_def close_frame_def)
qed

text \<open>The key of a member, in an object in which no value is due.\<close>

lemma scan_key_step:
  assumes "jp_inv p" and "jp_state p = Running" and "0 < jp_depth p" and "jp_inv p1"
    and "jp_source p1 = jp_source p" "jp_stack p1 = jp_stack p" "jp_depth p1 = jp_depth p" "jp_started p1 = jp_started p"
      "jp_state p1 = Running" "jp_pos p \<le> jp_pos p1"
    and "is_object (top_frame p)" and "\<not> expect_value (top_frame p)"
  shows "step_result p (scan_key p1)"
proof -
  let ?p = "set_top (\<lambda>f. f\<lparr>seen_element := True\<rparr>) p1"
  have inv: "jp_inv ?p" "jp_state ?p = Running" using assms by (simp_all add: set_top_inv)
  show ?thesis
  proof (cases "peek ?p = CHR 0x22")
    case False
    with inv assms show ?thesis by (simp add: scan_key_def make_error_step)
  next
    case True
    then have less: "jp_pos ?p < length (jp_source ?p)"
      using char_at_less [of "jp_source ?p" "jp_pos ?p"] by (simp add: peek_def)
    obtain p2 r where p2: "scan_string ?p = (p2, r)" by (cases "scan_string ?p")
    note f = scan_string_fields [OF inv less p2]
    show ?thesis
    proof (cases r)
      case None
      with f have "progress ?p (p2, event Error [])" by simp
      with progress_inv [OF this _ inv(1)] assms True p2 None show ?thesis
        by (auto simp: scan_key_def step_result_def progress_def jp_inv_def)
    next
      case (Some raw)
      with f obtain q where q: "p2 = ?p\<lparr>jp_pos := q\<rparr>" "jp_pos ?p < q" "q \<le> length (jp_source ?p)" by auto
      let ?p3 = "skip_whitespace p2"
      have inv3: "jp_inv ?p3" using inv(1) q by (intro skip_whitespace_inv) (auto simp: jp_inv_def)
      have fields: "jp_state ?p3 = Running" "jp_source ?p3 = jp_source p" "length (jp_stack ?p3) = length (jp_stack p)"
          "jp_depth ?p3 = jp_depth p" "jp_started ?p3 = jp_started p" "jp_pos p < jp_pos ?p3"
        using inv q assms(5-10) skip_whitespace_pos [of p2] by simp_all
      show ?thesis
      proof (cases "peek ?p3 = CHR '':''")
        case False
        with inv3 fields True p2 Some show ?thesis by (simp add: scan_key_def make_error_step)
      next
        case colon: True
        let ?p4 = "set_top (\<lambda>f. f\<lparr>expect_value := True\<rparr>) (advance_pos ?p3)"
        have inv4: "jp_inv ?p4" using inv3 colon by (intro set_top_inv advance_pos_inv) simp_all
        have d: "0 < jp_depth p" "jp_depth p \<le> length (jp_stack p)" using assms(1,3) by (simp_all add: jp_inv_def)
        have "shape p2 = shape ?p" using q(1) by (simp add: shape_def)
        moreover have "shape ?p = (True, False) # tl (shape p)"
          using shape_set_top [of p1] assms(6,7,11,12) d by (simp add: top_frame_def shape_def)
        moreover have "top_frame p2 = (top_frame p)\<lparr>seen_element := True\<rparr>"
          using q(1) d assms(6,7) by (simp add: top_frame_def set_top_def)
        ultimately have "shape ?p4 = (True, True) # tl (shape p)"
          using shape_set_top [of "advance_pos ?p3"] d fields assms(11) by simp
        moreover have "shape p = (True, False) # tl (shape p)"
          using shape_top [OF d] assms(11,12) by simp
        ultimately have "walk_step Key (jp_started p, shape p) = Some (jp_started p, shape ?p4)"
          by (metis (no_types, lifting) walk_step.simps(5) prod.simps(2) list.simps(5) bool.case_eq_if)
        with inv4 fields True p2 Some colon show ?thesis
          by (simp add: scan_key_def step_result_def)
      qed
    qed
  qed
qed

lemma next_in_object_step:
  assumes "jp_inv p" and "jp_state p = Running" and "0 < jp_depth p" and "is_object (top_frame p)"
  shows "step_result p (next_in_object p)"
proof -
  have d: "0 < jp_depth p" "jp_depth p \<le> length (jp_stack p)" and st: "jp_started p"
    using assms(1,3) by (simp_all add: jp_inv_def)
  note top = shape_top [OF d]
  show ?thesis
  proof (cases "expect_value (top_frame p)")
    case True
    let ?p = "set_top (\<lambda>f. f\<lparr>expect_value := False\<rparr>) p"
    have "value_slot (jp_started p, shape p) = Some (True, shape ?p)"
      using top shape_set_top [OF d] assms(4) True st by simp
    with value_result_step [OF start_value_step, of ?p p] assms(1,2) st True show ?thesis
      by (simp add: next_in_object_def set_top_inv)
  next
    case False
    let ?p = "skip_whitespace p" and ?p1 = "skip_whitespace (advance_pos (skip_whitespace p))"
    have inv: "jp_inv ?p" by (rule skip_whitespace_inv [OF assms(1)])
    note pos = skip_whitespace_pos [of p] skip_whitespace_pos [of "advance_pos ?p"]
    have inv1: "jp_inv ?p1" if "peek ?p = CHR '',''" using that by (intro skip_whitespace_inv [OF advance_pos_inv] inv) simp
    have close: "step_result p (close_frame End_object (advance_pos ?p))" if "peek ?p = CHR ''}''"
      using that inv pos assms False by (intro close_frame_step) (simp_all add: advance_pos_inv)
    have key: "step_result p (scan_key ?p)" using inv pos assms False by (intro scan_key_step) simp_all
    have key1: "step_result p (scan_key ?p1)" if "peek ?p = CHR '',''"
      using inv1 [OF that] pos assms False by (intro scan_key_step) simp_all
    have err: "step_result p (make_error m ?p)" for m using inv assms(2) by (intro make_error_step) simp_all
    have err1: "step_result p (make_error m ?p1)" if "peek ?p = CHR '',''" for m
      using inv1 [OF that] assms(2) by (intro make_error_step) simp_all
    show ?thesis using False close key key1 err err1 by (simp add: next_in_object_def Let_def)
  qed
qed

lemma next_in_array_step:
  assumes "jp_inv p" and "jp_state p = Running" and "0 < jp_depth p" and "\<not> is_object (top_frame p)"
  shows "step_result p (next_in_array p)"
proof -
  have d: "0 < jp_depth p" "jp_depth p \<le> length (jp_stack p)" and st: "jp_started p"
    using assms(1,3) by (simp_all add: jp_inv_def)
  note top = shape_top [OF d]
  let ?p = "skip_whitespace p" and ?p1 = "skip_whitespace (advance_pos (skip_whitespace p))"
  let ?seen = "set_top (\<lambda>f. f\<lparr>seen_element := True\<rparr>)"
  have inv: "jp_inv ?p" by (rule skip_whitespace_inv [OF assms(1)])
  note pos = skip_whitespace_pos [of p] skip_whitespace_pos [of "advance_pos ?p"]
  have inv1: "jp_inv ?p1" if "peek ?p = CHR '',''" using that by (intro skip_whitespace_inv [OF advance_pos_inv] inv) simp
  have close: "step_result p (close_frame End_array (advance_pos ?p))" if "peek ?p = CHR '']''"
    using that inv pos assms by (intro close_frame_step) (simp_all add: advance_pos_inv)
  have slot: "value_slot (jp_started p, shape p) = Some (True, shape (?seen q))"
    if "jp_stack q = jp_stack p" "jp_depth q = jp_depth p" for q
  proof -
    have "shape (?seen q) = (is_object (top_frame q), expect_value (top_frame q)) # tl (shape q)"
      using shape_set_top [of q] that d by simp
    also have "\<dots> = shape p" using top that by (simp add: shape_def top_frame_def)
    finally show ?thesis using top assms(4) st by simp
  qed
  have elem: "step_result p (start_value (?seen ?p))"
    using inv assms(2) st pos slot [of ?p]
    by (intro value_result_step [OF start_value_step, of "?seen ?p" p]) (simp_all add: set_top_inv)
  have elem1: "step_result p (start_value (?seen ?p1))" if "peek ?p = CHR '',''"
    using inv1 [OF that] assms(2) st pos slot [of ?p1]
    by (intro value_result_step [OF start_value_step, of "?seen ?p1" p]) (simp_all add: set_top_inv)
  have err: "step_result p (make_error m ?p)" for m using inv assms(2) by (intro make_error_step) simp_all
  have err1: "step_result p (make_error m ?p1)" if "peek ?p = CHR '',''" for m
    using inv1 [OF that] assms(2) by (intro make_error_step) simp_all
  show ?thesis using close elem elem1 err err1 by (simp add: next_in_array_def Let_def)
qed

lemma jp_next_step:
  assumes "jp_inv p" and "jp_state p = Running"
  shows "step_result p (jp_next p)"
proof -
  consider "jp_depth p = 0" "\<not> jp_started p" | "jp_depth p = 0" "jp_started p" | "0 < jp_depth p" by blast
  then show ?thesis
  proof cases
    case 1
    let ?p = "p\<lparr>jp_started := True\<rparr>"
    have "shape p = []" "shape ?p = []" using 1 by (simp_all add: shape_def)
    moreover have "jp_inv ?p" using assms 1 by (simp add: jp_inv_def)
    ultimately have "step_result p (start_value ?p)"
      using assms 1 by (intro value_result_step [OF start_value_step, of ?p p]) simp_all
    with assms 1 show ?thesis by (simp add: jp_next_def)
  next
    case 2
    let ?p = "skip_whitespace p"
    have inv: "jp_inv ?p" by (rule skip_whitespace_inv [OF assms(1)])
    have "step_result p (?p\<lparr>jp_state := Finished\<rparr>, event End [])"
      using inv 2 by (simp add: step_result_def jp_inv_def shape_def)
    moreover have "step_result p (make_error m ?p)" for m using inv assms(2) by (intro make_error_step) simp_all
    ultimately show ?thesis using assms(2) 2 by (simp add: jp_next_def Let_def)
  next
    case 3
    with assms next_in_object_step [OF assms 3] next_in_array_step [OF assms 3] show ?thesis
      by (simp add: jp_next_def)
  qed
qed

section \<open>All calls\<close>

text \<open>Once \<open>end\<close> or \<open>error\<close> is returned, every later call returns the same and changes nothing.\<close>

lemma jp_next_done:
  "jp_done p \<Longrightarrow> jp_next p = (p, event (if jp_failed p then Error else End) [])"
  by (cases "jp_state p") (auto simp: jp_next_def jp_done_def jp_failed_def)

lemma jp_run_done:
  "jp_done p \<Longrightarrow> jp_run n p = (p, replicate n (event (if jp_failed p then Error else End) []))"
  by (induction n) (simp_all add: jp_next_done)

lemma jp_run_inv:
  "jp_inv p \<Longrightarrow> jp_run n p = (p', es) \<Longrightarrow>
    jp_inv p' \<and> jp_source p' = jp_source p \<and> length (jp_stack p') = length (jp_stack p) \<and> length es = n"
proof (induction n arbitrary: p es)
  case (Suc n)
  obtain q e where q: "jp_next p = (q, e)" by (cases "jp_next p")
  obtain r es' where r: "jp_run n q = (r, es')" by (cases "jp_run n q")
  have "jp_inv q \<and> jp_source q = jp_source p \<and> length (jp_stack q) = length (jp_stack p)"
  proof (cases "jp_state p = Running")
    case True
    from jp_next_step [OF Suc.prems(1) True] q show ?thesis by (simp add: step_result_def)
  next
    case False
    with jp_next_done [of p] q Suc.prems(1) show ?thesis by (simp add: jp_done_def)
  qed
  with Suc.IH [of q es'] r q Suc.prems(2) show ?case by auto
qed simp

lemma jp_run_running:
  "jp_inv p \<Longrightarrow> jp_run n p = (p', es) \<Longrightarrow> \<not> jp_done p' \<Longrightarrow> jp_pos p + n \<le> jp_pos p'"
proof (induction n arbitrary: p es)
  case (Suc n)
  obtain q e where q: "jp_next p = (q, e)" by (cases "jp_next p")
  obtain r es' where r: "jp_run n q = (r, es')" by (cases "jp_run n q")
  have p': "p' = r" using Suc.prems(2) q r by simp
  have "\<not> jp_done q" using jp_run_done [of q n] r p' Suc.prems(3) by auto
  moreover have "\<not> jp_done p" using jp_next_done [of p] q \<open>\<not> jp_done q\<close> by auto
  ultimately have "jp_inv q" "jp_pos p < jp_pos q"
    using jp_next_step [OF Suc.prems(1)] q by (auto simp: step_result_def jp_done_def split: if_splits)
  with Suc.IH [of q es'] r p' Suc.prems(3) show ?case by simp
qed simp

lemma jp_construct_inv: "jp_inv (jp_construct d src)"
  by (simp add: jp_inv_def jp_construct_def)

text \<open>
  Property C17. The parser ends on every input, valid or not: after one call more than the
  source has characters, \<open>next\<close> has returned \<open>end\<close> or \<open>error\<close>. On the way the position never
  leaves the source, the depth never leaves the frame array, and the offset of an error lies in the
  source. From then on every call returns the same event again and changes nothing.
\<close>

theorem json_parser_ends:
  assumes "jp_run n (jp_construct max_depth src) = (p, es)"
  shows "jp_pos p \<le> length src \<and> jp_depth p \<le> max_depth \<and> jp_offset p \<le> length src \<and>
    (length src < n \<longrightarrow> jp_done p) \<and>
    (jp_done p \<longrightarrow> jp_next p = (p, event (if jp_failed p then Error else End) []))"
proof -
  let ?q = "jp_construct max_depth src"
  have q: "jp_pos ?q = 0" "jp_source ?q = src" "length (jp_stack ?q) = max_depth" by (simp_all add: jp_construct_def)
  have inv: "jp_inv p" "jp_source p = src" "length (jp_stack p) = max_depth"
    using jp_run_inv [OF jp_construct_inv assms] q by auto
  have "jp_done p" if "length src < n"
    using jp_run_running [OF jp_construct_inv assms] that inv q by (fastforce simp: jp_inv_def)
  then show ?thesis using inv jp_next_done [of p] by (auto simp: jp_inv_def)
qed

theorem json_parser_ends_witness:
  "jp_done (fst (jp_run 4 (jp_construct 1 ''[[]''))) \<and> jp_offset (fst (jp_run 4 (jp_construct 1 ''[[]''))) = 1"
proof -
  obtain p es where r: "jp_run 4 (jp_construct 1 ''[[]'') = (p, es)" by (cases "jp_run 4 (jp_construct 1 ''[[]'')")
  have "jp_offset (fst (jp_run 4 (jp_construct 1 ''[[]''))) = 1" by code_simp
  with json_parser_ends [OF r] r show ?thesis by simp
qed

section \<open>The events are a walk\<close>

datatype json = JScalar json_token string | JArray "json list" | JObject "(string \<times> json) list"

text \<open>The pre-order walk of a value, the order in which the parser returns the events.\<close>

fun walk :: "json \<Rightarrow> json_event list" where
  "walk (JScalar t s) = [event t s]"
| "walk (JArray vs) = event Begin_array [] # concat (map walk vs) @ [event End_array []]"
| "walk (JObject ms) = event Begin_object [] # concat (map (\<lambda>(k, v). event Key k # walk v) ms) @ [event End_object []]"

fun scalar_json :: "json \<Rightarrow> bool" where
  "scalar_json (JScalar t s) \<longleftrightarrow> scalar_token t"
| "scalar_json (JArray vs) \<longleftrightarrow> (\<forall>v \<in> set vs. scalar_json v)"
| "scalar_json (JObject ms) \<longleftrightarrow> (\<forall>m \<in> set ms. scalar_json (snd m))"

fun walk_run :: "json_event list \<Rightarrow> bool \<times> (bool \<times> bool) list \<Rightarrow> (bool \<times> (bool \<times> bool) list) option" where
  "walk_run [] s = Some s"
| "walk_run (e # es) s = (case walk_step (je_type e) s of None \<Rightarrow> None | Some s' \<Rightarrow> walk_run es s')"

text \<open>Only keys and scalars carry text.\<close>

definition plain :: "json_event \<Rightarrow> bool" where
  "plain e \<longleftrightarrow> scalar_token (je_type e) \<or> je_type e = Key \<or> je_text e = []"

lemma plain_simps [simp]:
  "plain (snd (make_error m p))" "plain (snd (fail_at er p))" "plain (snd (open_frame b t p))" "plain (snd (close_frame t p))"
  "plain (snd (scan_number p))" "scalar_token t \<Longrightarrow> plain (snd (scan_literal l t p))"
  by (auto simp: plain_def make_error_def fail_at_def open_frame_def close_frame_def scan_number_def scan_literal_def
      scalar_token_def split: prod.splits sum.splits)

lemma start_value_plain [simp]: "plain (snd (start_value p))"
  by (simp add: start_value_def Let_def scalar_token_def) (simp add: plain_def scalar_token_def split: prod.splits option.splits)

lemma scan_key_plain [simp]: "plain (snd (scan_key p))"
  by (simp add: scan_key_def Let_def split: prod.splits option.splits) (simp add: plain_def)

lemma jp_next_plain: "plain (snd (jp_next p))"
  by (simp add: jp_next_def next_in_object_def next_in_array_def Let_def) (simp add: plain_def)

text \<open>The events before \<open>end\<close> drive the containers from nothing to one complete value.\<close>

lemma jp_run_walk:
  "jp_inv p \<Longrightarrow> jp_run n p = (p', es) \<Longrightarrow> jp_state p = Running \<Longrightarrow> jp_state p' = Finished \<Longrightarrow>
    \<exists>ws k. es = ws @ replicate (Suc k) (event End []) \<and> walk_run ws (jp_started p, shape p) = Some (True, []) \<and> list_all plain ws"
proof (induction n arbitrary: p es)
  case (Suc n)
  obtain q e where q: "jp_next p = (q, e)" by (cases "jp_next p")
  obtain r es' where r: "jp_run n q = (r, es')" by (cases "jp_run n q")
  have p': "p' = r" "es = e # es'" using Suc.prems(2) q r by auto
  note step = jp_next_step [OF Suc.prems(1,3), unfolded q]
  have plain: "plain e" using jp_next_plain [of p] q by simp
  consider "jp_state q = Running" | "jp_state q = Finished" | "jp_state q = Errored" by (cases "jp_state q")
  then show ?case
  proof cases
    case 1
    then have s: "jp_inv q" "walk_step (je_type e) (jp_started p, shape p) = Some (jp_started q, shape q)"
      using step by (auto simp: step_result_def split: if_splits)
    obtain ws k where "es' = ws @ replicate (Suc k) (event End [])" "walk_run ws (jp_started q, shape q) = Some (True, [])"
        "list_all plain ws"
      using Suc.IH [OF s(1) r [folded p'(1)] 1 Suc.prems(4)] by blast
    with s(2) p'(2) plain show ?thesis by (intro exI [of _ "e # ws"] exI [of _ k]) simp
  next
    case 2
    then have "e = event End []" "jp_started p" "shape p = []"
      using step plain by (auto simp: step_result_def plain_def scalar_token_def split: if_splits)
    moreover have "es' = replicate n (event End [])"
      using jp_run_done [of q n] r 2 by (simp add: jp_done_def jp_failed_def)
    ultimately show ?thesis using p'(2) by (intro exI [of _ "[]"] exI [of _ n]) simp
  next
    case 3
    then have "p' = q" using jp_run_done [of q n] r p'(1) by (simp add: jp_done_def)
    with 3 Suc.prems(4) show ?thesis by simp
  qed
qed simp

section \<open>Walks are walks of values\<close>

text \<open>The events that complete an open container, up to and including its closing event.\<close>

definition members :: "(string \<times> json) list \<Rightarrow> json_event list" where
  "members ms = concat (map (\<lambda>(k, v). event Key k # walk v) ms)"

definition completes :: "bool \<times> bool \<Rightarrow> json_event list \<Rightarrow> bool" where
  "completes f body \<longleftrightarrow>
     (case f of
        (False, _) \<Rightarrow> \<exists>vs. body = concat (map walk vs) @ [event End_array []] \<and> (\<forall>v \<in> set vs. scalar_json v)
      | (True, False) \<Rightarrow> \<exists>ms. body = members ms @ [event End_object []] \<and> (\<forall>m \<in> set ms. scalar_json (snd m))
      | (True, True) \<Rightarrow> \<exists>v ms. body = walk v @ members ms @ [event End_object []] \<and> scalar_json v \<and> (\<forall>m \<in> set ms. scalar_json (snd m)))"

lemma completes_value:
  assumes "completes (snd f0) body" and "scalar_json v"
    and "value_slot (st, f # fs) = Some (st, snd f0 # fs)"
  shows "completes f (walk v @ body)"
proof (cases f)
  case (Pair obj due)
  then consider "\<not> obj" | "obj" "due" using assms(3) by (cases obj; cases due) auto
  then show ?thesis
  proof cases
    case 1
    with assms(1,3) Pair obtain vs where "body = concat (map walk vs) @ [event End_array []]" "\<forall>v \<in> set vs. scalar_json v"
      by (auto simp: completes_def)
    with 1 Pair assms(2) show ?thesis by (auto simp: completes_def intro!: exI [of _ "v # vs"])
  next
    case 2
    with assms(1,3) Pair obtain ms where "body = members ms @ [event End_object []]" "\<forall>m \<in> set ms. scalar_json (snd m)"
      by (auto simp: completes_def)
    with 2 Pair assms(2) show ?thesis by (auto simp: completes_def)
  qed
qed

lemma walk_run_append: "walk_run (xs @ ys) s = (case walk_run xs s of None \<Rightarrow> None | Some s' \<Rightarrow> walk_run ys s')"
  by (induction xs arbitrary: s) (auto split: option.splits)

text \<open>A run that closes every container closes the innermost one first.\<close>

lemma walk_run_completes:
  "walk_run es (st, f # fs) = Some (True, []) \<Longrightarrow> list_all plain es \<Longrightarrow>
    \<exists>body rest. es = body @ rest \<and> completes f body \<and> walk_run rest (st, fs) = Some (True, [])"
proof (induction "length es" arbitrary: es f fs rule: less_induct)
  case less
  obtain obj due where f: "f = (obj, due)" by (cases f)
  obtain e es' where es: "es = e # es'" using less.prems(1) by (cases es) auto
  have pl: "plain e" "list_all plain es'" using less.prems(2) es by auto
  have val_case: ?case
    if v: "es' = inner @ es''" "scalar_json v" "walk v = e # inner" "value_slot (st, f # fs) = Some (st, g # fs)"
      "walk_run es'' (st, g # fs) = Some (True, [])" for v inner es'' g
  proof -
    obtain body rest where b: "es'' = body @ rest" "completes g body" "walk_run rest (st, fs) = Some (True, [])"
      using less.hyps [of es'' g fs] v(1,5) es pl(2) by auto
    have "completes f (walk v @ body)"
      using completes_value [of "((), g)" body v st f fs] b(2) v(2,4) by simp
    with b v(1,3) es show ?thesis by (intro exI [of _ "walk v @ body"] exI [of _ rest]) simp
  qed
  consider "scalar_token (je_type e)" | "je_type e = Begin_array" | "je_type e = Begin_object"
    | "je_type e = End_array" | "je_type e = End_object" | "je_type e = Key"
    using less.prems(1) es by (cases "je_type e") (auto simp: scalar_token_def)
  then show ?case
  proof cases
    case 1
    then obtain g where "value_slot (st, f # fs) = Some (st, g # fs)" "walk_run es' (st, g # fs) = Some (True, [])"
      using less.prems(1) es f by (cases "je_type e"; cases obj; cases due) (auto simp: scalar_token_def)
    with 1 show ?thesis by (intro val_case [of "[]" es' "JScalar (je_type e) (je_text e)"]) simp_all
  next
    case 2
    then obtain g where g: "value_slot (st, f # fs) = Some (st, g # fs)"
        "walk_run es' (st, (False, False) # g # fs) = Some (True, [])"
      using less.prems(1) es f by (cases obj; cases due) auto
    obtain body rest where b: "es' = body @ rest" "completes (False, False) body" "walk_run rest (st, g # fs) = Some (True, [])"
      using less.hyps [of es' "(False, False)" "g # fs"] g(2) es pl(2) by auto
    then obtain vs where vs: "body = concat (map walk vs) @ [event End_array []]" "\<forall>v \<in> set vs. scalar_json v"
      by (auto simp: completes_def)
    have "e = event Begin_array []" using pl(1) 2 by (simp add: plain_def scalar_token_def)
    with b vs g show ?thesis by (intro val_case [of body rest "JArray vs"]) simp_all
  next
    case 3
    then obtain g where g: "value_slot (st, f # fs) = Some (st, g # fs)"
        "walk_run es' (st, (True, False) # g # fs) = Some (True, [])"
      using less.prems(1) es f by (cases obj; cases due) auto
    obtain body rest where b: "es' = body @ rest" "completes (True, False) body" "walk_run rest (st, g # fs) = Some (True, [])"
      using less.hyps [of es' "(True, False)" "g # fs"] g(2) es pl(2) by auto
    then obtain ms where ms: "body = members ms @ [event End_object []]" "\<forall>m \<in> set ms. scalar_json (snd m)"
      by (auto simp: completes_def)
    have "e = event Begin_object []" using pl(1) 3 by (simp add: plain_def scalar_token_def)
    with b ms g show ?thesis by (intro val_case [of body rest "JObject ms"]) (simp_all add: members_def)
  next
    case 4
    then have "e = event End_array []" "\<not> obj" "walk_run es' (st, fs) = Some (True, [])"
      using pl(1) less.prems(1) es f by (auto simp: plain_def scalar_token_def split: if_splits bool.splits)
    then show ?thesis using es f by (intro exI [of _ "[e]"] exI [of _ es']) (auto simp: completes_def intro!: exI [of _ "[]"])
  next
    case 5
    then have "e = event End_object []" "obj" "\<not> due" "walk_run es' (st, fs) = Some (True, [])"
      using pl(1) less.prems(1) es f by (auto simp: plain_def scalar_token_def split: if_splits bool.splits)
    then show ?thesis
      using es f by (intro exI [of _ "[e]"] exI [of _ es']) (auto simp: completes_def members_def intro!: exI [of _ "[]"])
  next
    case 6
    then have k: "obj" "\<not> due" "walk_run es' (st, (True, True) # fs) = Some (True, [])"
      using less.prems(1) es f by (auto split: if_splits bool.splits)
    obtain body rest where b: "es' = body @ rest" "completes (True, True) body" "walk_run rest (st, fs) = Some (True, [])"
      using less.hyps [of es' "(True, True)" fs] k(3) es pl(2) by auto
    then obtain v ms where v: "body = walk v @ members ms @ [event End_object []]" "scalar_json v" "\<forall>m \<in> set ms. scalar_json (snd m)"
      by (auto simp: completes_def)
    have "e = event Key (je_text e)" using 6 by simp
    then have "completes f (e # body)"
      using v k f unfolding completes_def members_def
      by (auto intro!: exI [of _ "(je_text e, v) # ms"])
    with b es show ?thesis by (intro exI [of _ "e # body"] exI [of _ rest]) simp
  qed
qed

lemma walk_run_top:
  assumes "walk_run es (False, []) = Some (True, [])" and "list_all plain es"
  shows "\<exists>v. es = walk v \<and> scalar_json v"
proof -
  obtain e es' where es: "es = e # es'" using assms(1) by (cases es) auto
  have none: "walk_run xs (True, []) = Some (True, []) \<Longrightarrow> list_all plain xs \<Longrightarrow> xs = []" for xs
  proof (cases xs)
    case (Cons x xs')
    then show "walk_run xs (True, []) = Some (True, []) \<Longrightarrow> xs = []" by (cases "je_type x") auto
  qed simp
  have pl: "plain e" "list_all plain es'" using assms(2) es by auto
  consider "scalar_token (je_type e)" | "je_type e = Begin_array" | "je_type e = Begin_object"
    using assms(1) es by (cases "je_type e") (auto simp: scalar_token_def)
  then show ?thesis
  proof cases
    case 1
    with assms(1) es have "walk_run es' (True, []) = Some (True, [])" by (cases "je_type e") (auto simp: scalar_token_def)
    with none pl es 1 show ?thesis by (intro exI [of _ "JScalar (je_type e) (je_text e)"]) simp
  next
    case 2
    with assms(1) es have "walk_run es' (True, [(False, False)]) = Some (True, [])" by simp
    from walk_run_completes [OF this pl(2)] obtain body rest where b: "es' = body @ rest" "completes (False, False) body"
      "walk_run rest (True, []) = Some (True, [])" by blast
    with none [of rest] pl(2) have "es' = body" by simp
    moreover have "e = event Begin_array []" using pl(1) 2 by (simp add: plain_def scalar_token_def)
    moreover obtain vs where "body = concat (map walk vs) @ [event End_array []]" "\<forall>v \<in> set vs. scalar_json v"
      using b(2) by (auto simp: completes_def)
    ultimately show ?thesis using es by (intro exI [of _ "JArray vs"]) simp
  next
    case 3
    with assms(1) es have "walk_run es' (True, [(True, False)]) = Some (True, [])" by simp
    from walk_run_completes [OF this pl(2)] obtain body rest where b: "es' = body @ rest" "completes (True, False) body"
      "walk_run rest (True, []) = Some (True, [])" by blast
    with none [of rest] pl(2) have "es' = body" by simp
    moreover have "e = event Begin_object []" using pl(1) 3 by (simp add: plain_def scalar_token_def)
    moreover obtain ms where "body = members ms @ [event End_object []]" "\<forall>m \<in> set ms. scalar_json (snd m)"
      using b(2) by (auto simp: completes_def)
    ultimately show ?thesis using es by (intro exI [of _ "JObject ms"]) (simp add: members_def)
  qed
qed

text \<open>
  Property C18. Whenever the parser reaches \<open>end\<close>, the events it returned before are the pre-order
  walk of one JSON value: every container that was begun is ended by the matching event, a key comes
  before each value of an object and nowhere else, and nothing follows the value but \<open>end\<close>.
\<close>

theorem json_parser_walk:
  assumes "jp_run n (jp_construct max_depth src) = (p, es)" and "jp_done p" and "\<not> jp_failed p"
  shows "\<exists>v k. es = walk v @ replicate (Suc k) (event End []) \<and> scalar_json v"
proof -
  let ?q = "jp_construct max_depth src"
  have "jp_state ?q = Running" "jp_started ?q = False" "shape ?q = []" by (simp_all add: jp_construct_def shape_def)
  moreover have "jp_state p = Finished" using assms(2,3) by (cases "jp_state p") (auto simp: jp_done_def jp_failed_def)
  ultimately show ?thesis
    using jp_run_walk [OF jp_construct_inv assms(1)] walk_run_top by fastforce
qed

theorem json_parser_walk_witness:
  "jp_run 5 (jp_construct 2 ''[ 12 ]'') =
     (fst (jp_run 5 (jp_construct 2 ''[ 12 ]'')), walk (JArray [JScalar Number ''12'']) @ replicate 2 (event End [])) \<and>
   (\<exists>v k. snd (jp_run 5 (jp_construct 2 ''[ 12 ]'')) = walk v @ replicate (Suc k) (event End []) \<and> scalar_json v)"
proof -
  have e: "snd (jp_run 5 (jp_construct 2 ''[ 12 ]'')) = walk (JArray [JScalar Number ''12'']) @ replicate 2 (event End [])"
    by code_simp
  have d: "jp_done (fst (jp_run 5 (jp_construct 2 ''[ 12 ]'')))" "\<not> jp_failed (fst (jp_run 5 (jp_construct 2 ''[ 12 ]'')))"
    by code_simp+
  show ?thesis using json_parser_walk [OF prod.collapse [symmetric] d] e by (metis prod.collapse)
qed

end
