(* ===== verification/Json_Text.thy ===== *)
theory Json_Text
  imports Json_Safety
begin

text \<open>
  The JSON grammar and that the parser accepts it: every text of the grammar whose nesting
  fits the frame array is parsed without an error, and the events are the walk of the value that
  the text stands for.
\<close>

section \<open>The grammar\<close>

definition ws :: "string \<Rightarrow> bool" where
  "ws w \<longleftrightarrow> list_all is_ws w"

text \<open>The characters between the quotes of a string.\<close>

fun raw_ok :: "string \<Rightarrow> bool" where
  "raw_ok [] \<longleftrightarrow> True"
| "raw_ok (c # s) \<longleftrightarrow>
     (if c = CHR 0x5C then
        (case s of [] \<Rightarrow> False
         | d # s' \<Rightarrow> if simple_escape d then raw_ok s'
                     else d = CHR ''u'' \<and> 4 \<le> length s' \<and> list_all is_hex (take 4 s') \<and> raw_ok (drop 4 s'))
      else c \<noteq> CHR 0x22 \<and> 0x20 \<le> (of_char c :: nat) \<and> raw_ok s)"

definition digits :: "string \<Rightarrow> bool" where
  "digits s \<longleftrightarrow> s \<noteq> [] \<and> list_all is_digit s"

definition number_int :: "string \<Rightarrow> bool" where
  "number_int s \<longleftrightarrow> s = ''0'' \<or> digits s \<and> hd s \<noteq> CHR ''0''"

definition number_frac :: "string \<Rightarrow> bool" where
  "number_frac s \<longleftrightarrow> s = [] \<or> hd s = CHR ''.'' \<and> digits (tl s)"

definition number_exp :: "string \<Rightarrow> bool" where
  "number_exp s \<longleftrightarrow> s = [] \<or>
     (\<exists>e sg ds. s = e # sg @ ds \<and> (e = CHR ''e'' \<or> e = CHR ''E'') \<and> (sg = [] \<or> sg = ''+'' \<or> sg = ''-'') \<and> digits ds)"

definition json_number :: "string \<Rightarrow> bool" where
  "json_number s \<longleftrightarrow>
     (\<exists>sg ip fp ep. s = sg @ ip @ fp @ ep \<and> (sg = [] \<or> sg = ''-'') \<and> number_int ip \<and> number_frac fp \<and> number_exp ep)"

text \<open>
  \<open>json_text n v t\<close>: the text \<open>t\<close>, without white space around it, stands for the value
  \<open>v\<close>, with containers nested at most \<open>n\<close> deep.
\<close>

inductive json_text :: "nat \<Rightarrow> json \<Rightarrow> string \<Rightarrow> bool"
  and json_elements :: "nat \<Rightarrow> json list \<Rightarrow> string \<Rightarrow> bool"
  and json_members :: "nat \<Rightarrow> (string \<times> json) list \<Rightarrow> string \<Rightarrow> bool" where
  text_string: "raw_ok raw \<Longrightarrow> json_text n (JScalar Str raw) (CHR 0x22 # raw @ [CHR 0x22])"
| text_number: "json_number s \<Longrightarrow> json_text n (JScalar Number s) s"
| text_true: "json_text n (JScalar Boolean ''true'') ''true''"
| text_false: "json_text n (JScalar Boolean ''false'') ''false''"
| text_null: "json_text n (JScalar Null_value ''null'') ''null''"
| text_empty_array: "ws w \<Longrightarrow> json_text (Suc n) (JArray []) (CHR ''['' # w @ '']'')"
| text_array: "json_elements n vs s \<Longrightarrow> json_text (Suc n) (JArray vs) (CHR ''['' # s @ '']'')"
| text_empty_object: "ws w \<Longrightarrow> json_text (Suc n) (JObject []) (CHR ''{'' # w @ ''}'')"
| text_object: "json_members n ms s \<Longrightarrow> json_text (Suc n) (JObject ms) (CHR ''{'' # s @ ''}'')"
| last_element: "json_text n v t \<Longrightarrow> ws w1 \<Longrightarrow> ws w2 \<Longrightarrow> json_elements n [v] (w1 @ t @ w2)"
| more_elements: "json_text n v t \<Longrightarrow> ws w1 \<Longrightarrow> ws w2 \<Longrightarrow> json_elements n vs s \<Longrightarrow>
    json_elements n (v # vs) (w1 @ t @ w2 @ CHR '','' # s)"
| last_member: "raw_ok k \<Longrightarrow> json_text n v t \<Longrightarrow> ws w1 \<Longrightarrow> ws w2 \<Longrightarrow> ws w3 \<Longrightarrow> ws w4 \<Longrightarrow>
    json_members n [(k, v)] (w1 @ CHR 0x22 # k @ CHR 0x22 # w2 @ CHR '':'' # w3 @ t @ w4)"
| more_members: "raw_ok k \<Longrightarrow> json_text n v t \<Longrightarrow> ws w1 \<Longrightarrow> ws w2 \<Longrightarrow> ws w3 \<Longrightarrow> ws w4 \<Longrightarrow> json_members n ms s \<Longrightarrow>
    json_members n ((k, v) # ms) (w1 @ CHR 0x22 # k @ CHR 0x22 # w2 @ CHR '':'' # w3 @ t @ w4 @ CHR '','' # s)"

section \<open>Scanners on texts of the grammar\<close>

definition rest :: "json_parser \<Rightarrow> string" where
  "rest p = drop (jp_pos p) (jp_source p)"

text \<open>Characters that end a number.\<close>

definition stops :: "string \<Rightarrow> bool" where
  "stops s \<longleftrightarrow> s = [] \<or> \<not> is_digit (hd s) \<and> hd s \<notin> {CHR ''.'', CHR ''e'', CHR ''E''}"

lemma skip_loop_run:
  "drop pos src = w @ r \<Longrightarrow> list_all ok w \<Longrightarrow> r = [] \<or> \<not> ok (hd r) \<Longrightarrow> skip_loop ok src pos = pos + length w"
proof (induction w arbitrary: pos)
  case Nil
  show ?case
  proof (cases "pos < length src")
    case True
    then have "hd r = src ! pos" "r \<noteq> []" using Nil(1) by (auto simp: hd_drop_conv_nth)
    with Nil show ?thesis by (subst skip_loop.simps) simp
  qed (subst skip_loop.simps, simp)
next
  case (Cons c w)
  then have less: "pos < length src" by (metis append_Cons drop_all list.distinct(1) not_less)
  with Cons.prems(1) have c: "src ! pos = c" "drop (pos + 1) src = w @ r"
    by (auto simp: Cons_nth_drop_Suc [symmetric])
  with less Cons show ?case by (subst skip_loop.simps) simp
qed

lemma char_at_drop: "drop pos src = c # r \<Longrightarrow> char_at src pos = c \<and> drop (pos + 1) src = r"
  by (metis Cons_nth_drop_Suc Suc_eq_plus1 char_at_def drop_all leI list.distinct(1) list.inject)

lemma char_at_end: "drop pos src = r \<Longrightarrow> r = [] \<or> char_at src pos = hd r"
  by (cases r) (auto dest: char_at_drop)

lemma drop_plus: "drop pos src = s @ r \<Longrightarrow> drop (pos + length s) src = r"
  by (metis add.commute append_eq_conv_conj drop_drop)

lemma drop_nth: "drop pos src = c # r \<Longrightarrow> pos < length src \<and> src ! pos = c"
  by (metis drop_all leI list.distinct(1) Cons_nth_drop_Suc list.inject)

lemma hex_loop_run:
  "drop pos src = h @ r \<Longrightarrow> length h = k \<Longrightarrow> list_all is_hex h \<Longrightarrow> hex_loop k src pos = Inr (pos + k)"
proof (induction k arbitrary: pos h)
  case (Suc k)
  then obtain c h' where h: "h = c # h'" by (cases h) auto
  with Suc.prems have c: "pos < length src" "src ! pos = c" "drop (pos + 1) src = h' @ r"
    using drop_nth [of pos src c "h' @ r"] char_at_drop [of pos src c "h' @ r"] by auto
  then show ?case using Suc.IH [OF c(3)] Suc.prems h by simp
qed simp

lemma string_loop_raw:
  "drop pos src = raw @ CHR 0x22 # r \<Longrightarrow> raw_ok raw \<Longrightarrow> string_loop src q pos = Inr (pos + length raw)"
proof (induction raw arbitrary: pos rule: raw_ok.induct)
  case 1
  then show ?case using drop_nth [of pos src] by (subst string_loop.simps) (simp add: Let_def)
next
  case (2 c s)
  have c: "pos < length src" "src ! pos = c" "drop (pos + 1) src = s @ CHR 0x22 # r"
    using drop_nth [of pos src c] char_at_drop [of pos src c] "2.prems"(1) by auto
  show ?case
  proof (cases "c = CHR 0x5C")
    case False
    with "2.IH"(3) [OF False, of "pos + 1"] c "2.prems" show ?thesis by (subst string_loop.simps) (simp add: Let_def)
  next
    case True
    with "2.prems"(2) obtain d s' where s: "s = d # s'" by (cases s) auto
    have d: "pos + 1 < length src" "src ! (pos + 1) = d" "drop (pos + 2) src = s' @ CHR 0x22 # r"
      using drop_nth [of "pos + 1" src d] char_at_drop [of "pos + 1" src d] c(3) s by auto
    show ?thesis
    proof (cases "simple_escape d")
      case simple: True
      then have "validate_escape src pos = Inr (pos + 2)" using d by (simp add: validate_escape_def)
      with "2.IH"(1) [OF True s simple, of "pos + 2"] d c True s simple "2.prems"(2) show ?thesis
        by (subst string_loop.simps) (simp add: Let_def)
    next
      case False
      with "2.prems"(2) True s have u: "d = CHR ''u''" "4 \<le> length s'" "list_all is_hex (take 4 s')" "raw_ok (drop 4 s')"
        by auto
      have split: "drop (pos + 2) src = take 4 s' @ drop 4 s' @ CHR 0x22 # r" using d(3) by (simp flip: append_assoc)
      have "hex_loop 4 src (pos + 2) = Inr (pos + 6)" using hex_loop_run [OF split, of 4] u by simp
      then have "validate_escape src pos = Inr (pos + 6)" using d u False by (simp add: validate_escape_def)
      moreover have "drop (pos + 6) src = drop 4 s' @ CHR 0x22 # r" using drop_plus [OF split] u(2) by (simp add: add.commute)
      ultimately show ?thesis
        using "2.IH"(2) [OF True s False, of "pos + 6"] c True s u by (subst string_loop.simps) (simp add: Let_def)
    qed
  qed
qed

lemma scan_string_raw:
  assumes "rest p = CHR 0x22 # raw @ CHR 0x22 # r" and "raw_ok raw"
  shows "scan_string p = (p\<lparr>jp_pos := jp_pos p + length raw + 2\<rparr>, Some raw)"
proof -
  have d: "drop (jp_pos p + 1) (jp_source p) = raw @ CHR 0x22 # r"
    using assms(1) char_at_drop unfolding rest_def by blast
  from string_loop_raw [OF d assms(2)] d show ?thesis by (simp add: scan_string_def Let_def)
qed

lemma digits_skip:
  assumes "drop pos src = ds @ r" and "digits ds" and "r = [] \<or> \<not> is_digit (hd r)"
  shows "skip_loop is_digit src pos = pos + length ds" and "is_digit (char_at src pos)"
  using skip_loop_run [of pos src ds r is_digit] assms char_at_drop [of pos src "hd ds" "tl ds @ r"]
  by (auto simp: digits_def neq_Nil_conv)

lemma not_digit [simp]:
  "\<not> is_digit (CHR ''.'')" "\<not> is_digit (CHR ''e'')" "\<not> is_digit (CHR ''E'')" "\<not> is_digit (CHR ''+'')"
  "\<not> is_digit (CHR ''-'')" "is_digit (CHR ''0'')"
  by (simp_all add: is_digit_def)

lemma integer_part_run:
  assumes "drop pos src = ip @ r" and "number_int ip" and "r = [] \<or> \<not> is_digit (hd r)"
  shows "integer_part src pos = Inr (pos + length ip)"
proof (cases "ip = ''0''")
  case True
  with assms(1) char_at_drop [of pos src "CHR ''0''" r] show ?thesis by (simp add: integer_part_def)
next
  case False
  with assms(2) have d: "digits ip" "hd ip \<noteq> CHR ''0''" by (auto simp: number_int_def)
  then have "char_at src pos \<noteq> CHR ''0''"
    using assms(1) char_at_drop [of pos src "hd ip" "tl ip @ r"] by (auto simp: digits_def neq_Nil_conv)
  with digits_skip [OF assms(1) d(1) assms(3)] show ?thesis by (simp add: integer_part_def)
qed

lemma fraction_part_run:
  assumes "drop pos src = fp @ r" and "number_frac fp" and "r = [] \<or> \<not> is_digit (hd r) \<and> hd r \<noteq> CHR ''.''"
  shows "fraction_part src pos = Inr (pos + length fp)"
proof (cases "fp = []")
  case True
  then have "char_at src pos \<noteq> CHR ''.''"
    using assms(1,3) char_at_end [of pos src r] by (auto simp: char_at_def)
  with True show ?thesis by (simp add: fraction_part_def)
next
  case False
  with assms(2) obtain ds where ds: "fp = CHR ''.'' # ds" "digits ds" by (cases fp) (auto simp: number_frac_def)
  with assms(1) have d: "char_at src pos = CHR ''.''" "drop (pos + 1) src = ds @ r"
    using char_at_drop [of pos src "CHR ''.''" "ds @ r"] by auto
  with digits_skip [OF d(2) ds(2)] assms(3) ds show ?thesis by (auto simp: fraction_part_def)
qed

lemma exponent_part_run:
  assumes "drop pos src = ep @ r" and "number_exp ep" and "stops r"
  shows "exponent_part src pos = Inr (pos + length ep)"
proof (cases "ep = []")
  case True
  then have "char_at src pos \<noteq> CHR ''e''" "char_at src pos \<noteq> CHR ''E''"
    using assms(1,3) char_at_end [of pos src r] by (auto simp: char_at_def stops_def)
  with True show ?thesis by (simp add: exponent_part_def)
next
  case False
  with assms(2) obtain e sg ds where ep: "ep = e # sg @ ds" "e = CHR ''e'' \<or> e = CHR ''E''"
      "sg = [] \<or> sg = ''+'' \<or> sg = ''-''" "digits ds"
    by (auto simp: number_exp_def)
  with assms(1) have e: "char_at src pos = e" "drop (pos + 1) src = sg @ ds @ r"
    using char_at_drop [of pos src e "sg @ ds @ r"] by auto
  have r: "r = [] \<or> \<not> is_digit (hd r)" using assms(3) by (auto simp: stops_def)
  have ds: "drop (pos + 1 + length sg) src = ds @ r" using drop_plus [OF e(2)] by simp
  note skip = digits_skip [OF ds ep(4) r]
  have sign: "(if char_at src (pos + 1) = CHR ''+'' \<or> char_at src (pos + 1) = CHR ''-'' then pos + 1 + 1 else pos + 1) =
      pos + 1 + length sg"
    using ep(3) e(2) skip(2) char_at_drop [of "pos + 1" src] by fastforce
  have "exponent_part src pos = Inr (skip_loop is_digit src (pos + 1 + length sg))"
    unfolding exponent_part_def Let_def sign using skip(2) e(1) ep(2) by auto
  with skip(1) ep(1) show ?thesis by simp
qed

lemma number_end_run:
  assumes "drop pos src = s @ r" and "json_number s" and "stops r"
  shows "number_end src pos = Inr (pos + length s)" and "s \<noteq> []" and "hd s = CHR ''-'' \<or> is_digit (hd s)"
proof -
  obtain sg ip fp ep where s: "s = sg @ ip @ fp @ ep" "sg = [] \<or> sg = ''-''" "number_int ip" "number_frac fp" "number_exp ep"
    using assms(2) by (auto simp: json_number_def)
  have ip: "ip \<noteq> []" "is_digit (hd ip)" using s(3) by (auto simp: number_int_def digits_def neq_Nil_conv)
  show "s \<noteq> []" "hd s = CHR ''-'' \<or> is_digit (hd s)" using s(1,2) ip by auto
  have d0: "drop pos src = sg @ ip @ fp @ ep @ r" using assms(1) s(1) by simp
  note d1 = drop_plus [OF d0]
  note d2 = drop_plus [OF d1]
  note d3 = drop_plus [OF d2]
  have start: "(if char_at src pos = CHR ''-'' then pos + 1 else pos) = pos + length sg"
    using s(2) d0 ip char_at_drop [of pos src "CHR ''-''"] char_at_drop [of pos src "hd ip" "tl ip @ fp @ ep @ r"]
    by (auto simp: neq_Nil_conv)
  have r: "ep @ r = [] \<or> \<not> is_digit (hd (ep @ r)) \<and> hd (ep @ r) \<noteq> CHR ''.''"
    using s(5) assms(3) by (auto simp: number_exp_def stops_def)
  moreover have "fp @ ep @ r = [] \<or> \<not> is_digit (hd (fp @ ep @ r))"
    using s(4) r by (cases fp) (auto simp: number_frac_def)
  ultimately show "number_end src pos = Inr (pos + length s)"
    using integer_part_run [OF d1 s(3)] fraction_part_run [OF d2 s(4)] exponent_part_run [OF d3 s(5) assms(3)] s(1)
    by (simp add: number_end_def start add.assoc)
qed

section \<open>The parser on texts of the grammar\<close>

lemma ws_simps [simp]: "ws []" "ws (c # w) \<longleftrightarrow> is_ws c \<and> ws w" "ws (v @ w) \<longleftrightarrow> ws v \<and> ws w"
  by (simp_all add: ws_def)

lemma not_ws [simp]:
  "\<not> is_ws (CHR ''['')" "\<not> is_ws (CHR '']'')" "\<not> is_ws (CHR ''{'')" "\<not> is_ws (CHR ''}'')" "\<not> is_ws (CHR '','')"
  "\<not> is_ws (CHR '':'')" "\<not> is_ws (CHR 0x22)"
  by (simp_all add: is_ws_def)

lemma skip_rest:
  assumes "rest p = w @ r" and "ws w" and "r = [] \<or> \<not> is_ws (hd r)"
  shows "rest (skip_whitespace p) = r"
  using skip_loop_run [of "jp_pos p" "jp_source p" w r is_ws] drop_plus [of "jp_pos p" "jp_source p" w r] assms
  by (simp add: rest_def ws_def skip_whitespace_def)

lemma peek_rest: "rest p = c # r \<Longrightarrow> peek p = c"
  by (simp add: rest_def peek_def char_at_drop)

lemma rest_advance: "rest p = c # r \<Longrightarrow> rest (advance_pos p) = r"
  using char_at_drop [of "jp_pos p" "jp_source p" c r] by (simp add: rest_def)

lemma rest_set_top [simp]: "rest (set_top f p) = rest p"
  by (simp add: rest_def)

lemma rest_nth: "rest p = c # r \<Longrightarrow> jp_pos p < length (jp_source p) \<and> jp_source p ! jp_pos p = c"
  by (simp add: rest_def drop_nth)

lemma rest_plus: "rest p = s @ r \<Longrightarrow> rest (p\<lparr>jp_pos := jp_pos p + length s\<rparr>) = r"
  by (simp add: rest_def drop_plus)

text \<open>The frames below a depth, and all else that a complete value leaves as it was.\<close>

definition ctx :: "nat \<Rightarrow> json_parser \<Rightarrow> json_parser \<Rightarrow> bool" where
  "ctx d p p' \<longleftrightarrow> jp_source p' = jp_source p \<and> jp_depth p' = jp_depth p \<and> length (jp_stack p') = length (jp_stack p) \<and>
     jp_started p' = jp_started p \<and> jp_state p' = Running \<and> take d (jp_stack p') = take d (jp_stack p)"

lemma ctx_trans: "ctx d p q \<Longrightarrow> ctx d q r \<Longrightarrow> ctx d p r"
  by (simp add: ctx_def)

lemma ctx_le: "ctx d p q \<Longrightarrow> e \<le> d \<Longrightarrow> ctx e p q"
  using take_eq_mono [of d "jp_stack q" "jp_stack p" e] by (auto simp: ctx_def)

lemma ctx_top:
  assumes "ctx (jp_depth p) p q" and "0 < jp_depth p"
  shows "top_frame q = top_frame p"
proof -
  have "take (jp_depth p) (jp_stack q) = take (jp_depth p) (jp_stack p)" "jp_depth q = jp_depth p"
    using assms(1) by (simp_all add: ctx_def)
  then show ?thesis
    using nth_take [of "jp_depth p - 1" "jp_depth p" "jp_stack q"] nth_take [of "jp_depth p - 1" "jp_depth p" "jp_stack p"] assms(2)
    by (simp add: top_frame_def)
qed

lemma ctx_set_top: "jp_state p = Running \<Longrightarrow> d \<le> jp_depth p - 1 \<Longrightarrow> ctx d p (set_top f p)"
  by (simp add: ctx_def set_top_def)

lemma ctx_skip: "jp_state p = Running \<Longrightarrow> ctx d p (skip_whitespace p)"
  by (simp add: ctx_def)

lemma ctx_advance: "jp_state p = Running \<Longrightarrow> ctx d p (advance_pos p)"
  by (simp add: ctx_def)

lemma top_set_top: "0 < jp_depth p \<Longrightarrow> jp_depth p \<le> length (jp_stack p) \<Longrightarrow> top_frame (set_top f p) = f (top_frame p)"
  by (simp add: top_frame_def set_top_def)

lemma jp_run_append:
  "jp_run m p = (q, es) \<Longrightarrow> jp_run n q = (r, fs) \<Longrightarrow> jp_run (m + n) p = (r, es @ fs)"
proof (induction m arbitrary: p es)
  case (Suc m)
  obtain p1 e where p1: "jp_next p = (p1, e)" by (cases "jp_next p")
  obtain q1 es1 where "jp_run m p1 = (q1, es1)" by (cases "jp_run m p1")
  with Suc p1 show ?case by auto
qed simp

lemma walk_not_Nil [simp]: "walk v \<noteq> []"
  by (cases v) auto

definition value_accepted :: "nat \<Rightarrow> json \<Rightarrow> string \<Rightarrow> bool" where
  "value_accepted n v t \<longleftrightarrow> t \<noteq> [] \<and> \<not> is_ws (hd t) \<and> hd t \<noteq> CHR '']'' \<and> hd t \<noteq> CHR ''}'' \<and>
     (\<forall>p w post. rest p = w @ t @ post \<longrightarrow> ws w \<longrightarrow> stops post \<longrightarrow> jp_state p = Running \<longrightarrow>
        jp_depth p + n \<le> length (jp_stack p) \<longrightarrow>
        (\<exists>p1 p'. start_value p = (p1, hd (walk v)) \<and> jp_run (length (walk v) - 1) p1 = (p', tl (walk v)) \<and>
           ctx (jp_depth p) p p' \<and> rest p' = post))"

text \<open>Inside an array or object: the comma after the element before, if there is one.\<close>

definition lead :: "json_parser \<Rightarrow> string \<Rightarrow> bool" where
  "lead p l \<longleftrightarrow> (if seen_element (top_frame p) then \<exists>w. ws w \<and> l = w @ '','' else l = [])"

definition inside :: "bool \<Rightarrow> json_parser \<Rightarrow> bool" where
  "inside obj p \<longleftrightarrow> jp_state p = Running \<and> 0 < jp_depth p \<and> jp_depth p \<le> length (jp_stack p) \<and>
     is_object (top_frame p) = obj \<and> (obj \<longrightarrow> \<not> expect_value (top_frame p))"

definition elements_accepted :: "nat \<Rightarrow> json list \<Rightarrow> string \<Rightarrow> bool" where
  "elements_accepted n vs s \<longleftrightarrow>
     (\<forall>p l post. rest p = l @ s @ CHR '']'' # post \<longrightarrow> lead p l \<longrightarrow> inside False p \<longrightarrow>
        jp_depth p + n \<le> length (jp_stack p) \<longrightarrow>
        (\<exists>p' w. jp_run (length (concat (map walk vs))) p = (p', concat (map walk vs)) \<and>
           ctx (jp_depth p - 1) p p' \<and> inside False p' \<and> rest p' = w @ CHR '']'' # post \<and> ws w))"

definition members_accepted :: "nat \<Rightarrow> (string \<times> json) list \<Rightarrow> string \<Rightarrow> bool" where
  "members_accepted n ms s \<longleftrightarrow>
     (\<forall>p l post. rest p = l @ s @ CHR ''}'' # post \<longrightarrow> lead p l \<longrightarrow> inside True p \<longrightarrow>
        jp_depth p + n \<le> length (jp_stack p) \<longrightarrow>
        (\<exists>p' w. jp_run (length (members ms)) p = (p', members ms) \<and>
           ctx (jp_depth p - 1) p p' \<and> inside True p' \<and> rest p' = w @ CHR ''}'' # post \<and> ws w))"

text \<open>The first event of a value, by the character it starts with.\<close>

lemma start_value_skip:
  assumes "rest p = w @ c # r" and "ws w" and "\<not> is_ws c"
  shows "rest (skip_whitespace p) = c # r"
    and "jp_pos (skip_whitespace p) < length (jp_source p)" and "jp_source p ! jp_pos (skip_whitespace p) = c"
proof -
  show r: "rest (skip_whitespace p) = c # r" using skip_rest [OF assms(1,2)] assms(3) by simp
  show "jp_pos (skip_whitespace p) < length (jp_source p)" "jp_source p ! jp_pos (skip_whitespace p) = c"
    using rest_nth [OF r] by simp_all
qed

lemma accept_scalar:
  assumes "t \<noteq> []" and "\<not> is_ws (hd t)" and "hd t \<noteq> CHR '']''" and "hd t \<noteq> CHR ''}''"
    and "\<And>p post. rest p = t @ post \<Longrightarrow> stops post \<Longrightarrow> jp_state p = Running \<Longrightarrow>
      start_value p = (p\<lparr>jp_pos := jp_pos p + length t\<rparr>, event k x)"
    and start: "\<And>p. start_value p = start_value (skip_whitespace p)"
  shows "value_accepted n (JScalar k x) t"
  unfolding value_accepted_def
proof (intro conjI allI impI)
  fix p w post
  assume p: "rest p = w @ t @ post" "ws w" "stops post" "jp_state p = Running"
  have "rest (skip_whitespace p) = t @ post" using skip_rest [OF p(1,2)] assms(1,2) by (cases t) auto
  then have "start_value p = (skip_whitespace p\<lparr>jp_pos := jp_pos (skip_whitespace p) + length t\<rparr>, event k x)"
    using assms(5) [of "skip_whitespace p"] p start [of p] by simp
  moreover have "rest (skip_whitespace p\<lparr>jp_pos := jp_pos (skip_whitespace p) + length t\<rparr>) = post"
    using \<open>rest (skip_whitespace p) = t @ post\<close> by (rule rest_plus)
  moreover have "ctx (jp_depth p) p (skip_whitespace p\<lparr>jp_pos := jp_pos (skip_whitespace p) + length t\<rparr>)"
    using p(4) by (simp add: ctx_def)
  ultimately show "\<exists>p1 p'. start_value p = (p1, hd (walk (JScalar k x))) \<and>
      jp_run (length (walk (JScalar k x)) - 1) p1 = (p', tl (walk (JScalar k x))) \<and> ctx (jp_depth p) p p' \<and> rest p' = post"
    by simp
qed (use assms in auto)

lemma skip_whitespace_twice: "skip_whitespace (skip_whitespace p) = skip_whitespace p"
proof -
  have "skip_loop ok src (skip_loop ok src pos) = skip_loop ok src pos" for ok src pos
  proof (induction ok src pos rule: skip_loop.induct)
    case (1 ok src pos)
    show ?case
    proof (cases "pos < length src \<and> ok (src ! pos)")
      case True
      with 1 show ?thesis by (simp add: skip_loop.simps [of ok src pos])
    next
      case False
      then have "skip_loop ok src pos = pos" by (subst skip_loop.simps) auto
      then show ?thesis by simp
    qed
  qed
  then show ?thesis by (simp add: skip_whitespace_def)
qed

lemma start_value_ws: "start_value p = start_value (skip_whitespace p)"
  unfolding start_value_def skip_whitespace_twice ..

lemma skip_id: "rest p = c # r \<Longrightarrow> \<not> is_ws c \<Longrightarrow> skip_whitespace p = p"
  using skip_loop_run [of "jp_pos p" "jp_source p" "[]" "c # r" is_ws] by (simp add: rest_def skip_whitespace_def)

lemma stops_app [simp]: "ws w \<Longrightarrow> stops (w @ CHR '','' # r)" "ws w \<Longrightarrow> stops (w @ CHR '']'' # r)" "ws w \<Longrightarrow> stops (w @ CHR ''}'' # r)"
    "ws w \<Longrightarrow> stops w"
  by (cases w; auto simp: stops_def is_ws_def is_digit_def)+

lemma accept_string: "raw_ok raw \<Longrightarrow> value_accepted n (JScalar Str raw) (CHR 0x22 # raw @ [CHR 0x22])"
proof (rule accept_scalar [OF _ _ _ _ _ start_value_ws])
  fix p post assume raw: "raw_ok raw" and p: "rest p = (CHR 0x22 # raw @ [CHR 0x22]) @ post"
  have r: "rest p = CHR 0x22 # raw @ CHR 0x22 # post" using p by simp
  from rest_nth [OF r] skip_id [OF r] scan_string_raw [OF r raw] show
    "start_value p = (p\<lparr>jp_pos := jp_pos p + length (CHR 0x22 # raw @ [CHR 0x22])\<rparr>, event Str raw)"
    by (simp add: start_value_def Let_def)
qed simp_all

lemma accept_literal:
  assumes "l = ''true'' \<and> k = Boolean \<or> l = ''false'' \<and> k = Boolean \<or> l = ''null'' \<and> k = Null_value"
  shows "value_accepted n (JScalar k l) l"
proof (rule accept_scalar [OF _ _ _ _ _ start_value_ws])
  show "l \<noteq> []" "\<not> is_ws (hd l)" "hd l \<noteq> CHR '']''" "hd l \<noteq> CHR ''}''" using assms by (auto simp: is_ws_def)
  fix p post assume p: "rest p = l @ post"
  have c: "jp_pos p < length (jp_source p)" "jp_source p ! jp_pos p = hd l" and skip: "skip_whitespace p = p"
    using assms p rest_nth [of p "hd l" "tl l @ post"] skip_id [of p "hd l" "tl l @ post"] by (auto simp: is_ws_def)
  have "take (length l) (drop (jp_pos p) (jp_source p)) = l" using p by (simp add: rest_def)
  then have "scan_literal l k p = (p\<lparr>jp_pos := jp_pos p + length l\<rparr>, event k l)" by (simp add: scan_literal_def)
  with assms c skip show "start_value p = (p\<lparr>jp_pos := jp_pos p + length l\<rparr>, event k l)"
    by (auto simp: start_value_def Let_def)
qed

lemma accept_number:
  assumes "json_number s"
  shows "value_accepted n (JScalar Number s) s"
proof -
  have h: "s \<noteq> []" "hd s = CHR ''-'' \<or> is_digit (hd s)" using number_end_run [of 0 s s "[]"] assms by (simp_all add: stops_def)
  then have notin: "\<not> is_ws (hd s)" "hd s \<notin> {CHR '']'', CHR ''}'', CHR ''{'', CHR ''['', CHR 0x22, CHR ''t'', CHR ''f'', CHR ''n''}"
    by (auto simp: is_ws_def is_digit_def)
  show ?thesis
  proof (rule accept_scalar [OF _ _ _ _ _ start_value_ws])
    fix p post assume p: "rest p = s @ post" "stops post"
    have c: "jp_pos p < length (jp_source p)" "jp_source p ! jp_pos p = hd s" and skip: "skip_whitespace p = p"
      using h p rest_nth [of p "hd s" "tl s @ post"] skip_id [of p "hd s" "tl s @ post"] notin by (auto simp: neq_Nil_conv)
    have "scan_number p = (p\<lparr>jp_pos := jp_pos p + length s\<rparr>, event Number s)"
      using number_end_run(1) [of "jp_pos p" "jp_source p" s post] assms p by (simp add: scan_number_def rest_def)
    with c skip h(2) notin(2) show "start_value p = (p\<lparr>jp_pos := jp_pos p + length s\<rparr>, event Number s)"
      by (auto simp: start_value_def Let_def)
  qed (use h notin in auto)
qed

text \<open>Opening a container and closing it.\<close>

lemma open_container:
  assumes "rest p = w @ c # r" and "ws w" and "c = (if obj then CHR ''{'' else CHR ''['')"
    and "jp_state p = Running" and "jp_depth p < length (jp_stack p)"
  obtains p1 where "start_value p = (p1, event (if obj then Begin_object else Begin_array) [])" and "rest p1 = r"
    and "inside obj p1" and "lead p1 []" and "jp_depth p1 = jp_depth p + 1" and "ctx (jp_depth p) p (p1\<lparr>jp_depth := jp_depth p\<rparr>)"
proof -
  have notws: "\<not> is_ws c" using assms(3) by (auto simp: is_ws_def)
  note sk = start_value_skip [OF assms(1,2) notws]
  let ?p = "skip_whitespace p"
  let ?f = "\<lparr>is_object = obj, seen_element = False, expect_value = False\<rparr>"
  let ?p1 = "?p\<lparr>jp_pos := jp_pos ?p + 1, jp_stack := (jp_stack p)[jp_depth p := ?f], jp_depth := jp_depth p + 1\<rparr>"
  have "start_value p = (?p1, event (if obj then Begin_object else Begin_array) [])"
    using sk assms(3,5) by (cases obj) (simp_all add: start_value_def open_frame_def Let_def)
  moreover have "rest ?p1 = r"
    using char_at_drop [of "jp_pos ?p" "jp_source p" c r] sk(1) by (simp add: rest_def)
  moreover have top: "top_frame ?p1 = ?f" using assms(5) by (simp add: top_frame_def)
  moreover have "inside obj ?p1" unfolding inside_def top using assms(4,5) by simp
  moreover have "lead ?p1 []" unfolding lead_def top by simp
  moreover have "ctx (jp_depth p) p (?p1\<lparr>jp_depth := jp_depth p\<rparr>)" using assms(4) by (simp add: ctx_def)
  ultimately show ?thesis by (intro that [of ?p1]) simp_all
qed

lemma close_container:
  assumes "rest p = w @ c # r" and "ws w" and "c = (if obj then CHR ''}'' else CHR '']'')" and "inside obj p"
  obtains p1 where "jp_next p = (p1, event (if obj then End_object else End_array) [])" and "rest p1 = r"
    and "jp_depth p1 = jp_depth p - 1" and "ctx (jp_depth p - 1) p (p1\<lparr>jp_depth := jp_depth p\<rparr>)"
proof -
  have notws: "\<not> is_ws c" using assms(3) by auto
  note sk = start_value_skip [OF assms(1,2) notws]
  let ?p = "advance_pos (skip_whitespace p)"
  have pk: "peek (skip_whitespace p) = c" using peek_rest [OF sk(1)] .
  have "jp_next p = (?p\<lparr>jp_depth := jp_depth p - 1\<rparr>, event (if obj then End_object else End_array) [])"
    using assms(3,4) pk
    by (cases obj) (simp_all add: jp_next_def inside_def next_in_object_def next_in_array_def close_frame_def Let_def)
  moreover have "rest ?p = r" using rest_advance [OF sk(1)] .
  ultimately show ?thesis
    using assms(4) by (intro that [of "?p\<lparr>jp_depth := jp_depth p - 1\<rparr>"]) (simp_all add: ctx_def inside_def rest_def)
qed

text \<open>A container from its opening to its closing character.\<close>

lemma accept_container:
  assumes "walk v = event (if obj then Begin_object else Begin_array) [] # body @ [event (if obj then End_object else End_array) []]"
    and "t = (if obj then CHR ''{'' else CHR ''['') # s @ [if obj then CHR ''}'' else CHR '']'']"
    and inner: "\<And>p post. rest p = s @ (if obj then CHR ''}'' else CHR '']'') # post \<Longrightarrow> lead p [] \<Longrightarrow> inside obj p \<Longrightarrow>
      jp_depth p + n \<le> length (jp_stack p) \<Longrightarrow>
      \<exists>p' w. jp_run (length body) p = (p', body) \<and> ctx (jp_depth p - 1) p p' \<and> inside obj p' \<and>
        rest p' = w @ (if obj then CHR ''}'' else CHR '']'') # post \<and> ws w"
  shows "value_accepted (Suc n) v t"
  unfolding value_accepted_def
proof (intro conjI allI impI)
  show "t \<noteq> []" "\<not> is_ws (hd t)" "hd t \<noteq> CHR '']''" "hd t \<noteq> CHR ''}''" using assms(2) by (auto simp: is_ws_def)
  fix p w post
  assume p: "rest p = w @ t @ post" "ws w" "jp_state p = Running" "jp_depth p + Suc n \<le> length (jp_stack p)"
  obtain p1 where p1: "start_value p = (p1, event (if obj then Begin_object else Begin_array) [])"
      "rest p1 = s @ (if obj then CHR ''}'' else CHR '']'') # post" "inside obj p1" "lead p1 []"
      "jp_depth p1 = jp_depth p + 1" "ctx (jp_depth p) p (p1\<lparr>jp_depth := jp_depth p\<rparr>)"
    using open_container [of p w "if obj then CHR ''{'' else CHR ''[''" "s @ (if obj then CHR ''}'' else CHR '']'') # post" obj]
      p assms(2) by auto
  have "jp_depth p1 + n \<le> length (jp_stack p1)" using p(4) p1(5,6) by (simp add: ctx_def)
  from inner [OF p1(2,4,3) this] obtain p2 w2 where p2: "jp_run (length body) p1 = (p2, body)" "ctx (jp_depth p1 - 1) p1 p2"
      "inside obj p2" "rest p2 = w2 @ (if obj then CHR ''}'' else CHR '']'') # post" "ws w2"
    by blast
  obtain p3 where p3: "jp_next p2 = (p3, event (if obj then End_object else End_array) [])" "rest p3 = post"
      "jp_depth p3 = jp_depth p2 - 1" "ctx (jp_depth p2 - 1) p2 (p3\<lparr>jp_depth := jp_depth p2\<rparr>)"
    using close_container [OF p2(4,5) refl p2(3)] by blast
  have "jp_run (length body + 1) p1 = (p3, body @ [event (if obj then End_object else End_array) []])"
    using jp_run_append [OF p2(1), of 1] p3(1) by simp
  moreover have "ctx (jp_depth p) p p3" using p1(5,6) p2(2) p3(3,4) by (simp add: ctx_def)
  ultimately show "\<exists>p1 p'. start_value p = (p1, hd (walk v)) \<and> jp_run (length (walk v) - 1) p1 = (p', tl (walk v)) \<and>
      ctx (jp_depth p) p p' \<and> rest p' = post"
    using p1(1) p3(2) assms(1) by simp
qed

text \<open>White space and comma before an element or member, as both containers read them.\<close>

definition after_comma :: "json_parser \<Rightarrow> json_parser" where
  "after_comma p = (if seen_element (top_frame p) then skip_whitespace (advance_pos (skip_whitespace p)) else skip_whitespace p)"

lemma after_comma_rest:
  assumes "rest p = l @ w1 @ c # r" and "lead p l" and "ws w1" and "\<not> is_ws c" and "jp_state p = Running"
  shows "rest (after_comma p) = c # r" and "ctx (jp_depth p) p (after_comma p)"
    and "seen_element (top_frame p) \<Longrightarrow> peek (skip_whitespace p) = CHR '',''"
    and "peek (after_comma p) = c"
proof -
  show "ctx (jp_depth p) p (after_comma p)" using assms(5) by (simp add: ctx_def after_comma_def)
  have *: "rest (after_comma p) = c # r \<and> (seen_element (top_frame p) \<longrightarrow> peek (skip_whitespace p) = CHR '','')"
  proof (cases "seen_element (top_frame p)")
    case True
    with assms(2) obtain w where w: "ws w" "l = w @ '',''" by (auto simp: lead_def)
    then have p1: "rest (skip_whitespace p) = CHR '','' # w1 @ c # r" using skip_rest [of p w] assms(1) by simp
    with rest_advance [OF p1] have "rest (advance_pos (skip_whitespace p)) = w1 @ c # r" by simp
    then have "rest (skip_whitespace (advance_pos (skip_whitespace p))) = c # r" using skip_rest assms(3,4) by simp
    with True peek_rest [OF p1] show ?thesis by (simp add: after_comma_def)
  next
    case False
    with assms(2) have "rest p = w1 @ c # r" using assms(1) by (simp add: lead_def)
    with False skip_rest [of p w1 "c # r"] assms(3,4) show ?thesis by (simp add: after_comma_def)
  qed
  then show "rest (after_comma p) = c # r" "seen_element (top_frame p) \<Longrightarrow> peek (skip_whitespace p) = CHR '',''"
    by simp_all
  from * show "peek (after_comma p) = c" by (simp add: peek_rest)
qed

lemma next_value:
  assumes "jp_next p = start_value q" and "rest q = w @ t @ post" and "ws w" and "stops post"
    and "jp_state q = Running" and "jp_depth q + n \<le> length (jp_stack q)" and "value_accepted n v t"
  obtains p' where "jp_run (length (walk v)) p = (p', walk v)" and "ctx (jp_depth q) q p'" and "rest p' = post"
proof -
  obtain p1 p' where p1: "start_value q = (p1, hd (walk v))" "jp_run (length (walk v) - 1) p1 = (p', tl (walk v))"
      "ctx (jp_depth q) q p'" "rest p' = post"
    using assms(2-7) unfolding value_accepted_def by blast
  have "jp_run (Suc (length (walk v) - 1)) p = (p', hd (walk v) # tl (walk v))"
    using p1(2) by (subst jp_run.simps(2)) (simp add: assms(1) p1(1))
  moreover have "Suc (length (walk v) - 1) = length (walk v)" by (cases "walk v") auto
  ultimately show ?thesis using p1 that by simp
qed

lemma array_value:
  assumes "inside False p" and "rest p = l @ w1 @ t @ post" and "lead p l" and "ws w1" and "stops post"
    and "jp_depth p + n \<le> length (jp_stack p)" and "value_accepted n v t"
  obtains p' where "jp_run (length (walk v)) p = (p', walk v)" and "ctx (jp_depth p - 1) p p'" and "inside False p'"
    and "seen_element (top_frame p')" and "rest p' = post"
proof -
  have run: "jp_state p = Running" "0 < jp_depth p" "jp_depth p \<le> length (jp_stack p)" "\<not> is_object (top_frame p)"
    using assms(1) by (simp_all add: inside_def)
  obtain c t' where t: "t = c # t'" "\<not> is_ws c" "c \<noteq> CHR '']''" using assms(7) by (cases t) (auto simp: value_accepted_def)
  let ?q = "after_comma p" and ?r = "set_top (\<lambda>f. f\<lparr>seen_element := True\<rparr>) (after_comma p)"
  note ac = after_comma_rest [OF _ assms(3,4) t(2) run(1), of "t' @ post"]
  have rest: "rest p = l @ w1 @ c # t' @ post" using assms(2) t(1) by simp
  have top: "top_frame ?q = top_frame p" using ctx_top [OF ac(2) [OF rest] run(2)] .
  have q: "jp_depth ?q = jp_depth p" "length (jp_stack ?q) = length (jp_stack p)" "jp_state ?q = Running"
    using ac(2) [OF rest] by (simp_all add: ctx_def)
  have nxt: "jp_next p = start_value ?r"
  proof (cases "seen_element (top_frame p)")
    case True
    with ac(3) [OF rest] ac(4) [OF rest] run t(3) show ?thesis
      by (simp add: jp_next_def next_in_array_def Let_def after_comma_def)
  next
    case False
    with ac(4) [OF rest] run t(3) show ?thesis by (simp add: jp_next_def next_in_array_def Let_def after_comma_def)
  qed
  have "rest ?r = [] @ t @ post" using ac(1) [OF rest] t(1) by simp
  from next_value [OF nxt this _ assms(5) _ _ assms(7)] q assms(6)
  obtain p' where p': "jp_run (length (walk v)) p = (p', walk v)" "ctx (jp_depth ?r) ?r p'" "rest p' = post"
    by auto
  have "top_frame p' = (top_frame p)\<lparr>seen_element := True\<rparr>"
    using ctx_top [OF p'(2)] q run(2,3) top by (simp add: top_set_top)
  moreover have "ctx (jp_depth p - 1) p p'"
    using ctx_trans [OF ctx_trans [OF ctx_le [OF ac(2) [OF rest]] ctx_set_top] ctx_le [OF p'(2)]] q by simp
  ultimately show ?thesis
    using that [OF p'(1)] p'(3) run by (simp add: inside_def ctx_def)
qed

lemma object_key:
  assumes "inside True p" and "rest p = l @ w1 @ CHR 0x22 # k @ CHR 0x22 # w2 @ CHR '':'' # r" and "lead p l"
    and "ws w1" and "ws w2" and "raw_ok k"
  obtains p' where "jp_next p = (p', event Key k)" and "rest p' = r" and "ctx (jp_depth p - 1) p p'"
    and "is_object (top_frame p')" and "seen_element (top_frame p')" and "expect_value (top_frame p')"
proof -
  have run: "jp_state p = Running" "0 < jp_depth p" "jp_depth p \<le> length (jp_stack p)" "is_object (top_frame p)"
      "\<not> expect_value (top_frame p)"
    using assms(1) by (simp_all add: inside_def)
  let ?q = "after_comma p" and ?r = "set_top (\<lambda>f. f\<lparr>seen_element := True\<rparr>) (after_comma p)"
  have "\<not> is_ws (CHR 0x22)" by simp
  note ac = after_comma_rest [OF assms(2-4) this run(1)]
  have top: "top_frame ?q = top_frame p" using ctx_top [OF ac(2) run(2)] .
  have q: "jp_depth ?q = jp_depth p" "length (jp_stack ?q) = length (jp_stack p)" "jp_state ?q = Running"
      "jp_source ?q = jp_source p" "jp_started ?q = jp_started p"
    using ac(2) by (simp_all add: ctx_def)
  have nxt: "jp_next p = scan_key ?q"
    using ac(3,4) run by (cases "seen_element (top_frame p)") (simp_all add: jp_next_def next_in_object_def Let_def after_comma_def)
  have rr: "rest ?r = CHR 0x22 # k @ CHR 0x22 # w2 @ CHR '':'' # r" using ac(1) by simp
  let ?s = "?r\<lparr>jp_pos := jp_pos ?r + length k + 2\<rparr>"
  have "rest (?r\<lparr>jp_pos := jp_pos ?r + length (CHR 0x22 # k @ [CHR 0x22])\<rparr>) = w2 @ CHR '':'' # r"
    using rr by (intro rest_plus) simp
  then have "rest (skip_whitespace ?s) = CHR '':'' # r" using skip_rest [OF _ assms(5)] by simp
  note colon = peek_rest [OF this] rest_advance [OF this]
  let ?p' = "set_top (\<lambda>f. f\<lparr>expect_value := True\<rparr>) (advance_pos (skip_whitespace ?s))"
  have "scan_key ?q = (?p', event Key k)"
    using peek_rest [OF rr] scan_string_raw [OF rr assms(6)] colon(1) unfolding scan_key_def Let_def by simp
  moreover have "top_frame ?r = (top_frame p)\<lparr>seen_element := True\<rparr>" using q run top by (simp add: top_set_top)
  moreover have "top_frame ?s = top_frame ?r" by (simp add: top_frame_def)
  moreover have "top_frame ?p' = (top_frame ?s)\<lparr>expect_value := True\<rparr>" using q run by (simp add: top_set_top)
  moreover have "ctx (jp_depth p - 1) p ?p'"
    using ac(2) q by (simp add: ctx_def set_top_def) (metis diff_le_self take_eq_mono)
  ultimately show ?thesis using that [of ?p'] nxt colon(2) run(4) by simp
qed

lemma object_member:
  assumes "inside True p" and "rest p = l @ w1 @ CHR 0x22 # k @ CHR 0x22 # w2 @ CHR '':'' # w3 @ t @ post" and "lead p l"
    and "ws w1" and "ws w2" and "ws w3" and "raw_ok k" and "stops post"
    and "jp_depth p + n \<le> length (jp_stack p)" and "value_accepted n v t"
  obtains p' where "jp_run (length (event Key k # walk v)) p = (p', event Key k # walk v)" and "ctx (jp_depth p - 1) p p'"
    and "inside True p'" and "seen_element (top_frame p')" and "rest p' = post"
proof -
  have run: "0 < jp_depth p" "jp_depth p \<le> length (jp_stack p)" using assms(1) by (simp_all add: inside_def)
  obtain p1 where p1: "jp_next p = (p1, event Key k)" "rest p1 = w3 @ t @ post" "ctx (jp_depth p - 1) p p1"
      "is_object (top_frame p1)" "seen_element (top_frame p1)" "expect_value (top_frame p1)"
    using object_key [OF assms(1,2,3,4,5,7)] by blast
  let ?q = "set_top (\<lambda>f. f\<lparr>expect_value := False\<rparr>) p1"
  have q: "jp_depth p1 = jp_depth p" "length (jp_stack p1) = length (jp_stack p)" "jp_state p1 = Running"
    using p1(3) by (simp_all add: ctx_def)
  have "jp_next p1 = start_value ?q" using p1(4,6) q run by (simp add: jp_next_def next_in_object_def)
  from next_value [OF this _ assms(6,8) _ _ assms(10)] q assms(9) p1(2)
  obtain p' where p': "jp_run (length (walk v)) p1 = (p', walk v)" "ctx (jp_depth ?q) ?q p'" "rest p' = post" by auto
  have "top_frame p' = (top_frame p1)\<lparr>expect_value := False\<rparr>"
    using ctx_top [OF p'(2)] q run by (simp add: top_set_top)
  moreover have "ctx (jp_depth p - 1) p p'"
    using ctx_trans [OF ctx_trans [OF p1(3) ctx_set_top] ctx_le [OF p'(2)]] q by simp
  moreover have "jp_run (length (event Key k # walk v)) p = (p', event Key k # walk v)" using p1(1) p'(1) by simp
  ultimately show ?thesis using that [of p'] p' p1(4,5) q run by (simp add: inside_def ctx_def)
qed

lemma json_text_accepted:
  shows "json_text n v t \<Longrightarrow> value_accepted n v t"
    and "json_elements n vs s \<Longrightarrow> elements_accepted n vs s"
    and "json_members n ms s' \<Longrightarrow> members_accepted n ms s'"
proof (induction rule: json_text_json_elements_json_members.inducts)
  case (text_string raw n)
  then show ?case by (rule accept_string)
next
  case (text_number s n)
  then show ?case by (rule accept_number)
next
  case (text_empty_array w n)
  then show ?case
    by (intro accept_container [where obj = False and body = "[]" and s = w]) (auto simp: ctx_def inside_def)
next
  case (text_array n vs s)
  then show ?case
    by (intro accept_container [where obj = False and body = "concat (map walk vs)" and s = s])
      (auto simp: elements_accepted_def dest!: spec [of _ "[]"])
next
  case (text_empty_object w n)
  then show ?case
    by (intro accept_container [where obj = True and body = "[]" and s = w]) (auto simp: ctx_def inside_def)
next
  case (text_object n ms s)
  then show ?case
    by (intro accept_container [where obj = True and body = "members ms" and s = s])
      (auto simp: members_accepted_def members_def dest!: spec [of _ "[]"])
next
  case (last_element n v t w1 w2)
  show ?case unfolding elements_accepted_def
  proof (intro allI impI)
    fix p l post
    assume p: "rest p = l @ (w1 @ t @ w2) @ CHR '']'' # post" "lead p l" "inside False p" "jp_depth p + n \<le> length (jp_stack p)"
    then have r: "rest p = l @ w1 @ t @ w2 @ CHR '']'' # post" by simp
    from array_value [OF p(3) r p(2) last_element(2) _ p(4) last_element(4)] last_element(3)
    show "\<exists>p' w. jp_run (length (concat (map walk [v]))) p = (p', concat (map walk [v])) \<and>
        ctx (jp_depth p - 1) p p' \<and> inside False p' \<and> rest p' = w @ CHR '']'' # post \<and> ws w"
      by (metis append_Nil2 concat.simps list.simps(8,9) stops_app(2))
  qed
next
  case (more_elements n v t w1 w2 vs s)
  show ?case unfolding elements_accepted_def
  proof (intro allI impI)
    fix p l post
    assume p: "rest p = l @ (w1 @ t @ w2 @ CHR '','' # s) @ CHR '']'' # post" "lead p l" "inside False p"
      "jp_depth p + n \<le> length (jp_stack p)"
    then have r: "rest p = l @ w1 @ t @ w2 @ CHR '','' # s @ CHR '']'' # post" by simp
    obtain p1 where p1: "jp_run (length (walk v)) p = (p1, walk v)" "ctx (jp_depth p - 1) p p1" "inside False p1"
        "seen_element (top_frame p1)" "rest p1 = w2 @ CHR '','' # s @ CHR '']'' # post"
      using array_value [OF p(3) r p(2) more_elements(2) _ p(4) more_elements(5)] more_elements(3) by auto
    have "rest p1 = (w2 @ '','') @ s @ CHR '']'' # post" "lead p1 (w2 @ '','')"
      using p1(4,5) more_elements(3) by (auto simp: lead_def)
    moreover have d: "jp_depth p1 = jp_depth p" "length (jp_stack p1) = length (jp_stack p)" using p1(2) by (simp_all add: ctx_def)
    ultimately obtain p' w where p': "jp_run (length (concat (map walk vs))) p1 = (p', concat (map walk vs))"
        "ctx (jp_depth p - 1) p1 p'" "inside False p'" "rest p' = w @ CHR '']'' # post" "ws w"
      using more_elements(6) p1(3) p(4) unfolding elements_accepted_def by fastforce
    with jp_run_append [OF p1(1) p'(1)] ctx_trans [OF p1(2) p'(2)]
    show "\<exists>p' w. jp_run (length (concat (map walk (v # vs)))) p = (p', concat (map walk (v # vs))) \<and>
        ctx (jp_depth p - 1) p p' \<and> inside False p' \<and> rest p' = w @ CHR '']'' # post \<and> ws w"
      by auto
  qed
next
  case (last_member k n v t w1 w2 w3 w4)
  show ?case unfolding members_accepted_def
  proof (intro allI impI)
    fix p l post
    assume p: "rest p = l @ (w1 @ CHR 0x22 # k @ CHR 0x22 # w2 @ CHR '':'' # w3 @ t @ w4) @ CHR ''}'' # post" "lead p l"
      "inside True p" "jp_depth p + n \<le> length (jp_stack p)"
    then have r: "rest p = l @ w1 @ CHR 0x22 # k @ CHR 0x22 # w2 @ CHR '':'' # w3 @ t @ w4 @ CHR ''}'' # post" by simp
    have "members [(k, v)] = event Key k # walk v" by (simp add: members_def)
    with object_member [OF p(3) r p(2) last_member(3,4,5,1) _ p(4) last_member(7)] last_member(6)
    show "\<exists>p' w. jp_run (length (members [(k, v)])) p = (p', members [(k, v)]) \<and>
        ctx (jp_depth p - 1) p p' \<and> inside True p' \<and> rest p' = w @ CHR ''}'' # post \<and> ws w"
      by (metis stops_app(3))
  qed
next
  case (more_members k n v t w1 w2 w3 w4 ms s)
  show ?case unfolding members_accepted_def
  proof (intro allI impI)
    fix p l post
    assume p: "rest p = l @ (w1 @ CHR 0x22 # k @ CHR 0x22 # w2 @ CHR '':'' # w3 @ t @ w4 @ CHR '','' # s) @ CHR ''}'' # post"
      "lead p l" "inside True p" "jp_depth p + n \<le> length (jp_stack p)"
    then have r: "rest p = l @ w1 @ CHR 0x22 # k @ CHR 0x22 # w2 @ CHR '':'' # w3 @ t @ w4 @ CHR '','' # s @ CHR ''}'' # post" by simp
    obtain p1 where p1: "jp_run (length (event Key k # walk v)) p = (p1, event Key k # walk v)" "ctx (jp_depth p - 1) p p1"
        "inside True p1" "seen_element (top_frame p1)" "rest p1 = w4 @ CHR '','' # s @ CHR ''}'' # post"
      using object_member [OF p(3) r p(2) more_members(3,4,5,1) _ p(4) more_members(8)] more_members(6) by auto
    have "rest p1 = (w4 @ '','') @ s @ CHR ''}'' # post" "lead p1 (w4 @ '','')"
      using p1(4,5) more_members(6) by (auto simp: lead_def)
    moreover have d: "jp_depth p1 = jp_depth p" "length (jp_stack p1) = length (jp_stack p)" using p1(2) by (simp_all add: ctx_def)
    ultimately obtain p' w where p': "jp_run (length (members ms)) p1 = (p', members ms)"
        "ctx (jp_depth p - 1) p1 p'" "inside True p'" "rest p' = w @ CHR ''}'' # post" "ws w"
      using more_members(9) p1(3) p(4) unfolding members_accepted_def by fastforce
    have "members ((k, v) # ms) = (event Key k # walk v) @ members ms" by (simp add: members_def)
    with jp_run_append [OF p1(1) p'(1)] ctx_trans [OF p1(2) p'(2)] p'(3-5)
    show "\<exists>p' w. jp_run (length (members ((k, v) # ms))) p = (p', members ((k, v) # ms)) \<and>
        ctx (jp_depth p - 1) p p' \<and> inside True p' \<and> rest p' = w @ CHR ''}'' # post \<and> ws w"
      by (metis length_append)
  qed
qed (auto intro: accept_literal)

text \<open>
  Property C3. The parser accepts JSON: for every text of the grammar, with white space anywhere the
  grammar allows it, whose nesting does not exceed \<open>MaxDepth\<close>, it returns the walk of the value that the
  text stands for, then \<open>end\<close>, and no error.
\<close>

theorem json_parser_accepts:
  assumes "json_text n v t" and "n \<le> max_depth" and "ws w1" and "ws w2"
  shows "\<exists>p. jp_run (length (walk v) + 1) (jp_construct max_depth (w1 @ t @ w2)) = (p, walk v @ [event End []]) \<and>
    jp_done p \<and> \<not> jp_failed p"
proof -
  let ?p = "jp_construct max_depth (w1 @ t @ w2)" and ?q = "(jp_construct max_depth (w1 @ t @ w2))\<lparr>jp_started := True\<rparr>"
  have nxt: "jp_next ?p = start_value ?q" by (simp add: jp_next_def jp_construct_def)
  have rest: "rest ?q = w1 @ t @ w2" by (simp add: rest_def jp_construct_def)
  have stop: "stops w2" using assms(4) by simp
  have "jp_state ?q = Running" "jp_depth ?q + n \<le> length (jp_stack ?q)" using assms(2) by (simp_all add: jp_construct_def)
  from next_value [OF nxt rest assms(3) stop this json_text_accepted(1) [OF assms(1)]]
  obtain p' where p': "jp_run (length (walk v)) ?p = (p', walk v)" "ctx (jp_depth ?q) ?q p'" "rest p' = w2" .
  have f: "jp_state p' = Running" "jp_depth p' = 0" "jp_started p'" using p'(2) by (simp_all add: ctx_def jp_construct_def)
  have "rest (skip_whitespace p') = []" using skip_rest [of p' w2 "[]"] p'(3) assms(4) by simp
  then have "\<not> jp_pos (skip_whitespace p') < length (jp_source p')" by (simp add: rest_def)
  with f have "jp_run 1 p' = (skip_whitespace p'\<lparr>jp_state := Finished\<rparr>, [event End []])"
    by (simp add: jp_next_def Let_def)
  from jp_run_append [OF p'(1) this] show ?thesis by (simp add: jp_done_def jp_failed_def)
qed

theorem json_parser_accepts_witness:
  "\<exists>p. jp_run 6 (jp_construct 1 ''[ 0 , 7.5]'') =
    (p, walk (JArray [JScalar Number ''0'', JScalar Number ''7.5'']) @ [event End [], event End []])"
proof -
  have n1: "json_number ''0''"
    unfolding json_number_def by (rule exI [of _ "[]"], rule exI [of _ "''0''"], rule exI [of _ "[]"], rule exI [of _ "[]"])
      (simp add: number_int_def number_frac_def number_exp_def)
  have n2: "json_number ''7.5''"
    unfolding json_number_def by (rule exI [of _ "[]"], rule exI [of _ "''7''"], rule exI [of _ "''.5''"], rule exI [of _ "[]"])
      (simp add: number_int_def number_frac_def number_exp_def digits_def is_digit_def)
  have "json_elements 0 [JScalar Number ''7.5''] ('' '' @ ''7.5'' @ [])"
    by (intro last_element text_number n2) (simp_all add: is_ws_def)
  then have "json_elements 0 [JScalar Number ''0'', JScalar Number ''7.5''] ('' '' @ ''0'' @ '' '' @ CHR '','' # '' 7.5'')"
    by (intro more_elements text_number n1) (simp_all add: is_ws_def)
  then have "json_text 1 (JArray [JScalar Number ''0'', JScalar Number ''7.5'']) ''[ 0 , 7.5]''"
    using text_array [of 0 "[JScalar Number ''0'', JScalar Number ''7.5'']" "'' 0 , 7.5''"] by simp
  note accepts = json_parser_accepts [OF this, of 1 "[]" "[]"]
  have len: "length (walk (JArray [JScalar Number ''0'', JScalar Number ''7.5''])) + 1 = 5" by simp
  obtain p where
    p: "jp_run 5 (jp_construct 1 ''[ 0 , 7.5]'') = (p, walk (JArray [JScalar Number ''0'', JScalar Number ''7.5'']) @ [event End []])"
    "jp_done p" "\<not> jp_failed p"
    using accepts unfolding len append_Nil append_Nil2 by (auto simp del: walk.simps)
  have "jp_run 1 p = (p, [event End []])" using jp_run_done [OF p(2), of 1] p(3) by simp
  from jp_run_append [OF p(1) this] show ?thesis by (intro exI [of _ p]) simp
qed

end
