(* ===== verification/Json_String.thy ===== *)
theory Json_String
  imports Json_Text Egl_Words
begin

unbundle bit_operations_syntax

text \<open>
  \<open>JsonParser::decode_string\<close>, \<open>to_bool\<close> and \<open>to_number\<close> (json\_parser.hpp): what the raw
  slices of string, boolean and number events stand for. A string is a list of bytes; the
  code unit of a \<open>\u\<close> escape is a 32-bit word, as in the source.
\<close>

section \<open>Decoding\<close>

definition hex_nibble :: "char \<Rightarrow> u32 option" where
  "hex_nibble c =
     (let n = of_char c :: nat in
      if 48 \<le> n \<and> n \<le> 57 then Some (of_nat (n - 48))
      else if 97 \<le> n \<and> n \<le> 102 then Some (of_nat (n - 97 + 10))
      else if 65 \<le> n \<and> n \<le> 70 then Some (of_nat (n - 65 + 10))
      else None)"

fun hex4_loop :: "nat \<Rightarrow> string \<Rightarrow> nat \<Rightarrow> u32 \<Rightarrow> u32 option" where
  "hex4_loop 0 raw i v = Some v"
| "hex4_loop (Suc k) raw i v =
     (case hex_nibble (raw ! i) of None \<Rightarrow> None | Some d \<Rightarrow> hex4_loop k raw (i + 1) (push_bit 4 v OR d))"

text \<open>\<open>read_hex4\<close>; the index behind the digits is \<open>i + 4\<close>.\<close>

definition read_hex4 :: "string \<Rightarrow> nat \<Rightarrow> u32 option" where
  "read_hex4 raw i = (if i + 4 > length raw then None else hex4_loop 4 raw i 0)"

definition to_char :: "u32 \<Rightarrow> char" where
  "to_char w = char_of (unat w)"

definition append_utf8 :: "string \<Rightarrow> u32 \<Rightarrow> string" where
  "append_utf8 out code =
     (if code \<le> 0x7F then out @ [to_char code]
      else if code \<le> 0x7FF then
        out @ [to_char (0xC0 OR drop_bit 6 code), to_char (0x80 OR (code AND 0x3F))]
      else if code \<le> 0xFFFF then
        out @ [to_char (0xE0 OR drop_bit 12 code), to_char (0x80 OR (drop_bit 6 code AND 0x3F)),
          to_char (0x80 OR (code AND 0x3F))]
      else
        out @ [to_char (0xF0 OR drop_bit 18 code), to_char (0x80 OR (drop_bit 12 code AND 0x3F)),
          to_char (0x80 OR (drop_bit 6 code AND 0x3F)), to_char (0x80 OR (code AND 0x3F))])"

definition short_escape :: "char \<Rightarrow> char option" where
  "short_escape c =
     (if c = CHR 0x22 then Some (CHR 0x22) else if c = CHR 0x5C then Some (CHR 0x5C)
      else if c = CHR ''/'' then Some (CHR ''/'') else if c = CHR ''b'' then Some (CHR 0x08)
      else if c = CHR ''f'' then Some (CHR 0x0C) else if c = CHR ''n'' then Some (CHR 0x0A)
      else if c = CHR ''r'' then Some (CHR 0x0D) else if c = CHR ''t'' then Some (CHR 0x09) else None)"

text \<open>The case of \<open>u\<close>: the code point and the index behind the escape.\<close>

definition unicode_escape :: "string \<Rightarrow> nat \<Rightarrow> (u32 \<times> nat) option" where
  "unicode_escape raw i =
     (case read_hex4 raw i of None \<Rightarrow> None
      | Some code \<Rightarrow>
          let i = i + 4 in
          if code \<ge> 0xD800 \<and> code \<le> 0xDBFF then
            if i + 1 \<ge> length raw \<or> raw ! i \<noteq> CHR 0x5C \<or> raw ! (i + 1) \<noteq> CHR ''u'' then None
            else
              (case read_hex4 raw (i + 2) of None \<Rightarrow> None
               | Some low \<Rightarrow>
                   if low < 0xDC00 \<or> low > 0xDFFF then None
                   else Some (0x10000 + push_bit 10 (code - 0xD800) + (low - 0xDC00), i + 6))
          else if code \<ge> 0xDC00 \<and> code \<le> 0xDFFF then None
          else Some (code, i))"

lemma unicode_escape_less: "unicode_escape raw i = Some (code, j) \<Longrightarrow> i < j"
  by (auto simp: unicode_escape_def Let_def split: option.splits if_splits)

function decode_loop :: "string \<Rightarrow> nat \<Rightarrow> string \<Rightarrow> string option" where
  "decode_loop raw i out =
     (if i < length raw then
        let c = raw ! i in
        if c \<noteq> CHR 0x5C then decode_loop raw (i + 1) (out @ [c])
        else if i + 1 \<ge> length raw then None
        else
          let esc = raw ! (i + 1) in
          if esc = CHR ''u'' then
            (case unicode_escape raw (i + 2) of None \<Rightarrow> None
             | Some (code, j) \<Rightarrow> decode_loop raw j (append_utf8 out code))
          else
            (case short_escape esc of None \<Rightarrow> None
             | Some d \<Rightarrow> decode_loop raw (i + 2) (out @ [d]))
      else Some out)"
  by pat_completeness auto
termination
  by (relation "measure (\<lambda>(raw, i, _). length raw - i)") (auto dest!: unicode_escape_less)

declare decode_loop.simps [simp del]

definition decode_string :: "string \<Rightarrow> string option" where
  "decode_string raw = decode_loop raw 0 []"

definition to_bool :: "string \<Rightarrow> bool" where
  "to_bool literal \<longleftrightarrow> literal = ''true''"

text \<open>\<open>to_number\<close> for an integer type with the given range: the literal has to end where \<open>std::from_chars\<close> stops.\<close>

definition parse_arithmetic :: "bool \<Rightarrow> int \<Rightarrow> int \<Rightarrow> string \<Rightarrow> int option" where
  "parse_arithmetic is_signed lo hi s =
     (case from_chars_int is_signed lo hi s of Some (v, r) \<Rightarrow> if r = [] then Some v else None | None \<Rightarrow> None)"

definition to_number :: "bool \<Rightarrow> int \<Rightarrow> int \<Rightarrow> string \<Rightarrow> int option" where
  "to_number is_signed lo hi s = parse_arithmetic is_signed lo hi s"

section \<open>What the escapes stand for\<close>

text \<open>Unicode scalar values, their UTF-8 bytes, and the four-digit escapes of their UTF-16 units.\<close>

definition scalar_value :: "nat \<Rightarrow> bool" where
  "scalar_value cp \<longleftrightarrow> cp < 0xD800 \<or> 0xE000 \<le> cp \<and> cp \<le> 0x10FFFF"

definition utf8 :: "nat \<Rightarrow> string" where
  "utf8 cp = map char_of
     (if cp < 0x80 then [cp]
      else if cp < 0x800 then [0xC0 + cp div 64, 0x80 + cp mod 64]
      else if cp < 0x10000 then [0xE0 + cp div 4096, 0x80 + cp div 64 mod 64, 0x80 + cp mod 64]
      else [0xF0 + cp div 262144, 0x80 + cp div 4096 mod 64, 0x80 + cp div 64 mod 64, 0x80 + cp mod 64])"

definition hex_char :: "nat \<Rightarrow> char" where
  "hex_char d = char_of (if d < 10 then 48 + d else 87 + d)"

definition u_escape :: "nat \<Rightarrow> string" where
  "u_escape n = [CHR 0x5C, CHR ''u'', hex_char (n div 4096 mod 16), hex_char (n div 256 mod 16),
     hex_char (n div 16 mod 16), hex_char (n mod 16)]"

definition utf16_escape :: "nat \<Rightarrow> string" where
  "utf16_escape cp =
     (if cp < 0x10000 then u_escape cp
      else u_escape (0xD800 + (cp - 0x10000) div 1024) @ u_escape (0xDC00 + (cp - 0x10000) mod 1024))"

datatype string_piece = Plain char | Short char | Unicode nat

fun piece_valid :: "string_piece \<Rightarrow> bool" where
  "piece_valid (Plain c) \<longleftrightarrow> c \<noteq> CHR 0x22 \<and> c \<noteq> CHR 0x5C \<and> 0x20 \<le> (of_char c :: nat)"
| "piece_valid (Short c) \<longleftrightarrow> short_escape c \<noteq> None"
| "piece_valid (Unicode cp) \<longleftrightarrow> scalar_value cp"

fun piece_source :: "string_piece \<Rightarrow> string" where
  "piece_source (Plain c) = [c]"
| "piece_source (Short c) = [CHR 0x5C, c]"
| "piece_source (Unicode cp) = utf16_escape cp"

fun piece_meaning :: "string_piece \<Rightarrow> string" where
  "piece_meaning (Plain c) = [c]"
| "piece_meaning (Short c) = (case short_escape c of Some d \<Rightarrow> [d] | None \<Rightarrow> [])"
| "piece_meaning (Unicode cp) = utf8 cp"

section \<open>Words\<close>

lemma unat_of_nat32: "n < 2 ^ 32 \<Longrightarrow> unat (of_nat n :: u32) = n"
  by (simp add: unat_of_nat)

lemma of_unat: "unat (w :: u32) = n \<Longrightarrow> w = of_nat n"
  using unsigned_less [of w, where 'a = nat] by (auto simp: word_unat_eq_iff unat_of_nat)

lemma or_shifted:
  fixes m x :: u32
  assumes "unat x < 2 ^ k"
  shows "push_bit k m OR x = push_bit k m + x"
proof -
  have "unat (take_bit k x) = unat x" using assms by (simp only: unsigned_take_bit_eq take_bit_nat_eq_self)
  then have x: "take_bit k x = x" by (rule word_unat_eq_iff [THEN iffD2])
  have "push_bit k m + take_bit k x = push_bit k m OR take_bit k x"
    by (rule disjunctive_add) (auto simp: bit_simps)
  then show ?thesis by (simp add: x)
qed

lemma or_of_nat:
  assumes "x < 2 ^ k" and "m * 2 ^ k + x < 2 ^ 32"
  shows "push_bit k (of_nat m) OR (of_nat x :: u32) = of_nat (m * 2 ^ k + x)"
proof -
  have "x < 2 ^ 32" using assms(2) by linarith
  then have "unat (of_nat x :: u32) < 2 ^ k" using assms(1) by (simp only: unat_of_nat32)
  from or_shifted [OF this, of "of_nat m"] show ?thesis by (simp add: push_bit_eq_mult)
qed

lemma drop_bit_of_nat32:
  assumes "n < 2 ^ 32"
  shows "drop_bit k (of_nat n :: u32) = of_nat (n div 2 ^ k)"
proof -
  have "unat (drop_bit k (of_nat n :: u32)) = n div 2 ^ k"
    unfolding unat_drop_bit_eq unat_of_nat32 [OF assms] by (rule drop_bit_eq_div)
  then show ?thesis by (rule of_unat)
qed

lemma and_63:
  assumes "n < 2 ^ 32"
  shows "(of_nat n :: u32) AND 0x3F = of_nat (n mod 64)"
proof -
  have "(0x3F :: u32) = mask 6" by (simp add: mask_eq_exp_minus_1)
  then have "(of_nat n :: u32) AND 0x3F = take_bit 6 (of_nat n)" by (simp only: take_bit_eq_mask)
  moreover have "unat (take_bit 6 (of_nat n :: u32)) = n mod 2 ^ 6"
    unfolding unsigned_take_bit_eq unat_of_nat32 [OF assms] by (rule take_bit_eq_mod)
  ultimately have "unat ((of_nat n :: u32) AND 0x3F) = n mod 64" by simp
  then show ?thesis by (rule of_unat)
qed

text \<open>The bytes of UTF-8, in the source's bit operations and in arithmetic.\<close>

lemma lead_bytes:
  "x < 64 \<Longrightarrow> to_char (0x80 OR of_nat x) = char_of (0x80 + x)"
  "x < 32 \<Longrightarrow> to_char (0xC0 OR of_nat x) = char_of (0xC0 + x)"
  "x < 16 \<Longrightarrow> to_char (0xE0 OR of_nat x) = char_of (0xE0 + x)"
  "x < 8 \<Longrightarrow> to_char (0xF0 OR of_nat x) = char_of (0xF0 + x)"
  using or_of_nat [of x 6 2] or_of_nat [of x 6 3] or_of_nat [of x 5 7] or_of_nat [of x 4 15]
    unat_of_nat32 [of "0x80 + x"] unat_of_nat32 [of "0xC0 + x"] unat_of_nat32 [of "0xE0 + x"] unat_of_nat32 [of "0xF0 + x"]
  by (simp_all add: to_char_def push_bit_eq_mult del: of_nat_add)

lemma append_utf8_bytes:
  assumes "cp \<le> 0x10FFFF"
  shows "append_utf8 out (of_nat cp) = out @ utf8 cp"
proof -
  have cp: "cp < 2 ^ 32" using assms by simp
  have le: "(of_nat cp :: u32) \<le> 0x7F \<longleftrightarrow> cp < 0x80" "(of_nat cp :: u32) \<le> 0x7FF \<longleftrightarrow> cp < 0x800"
      "(of_nat cp :: u32) \<le> 0xFFFF \<longleftrightarrow> cp < 0x10000"
    using cp by (auto simp: word_le_nat_alt unat_of_nat32)
  have d: "drop_bit 6 (of_nat cp :: u32) = of_nat (cp div 64)" "drop_bit 12 (of_nat cp :: u32) = of_nat (cp div 4096)"
      "drop_bit 18 (of_nat cp :: u32) = of_nat (cp div 262144)"
    using drop_bit_of_nat32 [OF cp, of 6] drop_bit_of_nat32 [OF cp, of 12] drop_bit_of_nat32 [OF cp, of 18] by simp_all
  have small: "cp div 64 < 2 ^ 32" "cp div 4096 < 2 ^ 32" using cp by (auto intro: le_less_trans [OF div_le_dividend])
  have m: "of_nat cp AND 0x3F = (of_nat (cp mod 64) :: u32)" "of_nat (cp div 64) AND 0x3F = (of_nat (cp div 64 mod 64) :: u32)"
      "of_nat (cp div 4096) AND 0x3F = (of_nat (cp div 4096 mod 64) :: u32)"
    using and_63 cp small by blast+
  have one: "cp < 0x80 \<Longrightarrow> to_char (of_nat cp) = char_of cp" using cp by (simp add: to_char_def unat_of_nat32)
  have b: "cp < 0x800 \<Longrightarrow> cp div 64 < 32" "cp < 0x10000 \<Longrightarrow> cp div 4096 < 16" "cp div 262144 < 8" using assms by auto
  show ?thesis
    unfolding append_utf8_def utf8_def le d m using one lead_bytes b by simp
qed

section \<open>Decoding what was escaped\<close>

lemma length_u_escape: "length (u_escape n) = 6"
  by (simp add: u_escape_def)

lemma of_char_hex: "d < 16 \<Longrightarrow> of_char (hex_char d) = (if d < 10 then 48 + d else 87 + d)"
  by (simp add: hex_char_def)

lemma hex_nibble_char: "d < 16 \<Longrightarrow> hex_nibble (hex_char d) = Some (of_nat d)"
  by (auto simp: hex_nibble_def of_char_hex Let_def)

lemma is_hex_char: "d < 16 \<Longrightarrow> is_hex (hex_char d)"
  by (auto simp: is_hex_def is_digit_def of_char_hex)

lemma hex4_loop_digits:
  "drop i raw = map hex_char ds @ r \<Longrightarrow> list_all (\<lambda>d. d < 16) ds \<Longrightarrow> v < 16 ^ k \<Longrightarrow> k + length ds \<le> 8 \<Longrightarrow>
    hex4_loop (length ds) raw i (of_nat v) = Some (of_nat (foldl (\<lambda>v d. v * 16 + d) v ds))"
proof (induction ds arbitrary: i v k)
  case (Cons d ds)
  have c: "i < length raw" "raw ! i = hex_char d" "drop (i + 1) raw = map hex_char ds @ r"
    using drop_nth [of i raw] char_at_drop [of i raw] Cons.prems(1) by auto
  have d: "d < 16" "list_all (\<lambda>d. d < 16) ds" using Cons.prems(2) by auto
  have "(16 :: nat) ^ k \<le> 16 ^ 7" using Cons.prems(4) by (intro power_increasing) auto
  then have "v * 16 + d < 2 ^ 32" using Cons.prems(3) d(1) by simp
  then have "push_bit 4 (of_nat v) OR of_nat d = (of_nat (v * 16 + d) :: u32)"
    using or_of_nat [of d 4 v] d(1) by simp
  moreover have "v * 16 + d < 16 ^ Suc k" using Cons.prems(3) d(1) by simp
  ultimately show ?case
    using Cons.IH [OF c(3) d(2), of "v * 16 + d" "Suc k"] Cons.prems(4) c(2) hex_nibble_char [OF d(1)]
    by (simp del: of_nat_add of_nat_mult)
qed simp

lemma hex_digits_value:
  fixes n :: nat
  assumes "n < 0x10000"
  shows "((n div 4096 mod 16 * 16 + n div 256 mod 16) * 16 + n div 16 mod 16) * 16 + n mod 16 = n"
proof -
  have "n div 4096 mod 16 = n div 4096" using assms by simp
  moreover have "n div 4096 * 16 + n div 256 mod 16 = n div 256"
    using div_mult_mod_eq [of "n div 256" 16] by (simp add: div_mult2_eq [symmetric])
  moreover have "n div 256 * 16 + n div 16 mod 16 = n div 16"
    using div_mult_mod_eq [of "n div 16" 16] by (simp add: div_mult2_eq [symmetric])
  ultimately show ?thesis by simp
qed

lemma read_hex4_escape:
  assumes "drop i raw = u_escape n @ r" and "n < 0x10000"
  shows "read_hex4 raw (i + 2) = Some (of_nat n)"
proof -
  let ?ds = "[n div 4096 mod 16, n div 256 mod 16, n div 16 mod 16, n mod 16]"
  have len: "i + 6 \<le> length raw"
    using arg_cong [OF assms(1), of length] by (simp add: u_escape_def)
  have "drop (i + 2) raw = drop 2 (drop i raw)" by (simp add: add.commute)
  also have "\<dots> = map hex_char ?ds @ r" unfolding assms(1) by (simp add: u_escape_def)
  finally have "hex4_loop (length ?ds) raw (i + 2) (of_nat 0) = Some (of_nat (foldl (\<lambda>v d. v * 16 + d) 0 ?ds))"
    by (rule hex4_loop_digits [where k = 0]) simp_all
  also have "foldl (\<lambda>v d. v * 16 + d) 0 ?ds = n" by (simp only: foldl.simps mult_0 add_0 hex_digits_value [OF assms(2)])
  finally have "hex4_loop (length ?ds) raw (i + 2) (of_nat 0) = Some (of_nat n)" .
  moreover have "length ?ds = 4" "(of_nat 0 :: u32) = 0" by simp_all
  ultimately have "hex4_loop 4 raw (i + 2) 0 = Some (of_nat n)" by argo
  then show ?thesis using len by (simp add: read_hex4_def)
qed

text \<open>The code point of a \<open>\u\<close> escape, or of a pair of them, and the index behind it.\<close>

lemma word_between32:
  "n < 2 ^ 32 \<Longrightarrow> m < 2 ^ 32 \<Longrightarrow> (of_nat m :: u32) \<le> of_nat n \<longleftrightarrow> m \<le> n"
  "n < 2 ^ 32 \<Longrightarrow> m < 2 ^ 32 \<Longrightarrow> (of_nat m :: u32) < of_nat n \<longleftrightarrow> m < n"
  by (simp_all add: word_le_nat_alt word_less_nat_alt unat_of_nat32)

lemma word_compare32:
  assumes "n < 2 ^ 32"
  shows "(of_nat n :: u32) \<ge> 0xD800 \<longleftrightarrow> n \<ge> 0xD800" "(of_nat n :: u32) \<le> 0xDBFF \<longleftrightarrow> n \<le> 0xDBFF"
    "(of_nat n :: u32) \<ge> 0xDC00 \<longleftrightarrow> n \<ge> 0xDC00" "(of_nat n :: u32) \<le> 0xDFFF \<longleftrightarrow> n \<le> 0xDFFF"
  using assms by (auto simp: word_le_nat_alt unat_of_nat32)

lemma unicode_escape_bmp:
  assumes "drop i raw = u_escape n @ r" and "n < 0x10000" and "scalar_value n"
  shows "unicode_escape raw (i + 2) = Some (of_nat n, i + 6)"
  using read_hex4_escape [OF assms(1,2)] word_compare32 [of n] assms(2,3)
  by (auto simp: unicode_escape_def scalar_value_def Let_def)

lemma unicode_escape_pair:
  assumes "drop i raw = u_escape (0xD800 + h) @ u_escape (0xDC00 + l) @ r" and "h < 1024" and "l < 1024"
  shows "unicode_escape raw (i + 2) = Some (of_nat (0x10000 + h * 1024 + l), i + 12)"
proof -
  have hi: "read_hex4 raw (i + 2) = Some (of_nat (0xD800 + h))" using read_hex4_escape [OF assms(1)] assms(2) by simp
  have d6: "drop (i + 6) raw = u_escape (0xDC00 + l) @ r"
    using drop_plus [OF assms(1)] by (simp only: length_u_escape)
  have lo: "read_hex4 raw (i + 8) = Some (of_nat (0xDC00 + l))"
    using read_hex4_escape [OF d6] assms(3) by (simp add: ac_simps)
  have len: "i + 12 \<le> length raw" using arg_cong [OF assms(1), of length] by (simp add: u_escape_def)
  have nth: "raw ! (i + 6) = CHR 0x5C" "raw ! (i + 7) = CHR ''u''"
    using nth_drop [of "i + 6" raw 0] nth_drop [of "i + 6" raw 1] len d6 by (simp_all add: u_escape_def add.commute)
  have sub: "(of_nat (0xD800 + h) :: u32) - 0xD800 = of_nat h" "(of_nat (0xDC00 + l) :: u32) - 0xDC00 = of_nat l" by simp_all
  have "push_bit 10 (of_nat h :: u32) = of_nat (h * 1024)" by (simp add: push_bit_eq_mult)
  then have sum: "0x10000 + push_bit 10 (of_nat h :: u32) + of_nat l = of_nat (0x10000 + h * 1024 + l)" by simp
  have range: "(of_nat (0xD800 + h) :: u32) \<ge> 0xD800" "(of_nat (0xD800 + h) :: u32) \<le> 0xDBFF"
      "\<not> (of_nat (0xDC00 + l) :: u32) < 0xDC00" "\<not> (of_nat (0xDC00 + l) :: u32) > 0xDFFF"
    using word_compare32 [of "0xD800 + h"] word_compare32 [of "0xDC00 + l"] assms(2,3) by (simp_all del: of_nat_add add: not_less)
  have idx: "i + 2 + 4 = i + 6" "i + 6 + 1 = i + 7" "i + 6 + 2 = i + 8" "i + 6 + 6 = i + 12" by simp_all
  show ?thesis
    unfolding unicode_escape_def hi option.case Let_def idx lo sub nth sum
    using range len by (simp del: of_nat_add)
qed

lemma hex_char_neq: "d < 16 \<Longrightarrow> hex_char d \<noteq> CHR 0x22 \<and> hex_char d \<noteq> CHR 0x5C"
  using of_char_hex [of d] by (auto split: if_splits)

lemma utf16_escape_decodes:
  assumes "drop i raw = utf16_escape cp @ r" and "scalar_value cp"
  shows "\<exists>j. unicode_escape raw (i + 2) = Some (of_nat cp, j) \<and> drop j raw = r \<and>
    i + 1 < length raw \<and> raw ! i = CHR 0x5C \<and> raw ! (i + 1) = CHR ''u''"
proof -
  have head: "i + 1 < length raw" "raw ! i = CHR 0x5C" "raw ! (i + 1) = CHR ''u''"
    using assms(1) drop_nth [of i raw] char_at_drop [of i raw] drop_nth [of "i + 1" raw]
    by (auto simp: utf16_escape_def u_escape_def split: if_splits)
  show ?thesis
  proof (cases "cp < 0x10000")
    case True
    then have d: "drop i raw = u_escape cp @ r" using assms(1) by (simp add: utf16_escape_def)
    have "drop (i + 6) raw = r" using drop_plus [OF d] by (simp only: length_u_escape)
    then show ?thesis using unicode_escape_bmp [OF d True assms(2)] head by blast
  next
    case False
    define h l where "h = (cp - 0x10000) div 1024" and "l = (cp - 0x10000) mod 1024"
    have hl: "h < 1024" "l < 1024" and cp: "0x10000 + h * 1024 + l = cp"
      using assms(2) False by (auto simp: h_def l_def scalar_value_def)
    have d: "drop i raw = u_escape (0xD800 + h) @ u_escape (0xDC00 + l) @ r"
      using assms(1) False by (simp add: utf16_escape_def h_def l_def)
    have "drop (i + 6) raw = u_escape (0xDC00 + l) @ r" using drop_plus [OF d] by (simp only: length_u_escape)
    from drop_plus [OF this] have "drop (i + 12) raw = r" by (simp add: length_u_escape add.assoc)
    then show ?thesis using unicode_escape_pair [OF d hl] head cp by auto
  qed
qed

lemma short_escape_u: "short_escape CHR ''u'' = None"
  by (simp add: short_escape_def)

lemma decode_loop_pieces:
  "drop i raw = concat (map piece_source ps) \<Longrightarrow> list_all piece_valid ps \<Longrightarrow>
    decode_loop raw i out = Some (out @ concat (map piece_meaning ps))"
proof (induction ps arbitrary: i out)
  case Nil
  then show ?case by (simp add: decode_loop.simps)
next
  case (Cons p ps)
  show ?case
  proof (cases p)
    case (Plain c)
    have "i < length raw" "raw ! i = c" "drop (i + 1) raw = concat (map piece_source ps)"
      using drop_nth [of i raw] char_at_drop [of i raw] Cons.prems(1) Plain by auto
    then show ?thesis using Cons.IH [of "i + 1" "out @ [c]"] Cons.prems(2) Plain
      by (subst decode_loop.simps) (simp add: Let_def)
  next
    case (Short c)
    have d: "drop i raw = [CHR 0x5C, c] @ concat (map piece_source ps)" using Cons.prems(1) Short by simp
    have "i + 1 < length raw" "raw ! i = CHR 0x5C" "raw ! (i + 1) = c"
      using drop_nth [of i raw] char_at_drop [of i raw] drop_nth [of "i + 1" raw] d by auto
    moreover have "drop (i + 2) raw = concat (map piece_source ps)" using drop_plus [OF d] by simp
    moreover obtain e where "short_escape c = Some e" "c \<noteq> CHR ''u''"
      using Cons.prems(2) Short short_escape_u by fastforce
    ultimately show ?thesis using Cons.IH [of "i + 2" "out @ [e]"] Cons.prems(2) Short
      by (subst decode_loop.simps) (simp add: Let_def)
  next
    case (Unicode cp)
    have cp: "scalar_value cp" using Cons.prems(2) Unicode by simp
    then have utf: "append_utf8 out (of_nat cp) = out @ utf8 cp"
      by (intro append_utf8_bytes) (auto simp: scalar_value_def)
    obtain j where "unicode_escape raw (i + 2) = Some (of_nat cp, j)" "drop j raw = concat (map piece_source ps)"
        "i + 1 < length raw" "raw ! i = CHR 0x5C" "raw ! (i + 1) = CHR ''u''"
      using utf16_escape_decodes [of i raw cp] Cons.prems(1) Unicode cp by auto
    then show ?thesis using Cons.IH [of j "out @ utf8 cp"] Cons.prems(2) Unicode utf
      by (subst decode_loop.simps) (simp add: Let_def)
  qed
qed



end
