(* ===== verification/Cli_Parser.thy ===== *)
theory Cli_Parser
  imports String_Builder
begin

text \<open>
  \<open>CliParser\<close> (cli\_parser.hpp): registration of flags, options and positionals, the scan of the
  argument vector, and the generated help.

  The variables that the caller binds are cells of a store, a function from addresses to values, so
  that two options may be bound to the same variable. The closures \<open>assign\<close> and
  \<open>set_flag\<close> of a specification are the address they capture and the type they convert to. A
  pointer into \<open>options_\<close> is an index. The conversion of floating-point values belongs to the standard
  library and is the parameter \<open>fp\<close>, which is given the width of the type.
\<close>

section \<open>Values and conversions\<close>

datatype cli_type = TString | TBool | TInt bool nat | TFloat nat

datatype 'f cli_value = VString string | VBool bool | VInt int | VFloat 'f

type_synonym 'f store = "nat \<Rightarrow> 'f cli_value"

text \<open>\<open>TInt\<close> has the signedness and the width of the integer type.\<close>

definition int_min :: "bool \<Rightarrow> nat \<Rightarrow> int" where
  "int_min is_signed w = (if is_signed then - (2 ^ (w - 1)) else 0)"

definition int_max :: "bool \<Rightarrow> nat \<Rightarrow> int" where
  "int_max is_signed w = (if is_signed then 2 ^ (w - 1) - 1 else 2 ^ w - 1)"

definition cli_parse_bool :: "string \<Rightarrow> bool option" where
  "cli_parse_bool s =
     (if s = ''true'' \<or> s = ''1'' \<or> s = ''yes'' \<or> s = ''on'' then Some True
      else if s = ''false'' \<or> s = ''0'' \<or> s = ''no'' \<or> s = ''off'' then Some False
      else None)"

definition cli_parse_int :: "bool \<Rightarrow> nat \<Rightarrow> string \<Rightarrow> int option" where
  "cli_parse_int is_signed w s =
     (case from_chars_int is_signed (int_min is_signed w) (int_max is_signed w) s of
        None \<Rightarrow> None
      | Some (v, r) \<Rightarrow> if r \<noteq> [] then None else Some v)"

fun cli_parse :: "(nat \<Rightarrow> string \<Rightarrow> 'f option) \<Rightarrow> cli_type \<Rightarrow> string \<Rightarrow> 'f cli_value option" where
  "cli_parse fp TString s = Some (VString s)"
| "cli_parse fp TBool s = map_option VBool (cli_parse_bool s)"
| "cli_parse fp (TInt is_signed w) s = map_option VInt (cli_parse_int is_signed w s)"
| "cli_parse fp (TFloat w) s = map_option VFloat (fp w s)"

section \<open>Results\<close>

datatype cli_error =
  None_error | Unknown_option | Missing_value | Unexpected_value | Invalid_value | Missing_required | Unexpected_positional

datatype cli_status = Success | Help_requested | Error

record parse_result =
  pr_status :: cli_status
  pr_error :: cli_error
  pr_message :: string

definition pr_success :: parse_result where
  "pr_success = \<lparr>pr_status = Success, pr_error = None_error, pr_message = []\<rparr>"

definition pr_help :: parse_result where
  "pr_help = \<lparr>pr_status = Help_requested, pr_error = None_error, pr_message = []\<rparr>"

definition pr_failure :: "cli_error \<Rightarrow> string \<Rightarrow> parse_result" where
  "pr_failure code message = \<lparr>pr_status = Error, pr_error = code, pr_message = message\<rparr>"

definition pr_ok :: "parse_result \<Rightarrow> bool" where
  "pr_ok r \<longleftrightarrow> pr_status r = Success"

definition pr_help_requested :: "parse_result \<Rightarrow> bool" where
  "pr_help_requested r \<longleftrightarrow> pr_status r = Help_requested"

section \<open>The parser\<close>

record option_spec =
  long_name :: string
  short_name :: char
  opt_help :: string
  value_name :: string
  takes_value :: bool
  opt_required :: bool
  is_help :: bool
  opt_seen :: bool
  opt_address :: nat
  opt_type :: cli_type

record positional_spec =
  pos_name :: string
  pos_help :: string
  pos_required :: bool
  pos_seen :: bool
  pos_address :: nat
  pos_type :: cli_type

record cli_parser =
  program_name :: string
  description :: string
  options :: "option_spec list"
  positionals :: "positional_spec list"

abbreviation nul :: char where "nul \<equiv> CHR 0x00"

definition default_spec :: option_spec where
  "default_spec = \<lparr>long_name = [], short_name = nul, opt_help = [], value_name = ''VALUE'', takes_value = False,
     opt_required = False, is_help = False, opt_seen = False, opt_address = 0, opt_type = TBool\<rparr>"

definition cli_construct :: "string \<Rightarrow> string \<Rightarrow> cli_parser" where
  "cli_construct name desc =
     \<lparr>program_name = name, description = desc,
      options = [default_spec\<lparr>long_name := ''help'', short_name := CHR ''h'',
        opt_help := ''Show this help message and exit.'', is_help := True\<rparr>],
      positionals = []\<rparr>"

fun find_index :: "('a \<Rightarrow> bool) \<Rightarrow> 'a list \<Rightarrow> nat option" where
  "find_index p [] = None"
| "find_index p (x # xs) = (if p x then Some 0 else map_option Suc (find_index p xs))"

definition find_long :: "cli_parser \<Rightarrow> string \<Rightarrow> nat option" where
  "find_long cp name = find_index (\<lambda>opt. long_name opt \<noteq> [] \<and> long_name opt = name) (options cp)"

definition find_short :: "cli_parser \<Rightarrow> char \<Rightarrow> nat option" where
  "find_short cp c = find_index (\<lambda>opt. short_name opt \<noteq> nul \<and> short_name opt = c) (options cp)"

section \<open>Registration\<close>

definition make_named_spec :: "string \<Rightarrow> char \<Rightarrow> string \<Rightarrow> cli_parser \<Rightarrow> option_spec cpp" where
  "make_named_spec long short descr cp =
     (if long = [] \<and> short = nul then Inl (Logic_error ''CliParser: an option needs a long name or a short name'')
      else if long \<noteq> [] \<and> find_long cp long \<noteq> None then
        Inl (Logic_error (''CliParser: duplicate long name '' @ [CHR 0x27] @ ''--'' @ long @ [CHR 0x27]))
      else if short \<noteq> nul \<and> find_short cp short \<noteq> None then
        Inl (Logic_error (''CliParser: duplicate short name '' @ [CHR 0x27] @ ''-'' @ [short] @ [CHR 0x27]))
      else Inr (default_spec\<lparr>long_name := long, short_name := short, opt_help := descr\<rparr>))"

definition add_flag :: "string \<Rightarrow> char \<Rightarrow> string \<Rightarrow> nat \<Rightarrow> cli_parser \<Rightarrow> cli_parser cpp" where
  "add_flag long short descr addr cp =
     (case make_named_spec long short descr cp of
        Inl e \<Rightarrow> Inl e
      | Inr spec \<Rightarrow> Inr (cp\<lparr>options := options cp @ [spec\<lparr>takes_value := False, opt_address := addr\<rparr>]\<rparr>))"

definition add_option ::
  "string \<Rightarrow> char \<Rightarrow> string \<Rightarrow> nat \<Rightarrow> cli_type \<Rightarrow> bool \<Rightarrow> string \<Rightarrow> cli_parser \<Rightarrow> cli_parser cpp" where
  "add_option long short descr addr ty req val_name cp =
     (case make_named_spec long short descr cp of
        Inl e \<Rightarrow> Inl e
      | Inr spec \<Rightarrow> Inr (cp\<lparr>options := options cp @ [spec\<lparr>takes_value := True, opt_required := req,
          value_name := val_name, opt_address := addr, opt_type := ty\<rparr>]\<rparr>))"

definition add_positional :: "string \<Rightarrow> string \<Rightarrow> nat \<Rightarrow> cli_type \<Rightarrow> bool \<Rightarrow> cli_parser \<Rightarrow> cli_parser cpp" where
  "add_positional name descr addr ty req cp =
     (if name = [] then Inl (Logic_error ''CliParser: positional name must not be empty'')
      else if list_ex (\<lambda>p. pos_name p = name) (positionals cp) then
        Inl (Logic_error (''CliParser: duplicate positional name '' @ [CHR 0x27] @ name @ [CHR 0x27]))
      else Inr (cp\<lparr>positionals := positionals cp @
        [\<lparr>pos_name = name, pos_help = descr, pos_required = req, pos_seen = False, pos_address = addr, pos_type = ty\<rparr>]\<rparr>))"

section \<open>Parsing\<close>

definition clear_seen :: "cli_parser \<Rightarrow> cli_parser" where
  "clear_seen cp = cp\<lparr>options := map (\<lambda>opt. opt\<lparr>opt_seen := False\<rparr>) (options cp),
     positionals := map (\<lambda>p. p\<lparr>pos_seen := False\<rparr>) (positionals cp)\<rparr>"

definition see_option :: "nat \<Rightarrow> cli_parser \<Rightarrow> cli_parser" where
  "see_option k cp = cp\<lparr>options := (options cp)[k := (options cp ! k)\<lparr>opt_seen := True\<rparr>]\<rparr>"

definition see_positional :: "nat \<Rightarrow> cli_parser \<Rightarrow> cli_parser" where
  "see_positional k cp = cp\<lparr>positionals := (positionals cp)[k := (positionals cp ! k)\<lparr>pos_seen := True\<rparr>]\<rparr>"

definition quoted :: "string \<Rightarrow> string" where
  "quoted s = [CHR 0x27] @ s @ [CHR 0x27]"

definition assign_option ::
  "(nat \<Rightarrow> string \<Rightarrow> 'f option) \<Rightarrow> nat \<Rightarrow> string \<Rightarrow> string \<Rightarrow> cli_parser \<times> 'f store \<Rightarrow>
    (cli_parser \<times> 'f store) \<times> parse_result" where
  "assign_option fp k label val s =
     (let opt = options (fst s) ! k in
      case cli_parse fp (opt_type opt) val of
        None \<Rightarrow> (s, pr_failure Invalid_value (''invalid value '' @ quoted val @ '' for option '' @ quoted label))
      | Some v \<Rightarrow> ((see_option k (fst s), (snd s)(opt_address opt := v)), pr_success))"

definition raise_flag :: "nat \<Rightarrow> cli_parser \<times> 'f store \<Rightarrow> cli_parser \<times> 'f store" where
  "raise_flag k s = (see_option k (fst s), (snd s)(opt_address (options (fst s) ! k) := VBool True))"

text \<open>The position of the first equals sign, when there is one.\<close>

definition split_inline :: "string \<Rightarrow> string \<times> string option" where
  "split_inline body =
     (let name = takeWhile (\<lambda>c. c \<noteq> CHR ''='') body in
      if length name < length body then (name, Some (drop (length name + 1) body)) else (body, None))"

definition parse_long ::
  "(nat \<Rightarrow> string \<Rightarrow> 'f option) \<Rightarrow> string \<Rightarrow> string list \<Rightarrow> nat \<Rightarrow> cli_parser \<times> 'f store \<Rightarrow>
    ((cli_parser \<times> 'f store) \<times> parse_result) \<times> nat" where
  "parse_long fp body args index s =
     (let (name, inline_value) = split_inline body in
      case find_long (fst s) name of
        None \<Rightarrow> ((s, pr_failure Unknown_option (''unknown option '' @ quoted (''--'' @ name))), index)
      | Some k \<Rightarrow>
          let opt = options (fst s) ! k in
          if is_help opt then ((s, pr_help), index)
          else if \<not> takes_value opt then
            (case inline_value of
               Some _ \<Rightarrow> ((s, pr_failure Unexpected_value (''flag '' @ quoted (''--'' @ long_name opt) @ '' takes no value'')), index)
             | None \<Rightarrow> ((raise_flag k s, pr_success), index))
          else
            (case inline_value of
               Some v \<Rightarrow> (assign_option fp k (''--'' @ long_name opt) v s, index)
             | None \<Rightarrow>
                 if index + 1 \<ge> length args then
                   ((s, pr_failure Missing_value (''option '' @ quoted (''--'' @ long_name opt) @ '' requires a value'')), index)
                 else (assign_option fp k (''--'' @ long_name opt) (args ! (index + 1)) s, index + 1)))"

text \<open>The loop over the letters of a cluster; its first argument is what is left of the body.\<close>

fun short_loop ::
  "string \<Rightarrow> (nat \<Rightarrow> string \<Rightarrow> 'f option) \<Rightarrow> string list \<Rightarrow> nat \<Rightarrow> cli_parser \<times> 'f store \<Rightarrow>
    ((cli_parser \<times> 'f store) \<times> parse_result) \<times> nat" where
  "short_loop [] fp args index s = ((s, pr_success), index)"
| "short_loop (letter # rest) fp args index s =
     (case find_short (fst s) letter of
        None \<Rightarrow> ((s, pr_failure Unknown_option (''unknown option '' @ quoted [CHR ''-'', letter])), index)
      | Some k \<Rightarrow>
          let opt = options (fst s) ! k; label = [CHR ''-'', letter] in
          if is_help opt then ((s, pr_help), index)
          else if \<not> takes_value opt then short_loop rest fp args index (raise_flag k s)
          else if rest \<noteq> [] then
            (assign_option fp k label (if hd rest = CHR ''='' then tl rest else rest) s, index)
          else if index + 1 \<ge> length args then
            ((s, pr_failure Missing_value (''option '' @ quoted label @ '' requires a value'')), index)
          else (assign_option fp k label (args ! (index + 1)) s, index + 1))"

definition parse_short ::
  "(nat \<Rightarrow> string \<Rightarrow> 'f option) \<Rightarrow> string \<Rightarrow> string list \<Rightarrow> nat \<Rightarrow> cli_parser \<times> 'f store \<Rightarrow>
    ((cli_parser \<times> 'f store) \<times> parse_result) \<times> nat" where
  "parse_short fp body args index s = short_loop body fp args index s"

definition consume_positional ::
  "(nat \<Rightarrow> string \<Rightarrow> 'f option) \<Rightarrow> string \<Rightarrow> nat \<Rightarrow> cli_parser \<times> 'f store \<Rightarrow>
    ((cli_parser \<times> 'f store) \<times> parse_result) \<times> nat" where
  "consume_positional fp token k s =
     (if k \<ge> length (positionals (fst s)) then
        ((s, pr_failure Unexpected_positional (''unexpected positional argument '' @ quoted token)), k)
      else
        let p = positionals (fst s) ! k in
        case cli_parse fp (pos_type p) token of
          None \<Rightarrow> ((s, pr_failure Invalid_value (''invalid value '' @ quoted token @ '' for argument '' @ quoted (pos_name p))), k + 1)
        | Some v \<Rightarrow> (((see_positional k (fst s), (snd s)(pos_address p := v)), pr_success), k + 1))"

definition check_required :: "cli_parser \<Rightarrow> parse_result" where
  "check_required cp =
     (case find (\<lambda>opt. opt_required opt \<and> \<not> opt_seen opt) (options cp) of
        Some opt \<Rightarrow> pr_failure Missing_required (''missing required option '' @ quoted (''--'' @ long_name opt))
      | None \<Rightarrow>
          (case find (\<lambda>p. pos_required p \<and> \<not> pos_seen p) (positionals cp) of
             Some p \<Rightarrow> pr_failure Missing_required (''missing required argument '' @ quoted (pos_name p))
           | None \<Rightarrow> pr_success))"

lemma parse_long_index: "snd (parse_long fp body args i s) \<ge> i"
  by (auto simp: parse_long_def Let_def split: prod.splits option.splits)

lemma short_loop_index: "snd (short_loop body fp args i s) \<ge> i"
  by (induction body fp args i s rule: short_loop.induct) (auto simp: Let_def split: option.splits)

lemma parse_short_index: "snd (parse_short fp body args i s) \<ge> i"
  by (simp add: parse_short_def short_loop_index)

function parse_loop ::
  "(nat \<Rightarrow> string \<Rightarrow> 'f option) \<Rightarrow> string list \<Rightarrow> nat \<Rightarrow> nat \<Rightarrow> bool \<Rightarrow> cli_parser \<times> 'f store \<Rightarrow>
    (cli_parser \<times> 'f store) \<times> parse_result" where
  "parse_loop fp args i k ended s =
     (if i < length args then
        let token = args ! i in
        if \<not> ended \<and> token = ''--'' then parse_loop fp args (i + 1) k True s
        else if \<not> ended \<and> take 2 token = ''--'' then
          let r = parse_long fp (drop 2 token) args i s in
          if \<not> pr_ok (snd (fst r)) then fst r else parse_loop fp args (snd r + 1) k ended (fst (fst r))
        else if \<not> ended \<and> length token \<ge> 2 \<and> hd token = CHR ''-'' then
          let r = parse_short fp (drop 1 token) args i s in
          if \<not> pr_ok (snd (fst r)) then fst r else parse_loop fp args (snd r + 1) k ended (fst (fst r))
        else
          let r = consume_positional fp token k s in
          if \<not> pr_ok (snd (fst r)) then fst r else parse_loop fp args (i + 1) (snd r) ended (fst (fst r))
      else (s, check_required (fst s)))"
  by pat_completeness auto
termination
proof (relation "measure (\<lambda>(fp, args, i, _). length args - i)", goal_cases)
  case (3 fp args i k ended s token r)
  then show ?case using parse_long_index [of i fp "drop 2 token" args s] by auto
next
  case (4 fp args i k ended s token r)
  then show ?case using parse_short_index [of i fp "drop 1 token" args s] by auto
qed auto

declare parse_loop.simps [simp del]

definition parse ::
  "(nat \<Rightarrow> string \<Rightarrow> 'f option) \<Rightarrow> string list \<Rightarrow> cli_parser \<times> 'f store \<Rightarrow> (cli_parser \<times> 'f store) \<times> parse_result" where
  "parse fp args s = parse_loop fp args 0 0 False (clear_seen (fst s), snd s)"

definition parse_argv ::
  "(nat \<Rightarrow> string \<Rightarrow> 'f option) \<Rightarrow> string list \<Rightarrow> cli_parser \<times> 'f store \<Rightarrow> (cli_parser \<times> 'f store) \<times> parse_result" where
  "parse_argv fp argv s = parse fp (drop 1 argv) s"

section \<open>Help\<close>

definition option_label :: "option_spec \<Rightarrow> string" where
  "option_label opt =
     (if short_name opt \<noteq> nul then [CHR ''-'', short_name opt] @ (if long_name opt \<noteq> [] then '', '' else [])
      else ''    '') @
     (if long_name opt \<noteq> [] then ''--'' @ long_name opt else []) @
     (if takes_value opt then '' '' @ value_name opt else [])"

definition option_help :: "option_spec \<Rightarrow> string" where
  "option_help opt = (if opt_required opt then opt_help opt @ '' (required)'' else opt_help opt)"

definition label_column_width :: "cli_parser \<Rightarrow> nat" where
  "label_column_width cp =
     foldl (\<lambda>w opt. max w (length (option_label opt)))
       (foldl (\<lambda>w p. max w (length (pos_name p))) 0 (positionals cp)) (options cp)"

fun append_spaces :: "string_builder \<Rightarrow> nat \<Rightarrow> string_builder" where
  "append_spaces out 0 = out"
| "append_spaces out (Suc n) = append_spaces (append_char out CHR '' '') n"

definition append_help_row :: "string_builder \<Rightarrow> string \<Rightarrow> string \<Rightarrow> nat \<Rightarrow> string_builder" where
  "append_help_row out label descr width =
     append_char (append_text (append_text
       (append_spaces (append_text (append_text out ''  '') label) (width - length label)) ''  '') descr) (CHR 0x0A)"

definition append_usage :: "string_builder \<Rightarrow> positional_spec \<Rightarrow> string_builder" where
  "append_usage out p =
     append_text (append_text (append_text out (if pos_required p then '' <'' else '' [''))
       (pos_name p)) (if pos_required p then ''>'' else '']'')"

definition cli_help :: "cli_parser \<Rightarrow> string" where
  "cli_help cp =
     (let out = append_text (append_text sb_empty_builder ''Usage: '') (program_name cp);
          out = (if options cp \<noteq> [] then append_text out '' [OPTIONS]'' else out);
          out = append_char (foldl append_usage out (positionals cp)) (CHR 0x0A);
          out = (if description cp \<noteq> [] then
                   append_char (append_text (append_char out (CHR 0x0A)) (description cp)) (CHR 0x0A)
                 else out);
          width = label_column_width cp;
          out = (if positionals cp \<noteq> [] then
                   foldl (\<lambda>out p. append_help_row out (pos_name p) (pos_help p) width)
                     (append_text out ([CHR 0x0A] @ ''Positional arguments:'' @ [CHR 0x0A])) (positionals cp)
                 else out);
          out = foldl (\<lambda>out opt. append_help_row out (option_label opt) (option_help opt) width)
                  (append_text out ([CHR 0x0A] @ ''Options:'' @ [CHR 0x0A])) (options cp)
      in snd (sb_take out))"

end
