(* ===== verification/Cli_Registration.thy ===== *)
theory Cli_Registration
  imports Cli_Parser
begin

text \<open>
  What registration promises (cli\_parser.hpp): the names of a parser are unique whatever is
  registered in whatever order, so that a lookup finds the option that was registered under the
  name; and the layout of the generated help.
\<close>

section \<open>Lookup\<close>

lemma find_index_None: "find_index p xs = None \<longleftrightarrow> (\<forall>x \<in> set xs. \<not> p x)"
  by (induction xs) auto

lemma find_index_Some: "find_index p xs = Some k \<longleftrightarrow> k < length xs \<and> p (xs ! k) \<and> (\<forall>j < k. \<not> p (xs ! j))"
proof (induction xs arbitrary: k)
  case (Cons x xs)
  then show ?case by (cases k) (auto simp: All_less_Suc2)
qed simp

lemma find_index_cong:
  "map p xs = map q ys \<Longrightarrow> find_index p xs = find_index q ys"
  by (induction xs arbitrary: ys) auto

lemma find_long_None: "long \<noteq> [] \<Longrightarrow> find_long cp long = None \<longleftrightarrow> long \<notin> long_name ` set (options cp)"
  by (auto simp: find_long_def find_index_None)

lemma find_short_None: "c \<noteq> nul \<Longrightarrow> find_short cp c = None \<longleftrightarrow> c \<notin> short_name ` set (options cp)"
  by (auto simp: find_short_def find_index_None)

lemma find_long_Some: "find_long cp n = Some k \<Longrightarrow> k < length (options cp) \<and> long_name (options cp ! k) = n \<and> n \<noteq> []"
  by (auto simp: find_long_def find_index_Some)

lemma find_short_Some: "find_short cp c = Some k \<Longrightarrow> k < length (options cp) \<and> short_name (options cp ! k) = c \<and> c \<noteq> nul"
  by (auto simp: find_short_def find_index_Some)

section \<open>The invariant of registration\<close>

definition unique_names :: "('a \<Rightarrow> 'b) \<Rightarrow> 'b \<Rightarrow> 'a list \<Rightarrow> bool" where
  "unique_names f blank xs \<longleftrightarrow>
     (\<forall>j < length xs. \<forall>k < length xs. f (xs ! j) = f (xs ! k) \<and> f (xs ! j) \<noteq> blank \<longrightarrow> j = k)"

definition registered :: "cli_parser \<Rightarrow> bool" where
  "registered cp \<longleftrightarrow>
     unique_names long_name [] (options cp) \<and> unique_names short_name nul (options cp) \<and>
     unique_names pos_name [] (positionals cp) \<and>
     list_all (\<lambda>opt. long_name opt \<noteq> [] \<or> short_name opt \<noteq> nul) (options cp) \<and>
     list_all (\<lambda>p. pos_name p \<noteq> []) (positionals cp) \<and>
     options cp \<noteq> [] \<and> is_help (hd (options cp)) \<and> list_all (\<lambda>opt. \<not> is_help opt) (tl (options cp))"

datatype registration =
    Flag string char string nat
  | Option string char string nat cli_type bool string
  | Positional string string nat cli_type bool

fun register :: "registration \<Rightarrow> cli_parser \<Rightarrow> cli_parser cpp" where
  "register (Flag long short descr addr) cp = add_flag long short descr addr cp"
| "register (Option long short descr addr ty req val_name) cp = add_option long short descr addr ty req val_name cp"
| "register (Positional name descr addr ty req) cp = add_positional name descr addr ty req cp"

fun register_all :: "registration list \<Rightarrow> cli_parser \<Rightarrow> cli_parser cpp" where
  "register_all [] cp = Inr cp"
| "register_all (r # rs) cp = (case register r cp of Inl e \<Rightarrow> Inl e | Inr cp' \<Rightarrow> register_all rs cp')"

text \<open>The misuse that registration reports: no name at all, or a name that is taken.\<close>

definition name_clash :: "string \<Rightarrow> char \<Rightarrow> cli_parser \<Rightarrow> bool" where
  "name_clash long short cp \<longleftrightarrow>
     long = [] \<and> short = nul \<or> long \<noteq> [] \<and> long \<in> long_name ` set (options cp) \<or>
     short \<noteq> nul \<and> short \<in> short_name ` set (options cp)"

fun misuse :: "registration \<Rightarrow> cli_parser \<Rightarrow> bool" where
  "misuse (Flag long short descr addr) cp \<longleftrightarrow> name_clash long short cp"
| "misuse (Option long short descr addr ty req val_name) cp \<longleftrightarrow> name_clash long short cp"
| "misuse (Positional name descr addr ty req) cp \<longleftrightarrow> name = [] \<or> name \<in> pos_name ` set (positionals cp)"

lemma unique_names_snoc:
  assumes "unique_names f blank xs" and "f x = blank \<or> f x \<notin> f ` set xs"
  shows "unique_names f blank (xs @ [x])"
  unfolding unique_names_def
proof (intro allI impI)
  fix j k
  assume *: "j < length (xs @ [x])" "k < length (xs @ [x])"
    "f ((xs @ [x]) ! j) = f ((xs @ [x]) ! k) \<and> f ((xs @ [x]) ! j) \<noteq> blank"
  have mem: "f (xs ! i) \<noteq> f x" if "i < length xs" "f x \<notin> f ` set xs" for i using that by (metis imageI nth_mem)
  show "j = k"
    using * assms mem [of j] mem [of k] by (auto simp: unique_names_def nth_append less_Suc_eq split: if_splits)
qed

lemma long_taken: "long \<noteq> [] \<and> find_long cp long \<noteq> None \<longleftrightarrow> long \<noteq> [] \<and> long \<in> long_name ` set (options cp)"
  by (metis find_long_None)

lemma short_taken: "short \<noteq> nul \<and> find_short cp short \<noteq> None \<longleftrightarrow> short \<noteq> nul \<and> short \<in> short_name ` set (options cp)"
  by (metis find_short_None)

lemma make_named_spec_Inl: "(\<exists>e. make_named_spec long short descr cp = Inl (Logic_error e)) \<longleftrightarrow> name_clash long short cp"
  unfolding make_named_spec_def long_taken short_taken name_clash_def by simp

lemma make_named_spec_Inr:
  "make_named_spec long short descr cp = Inr spec \<Longrightarrow>
    \<not> name_clash long short cp \<and> spec = default_spec\<lparr>long_name := long, short_name := short, opt_help := descr\<rparr>"
  unfolding make_named_spec_def long_taken short_taken name_clash_def by (simp split: if_splits)

lemma make_named_spec_total:
  "(\<exists>e. make_named_spec long short descr cp = Inl (Logic_error e)) \<or> (\<exists>spec. make_named_spec long short descr cp = Inr spec)"
  by (simp add: make_named_spec_def)

lemma make_named_spec_cases:
  obtains e where "make_named_spec long short descr cp = Inl (Logic_error e)"
  | spec where "make_named_spec long short descr cp = Inr spec"
  by (meson make_named_spec_total)

lemma registered_add_option:
  assumes "registered cp" and "\<not> name_clash (long_name spec) (short_name spec) cp" and "\<not> is_help spec"
  shows "registered (cp\<lparr>options := options cp @ [spec]\<rparr>)"
  using assms by (auto simp: registered_def name_clash_def intro!: unique_names_snoc)

lemma register_misuse: "(\<exists>e. register r cp = Inl (Logic_error e)) \<longleftrightarrow> misuse r cp"
proof (cases r)
  case (Flag long short descr addr)
  then show ?thesis using make_named_spec_Inl [of long short descr cp]
    by (cases rule: make_named_spec_cases [of long short descr cp]) (simp_all add: add_flag_def)
next
  case (Option long short descr addr ty req val_name)
  then show ?thesis using make_named_spec_Inl [of long short descr cp]
    by (cases rule: make_named_spec_cases [of long short descr cp]) (simp_all add: add_option_def)
next
  case Positional
  then show ?thesis by (auto simp: add_positional_def list_ex_iff)
qed

lemma register_keeps:
  assumes "registered cp" and "register r cp = Inr cp'"
  shows "registered cp'"
proof (cases r)
  case (Positional name descr addr ty req)
  then have "cp' = cp\<lparr>positionals := positionals cp @
      [\<lparr>pos_name = name, pos_help = descr, pos_required = req, pos_seen = False, pos_address = addr, pos_type = ty\<rparr>]\<rparr>"
      and "name \<noteq> []" "name \<notin> pos_name ` set (positionals cp)"
    using assms(2) by (auto simp: add_positional_def list_ex_iff split: if_splits)
  then show ?thesis using assms(1) by (auto simp: registered_def intro!: unique_names_snoc)
qed (use assms in \<open>auto simp: add_flag_def add_option_def default_spec_def split: sum.splits
      dest!: make_named_spec_Inr intro!: registered_add_option\<close>)

lemma register_all_keeps: "register_all rs cp = Inr cp' \<Longrightarrow> registered cp \<Longrightarrow> registered cp'"
  by (induction rs arbitrary: cp) (auto split: sum.splits dest: register_keeps)

lemma registered_construct: "registered (cli_construct name desc)"
  by (simp add: registered_def cli_construct_def unique_names_def default_spec_def)

lemma find_registered:
  assumes "registered cp" and "k < length (options cp)"
  shows "long_name (options cp ! k) \<noteq> [] \<longrightarrow> find_long cp (long_name (options cp ! k)) = Some k"
    and "short_name (options cp ! k) \<noteq> nul \<longrightarrow> find_short cp (short_name (options cp ! k)) = Some k"
  using assms by (auto simp: find_long_def find_short_def find_index_Some registered_def unique_names_def
      dest: less_trans)

text \<open>
  Whatever is registered in whatever order on a new parser, as long as no call throws,
  every option is found under its own long name and under its own short name, the only option that
  asks for help is the one the constructor registered, and no two positionals share a name. A further
  registration throws \<open>std::logic_error\<close> exactly when it has no name or one that is taken.
\<close>

theorem cli_registration_unique:
  assumes "register_all rs (cli_construct name desc) = Inr cp"
  shows "(\<forall>k < length (options cp).
       (long_name (options cp ! k) \<noteq> [] \<longrightarrow> find_long cp (long_name (options cp ! k)) = Some k) \<and>
       (short_name (options cp ! k) \<noteq> nul \<longrightarrow> find_short cp (short_name (options cp ! k)) = Some k) \<and>
       (is_help (options cp ! k) \<longleftrightarrow> k = 0)) \<and>
    distinct (map pos_name (positionals cp)) \<and>
    (\<forall>r. (\<exists>e. register r cp = Inl (Logic_error e)) \<longleftrightarrow> misuse r cp)"
proof -
  have reg: "registered cp" using register_all_keeps [OF assms registered_construct] .
  have "is_help (options cp ! k) \<longleftrightarrow> k = 0" if "k < length (options cp)" for k
    using reg that by (cases "options cp"; cases k) (auto simp: registered_def list_all_length)
  moreover have "distinct (map pos_name (positionals cp))"
    using reg by (auto simp: registered_def unique_names_def distinct_conv_nth list_all_length)
  ultimately show ?thesis using find_registered [OF reg] register_misuse by simp
qed

theorem cli_registration_unique_witness:
  "\<exists>cp. register_all [Flag ''verbose'' CHR ''v'' [] 0, Positional ''input'' [] 1 TString True] (cli_construct ''tool'' []) = Inr cp \<and>
     find_short cp CHR ''v'' = Some 1 \<and> (\<exists>e. register (Flag ''help'' nul [] 2) cp = Inl (Logic_error e))"
proof -
  let ?rs = "[Flag ''verbose'' CHR ''v'' [] 0, Positional ''input'' [] 1 TString True]"
  obtain cp where cp: "register_all ?rs (cli_construct ''tool'' []) = Inr cp" and
      opts: "length (options cp) = 2" "short_name (options cp ! 1) = CHR ''v''" "misuse (Flag ''help'' nul [] 2) cp"
    by (simp add: add_flag_def add_positional_def make_named_spec_def cli_construct_def find_long_def find_short_def
        default_spec_def name_clash_def)
  have "find_short cp CHR ''v'' = Some 1" "\<exists>e. register (Flag ''help'' nul [] 2) cp = Inl (Logic_error e)"
    using cli_registration_unique [OF cp] opts by (auto dest: spec [of _ 1] simp del: register.simps misuse.simps)
  then show ?thesis using cp by blast
qed

section \<open>The help text\<close>

definition help_row :: "nat \<Rightarrow> string \<Rightarrow> string \<Rightarrow> string" where
  "help_row width label descr = ''  '' @ label @ replicate (width - length label) CHR '' '' @ ''  '' @ descr @ [CHR 0x0A]"

definition usage_word :: "positional_spec \<Rightarrow> string" where
  "usage_word p = (if pos_required p then '' <'' @ pos_name p @ ''>'' else '' ['' @ pos_name p @ '']'')"

definition help_labels :: "cli_parser \<Rightarrow> string list" where
  "help_labels cp = map pos_name (positionals cp) @ map option_label (options cp)"

lemma view_append_spaces: "sb_view (append_spaces out n) = sb_view out @ replicate n CHR '' ''"
  by (induction n arbitrary: out) (simp_all add: replicate_app_Cons_same)

lemma view_append_help_row: "sb_view (append_help_row out label descr w) = sb_view out @ help_row w label descr"
  by (simp add: append_help_row_def help_row_def view_append_spaces)

lemma view_rows:
  "sb_view (foldl (\<lambda>out x. append_help_row out (f x) (g x) w) out xs) = sb_view out @ concat (map (\<lambda>x. help_row w (f x) (g x)) xs)"
  by (induction xs arbitrary: out) (simp_all add: view_append_help_row)

lemma view_usage: "sb_view (foldl append_usage out ps) = sb_view out @ concat (map usage_word ps)"
  by (induction ps arbitrary: out) (simp_all add: append_usage_def usage_word_def)

lemma foldl_max: "foldl (\<lambda>w x. max w (length (f x))) w xs = Max (insert w (set (map (length \<circ> f) xs)))"
proof (induction xs arbitrary: w)
  case (Cons x xs)
  then show ?case by (cases "xs = []") (simp_all add: max.assoc)
qed simp

lemma label_column_width_max: "label_column_width cp = Max (insert 0 (length ` set (help_labels cp)))"
proof -
  have "foldl (\<lambda>w x. max w (length x)) 0 (help_labels cp) = label_column_width cp"
    by (simp add: label_column_width_def help_labels_def foldl_map)
  then show ?thesis using foldl_max [of id 0 "help_labels cp"] by (simp add: image_image)
qed

text \<open>
  The help text is the usage line with every positional, the description, and one line
  for each positional and each option. The label column is as wide as the longest label and no
  wider, so that in every line the help text starts in the same column.
\<close>

theorem cli_help_layout:
  "cli_help cp =
     ''Usage: '' @ program_name cp @ (if options cp = [] then [] else '' [OPTIONS]'') @
     concat (map usage_word (positionals cp)) @ [CHR 0x0A] @
     (if description cp = [] then [] else [CHR 0x0A] @ description cp @ [CHR 0x0A]) @
     (if positionals cp = [] then []
      else [CHR 0x0A] @ ''Positional arguments:'' @ [CHR 0x0A] @
        concat (map (\<lambda>p. help_row (label_column_width cp) (pos_name p) (pos_help p)) (positionals cp))) @
     [CHR 0x0A] @ ''Options:'' @ [CHR 0x0A] @
     concat (map (\<lambda>opt. help_row (label_column_width cp) (option_label opt) (option_help opt)) (options cp)) \<and>
   label_column_width cp = Max (insert 0 (length ` set (help_labels cp))) \<and>
   (\<forall>label descr. label \<in> set (help_labels cp) \<longrightarrow>
     (\<exists>column. length column = label_column_width cp + 4 \<and>
       help_row (label_column_width cp) label descr = column @ descr @ [CHR 0x0A]))"
proof -
  have take: "snd (sb_take out) = sb_view out" for out by (simp add: sb_take_def sb_view_def)
  have len: "length label \<le> label_column_width cp" if "label \<in> set (help_labels cp)" for label
    using that by (simp add: label_column_width_max)
  have "\<exists>column. length column = label_column_width cp + 4 \<and>
      help_row (label_column_width cp) label descr = column @ descr @ [CHR 0x0A]"
    if "label \<in> set (help_labels cp)" for label descr
    using len [OF that]
    by (intro exI [of _ "''  '' @ label @ replicate (label_column_width cp - length label) CHR '' '' @ ''  ''"])
      (simp add: help_row_def)
  then show ?thesis
    by (simp add: cli_help_def Let_def take view_rows view_usage label_column_width_max
        sb_empty_builder_def) (simp add: sb_view_def)
qed

theorem cli_help_layout_witness:
  "\<exists>column. length column = label_column_width (cli_construct ''tool'' []) + 4 \<and>
     help_row (label_column_width (cli_construct ''tool'' [])) ''-h, --help'' ''Show'' = column @ ''Show'' @ [CHR 0x0A]"
proof -
  have "''-h, --help'' \<in> set (help_labels (cli_construct ''tool'' []))"
    by (simp add: help_labels_def cli_construct_def option_label_def default_spec_def)
  then show ?thesis using cli_help_layout [of "cli_construct ''tool'' []"] by blast
qed

end
