(* ===== verification/Cli_Parsing.thy ===== *)
theory Cli_Parsing
  imports Cli_Registration
begin

text \<open>
  What \<open>CliParser::parse\<close> promises (cli\_parser.hpp). Every write to a bound variable goes
  through three operations, so that a property of parser and variables is proved for them once, in a
  locale, and holds for every argument vector.
\<close>

section \<open>Invariants of parsing\<close>

locale cli_invariant =
  fixes fp :: "nat \<Rightarrow> string \<Rightarrow> 'f option" and P :: "cli_parser \<times> 'f store \<Rightarrow> bool"
  assumes flag: "P s \<Longrightarrow> k < length (options (fst s)) \<Longrightarrow> \<not> is_help (options (fst s) ! k) \<Longrightarrow>
      \<not> takes_value (options (fst s) ! k) \<Longrightarrow> P (raise_flag k s)"
    and assigned: "P s \<Longrightarrow> k < length (options (fst s)) \<Longrightarrow> takes_value (options (fst s) ! k) \<Longrightarrow>
      cli_parse fp (opt_type (options (fst s) ! k)) x = Some v \<Longrightarrow>
      P (see_option k (fst s), (snd s)(opt_address (options (fst s) ! k) := v))"
    and positional: "P s \<Longrightarrow> k < length (positionals (fst s)) \<Longrightarrow>
      cli_parse fp (pos_type (positionals (fst s) ! k)) x = Some v \<Longrightarrow>
      P (see_positional k (fst s), (snd s)(pos_address (positionals (fst s) ! k) := v))"
begin

lemma keeps_assign:
  "P s \<Longrightarrow> k < length (options (fst s)) \<Longrightarrow> takes_value (options (fst s) ! k) \<Longrightarrow>
    P (fst (assign_option fp k label x s))"
  by (auto simp: assign_option_def Let_def intro: assigned split: option.splits)

lemma keeps_long: "P s \<Longrightarrow> P (fst (fst (parse_long fp body args i s)))"
  by (auto simp: parse_long_def Let_def dest!: find_long_Some intro: flag keeps_assign
      split: prod.splits option.splits)

lemma keeps_short: "P s \<Longrightarrow> P (fst (fst (short_loop body fp args i s)))"
proof (induction body arbitrary: s)
  case (Cons c body)
  show ?case
    using Cons.prems by (auto simp: Let_def dest!: find_short_Some intro: Cons.IH flag keeps_assign split: option.splits)
qed simp

lemma keeps_positional: "P s \<Longrightarrow> P (fst (fst (consume_positional fp token k s)))"
  by (auto simp: consume_positional_def Let_def intro: positional split: option.splits)

lemma keeps_loop: "P s \<Longrightarrow> P (fst (parse_loop fp args i k ended s))"
proof (induction "length args - i" arbitrary: i k ended s rule: less_induct)
  case less
  show ?case
  proof (cases "i < length args")
    case True
    have "i \<le> snd (parse_long fp (drop 2 (args ! i)) args i s)" "i \<le> snd (parse_short fp (drop 1 (args ! i)) args i s)"
      by (rule parse_long_index, rule parse_short_index)
    moreover have "P (fst (parse_loop fp args j k' e t))" if "P t" "i < j" for j k' e t
      using less.hyps [of j t k' e] that True by simp
    ultimately show ?thesis
      using True less.prems keeps_long [OF less.prems] keeps_short [OF less.prems] keeps_positional [OF less.prems]
      by (subst parse_loop.simps) (simp add: Let_def parse_short_def)
  qed (use less.prems in \<open>simp add: parse_loop.simps\<close>)
qed

lemma keeps: "P (clear_seen (fst s), snd s) \<Longrightarrow> P (fst (parse fp args s))"
  unfolding parse_def by (rule keeps_loop)

end

section \<open>The frame of parsing\<close>

text \<open>
  Only the seen marks of the specifications change, and a variable changes only by a successful match
  of a specification that is bound to it.
\<close>

definition matched :: "cli_parser \<Rightarrow> nat \<Rightarrow> bool" where
  "matched cp a \<longleftrightarrow> list_ex (\<lambda>opt. opt_seen opt \<and> opt_address opt = a) (options cp) \<or>
     list_ex (\<lambda>p. pos_seen p \<and> pos_address p = a) (positionals cp)"

definition frame_inv :: "cli_parser \<Rightarrow> 'f store \<Rightarrow> cli_parser \<times> 'f store \<Rightarrow> bool" where
  "frame_inv cp st s \<longleftrightarrow> clear_seen (fst s) = clear_seen cp \<and> (\<forall>a. snd s a \<noteq> st a \<longrightarrow> matched (fst s) a)"

lemma clear_seen_idem [simp]: "clear_seen (clear_seen cp) = clear_seen cp"
  by (simp add: clear_seen_def)

lemma clear_see_option [simp]: "k < length (options cp) \<Longrightarrow> clear_seen (see_option k cp) = clear_seen cp"
  by (auto simp: clear_seen_def see_option_def map_update list_update_same_conv)

lemma clear_see_positional [simp]: "k < length (positionals cp) \<Longrightarrow> clear_seen (see_positional k cp) = clear_seen cp"
  by (auto simp: clear_seen_def see_positional_def map_update list_update_same_conv)

lemma matched_see_option: 
  "k < length (options cp) \<Longrightarrow> matched (see_option k cp) a \<longleftrightarrow> matched cp a \<or> opt_address (options cp ! k) = a"
  by (auto simp: matched_def see_option_def list_ex_length nth_list_update split: if_splits) 

lemma matched_see_positional: 
  "k < length (positionals cp) \<Longrightarrow> matched (see_positional k cp) a \<longleftrightarrow> matched cp a \<or> pos_address (positionals cp ! k) = a"
  by (auto simp: matched_def see_positional_def list_ex_length nth_list_update split: if_splits)

interpretation frame: cli_invariant fp "frame_inv cp st" for fp :: "nat \<Rightarrow> string \<Rightarrow> 'f option" and cp st
  by unfold_locales (auto simp: frame_inv_def raise_flag_def matched_see_option matched_see_positional)

section \<open>The types of the variables\<close>

definition has_type :: "'f cli_value \<Rightarrow> cli_type \<Rightarrow> bool" where
  "has_type v ty =
     (case (v, ty) of
        (VString _, TString) \<Rightarrow> True | (VBool _, TBool) \<Rightarrow> True | (VFloat _, TFloat _) \<Rightarrow> True
      | (VInt n, TInt is_signed w) \<Rightarrow> int_min is_signed w \<le> n \<and> n \<le> int_max is_signed w
      | _ \<Rightarrow> False)"

definition bindings_typed :: "(nat \<Rightarrow> cli_type) \<Rightarrow> cli_parser \<Rightarrow> bool" where
  "bindings_typed ty cp \<longleftrightarrow>
     list_all (\<lambda>opt. is_help opt \<or> ty (opt_address opt) = (if takes_value opt then opt_type opt else TBool)) (options cp) \<and>
     list_all (\<lambda>p. ty (pos_address p) = pos_type p) (positionals cp)"

definition typed_inv :: "(nat \<Rightarrow> cli_type) \<Rightarrow> cli_parser \<times> 'f store \<Rightarrow> bool" where
  "typed_inv ty s \<longleftrightarrow> bindings_typed ty (fst s) \<and> list_all (\<lambda>opt. is_help opt \<longrightarrow> \<not> takes_value opt) (options (fst s)) \<and>
     (\<forall>a. has_type (snd s a) (ty a))"

lemma cli_parse_typed: "cli_parse fp ty x = Some v \<Longrightarrow> has_type v ty"
  by (cases ty) (auto simp: has_type_def cli_parse_int_def dest: from_chars_int_range split: option.splits if_splits)

lemma bindings_typed_see:
  "k < length (options cp) \<Longrightarrow> bindings_typed ty cp \<Longrightarrow> bindings_typed ty (see_option k cp)"
  "k < length (positionals cp) \<Longrightarrow> bindings_typed ty cp \<Longrightarrow> bindings_typed ty (see_positional k cp)"
  by (auto simp: bindings_typed_def see_option_def see_positional_def list_all_length nth_list_update)

interpretation typed: cli_invariant fp "typed_inv ty" for fp :: "nat \<Rightarrow> string \<Rightarrow> 'f option" and ty
proof (unfold_locales, goal_cases)
  case (1 s k)
  then have "ty (opt_address (options (fst s) ! k)) = TBool" by (auto simp: typed_inv_def bindings_typed_def list_all_length)
  with 1 show ?case
    by (auto simp: typed_inv_def raise_flag_def bindings_typed_see)
      (auto simp: has_type_def see_option_def list_all_length nth_list_update)
next
  case (2 s k x v)
  then have "ty (opt_address (options (fst s) ! k)) = opt_type (options (fst s) ! k)"
    by (auto simp: typed_inv_def bindings_typed_def list_all_length)
  with 2 show ?case
    by (auto simp: typed_inv_def bindings_typed_see dest: cli_parse_typed)
      (auto simp: see_option_def list_all_length nth_list_update)
next
  case (3 s k x v)
  then have "ty (pos_address (positionals (fst s) ! k)) = pos_type (positionals (fst s) ! k)"
    by (auto simp: typed_inv_def bindings_typed_def list_all_length)
  with 3 show ?case
    by (auto simp: typed_inv_def bindings_typed_see dest: cli_parse_typed) (auto simp: see_positional_def)
qed

section \<open>Results\<close>

definition coherent :: "parse_result \<Rightarrow> bool" where
  "coherent r \<longleftrightarrow> (pr_error r = None_error \<longleftrightarrow> pr_ok r \<or> pr_help_requested r) \<and> \<not> (pr_ok r \<and> pr_help_requested r)"

definition required_seen :: "cli_parser \<Rightarrow> bool" where
  "required_seen cp \<longleftrightarrow> list_all (\<lambda>opt. opt_required opt \<longrightarrow> opt_seen opt) (options cp) \<and>
     list_all (\<lambda>p. pos_required p \<longrightarrow> pos_seen p) (positionals cp)"

lemmas pr_simps = pr_success_def pr_help_def pr_failure_def pr_ok_def pr_help_requested_def

lemma pr_ok_success [simp]: "pr_ok pr_success" "\<not> pr_ok pr_help" "\<not> pr_ok (pr_failure e m)"
  by (simp_all add: pr_simps)

lemma coherent_simps [simp]: "coherent pr_success" "coherent pr_help" "coherent (pr_failure e m) \<longleftrightarrow> e \<noteq> None_error"
  by (simp_all add: coherent_def pr_simps)

lemma coherent_required: "coherent (check_required cp)"
  by (simp add: check_required_def split: option.splits)

lemma list_all_find: "list_all (\<lambda>x. p x \<longrightarrow> q x) xs \<longleftrightarrow> find (\<lambda>x. p x \<and> \<not> q x) xs = None"
  by (induction xs) auto

lemma check_required_ok: "pr_ok (check_required cp) \<longleftrightarrow> required_seen cp"
  by (simp add: check_required_def required_seen_def list_all_find split: option.splits)

lemma coherent_assign: "coherent (snd (assign_option fp k label x s))"
  by (simp add: assign_option_def Let_def split: option.splits)

lemma coherent_long: "coherent (snd (fst (parse_long fp body args i s)))"
  by (simp add: parse_long_def Let_def coherent_assign split: prod.splits option.splits)

lemma coherent_short: "coherent (snd (fst (short_loop body fp args i s)))"
  by (induction body fp args i s rule: short_loop.induct) (simp_all add: Let_def coherent_assign split: option.splits)

lemma coherent_positional: "coherent (snd (fst (consume_positional fp token k s)))"
  by (simp add: consume_positional_def Let_def split: option.splits)

definition outcome_ok :: "(cli_parser \<times> 'f store) \<times> parse_result \<Rightarrow> bool" where
  "outcome_ok x \<longleftrightarrow> coherent (snd x) \<and> (pr_ok (snd x) \<longrightarrow> required_seen (fst (fst x)))"

lemma outcome_ok_error: "coherent (snd x) \<Longrightarrow> \<not> pr_ok (snd x) \<Longrightarrow> outcome_ok x"
  by (simp add: outcome_ok_def)

lemma parse_loop_result: "outcome_ok (parse_loop fp args i k ended s)"
proof (induction "length args - i" arbitrary: i k ended s rule: less_induct)
  case less
  show ?case
  proof (cases "i < length args")
    case True
    have "i \<le> snd (parse_long fp (drop 2 (args ! i)) args i s)" "i \<le> snd (parse_short fp (drop 1 (args ! i)) args i s)"
      by (rule parse_long_index, rule parse_short_index)
    moreover have "outcome_ok (parse_loop fp args j k' e t)" if "i < j" for j k' e t
      using less.hyps [of j k' e t] that True by simp
    ultimately show ?thesis using True
      by (subst parse_loop.simps)
        (simp add: Let_def parse_short_def outcome_ok_error coherent_long coherent_short coherent_positional)
  next
    case False
    then show ?thesis
      by (subst parse_loop.simps) (simp add: outcome_ok_def coherent_required check_required_ok)
  qed
qed

text \<open>
  For every parser, every argument vector and whatever the outcome, parsing changes the
  specifications only in their seen marks, and changes a bound variable only where an option or
  positional bound to it was matched; every other variable keeps its default. Success means that
  everything required was matched, and there is an error code exactly when the result is neither success
  nor a request for help.
\<close>

theorem cli_parse_frame:
  assumes "parse fp args (cp, st) = ((cp', st'), r)"
  shows "clear_seen cp' = clear_seen cp \<and> (\<forall>a. st' a \<noteq> st a \<longrightarrow> matched cp' a) \<and>
    (pr_ok r \<longrightarrow> required_seen cp') \<and> (pr_error r = None_error \<longleftrightarrow> pr_ok r \<or> pr_help_requested r)"
proof -
  have "frame_inv cp st (clear_seen cp, st)" by (simp add: frame_inv_def)
  then have "frame_inv cp st (fst (parse fp args (cp, st)))" by (intro frame.keeps) simp
  moreover have "coherent r \<and> (pr_ok r \<longrightarrow> required_seen cp')"
    using parse_loop_result [of fp args 0 0 False "(clear_seen cp, st)"] assms by (simp add: parse_def outcome_ok_def)
  ultimately show ?thesis using assms by (auto simp: frame_inv_def coherent_def)
qed

definition tool :: cli_parser where
  "tool = \<lparr>program_name = ''tool'', description = [],
     options = [default_spec\<lparr>long_name := ''help'', short_name := CHR ''h'', is_help := True\<rparr>,
       default_spec\<lparr>long_name := ''verbose'', short_name := CHR ''v'', opt_address := 1\<rparr>,
       default_spec\<lparr>long_name := ''count'', short_name := CHR ''c'', takes_value := True, opt_address := 2,
         opt_type := TInt True 32\<rparr>],
     positionals = [\<lparr>pos_name = ''input'', pos_help = [], pos_required = True, pos_seen = False, pos_address = 3,
       pos_type = TString\<rparr>]\<rparr>"

theorem cli_parse_frame_witness:
  "\<exists>cp' r. parse (\<lambda>_ _. None) [''-vc7''] (tool, \<lambda>_. VBool False :: unit cli_value) =
       ((cp', (\<lambda>_. VBool False)(1 := VBool True, 2 := VInt 7)), r) \<and>
     pr_error r = Missing_required \<and> \<not> pr_help_requested r \<and> clear_seen cp' = clear_seen tool"
proof -
  let ?r = "parse (\<lambda>_ _. None) [''-vc7''] (tool, \<lambda>_. VBool False :: unit cli_value)"
  have seven: "cli_parse_int True 32 ''7'' = Some 7" by code_simp
  have r: "snd (fst ?r) = (\<lambda>_. VBool False)(1 := VBool True, 2 := VInt 7)" "pr_error (snd ?r) = Missing_required"
    by (simp_all add: parse_def parse_loop.simps [of _ _ 0] parse_loop.simps [of _ _ "Suc 0"] parse_short_def
        find_short_def tool_def clear_seen_def default_spec_def raise_flag_def see_option_def assign_option_def seven
        check_required_def pr_failure_def pr_success_def pr_ok_def)
  obtain cp' st' r' where eq: "?r = ((cp', st'), r')" by (metis prod.exhaust)
  from cli_parse_frame [OF eq] r show ?thesis unfolding eq by auto
qed



end
