(* ===== verification/Cli_Grammar.thy ===== *)
theory Cli_Grammar
  imports Cli_Parsing
begin

text \<open>
  The grammar of the command line (documentation of \<open>CliParser\<close>, cli\_parser.hpp) and the refinement of
  its meaning by the scan of the tokens: a command line is a sequence of items, each written as one or two
  tokens, and each stands for flags that are raised, values that are given to options, and
  positionals.
\<close>

section \<open>Items, tokens, actions\<close>

datatype cli_item =
    Long_flag string
  | Long_inline string string
  | Long_separate string string
  | Short_flags string
  | Short_attached string char string
  | Short_equals string char string
  | Short_separate string char string
  | Plain_word string

fun item_tokens :: "cli_item \<Rightarrow> string list" where
  "item_tokens (Long_flag n) = [''--'' @ n]"
| "item_tokens (Long_inline n x) = [''--'' @ n @ ''='' @ x]"
| "item_tokens (Long_separate n x) = [''--'' @ n, x]"
| "item_tokens (Short_flags cs) = [''-'' @ cs]"
| "item_tokens (Short_attached cs c x) = [''-'' @ cs @ c # x]"
| "item_tokens (Short_equals cs c x) = [''-'' @ cs @ c # ''='' @ x]"
| "item_tokens (Short_separate cs c x) = [''-'' @ cs @ [c], x]"
| "item_tokens (Plain_word w) = [w]"

text \<open>A command line ends with its items, or with \<open>--\<close> and words that are all positional.\<close>

fun command_tokens :: "cli_item list \<Rightarrow> string list option \<Rightarrow> string list" where
  "command_tokens items None = concat (map item_tokens items)"
| "command_tokens items (Some ws) = concat (map item_tokens items) @ ''--'' # ws"

definition is_flag :: "cli_parser \<Rightarrow> nat option \<Rightarrow> bool" where
  "is_flag cp k = (case k of None \<Rightarrow> False | Some k \<Rightarrow> \<not> is_help (options cp ! k) \<and> \<not> takes_value (options cp ! k))"

definition is_value :: "cli_parser \<Rightarrow> nat option \<Rightarrow> bool" where
  "is_value cp k = (case k of None \<Rightarrow> False | Some k \<Rightarrow> \<not> is_help (options cp ! k) \<and> takes_value (options cp ! k))"

definition long_ok :: "string \<Rightarrow> bool" where
  "long_ok n \<longleftrightarrow> CHR ''='' \<notin> set n"

definition cluster_ok :: "cli_parser \<Rightarrow> string \<Rightarrow> string \<Rightarrow> bool" where
  "cluster_ok cp cs end_part \<longleftrightarrow> cs @ end_part \<noteq> [] \<and> hd (cs @ end_part) \<noteq> CHR ''-'' \<and>
     list_all (\<lambda>c. is_flag cp (find_short cp c)) cs"

fun item_valid :: "cli_parser \<Rightarrow> cli_item \<Rightarrow> bool" where
  "item_valid cp (Long_flag n) \<longleftrightarrow> long_ok n \<and> is_flag cp (find_long cp n)"
| "item_valid cp (Long_inline n x) \<longleftrightarrow> long_ok n \<and> is_value cp (find_long cp n)"
| "item_valid cp (Long_separate n x) \<longleftrightarrow> long_ok n \<and> is_value cp (find_long cp n)"
| "item_valid cp (Short_flags cs) \<longleftrightarrow> cluster_ok cp cs []"
| "item_valid cp (Short_attached cs c x) \<longleftrightarrow> cluster_ok cp cs [c] \<and> is_value cp (find_short cp c) \<and> x \<noteq> [] \<and> hd x \<noteq> CHR ''=''"
| "item_valid cp (Short_equals cs c x) \<longleftrightarrow> cluster_ok cp cs [c] \<and> is_value cp (find_short cp c)"
| "item_valid cp (Short_separate cs c x) \<longleftrightarrow> cluster_ok cp cs [c] \<and> is_value cp (find_short cp c)"
| "item_valid cp (Plain_word w) \<longleftrightarrow> length w < 2 \<or> hd w \<noteq> CHR ''-''"

datatype action = Raise nat | Give nat string string | Take string

definition raises :: "cli_parser \<Rightarrow> string \<Rightarrow> action list" where
  "raises cp cs = map (\<lambda>c. Raise (the (find_short cp c))) cs"

fun item_actions :: "cli_parser \<Rightarrow> cli_item \<Rightarrow> action list" where
  "item_actions cp (Long_flag n) = [Raise (the (find_long cp n))]"
| "item_actions cp (Long_inline n x) = [Give (the (find_long cp n)) (''--'' @ n) x]"
| "item_actions cp (Long_separate n x) = [Give (the (find_long cp n)) (''--'' @ n) x]"
| "item_actions cp (Short_flags cs) = raises cp cs"
| "item_actions cp (Short_attached cs c x) = raises cp cs @ [Give (the (find_short cp c)) (''-'' @ [c]) x]"
| "item_actions cp (Short_equals cs c x) = raises cp cs @ [Give (the (find_short cp c)) (''-'' @ [c]) x]"
| "item_actions cp (Short_separate cs c x) = raises cp cs @ [Give (the (find_short cp c)) (''-'' @ [c]) x]"
| "item_actions cp (Plain_word w) = [Take w]"

fun command_actions :: "cli_parser \<Rightarrow> cli_item list \<Rightarrow> string list option \<Rightarrow> action list" where
  "command_actions cp items None = concat (map (item_actions cp) items)"
| "command_actions cp items (Some ws) = concat (map (item_actions cp) items) @ map Take ws"

text \<open>The actions one after the other, up to the first that fails.\<close>

fun run_actions ::
  "action list \<Rightarrow> (nat \<Rightarrow> string \<Rightarrow> 'f option) \<Rightarrow> nat \<Rightarrow> cli_parser \<times> 'f store \<Rightarrow>
    ((cli_parser \<times> 'f store) \<times> parse_result) \<times> nat" where
  "run_actions [] fp k s = ((s, pr_success), k)"
| "run_actions (Raise j # as) fp k s = run_actions as fp k (raise_flag j s)"
| "run_actions (Give j label x # as) fp k s =
     (let r = assign_option fp j label x s in
      if \<not> pr_ok (snd r) then (r, k) else run_actions as fp k (fst r))"
| "run_actions (Take w # as) fp k s =
     (let r = consume_positional fp w k s in
      if \<not> pr_ok (snd (fst r)) then r else run_actions as fp (snd r) (fst (fst r)))"

definition finish :: "((cli_parser \<times> 'f store) \<times> parse_result) \<times> nat \<Rightarrow> (cli_parser \<times> 'f store) \<times> parse_result" where
  "finish r = (if \<not> pr_ok (snd (fst r)) then fst r else (fst (fst r), check_required (fst (fst (fst r)))))"

section \<open>One item\<close>

lemma options_clear: "k < length (options cp) \<Longrightarrow> options (clear_seen cp) ! k = (options cp ! k)\<lparr>opt_seen := False\<rparr>"
  by (simp add: clear_seen_def)

lemma length_options_clear: "length (options (clear_seen cp)) = length (options cp)"
  by (simp add: clear_seen_def)

lemma find_clear: "find_long (clear_seen cp) n = find_long cp n" "find_short (clear_seen cp) c = find_short cp c"
  by (auto simp: find_long_def find_short_def clear_seen_def intro!: find_index_cong)

lemma same_specs:
  assumes "clear_seen cp' = clear_seen cp"
  shows "find_long cp' n = find_long cp n" "find_short cp' c = find_short cp c"
    "is_flag cp' (find_long cp n) = is_flag cp (find_long cp n)" "is_flag cp' (find_short cp c) = is_flag cp (find_short cp c)"
    "is_value cp' (find_long cp n) = is_value cp (find_long cp n)" "is_value cp' (find_short cp c) = is_value cp (find_short cp c)"
proof -
  have len: "length (options cp') = length (options cp)" using length_options_clear assms by metis
  have opt: "is_help (options cp' ! k) = is_help (options cp ! k)" "takes_value (options cp' ! k) = takes_value (options cp ! k)"
    if "k < length (options cp)" for k
    using options_clear [of k cp] options_clear [of k cp'] len that assms
    by (metis option_spec.select_convs(7) option_spec.surjective option_spec.update_convs(8),
        metis option_spec.select_convs(5) option_spec.surjective option_spec.update_convs(8))
  show "find_long cp' n = find_long cp n" "find_short cp' c = find_short cp c" using find_clear assms by metis+
  show "is_flag cp' (find_long cp n) = is_flag cp (find_long cp n)" "is_flag cp' (find_short cp c) = is_flag cp (find_short cp c)"
    "is_value cp' (find_long cp n) = is_value cp (find_long cp n)" "is_value cp' (find_short cp c) = is_value cp (find_short cp c)"
    by (auto simp: is_flag_def is_value_def opt dest!: find_long_Some find_short_Some split: option.splits)
qed

lemma run_actions_append:
  "run_actions (as @ bs) fp k s =
     (let r = run_actions as fp k s in
      if \<not> pr_ok (snd (fst r)) then r else run_actions bs fp (snd r) (fst (fst r)))"
  by (induction as fp k s rule: run_actions.induct) (simp_all add: Let_def)

lemma short_loop_raises:
  assumes "list_all (\<lambda>c. is_flag cp (find_short cp c)) cs" and "clear_seen (fst s) = clear_seen cp"
  shows "\<exists>t. clear_seen (fst t) = clear_seen cp \<and> short_loop (cs @ rest) fp args i s = short_loop rest fp args i t \<and>
    run_actions (raises cp cs @ bs) fp k s = run_actions bs fp k t"
  using assms
proof (induction cs arbitrary: s)
  case (Cons c cs)
  note same = same_specs [OF Cons.prems(2)]
  obtain j where j: "find_short cp c = Some j" "\<not> is_help (options (fst s) ! j)" "\<not> takes_value (options (fst s) ! j)"
    using Cons.prems(1) same(4) [of c] by (auto simp: is_flag_def split: option.splits)
  then have "j < length (options (fst s))" using same(2) find_short_Some by metis
  then have "clear_seen (fst (raise_flag j s)) = clear_seen cp" using Cons.prems(2) by (simp add: raise_flag_def)
  from Cons.IH [OF _ this] Cons.prems(1) j same(2) show ?case by (simp add: raises_def Let_def)
next
  case Nil
  then show ?case by (intro exI [of _ s]) (simp add: raises_def)
qed

lemma value_looked_up:
  assumes "is_value cp k" and "k = find_long cp n \<or> k = find_short cp c" and "clear_seen (fst s) = clear_seen cp"
  obtains j where "k = Some j" "\<not> is_help (options (fst s) ! j)" "takes_value (options (fst s) ! j)"
proof -
  have "is_value (fst s) k" using assms same_specs(5,6) [OF assms(3)] by metis
  then show thesis using that by (auto simp: is_value_def split: option.splits)
qed

lemma split_inline_none: "long_ok n \<Longrightarrow> split_inline n = (n, None)"
proof -
  assume "long_ok n"
  then have "takeWhile (\<lambda>c. c \<noteq> CHR ''='') n = n" by (auto simp: long_ok_def takeWhile_eq_all_conv)
  then show ?thesis by (simp only: split_inline_def Let_def less_irrefl if_False)
qed

lemma split_inline_some: "long_ok n \<Longrightarrow> split_inline (n @ CHR ''='' # x) = (n, Some x)"
proof -
  assume n: "long_ok n"
  have "takeWhile (\<lambda>c. c \<noteq> CHR ''='') (n @ CHR ''='' # x) = n"
    using n by (subst takeWhile_append2) (auto simp: long_ok_def)
  then show ?thesis by (simp add: split_inline_def Let_def)
qed

lemma long_step:
  assumes "drop i args = (''--'' @ body) # later" and "body \<noteq> []"
  shows "parse_loop fp args i k False s =
     (let r = parse_long fp body args i s in
      if \<not> pr_ok (snd (fst r)) then fst r else parse_loop fp args (snd r + 1) k False (fst (fst r)))"
proof -
  have "i < length args" "args ! i = ''--'' @ body"
    using assms(1) by (metis drop_all list.discI not_le, metis hd_drop_conv_nth list.sel(1) drop_all list.discI not_le)
  then show ?thesis using assms(2) by (subst parse_loop.simps) (simp add: Let_def)
qed

lemma short_step:
  assumes "drop i args = (''-'' @ body) # later" and "body \<noteq> []" and "hd body \<noteq> CHR ''-''"
  shows "parse_loop fp args i k False s =
     (let r = short_loop body fp args i s in
      if \<not> pr_ok (snd (fst r)) then fst r else parse_loop fp args (snd r + 1) k False (fst (fst r)))"
proof -
  have "i < length args" "args ! i = ''-'' @ body"
    using assms(1) by (metis drop_all list.discI not_le, metis hd_drop_conv_nth list.sel(1) drop_all list.discI not_le)
  then show ?thesis using assms(2,3) by (cases body) (subst parse_loop.simps, simp add: Let_def parse_short_def)+
qed

lemma second_token: "drop i args = t # x # later \<Longrightarrow> i + 1 < length args \<and> args ! (i + 1) = x"
  by (metis Cons_nth_drop_Suc Suc_eq_plus1 drop_eq_Nil list.distinct(1) list.sel(1) list.sel(3) not_le nth_via_drop)

text \<open>An item is scanned to its end, with the effect of its actions.\<close>

definition item_done ::
  "(nat \<Rightarrow> string \<Rightarrow> 'f option) \<Rightarrow> string list \<Rightarrow> nat \<Rightarrow> nat \<Rightarrow> cli_parser \<times> 'f store \<Rightarrow> cli_parser \<Rightarrow> cli_item \<Rightarrow> bool" where
  "item_done fp args i k s cp it \<longleftrightarrow>
     parse_loop fp args i k False s =
     (let r = run_actions (item_actions cp it) fp k s in
      if \<not> pr_ok (snd (fst r)) then fst r
      else parse_loop fp args (i + length (item_tokens it)) (snd r) False (fst (fst r)))"

lemma item_done_long:
  assumes "drop i args = item_tokens it @ later" and "item_valid cp it" and "clear_seen (fst s) = clear_seen cp"
    and "it = Long_flag n \<or> it = Long_inline n x \<or> it = Long_separate n x"
  shows "item_done fp args i k s cp it"
proof -
  note same = same_specs [OF assms(3)]
  have n: "long_ok n" "find_long cp n \<noteq> None"
    using assms(2,4) by (auto simp: is_flag_def is_value_def split: option.splits)
  then obtain j where j: "find_long cp n = Some j" "find_long (fst s) n = Some j" using same(1) by auto
  then have name: "long_name (options (fst s) ! j) = n" "n \<noteq> []" using find_long_Some by metis+
  have kind: "it = Long_flag n \<longrightarrow> \<not> is_help (options (fst s) ! j) \<and> \<not> takes_value (options (fst s) ! j)"
      "it \<noteq> Long_flag n \<longrightarrow> \<not> is_help (options (fst s) ! j) \<and> takes_value (options (fst s) ! j)"
    using assms(2,4) same(3,5) [of n] j by (auto simp: is_flag_def is_value_def)
  from assms(4) show ?thesis
  proof (elim disjE)
    assume it: "it = Long_flag n"
    then show ?thesis using long_step [of i args n later fp k s] assms(1) name(2) kind j
      by (simp add: item_done_def parse_long_def split_inline_none n(1) Let_def)
  next
    assume it: "it = Long_inline n x"
    then show ?thesis using long_step [of i args "n @ ''='' @ x" later fp k s] assms(1) name kind j
      by (simp add: item_done_def parse_long_def split_inline_some n(1) Let_def)
  next
    assume it: "it = Long_separate n x"
    then have "i + 1 < length args" "args ! (i + 1) = x" using second_token [of i args _ x later] assms(1) by auto
    then show ?thesis using it long_step [of i args n "x # later" fp k s] assms(1) name kind j
      by (simp add: item_done_def parse_long_def split_inline_none n(1) Let_def)
  qed
qed

lemma item_done_short:
  assumes "drop i args = item_tokens it @ later" and "item_valid cp it" and "clear_seen (fst s) = clear_seen cp"
    and "it = Short_flags cs \<or> it = Short_attached cs c x \<or> it = Short_equals cs c x \<or> it = Short_separate cs c x"
  shows "item_done fp args i k s cp it"
  using assms(4)
proof (elim disjE)
  assume it: "it = Short_flags cs"
  then obtain t where "short_loop (cs @ []) fp args i s = short_loop [] fp args i t"
      "run_actions (raises cp cs @ []) fp k s = run_actions [] fp k t"
    using short_loop_raises [OF _ assms(3), of cs "[]" fp args i "[]" k] assms(2) by (auto simp: cluster_ok_def)
  then show ?thesis using it short_step [of i args cs later fp k s] assms(1,2)
    by (simp add: item_done_def Let_def cluster_ok_def)
next
  assume it: "it = Short_attached cs c x"
  let ?a = "[Give (the (find_short cp c)) (''-'' @ [c]) x]"
  obtain t where t: "clear_seen (fst t) = clear_seen cp" "short_loop (cs @ c # x) fp args i s = short_loop (c # x) fp args i t"
      "run_actions (raises cp cs @ ?a) fp k s = run_actions ?a fp k t"
    using short_loop_raises [OF _ assms(3), of cs "c # x" fp args i ?a k] assms(2) it by (auto simp: cluster_ok_def)
  obtain j where "find_short cp c = Some j" "\<not> is_help (options (fst t) ! j)" "takes_value (options (fst t) ! j)"
    using value_looked_up [of cp "find_short cp c" _ c t] assms(2) it t(1) by auto
  then show ?thesis using it t short_step [of i args "cs @ c # x" later fp k s] assms(1,2) same_specs(2) [OF t(1), of c]
    by (cases cs) (simp_all add: item_done_def Let_def cluster_ok_def)
next
  assume it: "it = Short_equals cs c x"
  let ?a = "[Give (the (find_short cp c)) (''-'' @ [c]) x]"
  obtain t where t: "clear_seen (fst t) = clear_seen cp"
      "short_loop (cs @ c # ''='' @ x) fp args i s = short_loop (c # ''='' @ x) fp args i t"
      "run_actions (raises cp cs @ ?a) fp k s = run_actions ?a fp k t"
    using short_loop_raises [OF _ assms(3), of cs "c # ''='' @ x" fp args i ?a k] assms(2) it by (auto simp: cluster_ok_def)
  obtain j where "find_short cp c = Some j" "\<not> is_help (options (fst t) ! j)" "takes_value (options (fst t) ! j)"
    using value_looked_up [of cp "find_short cp c" _ c t] assms(2) it t(1) by auto
  then show ?thesis using it t short_step [of i args "cs @ c # ''='' @ x" later fp k s] assms(1,2) same_specs(2) [OF t(1), of c]
    by (cases cs) (simp_all add: item_done_def Let_def cluster_ok_def)
next
  assume it: "it = Short_separate cs c x"
  let ?a = "[Give (the (find_short cp c)) (''-'' @ [c]) x]"
  obtain t where t: "clear_seen (fst t) = clear_seen cp" "short_loop (cs @ [c]) fp args i s = short_loop [c] fp args i t"
      "run_actions (raises cp cs @ ?a) fp k s = run_actions ?a fp k t"
    using short_loop_raises [OF _ assms(3), of cs "[c]" fp args i ?a k] assms(2) it by (auto simp: cluster_ok_def)
  obtain j where "find_short cp c = Some j" "\<not> is_help (options (fst t) ! j)" "takes_value (options (fst t) ! j)"
    using value_looked_up [of cp "find_short cp c" _ c t] assms(2) it t(1) by auto
  moreover have "i + 1 < length args" "args ! (i + 1) = x" using second_token [of i args _ x later] assms(1) it by auto
  ultimately show ?thesis using it t short_step [of i args "cs @ [c]" "x # later" fp k s] assms(1,2) same_specs(2) [OF t(1), of c]
    by (cases cs) (simp_all add: item_done_def Let_def cluster_ok_def)
qed

lemma word_step:
  assumes "drop i args = w # later" and "ended \<or> length w < 2 \<or> hd w \<noteq> CHR ''-''"
  shows "parse_loop fp args i k ended s =
     (let r = consume_positional fp w k s in
      if \<not> pr_ok (snd (fst r)) then fst r else parse_loop fp args (i + 1) (snd r) ended (fst (fst r)))"
proof -
  have i: "i < length args" "args ! i = w"
    using assms(1) by (metis drop_all list.discI not_le, metis hd_drop_conv_nth list.sel(1) drop_all list.discI not_le)
  have "take 2 w \<noteq> ''--''" "w \<noteq> ''--''" if "length w < 2 \<or> hd w \<noteq> CHR ''-''"
    using that by (cases w; auto)+
  then show ?thesis using i assms(2) by (subst parse_loop.simps) (auto simp: Let_def)
qed

lemma item_done:
  assumes "drop i args = item_tokens it @ later" and "item_valid cp it" and "clear_seen (fst s) = clear_seen cp"
  shows "item_done fp args i k s cp it"
proof (cases it)
  case (Plain_word w)
  then show ?thesis using word_step [of i args w later False fp k s] assms by (simp add: item_done_def Let_def)
qed (use item_done_long [OF assms] item_done_short [OF assms] in blast)+

lemma clear_assign:
  "j < length (options (fst s)) \<Longrightarrow> clear_seen (fst (fst (assign_option fp j label x s))) = clear_seen (fst s)"
  by (simp add: assign_option_def Let_def split: option.splits)

lemma clear_consume: "clear_seen (fst (fst (fst (consume_positional fp w k s)))) = clear_seen (fst s)"
  by (simp add: consume_positional_def Let_def split: option.splits)

fun action_ok :: "cli_parser \<Rightarrow> action \<Rightarrow> bool" where
  "action_ok cp (Raise j) \<longleftrightarrow> j < length (options cp)"
| "action_ok cp (Give j label x) \<longleftrightarrow> j < length (options cp)"
| "action_ok cp (Take w) \<longleftrightarrow> True"

lemma run_actions_clear:
  "list_all (action_ok cp) as \<Longrightarrow> clear_seen (fst s) = clear_seen cp \<Longrightarrow>
    clear_seen (fst (fst (fst (run_actions as fp k s)))) = clear_seen cp"
proof (induction as fp k s rule: run_actions.induct)
  case (2 j as fp k s)
  then have "j < length (options (fst s))" using length_options_clear [of cp] length_options_clear [of "fst s"] by simp
  with 2 show ?case by (simp add: raise_flag_def)
next
  case (3 j label x as fp k s)
  then have "j < length (options (fst s))" using length_options_clear [of cp] length_options_clear [of "fst s"] by simp
  with 3 show ?case by (simp add: Let_def clear_assign)
next
  case (4 w as fp k s)
  then show ?case by (simp add: Let_def clear_consume)
qed simp

lemma looked_up_ok: "find_long cp n \<noteq> None \<Longrightarrow> the (find_long cp n) < length (options cp)"
    "find_short cp c \<noteq> None \<Longrightarrow> the (find_short cp c) < length (options cp)"
  by (auto dest: find_long_Some find_short_Some)

lemma is_flag_Some: "is_flag cp k \<Longrightarrow> k \<noteq> None" and is_value_Some: "is_value cp k \<Longrightarrow> k \<noteq> None"
  by (auto simp: is_flag_def is_value_def split: option.splits)

lemma raises_ok: "cluster_ok cp cs e \<Longrightarrow> list_all (action_ok cp) (raises cp cs)"
  using looked_up_ok(2) is_flag_Some by (fastforce simp: cluster_ok_def raises_def list_all_iff)

lemma item_actions_ok: "item_valid cp it \<Longrightarrow> list_all (action_ok cp) (item_actions cp it)"
  using looked_up_ok is_flag_Some is_value_Some raises_ok by (cases it) auto

section \<open>The whole command line\<close>

lemma loop_end: "drop i args = [] \<Longrightarrow> parse_loop fp args i k ended s = finish ((s, pr_success), k)"
  by (subst parse_loop.simps) (simp add: finish_def)

lemma finish_run_append:
  "finish (run_actions (as @ bs) fp k s) =
     (let r = run_actions as fp k s in
      if \<not> pr_ok (snd (fst r)) then fst r else finish (run_actions bs fp (snd r) (fst (fst r))))"
  by (simp add: run_actions_append Let_def finish_def)

lemma words_done: "drop i args = ws \<Longrightarrow> parse_loop fp args i k True s = finish (run_actions (map Take ws) fp k s)"
proof (induction ws arbitrary: i k s)
  case Nil
  then show ?case by (simp add: loop_end)
next
  case (Cons w ws)
  have "drop (i + 1) args = ws" using Cons.prems by (metis Suc_eq_plus1 drop_Suc list.sel(3) tl_drop)
  from Cons.IH [OF this] word_step [OF Cons.prems, of True fp k s] show ?case by (simp add: Let_def finish_def)
qed

lemma end_of_options: "drop i args = ''--'' # ws \<Longrightarrow> parse_loop fp args i k False s = parse_loop fp args (i + 1) k True s"
proof -
  assume d: "drop i args = ''--'' # ws"
  then have "i < length args" by (metis drop_all list.discI not_le)
  moreover have "args ! i = ''--''" using d by (rule nth_via_drop)
  ultimately show ?thesis by (subst parse_loop.simps) (simp add: Let_def)
qed

lemma command_done:
  assumes "list_all (item_valid cp) items" and "clear_seen (fst s) = clear_seen cp" and "drop i args = command_tokens items tail"
  shows "parse_loop fp args i k False s = finish (run_actions (command_actions cp items tail) fp k s)"
  using assms
proof (induction items arbitrary: i k s)
  case Nil
  show ?case
  proof (cases tail)
    case None
    then show ?thesis using Nil.prems(3) by (simp add: loop_end)
  next
    case (Some ws)
    then have d: "drop i args = ''--'' # ws" using Nil.prems(3) by simp
    then have "drop (i + 1) args = ws" by (metis Suc_eq_plus1 drop_Suc list.sel(3) tl_drop)
    then show ?thesis using end_of_options [OF d, of fp k s] words_done [of "i + 1" args ws fp k s] Some by simp
  qed
next
  case (Cons it items)
  have d: "drop i args = item_tokens it @ command_tokens items tail" using Cons.prems(3) by (cases tail) simp_all
  then have d': "drop (i + length (item_tokens it)) args = command_tokens items tail"
    by (metis add.commute append_eq_conv_conj drop_drop)
  have valid: "item_valid cp it" "list_all (item_valid cp) items" using Cons.prems(1) by simp_all
  have as: "command_actions cp (it # items) tail = item_actions cp it @ command_actions cp items tail"
    by (cases tail) simp_all
  have "clear_seen (fst (fst (fst (run_actions (item_actions cp it) fp k s)))) = clear_seen cp"
    using run_actions_clear [OF item_actions_ok [OF valid(1)] Cons.prems(2)] .
  from Cons.IH [OF valid(2) this d'] item_done [OF d valid(1) Cons.prems(2), of fp k]
  show ?case by (simp add: as finish_run_append item_done_def Let_def)
qed

text \<open>
  Property C4. The scan of the tokens implements the documented grammar: for every command line built
  from flags, options with an inline, attached or separate value, clusters of short flags, words, and
  a tail behind \<open>--\<close>, parsing has exactly the effect of raising the flags, giving the values and taking the
  positionals in the order in which they are written, up to the first conversion that fails, and ends
  with the check for what is required.
\<close>

theorem cli_parse_grammar:
  assumes "list_all (item_valid cp) items"
  shows "parse fp (command_tokens items tail) (cp, st) =
    finish (run_actions (command_actions cp items tail) fp 0 (clear_seen cp, st))"
  using command_done [OF assms, of "(clear_seen cp, st)" 0 "command_tokens items tail" tail fp 0]
  by (simp add: parse_def)

theorem cli_parse_grammar_witness:
  "parse (\<lambda>_ _. None :: unit option) [''-vc'', ''7'', ''--'', ''-x''] (tool, \<lambda>_. VBool False) =
    finish (run_actions [Raise 1, Give 2 ''-c'' ''7'', Take ''-x''] (\<lambda>_ _. None) 0 (clear_seen tool, \<lambda>_. VBool False))"
proof -
  have f: "find_short tool CHR ''v'' = Some 1" "find_short tool CHR ''c'' = Some 2"
    by (simp_all add: find_short_def tool_def default_spec_def)
  have "list_all (item_valid tool) [Short_separate ''v'' CHR ''c'' ''7'']"
    by (simp add: cluster_ok_def is_flag_def is_value_def f) (simp add: tool_def default_spec_def)
  from cli_parse_grammar [OF this, of "\<lambda>_ _. None" "Some [''-x'']" "\<lambda>_. VBool False"] show ?thesis
    by (simp add: raises_def f)
qed

section \<open>Values written and read back\<close>

fun show_value :: "'f cli_value \<Rightarrow> string" where
  "show_value (VString x) = x"
| "show_value (VBool b) = (if b then ''true'' else ''false'')"
| "show_value (VInt n) = int_digits n"
| "show_value (VFloat f) = []"

fun is_float :: "'f cli_value \<Rightarrow> bool" where
  "is_float (VFloat f) \<longleftrightarrow> True"
| "is_float _ \<longleftrightarrow> False"

type_synonym 'f setting = "nat \<times> 'f cli_value"

definition setting_item :: "cli_parser \<Rightarrow> 'f setting \<Rightarrow> cli_item" where
  "setting_item cp x = Long_inline (long_name (options cp ! fst x)) (show_value (snd x))"

definition setting_ok :: "cli_parser \<Rightarrow> 'f setting \<Rightarrow> bool" where
  "setting_ok cp x \<longleftrightarrow> fst x < length (options cp) \<and> long_name (options cp ! fst x) \<noteq> [] \<and> long_ok (long_name (options cp ! fst x)) \<and>
     \<not> is_help (options cp ! fst x) \<and> takes_value (options cp ! fst x) \<and>
     has_type (snd x) (opt_type (options cp ! fst x)) \<and> \<not> is_float (snd x)"

definition store_setting :: "cli_parser \<Rightarrow> 'f store \<Rightarrow> 'f setting \<Rightarrow> 'f store" where
  "store_setting cp st x = st(opt_address (options cp ! fst x) := snd x)"

lemma cli_parse_show: "has_type v ty \<Longrightarrow> \<not> is_float v \<Longrightarrow> cli_parse fp ty (show_value v) = Some v"
  by (cases v; cases ty)
    (auto simp: has_type_def cli_parse_bool_def cli_parse_int_def from_chars_int_digits int_min_def)

lemma setting_actions:
  assumes "registered cp" and "setting_ok cp x"
  shows "item_valid cp (setting_item cp x)"
    and "item_actions cp (setting_item cp x) = [Give (fst x) (''--'' @ long_name (options cp ! fst x)) (show_value (snd x))]"
  using find_registered(1) [OF assms(1), of "fst x"] assms(2) by (auto simp: setting_ok_def setting_item_def is_value_def)

lemma same_binding:
  assumes "clear_seen cp' = clear_seen cp" and "j < length (options cp)"
  shows "opt_type (options cp' ! j) = opt_type (options cp ! j)" "opt_address (options cp' ! j) = opt_address (options cp ! j)"
    "j < length (options cp')"
proof -
  show j: "j < length (options cp')" using assms length_options_clear by metis
  have "(options cp' ! j)\<lparr>opt_seen := False\<rparr> = (options cp ! j)\<lparr>opt_seen := False\<rparr>"
    using options_clear [OF j] options_clear [OF assms(2)] assms(1) by simp
  from arg_cong [OF this, of opt_type] arg_cong [OF this, of opt_address]
  show "opt_type (options cp' ! j) = opt_type (options cp ! j)" "opt_address (options cp' ! j) = opt_address (options cp ! j)"
    by simp_all
qed

lemma run_settings:
  assumes "registered cp" and "list_all (setting_ok cp) xs" and "clear_seen (fst s) = clear_seen cp"
  shows "\<exists>cp'. run_actions (concat (map (item_actions cp) (map (setting_item cp) xs))) fp k s =
      (((cp', foldl (store_setting cp) (snd s) xs), pr_success), k) \<and> clear_seen cp' = clear_seen cp \<and>
    (\<forall>j < length (options cp). opt_seen (options cp' ! j) \<longleftrightarrow> opt_seen (options (fst s) ! j) \<or> j \<in> fst ` set xs)"
  using assms(2,3)
proof (induction xs arbitrary: s)
  case Nil
  then show ?case by (intro exI [of _ "fst s"]) simp
next
  case (Cons x xs)
  have x: "setting_ok cp x" using Cons.prems(1) by simp
  then have j: "fst x < length (options cp)" by (simp add: setting_ok_def)
  note same = same_binding [OF Cons.prems(2) j]
  define t where "t = (see_option (fst x) (fst s), store_setting cp (snd s) x)"
  have "assign_option fp (fst x) (''--'' @ long_name (options cp ! fst x)) (show_value (snd x)) s = (t, pr_success)"
    using x cli_parse_show [of "snd x" "opt_type (options cp ! fst x)" fp]
    by (simp add: assign_option_def same setting_ok_def t_def store_setting_def)
  then have run: "run_actions (concat (map (item_actions cp) (map (setting_item cp) (x # xs)))) fp k s =
      run_actions (concat (map (item_actions cp) (map (setting_item cp) xs))) fp k t"
    by (simp add: setting_actions(2) [OF assms(1) x])
  have "clear_seen (fst t) = clear_seen cp" using Cons.prems(2) same(3) by (simp add: t_def)
  from Cons.IH [OF _ this] Cons.prems(1) obtain cp' where
    ih: "run_actions (concat (map (item_actions cp) (map (setting_item cp) xs))) fp k t =
        (((cp', foldl (store_setting cp) (snd t) xs), pr_success), k)" "clear_seen cp' = clear_seen cp"
      "\<forall>j < length (options cp). opt_seen (options cp' ! j) \<longleftrightarrow> opt_seen (options (fst t) ! j) \<or> j \<in> fst ` set xs"
    by auto
  have "opt_seen (options (fst t) ! i) \<longleftrightarrow> opt_seen (options (fst s) ! i) \<or> i = fst x" if "i < length (options cp)" for i
    using same(3) by (auto simp: t_def see_option_def nth_list_update)
  then show ?case using ih run by (intro exI [of _ cp']) (auto simp: t_def)
qed

text \<open>
  Property C20. Values round-trip through the command line: strings, booleans and integers of every width,
  written as \<open>--name=value\<close> for any sequence of registered options, end up in the variables bound to
  them, the last one winning where an option is repeated; exactly the options that were given are seen, and
  the result is the check for what is required.
\<close>

theorem cli_parse_roundtrip:
  assumes "registered cp" and "list_all (setting_ok cp) xs"
  shows "\<exists>cp'. parse fp (concat (map (item_tokens \<circ> setting_item cp) xs)) (cp, st) =
      ((cp', foldl (store_setting cp) st xs), check_required cp') \<and>
    (\<forall>j < length (options cp). opt_seen (options cp' ! j) \<longleftrightarrow> j \<in> fst ` set xs)"
proof -
  have valid: "list_all (item_valid cp) (map (setting_item cp) xs)"
    using assms setting_actions(1) [OF assms(1)] by (auto simp: list_all_iff)
  obtain cp' where cp': "run_actions (concat (map (item_actions cp) (map (setting_item cp) xs))) fp 0 (clear_seen cp, st) =
        (((cp', foldl (store_setting cp) st xs), pr_success), 0)"
      "\<forall>j < length (options cp). opt_seen (options cp' ! j) \<longleftrightarrow> opt_seen (options (clear_seen cp) ! j) \<or> j \<in> fst ` set xs"
    using run_settings [OF assms, of "(clear_seen cp, st)" fp 0] by auto
  then show ?thesis
    using command_done [OF valid, of "(clear_seen cp, st)" 0 _ None fp 0] by (auto simp: parse_def finish_def options_clear)
qed

theorem cli_parse_roundtrip_witness:
  "\<exists>cp'. parse (\<lambda>_ _. None :: unit option) [''--count=-12''] (tool, \<lambda>_. VBool False) =
     ((cp', (\<lambda>_. VBool False)(2 := VInt (-12))), check_required cp')"
proof -
  have tool: "registered tool"
    by (simp add: registered_def tool_def default_spec_def unique_names_def All_less_Suc numeral_3_eq_3)
  have "list_all (setting_ok tool) [(2, VInt (-12) :: unit cli_value)]"
    by (simp add: setting_ok_def long_ok_def has_type_def int_min_def int_max_def) (simp add: tool_def default_spec_def int_min_def int_max_def)
  moreover have "int_digits (-12) = ''-12''" by code_simp
  moreover have "long_name (options tool ! 2) = ''count''" "opt_address (options tool ! 2) = 2"
    by (simp_all add: tool_def default_spec_def)
  ultimately show ?thesis
    using cli_parse_roundtrip [OF tool, of "[(2, VInt (-12))]" "\<lambda>_ _. None" "\<lambda>_. VBool False"]
    by (auto simp: setting_item_def store_setting_def)
qed

end
