(* ===== verification/Lock_Free_Queue.thy ===== *)
theory Lock_Free_Queue
  imports Bounded_Queue
begin

unbundle bit_operations_syntax

text \<open>
  \<open>LockFreeQueue\<close> (lock\_free\_queue.hpp): Vyukov's bounded queue. Every slot has a sequence number, the two
  ticket counters are 64-bit words that wrap, and the loops of \<open>try_push\<close> and \<open>try_pop\<close> are cut
  into their atomic accesses: one step of a thread is one load, store or compare-exchange. The
  accesses are interleaved sequentially; that the acquire and release orders of the sequence
  numbers make the payload visible is the memory-ordering argument of the repository and is taken as
  given.
\<close>

section \<open>The queue\<close>

record 'a slot =
  sl_sequence :: u64
  sl_value :: "'a option"

record 'a lfq =
  lfq_slots :: "'a slot list"
  lfq_mask :: u64
  enqueue_pos :: u64
  dequeue_pos :: u64

fun bit_ceil :: "nat \<Rightarrow> nat" where
  "bit_ceil n = (if n \<le> 1 then 1 else 2 * bit_ceil ((n + 1) div 2))"

declare bit_ceil.simps [simp del]

definition rounded_capacity :: "size_t \<Rightarrow> nat cpp" where
  "rounded_capacity min_capacity =
     (let largest = push_bit 63 1 in
      if min_capacity = 0 \<or> min_capacity > largest then
        Inl (Invalid_argument ''LockFreeQueue: capacity must be positive and representable'')
      else Inr (bit_ceil (unat min_capacity)))"

definition lfq_construct :: "size_t \<Rightarrow> 'a lfq cpp" where
  "lfq_construct min_capacity =
     (case rounded_capacity min_capacity of
        Inl e \<Rightarrow> Inl e
      | Inr n \<Rightarrow> Inr \<lparr>lfq_slots = map (\<lambda>i. \<lparr>sl_sequence = of_nat i, sl_value = None\<rparr>) [0..<n],
          lfq_mask = of_nat n - 1, enqueue_pos = 0, dequeue_pos = 0\<rparr>)"

definition lfq_capacity :: "'a lfq \<Rightarrow> nat" where
  "lfq_capacity q = unat (lfq_mask q + 1)"

definition slot_index :: "'a lfq \<Rightarrow> u64 \<Rightarrow> nat" where
  "slot_index q pos = unat (pos AND lfq_mask q)"

definition seq_at :: "'a lfq \<Rightarrow> u64 \<Rightarrow> u64" where
  "seq_at q pos = sl_sequence (lfq_slots q ! slot_index q pos)"

definition value_at :: "'a lfq \<Rightarrow> u64 \<Rightarrow> 'a option" where
  "value_at q pos = sl_value (lfq_slots q ! slot_index q pos)"

definition store_seq :: "'a lfq \<Rightarrow> u64 \<Rightarrow> u64 \<Rightarrow> 'a lfq" where
  "store_seq q pos s = q\<lparr>lfq_slots := (lfq_slots q)[slot_index q pos := (lfq_slots q ! slot_index q pos)\<lparr>sl_sequence := s\<rparr>]\<rparr>"

definition store_value :: "'a lfq \<Rightarrow> u64 \<Rightarrow> 'a option \<Rightarrow> 'a lfq" where
  "store_value q pos x = q\<lparr>lfq_slots := (lfq_slots q)[slot_index q pos := (lfq_slots q ! slot_index q pos)\<lparr>sl_value := x\<rparr>]\<rparr>"

section \<open>The steps of a thread\<close>

datatype 'a pc =
    Idle
  | Push_start 'a
  | Push_read 'a u64
  | Push_cas 'a u64
  | Push_emplace 'a u64
  | Push_publish u64
  | Push_done bool
  | Pop_start
  | Pop_read u64
  | Pop_cas u64
  | Pop_take u64
  | Pop_reset "'a option" u64
  | Pop_publish "'a option" u64
  | Pop_done "'a option"

text \<open>\<open>spurious\<close> says that \<open>compare_exchange_weak\<close> fails although the counter has the expected value.\<close>

fun push_step :: "bool \<Rightarrow> 'a lfq \<Rightarrow> 'a pc \<Rightarrow> 'a lfq \<times> 'a pc" where
  "push_step spurious q (Push_start v) = (q, Push_read v (enqueue_pos q))"
| "push_step spurious q (Push_read v pos) =
     (let gap = seq_at q pos - pos in
      if gap = 0 then (q, Push_cas v pos)
      else if sint gap < 0 then (q, Push_done False)
      else (q, Push_start v))"
| "push_step spurious q (Push_cas v pos) =
     (if enqueue_pos q = pos \<and> \<not> spurious then (q\<lparr>enqueue_pos := pos + 1\<rparr>, Push_emplace v pos)
      else (q, Push_read v (enqueue_pos q)))"
| "push_step spurious q (Push_emplace v pos) = (store_value q pos (Some v), Push_publish pos)"
| "push_step spurious q (Push_publish pos) = (store_seq q pos (pos + 1), Push_done True)"
| "push_step spurious q pc = (q, pc)"

fun pop_step :: "bool \<Rightarrow> 'a lfq \<Rightarrow> 'a pc \<Rightarrow> 'a lfq \<times> 'a pc" where
  "pop_step spurious q Pop_start = (q, Pop_read (dequeue_pos q))"
| "pop_step spurious q (Pop_read pos) =
     (let gap = seq_at q pos - (pos + 1) in
      if gap = 0 then (q, Pop_cas pos)
      else if sint gap < 0 then (q, Pop_done None)
      else (q, Pop_start))"
| "pop_step spurious q (Pop_cas pos) =
     (if dequeue_pos q = pos \<and> \<not> spurious then (q\<lparr>dequeue_pos := pos + 1\<rparr>, Pop_take pos)
      else (q, Pop_read (dequeue_pos q)))"
| "pop_step spurious q (Pop_take pos) = (q, Pop_reset (value_at q pos) pos)"
| "pop_step spurious q (Pop_reset r pos) = (store_value q pos None, Pop_publish r pos)"
| "pop_step spurious q (Pop_publish r pos) = (store_seq q pos (pos + lfq_mask q + 1), Pop_done r)"
| "pop_step spurious q pc = (q, pc)"

text \<open>
  Calls with nobody else at the queue. Five and six steps are what a call takes that returns at the first
  attempt; the value is \<open>None\<close> when the call has not returned by then.
\<close>

definition push_steps :: "nat \<Rightarrow> 'a lfq \<Rightarrow> 'a \<Rightarrow> 'a lfq \<times> 'a pc" where
  "push_steps n q v = ((\<lambda>(q, pc). push_step False q pc) ^^ n) (q, Push_start v)"

definition pop_steps :: "nat \<Rightarrow> 'a lfq \<Rightarrow> 'a lfq \<times> 'a pc" where
  "pop_steps n q = ((\<lambda>(q, pc). pop_step False q pc) ^^ n) (q, Pop_start)"

definition lfq_try_push :: "'a lfq \<Rightarrow> 'a \<Rightarrow> ('a lfq \<times> bool) option" where
  "lfq_try_push q v = (case push_steps 5 q v of (q', Push_done ok) \<Rightarrow> Some (q', ok) | _ \<Rightarrow> None)"

definition lfq_try_pop :: "'a lfq \<Rightarrow> ('a lfq \<times> 'a option) option" where
  "lfq_try_pop q = (case pop_steps 6 q of (q', Pop_done r) \<Rightarrow> Some (q', r) | _ \<Rightarrow> None)"

fun lfq_calls :: "'a lfq \<Rightarrow> 'a queue_op list \<Rightarrow> ('a lfq \<times> 'a queue_out list) option" where
  "lfq_calls q [] = Some (q, [])"
| "lfq_calls q (Push x # ops) =
     (case lfq_try_push q x of None \<Rightarrow> None
      | Some (q', ok) \<Rightarrow> map_option (\<lambda>(q'', outs). (q'', Pushed ok # outs)) (lfq_calls q' ops))"
| "lfq_calls q (Pop # ops) =
     (case lfq_try_pop q of None \<Rightarrow> None
      | Some (q', r) \<Rightarrow> map_option (\<lambda>(q'', outs). (q'', Popped r # outs)) (lfq_calls q' ops))"

section \<open>Indices\<close>

lemma bit_ceil_power: "\<exists>k. bit_ceil n = 2 ^ k"
proof (induction n rule: bit_ceil.induct)
  case (1 n)
  show ?case
  proof (cases "n \<le> 1")
    case True
    then show ?thesis by (intro exI [of _ 0]) (simp add: bit_ceil.simps)
  next
    case False
    then obtain k where "bit_ceil ((n + 1) div 2) = 2 ^ k" using 1 by blast
    then show ?thesis using False by (intro exI [of _ "Suc k"]) (simp add: bit_ceil.simps [of n])
  qed
qed

lemma bit_ceil_bounds: "0 < n \<Longrightarrow> n \<le> bit_ceil n \<and> bit_ceil n < 2 * n"
proof (induction n rule: bit_ceil.induct)
  case (1 n)
  show ?case
  proof (cases "n \<le> 1")
    case False
    with 1 have "(n + 1) div 2 \<le> bit_ceil ((n + 1) div 2)" "bit_ceil ((n + 1) div 2) < 2 * ((n + 1) div 2)" by simp_all
    moreover obtain k where "bit_ceil ((n + 1) div 2) = 2 ^ k" using bit_ceil_power by blast
    moreover have "Suc n div 2 \<le> 2 * x \<Longrightarrow> x < Suc n div 2 \<Longrightarrow> n \<le> 4 * x \<and> 2 * x < n" for x by arith
    ultimately show ?thesis using False by (cases k) (simp_all add: bit_ceil.simps [of n])
  qed (use 1 in \<open>simp add: bit_ceil.simps\<close>)
qed

definition sized :: "nat \<Rightarrow> 'a lfq \<Rightarrow> bool" where
  "sized k q \<longleftrightarrow> 1 \<le> k \<and> k \<le> 63 \<and> length (lfq_slots q) = 2 ^ k \<and> lfq_mask q = of_nat (2 ^ k) - 1"

lemma slot_index_mod:
  assumes "sized k q"
  shows "slot_index q w = unat w mod 2 ^ k"
proof -
  have "lfq_mask q = mask k" using assms by (simp add: sized_def mask_eq_exp_minus_1)
  then have "slot_index q w = unat (take_bit k w)" by (simp add: slot_index_def take_bit_eq_mask)
  also have "\<dots> = unat w mod 2 ^ k" unfolding unsigned_take_bit_eq by (rule take_bit_eq_mod)
  finally show ?thesis .
qed

lemma slot_index_less: "sized k q \<Longrightarrow> slot_index q w < length (lfq_slots q)"
  by (simp add: slot_index_mod) (simp add: sized_def)

lemma slot_index_add:
  assumes "sized k q"
  shows "slot_index q (w + of_nat i) = (unat w + i) mod 2 ^ k"
proof -
  have dvd: "(2 :: nat) ^ k dvd 2 ^ 64" using assms by (intro le_imp_power_dvd) (simp add: sized_def)
  have "unat (w + of_nat i) = (unat w + i) mod 2 ^ 64"
    by (simp add: unat_word_ariths unat_of_nat mod_add_right_eq)
  then show ?thesis using mod_mod_cancel [OF dvd] by (simp add: slot_index_mod [OF assms])
qed

lemma add_mod_cancel: "((c :: nat) + i) mod n = (c + j) mod n \<Longrightarrow> i mod n = j mod n"
  unfolding nat_mod_eq_iff by (metis add.assoc add_left_cancel)

lemma slot_index_eq:
  assumes "sized k q" and "i < 2 ^ k" and "j < 2 ^ k"
  shows "slot_index q (w + of_nat i) = slot_index q (w + of_nat j) \<longleftrightarrow> i = j"
proof -
  have "i mod 2 ^ k = j mod 2 ^ k" if "(unat w + i) mod 2 ^ k = (unat w + j) mod 2 ^ k"
    using that by (rule add_mod_cancel)
  then show ?thesis using assms(2,3) by (auto simp: slot_index_add [OF assms(1)])
qed

lemma slot_index_lap: "sized k q \<Longrightarrow> slot_index q (w + 2 ^ k) = slot_index q w"
  using slot_index_add [of k q w "2 ^ k"] slot_index_add [of k q w 0] by simp

lemma slot_index_suc: "sized k q \<Longrightarrow> slot_index q (w + 1) \<noteq> slot_index q w"
  using slot_index_eq [of k q 1 0 w] one_less_power [of "2 :: nat" k] by (simp add: sized_def)

lemma sized_stores [simp]:
  "sized k (store_seq q pos s) = sized k q" "sized k (store_value q pos x) = sized k q"
  "sized k (q\<lparr>enqueue_pos := e\<rparr>) = sized k q" "sized k (q\<lparr>dequeue_pos := d\<rparr>) = sized k q"
  by (simp_all add: sized_def store_seq_def store_value_def)

lemma slot_index_stores [simp]:
  "slot_index (store_seq q pos s) w = slot_index q w" "slot_index (store_value q pos x) w = slot_index q w"
  "slot_index (q\<lparr>enqueue_pos := e\<rparr>) w = slot_index q w" "slot_index (q\<lparr>dequeue_pos := d\<rparr>) w = slot_index q w"
  by (simp_all add: slot_index_def store_seq_def store_value_def)

lemma stores_fields [simp]:
  "enqueue_pos (store_seq q pos s) = enqueue_pos q" "enqueue_pos (store_value q pos x) = enqueue_pos q"
  "dequeue_pos (store_seq q pos s) = dequeue_pos q" "dequeue_pos (store_value q pos x) = dequeue_pos q"
  "lfq_mask (store_seq q pos s) = lfq_mask q" "lfq_mask (store_value q pos x) = lfq_mask q"
  by (simp_all add: store_seq_def store_value_def)

lemma at_counters [simp]:
  "seq_at (q\<lparr>enqueue_pos := e\<rparr>) w = seq_at q w" "value_at (q\<lparr>enqueue_pos := e\<rparr>) w = value_at q w"
  "seq_at (q\<lparr>dequeue_pos := d\<rparr>) w = seq_at q w" "value_at (q\<lparr>dequeue_pos := d\<rparr>) w = value_at q w"
  by (simp_all add: seq_at_def value_at_def slot_index_def)

lemma at_stores:
  assumes "sized k q"
  shows "seq_at (store_seq q pos s) w = (if slot_index q w = slot_index q pos then s else seq_at q w)"
    and "value_at (store_seq q pos s) w = value_at q w"
    and "seq_at (store_value q pos x) w = seq_at q w"
    and "value_at (store_value q pos x) w = (if slot_index q w = slot_index q pos then x else value_at q w)"
  using slot_index_less [OF assms, of w] slot_index_less [OF assms, of pos]
  by (auto simp: seq_at_def value_at_def) (auto simp: store_seq_def store_value_def nth_list_update)

section \<open>One caller at a time\<close>

definition lfq_length :: "'a lfq \<Rightarrow> nat" where
  "lfq_length q = unat (enqueue_pos q - dequeue_pos q)"

definition lfq_list :: "'a lfq \<Rightarrow> 'a list" where
  "lfq_list q = map (\<lambda>i. the (value_at q (dequeue_pos q + of_nat i))) [0..<lfq_length q]"

text \<open>
  Behind the dequeue position the slots first hold the elements, each published for its ticket,
  and then are vacant for the tickets to come. The positions are words, so nothing here depends on
  the counters not having wrapped.
\<close>

definition slots_ok :: "nat \<Rightarrow> 'a lfq \<Rightarrow> bool" where
  "slots_ok n q \<longleftrightarrow> (\<forall>i < length (lfq_slots q). let w = dequeue_pos q + of_nat i in
     if i < n then seq_at q w = w + 1 \<and> value_at q w \<noteq> None else seq_at q w = w \<and> value_at q w = None)"

definition lfq_inv :: "'a lfq \<Rightarrow> bool" where
  "lfq_inv q \<longleftrightarrow> (\<exists>k \<in> {1..63}. sized k q) \<and> lfq_length q \<le> length (lfq_slots q) \<and> slots_ok (lfq_length q) q"

lemma enqueue_pos_length: "enqueue_pos q = dequeue_pos q + of_nat (lfq_length q)"
  by (simp add: lfq_length_def)

lemma capacity_slots: "sized k q \<Longrightarrow> lfq_capacity q = length (lfq_slots q)"
  using unat_of_nat64 [of "2 ^ k"] power_strict_increasing [of k 64 "2 :: nat"] by (simp add: lfq_capacity_def sized_def)

lemma sint_gap_full:
  assumes "1 \<le> k" and "k \<le> 63"
  shows "sint (1 - 2 ^ k :: u64) < 0" and "1 - 2 ^ k \<noteq> (0 :: u64)"
proof -
  have two: "(2 :: int) \<le> 2 ^ k" using assms(1) power_increasing [of 1 k "2 :: int"] by simp
  have le: "(2 :: int) ^ k \<le> 2 ^ 63" using assms(2) by (intro power_increasing) simp_all
  have "(1 - 2 ^ k :: u64) = word_of_int (1 - 2 ^ k)" by simp
  then have "sint (1 - 2 ^ k :: u64) = 1 - 2 ^ k"
    using two le by (simp only: signed_of_int) (simp add: signed_take_bit_int_eq_self)
  then show "sint (1 - 2 ^ k :: u64) < 0" using two by simp
  then show "1 - 2 ^ k \<noteq> (0 :: u64)" by (metis order.irrefl signed_0)
qed

lemma sint_gap_empty: "sint (- 1 :: u64) < 0" and "(- 1 :: u64) \<noteq> 0"
  by simp_all

lemma lfq_push_full:
  assumes "sized k q" and "slots_ok (lfq_length q) q" and "lfq_length q = 2 ^ k"
  shows "lfq_try_push q v = Some (q, False)"
proof -
  have k: "1 \<le> k" "k \<le> 63" "length (lfq_slots q) = 2 ^ k" using assms(1) by (simp_all add: sized_def)
  have e: "enqueue_pos q = dequeue_pos q + 2 ^ k" using enqueue_pos_length [of q] assms(3) by simp
  have "seq_at q (dequeue_pos q) = dequeue_pos q + 1"
    using assms(2,3) k(3) by (auto simp: slots_ok_def Let_def dest: spec [of _ 0])
  then have "seq_at q (enqueue_pos q) - enqueue_pos q = 1 - 2 ^ k"
    using e slot_index_lap [OF assms(1), of "dequeue_pos q"] by (simp add: seq_at_def)
  then show ?thesis using sint_gap_full [OF k(1,2)] by (simp add: lfq_try_push_def push_steps_def numeral_eq_Suc)
qed

lemma lfq_push_free:
  assumes "sized k q" and "slots_ok (lfq_length q) q" and "lfq_length q < 2 ^ k"
  shows "lfq_try_push q v = Some
    (store_seq (store_value (q\<lparr>enqueue_pos := enqueue_pos q + 1\<rparr>) (enqueue_pos q) (Some v)) (enqueue_pos q) (enqueue_pos q + 1), True)"
proof -
  have "seq_at q (enqueue_pos q) = enqueue_pos q"
    using assms enqueue_pos_length [of q] by (auto simp: slots_ok_def sized_def Let_def dest: spec [of _ "lfq_length q"])
  then show ?thesis by (simp add: lfq_try_push_def push_steps_def numeral_eq_Suc)
qed

lemma lfq_pop_empty:
  assumes "sized k q" and "slots_ok (lfq_length q) q" and "lfq_length q = 0"
  shows "lfq_try_pop q = Some (q, None)"
proof -
  have "seq_at q (dequeue_pos q) = dequeue_pos q"
    using assms by (auto simp: slots_ok_def sized_def Let_def dest: spec [of _ 0])
  then show ?thesis using sint_gap_empty by (simp add: lfq_try_pop_def pop_steps_def numeral_eq_Suc)
qed

lemma lfq_pop_some:
  assumes "sized k q" and "slots_ok (lfq_length q) q" and "0 < lfq_length q"
  shows "lfq_try_pop q = Some
    (store_seq (store_value (q\<lparr>dequeue_pos := dequeue_pos q + 1\<rparr>) (dequeue_pos q) None) (dequeue_pos q)
       (dequeue_pos q + lfq_mask q + 1), value_at q (dequeue_pos q))"
proof -
  have "seq_at q (dequeue_pos q) = dequeue_pos q + 1"
    using assms by (auto simp: slots_ok_def sized_def Let_def dest: spec [of _ 0])
  then show ?thesis by (simp add: lfq_try_pop_def pop_steps_def numeral_eq_Suc)
qed

lemma slots_ok_push:
  assumes "sized k q" and "slots_ok n q" and "n < 2 ^ k" and "enqueue_pos q = dequeue_pos q + of_nat n"
    and p_def: "p = store_seq (store_value (q\<lparr>enqueue_pos := enqueue_pos q + 1\<rparr>) (enqueue_pos q) (Some v)) (enqueue_pos q) (enqueue_pos q + 1)"
  shows "slots_ok (Suc n) p" and "i < 2 ^ k \<Longrightarrow> value_at p (dequeue_pos q + of_nat i) =
      (if i = n then Some v else value_at q (dequeue_pos q + of_nat i))"
proof -
  have len: "length (lfq_slots q) = 2 ^ k" "length (lfq_slots p) = 2 ^ k"
    using assms(1) by (simp_all add: p_def sized_def store_seq_def store_value_def)
  have at: "seq_at p (dequeue_pos q + of_nat i) = (if i = n then enqueue_pos q + 1 else seq_at q (dequeue_pos q + of_nat i))"
      "value_at p (dequeue_pos q + of_nat i) = (if i = n then Some v else value_at q (dequeue_pos q + of_nat i))"
    if "i < 2 ^ k" for i
    using slot_index_eq [OF assms(1) that assms(3)] assms(1,4) by (simp_all add: p_def at_stores)
  show "i < 2 ^ k \<Longrightarrow> value_at p (dequeue_pos q + of_nat i) =
      (if i = n then Some v else value_at q (dequeue_pos q + of_nat i))" by (rule at(2))
  have "dequeue_pos p = dequeue_pos q" by (simp add: p_def)
  then show "slots_ok (Suc n) p"
    using assms(2,4) at len by (auto simp: slots_ok_def Let_def less_Suc_eq)
qed

lemma slots_ok_pop:
  assumes "sized k q" and "slots_ok (Suc n) q" and "Suc n \<le> 2 ^ k"
    and p_def: "p = store_seq (store_value (q\<lparr>dequeue_pos := dequeue_pos q + 1\<rparr>) (dequeue_pos q) None) (dequeue_pos q)
      (dequeue_pos q + lfq_mask q + 1)"
  shows "slots_ok n p" and "i < n \<Longrightarrow> value_at p (dequeue_pos p + of_nat i) = value_at q (dequeue_pos q + of_nat (Suc i))"
proof -
  have len: "length (lfq_slots q) = 2 ^ k" "length (lfq_slots p) = 2 ^ k" and mask: "lfq_mask q = 2 ^ k - 1"
    using assms(1) by (simp_all add: p_def sized_def store_seq_def store_value_def)
  have d: "dequeue_pos p + of_nat i = dequeue_pos q + of_nat (Suc i)" for i by (simp add: p_def)
  have at: "seq_at p (dequeue_pos q + of_nat i) = seq_at q (dequeue_pos q + of_nat i)"
      "value_at p (dequeue_pos q + of_nat i) = value_at q (dequeue_pos q + of_nat i)" if "i < 2 ^ k" "0 < i" for i
    using slot_index_eq [OF assms(1) that(1), of 0 "dequeue_pos q"] assms(1) that by (simp_all add: p_def at_stores)
  have last: "seq_at p (dequeue_pos q + 2 ^ k) = dequeue_pos q + 2 ^ k" "value_at p (dequeue_pos q + 2 ^ k) = None"
    using slot_index_lap [OF assms(1)] assms(1) mask by (simp_all add: p_def at_stores)
  show "i < n \<Longrightarrow> value_at p (dequeue_pos p + of_nat i) = value_at q (dequeue_pos q + of_nat (Suc i))"
    unfolding d using at(2) [of "Suc i"] assms(3) by simp
  have "if i < n then seq_at p w = w + 1 \<and> value_at p w \<noteq> None else seq_at p w = w \<and> value_at p w = None"
    if "i < 2 ^ k" "w = dequeue_pos q + of_nat (Suc i)" for i w
  proof (cases "Suc i = 2 ^ k")
    case True
    then have "w = dequeue_pos q + of_nat (2 ^ k)" using that(2) by (simp only:)
    then show ?thesis using True assms(3) last by simp
  next
    case False
    then have i: "Suc i < 2 ^ k" using that(1) by simp
    from assms(2) i len(1) have "if Suc i < Suc n then seq_at q w = w + 1 \<and> value_at q w \<noteq> None else seq_at q w = w \<and> value_at q w = None"
      unfolding slots_ok_def Let_def that(2) by (metis (no_types))
    moreover have "seq_at p w = seq_at q w" "value_at p w = value_at q w" using at [OF i] that(2) by simp_all
    ultimately show ?thesis by (simp only: Suc_less_eq)
  qed
  then show "slots_ok n p" unfolding slots_ok_def Let_def d len(2) by blast
qed

lemma lfq_push_law:
  assumes "lfq_inv q"
  shows "\<exists>q' ok. lfq_try_push q v = Some (q', ok) \<and> lfq_inv q' \<and> lfq_capacity q' = lfq_capacity q \<and>
    fifo_push (lfq_capacity q) (lfq_list q) v = (lfq_list q', ok)"
proof -
  obtain k where k: "k \<in> {1..63}" "sized k q" and n: "lfq_length q \<le> 2 ^ k" and ok: "slots_ok (lfq_length q) q"
    using assms by (auto simp: lfq_inv_def sized_def)
  have cap: "lfq_capacity q = 2 ^ k" using capacity_slots [OF k(2)] k(2) by (simp add: sized_def)
  have len: "length (lfq_list q) = lfq_length q" by (simp add: lfq_list_def)
  show ?thesis
  proof (cases "lfq_length q = 2 ^ k")
    case True
    then show ?thesis using lfq_push_full [OF k(2) ok True] assms cap len by (auto simp: fifo_push_def)
  next
    case False
    with n have less: "lfq_length q < 2 ^ k" by simp
    define p where "p = store_seq (store_value (q\<lparr>enqueue_pos := enqueue_pos q + 1\<rparr>) (enqueue_pos q) (Some v)) (enqueue_pos q) (enqueue_pos q + 1)"
    note step = slots_ok_push [OF k(2) ok less enqueue_pos_length p_def]
    have "(2 :: nat) ^ k < 2 ^ 64" using k(1) by (intro power_strict_increasing) auto
    moreover have "enqueue_pos p - dequeue_pos p = of_nat (Suc (lfq_length q))"
      using enqueue_pos_length [of q] by (simp add: p_def)
    ultimately have n': "lfq_length p = Suc (lfq_length q)"
      unfolding lfq_length_def [of p] using less unat_of_nat64 [of "Suc (lfq_length q)"] by simp
    have size: "sized k p" using k(2) by (simp add: p_def)
    have "lfq_list p = lfq_list q @ [v]"
      using step(2) less by (simp add: lfq_list_def n') (simp add: p_def)
    moreover have "lfq_inv p" using size k(1) step(1) n' less by (auto simp: lfq_inv_def sized_def)
    moreover have "lfq_capacity p = 2 ^ k" using capacity_slots [OF size] size by (simp add: sized_def)
    ultimately show ?thesis
      using lfq_push_free [OF k(2) ok less, of v] cap len less by (auto simp: fifo_push_def p_def)
  qed
qed

lemma lfq_pop_law:
  assumes "lfq_inv q"
  shows "\<exists>q' r. lfq_try_pop q = Some (q', r) \<and> lfq_inv q' \<and> lfq_capacity q' = lfq_capacity q \<and>
    fifo_pop (lfq_list q) = (lfq_list q', r)"
proof -
  obtain k where k: "k \<in> {1..63}" "sized k q" and n: "lfq_length q \<le> 2 ^ k" and ok: "slots_ok (lfq_length q) q"
    using assms by (auto simp: lfq_inv_def sized_def)
  show ?thesis
  proof (cases "lfq_length q")
    case 0
    then have "lfq_list q = []" by (simp add: lfq_list_def)
    then show ?thesis using lfq_pop_empty [OF k(2) ok 0] assms by (simp add: fifo_pop_def)
  next
    case (Suc m)
    define p where "p = store_seq (store_value (q\<lparr>dequeue_pos := dequeue_pos q + 1\<rparr>) (dequeue_pos q) None) (dequeue_pos q)
      (dequeue_pos q + lfq_mask q + 1)"
    note step = slots_ok_pop [OF k(2) ok [unfolded Suc] n [unfolded Suc] p_def]
    have "(2 :: nat) ^ k < 2 ^ 64" using k(1) by (intro power_strict_increasing) auto
    moreover have "enqueue_pos p - dequeue_pos p = of_nat m"
      using enqueue_pos_length [of q] Suc by (simp add: p_def)
    ultimately have n': "lfq_length p = m"
      unfolding lfq_length_def [of p] using n Suc unat_of_nat64 [of m] by simp
    have size: "sized k p" using k(2) by (simp add: p_def)
    have "value_at q (dequeue_pos q) \<noteq> None"
      using ok Suc n k(2) by (auto simp: slots_ok_def sized_def Let_def dest: spec [of _ 0])
    then obtain x where x: "value_at q (dequeue_pos q) = Some x" by auto
    have "lfq_list q = x # lfq_list p"
      using x step(2) by (simp add: lfq_list_def n' Suc upt_conv_Cons map_Suc_upt [symmetric] del: upt_Suc)
    moreover have "lfq_inv p" using size k(1) step(1) n' n Suc by (auto simp: lfq_inv_def sized_def)
    moreover have "lfq_capacity p = lfq_capacity q"
      using capacity_slots [OF size] capacity_slots [OF k(2)] size k(2) by (simp add: sized_def)
    ultimately show ?thesis
      using lfq_pop_some [OF k(2) ok] Suc x by (auto simp: fifo_pop_def p_def)
  qed
qed

interpretation lfq: bounded_queue "\<lambda>q x. the (lfq_try_push q x)" "\<lambda>q. the (lfq_try_pop q)" lfq_list lfq_capacity lfq_inv
proof (unfold_locales, goal_cases)
  case (1 q x q' ok)
  then show ?case using lfq_push_law [OF 1(1), of x] by auto
next
  case (2 q q' r)
  then show ?case using lfq_pop_law [OF 2(1)] by auto
qed

lemma lfq_calls_return:
  "lfq_inv q \<Longrightarrow> lfq_calls q ops = Some (queue_run (\<lambda>q x. the (lfq_try_push q x)) (\<lambda>q. the (lfq_try_pop q)) q ops)"
proof (induction ops arbitrary: q)
  case (Cons oper ops)
  show ?case
  proof (cases oper)
    case (Push x)
    then show ?thesis using lfq_push_law [OF Cons.prems, of x] Cons.IH by (auto split: prod.splits)
  next
    case Pop
    then show ?thesis using lfq_pop_law [OF Cons.prems] Cons.IH by (auto split: prod.splits)
  qed
qed simp

lemma lfq_construct_inv:
  assumes "lfq_construct c = Inr q" and "1 < unat c"
  shows "lfq_inv q" and "lfq_list q = []" and "unat c \<le> lfq_capacity q" and "lfq_capacity q < 2 * unat c"
proof -
  have le: "unat c \<le> 2 ^ 63" and q: "q = \<lparr>lfq_slots = map (\<lambda>i. \<lparr>sl_sequence = of_nat i, sl_value = None\<rparr>) [0..<bit_ceil (unat c)],
      lfq_mask = of_nat (bit_ceil (unat c)) - 1, enqueue_pos = 0, dequeue_pos = 0\<rparr>"
    using assms by (auto simp: lfq_construct_def rounded_capacity_def Let_def word_less_nat_alt split: if_splits)
  obtain k where k: "bit_ceil (unat c) = 2 ^ k" using bit_ceil_power by blast
  have b: "unat c \<le> 2 ^ k" "2 ^ k < 2 * unat c" using bit_ceil_bounds [of "unat c"] assms(2) k by simp_all
  have "(2 :: nat) ^ k < 2 ^ 64" using b(2) le by simp
  then have "k < 64" by (rule power_less_imp_less_exp [rotated]) simp
  then have k63: "k \<le> 63" by simp
  have k1: "1 \<le> k" using b(1) assms(2) by (cases k) simp_all
  have size: "sized k q" using k k1 k63 q by (simp add: sized_def)
  have n: "lfq_length q = 0" by (simp add: q lfq_length_def)
  have "seq_at q (of_nat i) = of_nat i" "value_at q (of_nat i) = None" if "i < 2 ^ k" for i
    using slot_index_add [OF size, of 0 i] that k by (simp_all add: seq_at_def value_at_def) (simp_all add: q)
  then have "slots_ok 0 q" using size by (simp add: slots_ok_def Let_def sized_def) (simp add: q)
  then show "lfq_inv q" using size k1 k63 n by (auto simp: lfq_inv_def)
  show "lfq_list q = []" by (simp add: lfq_list_def n)
  show "unat c \<le> lfq_capacity q" "lfq_capacity q < 2 * unat c"
    using b capacity_slots [OF size] size by (simp_all add: sized_def)
qed

text \<open>
  Property C22. Used by one caller at a time, a queue for at least two elements is a bounded FIFO, however
  many calls are made and however often the 64-bit tickets wrap: every call returns, a push
  succeeds exactly when there are fewer elements than the capacity, a pop returns the oldest element
  or reports that there is none. The capacity is at least the requested one and less than twice as large.
\<close>

theorem lock_free_queue_fifo:
  assumes "lfq_construct c = Inr q" and "1 < unat c"
  shows "\<exists>q' outs. lfq_calls q ops = Some (q', outs) \<and>
    queue_run (fifo_push (lfq_capacity q)) fifo_pop [] ops = (lfq_list q', outs) \<and>
    unat c \<le> lfq_capacity q \<and> lfq_capacity q < 2 * unat c"
proof -
  note new = lfq_construct_inv [OF assms]
  obtain q' outs where run: "queue_run (\<lambda>q x. the (lfq_try_push q x)) (\<lambda>q. the (lfq_try_pop q)) q ops = (q', outs)" by fastforce
  then show ?thesis using lfq.run_refines [OF new(1) run] lfq_calls_return [OF new(1), of ops] new by auto
qed

theorem lock_free_queue_fifo_witness:
  "\<exists>q q' outs. lfq_construct 3 = Inr q \<and> lfq_calls q [Push 7, Push (8 :: nat), Pop] = Some (q', outs) \<and>
     outs = [Pushed True, Pushed True, Popped (Some 7)]"
proof -
  obtain q :: "nat lfq" where q: "lfq_construct 3 = Inr q" by (simp add: lfq_construct_def rounded_capacity_def)
  from lock_free_queue_fifo [OF q, of "[Push 7, Push 8, Pop]"] obtain q' outs where
    "lfq_calls q [Push 7, Push 8, Pop] = Some (q', outs)" "3 \<le> lfq_capacity q"
    "queue_run (fifo_push (lfq_capacity q)) fifo_pop [] [Push 7, Push 8, Pop] = (lfq_list q', outs)" by auto
  then show ?thesis using q by (auto simp: fifo_push_def fifo_pop_def)
qed

text \<open>
  Property C23. With capacity one the protocol breaks down: the sequence number that publishes the only
  slot is the one that makes it vacant for the next ticket. A second push into the queue that holds one
  element succeeds instead of reporting that it is full, the first element is gone, and a pop by then never
  returns, however many steps it is given.
\<close>

theorem lock_free_queue_capacity_one:
  assumes "lfq_construct 1 = Inr q" and "lfq_try_push q a = Some (q1, ok1)" and "lfq_try_push q1 b = Some (q2, ok2)"
  shows "lfq_capacity q = 1 \<and> ok1 \<and> ok2 \<and> (\<forall>x. value_at q2 x = Some b) \<and>
    (\<forall>n. fst (pop_steps n q2) = q2 \<and> (snd (pop_steps n q2) = Pop_start \<or> snd (pop_steps n q2) = Pop_read 0))"
proof -
  have q: "q = \<lparr>lfq_slots = [\<lparr>sl_sequence = 0, sl_value = None\<rparr>], lfq_mask = 0, enqueue_pos = 0, dequeue_pos = 0\<rparr>"
    using assms(1) by (simp add: lfq_construct_def rounded_capacity_def bit_ceil.simps)
  have idx: "slot_index r w = 0" if "lfq_mask r = 0" for r :: "'a lfq" and w using that by (simp add: slot_index_def)
  have q1: "q1 = \<lparr>lfq_slots = [\<lparr>sl_sequence = 1, sl_value = Some a\<rparr>], lfq_mask = 0, enqueue_pos = 1, dequeue_pos = 0\<rparr>" "ok1"
    using assms(2) by (simp_all add: q lfq_try_push_def push_steps_def numeral_eq_Suc seq_at_def idx store_value_def store_seq_def)
  have q2: "q2 = \<lparr>lfq_slots = [\<lparr>sl_sequence = 2, sl_value = Some b\<rparr>], lfq_mask = 0, enqueue_pos = 2, dequeue_pos = 0\<rparr>" "ok2"
    using assms(3) by (simp_all add: q1 lfq_try_push_def push_steps_def numeral_eq_Suc seq_at_def idx store_value_def store_seq_def)
  have "fst (pop_steps n q2) = q2 \<and> (snd (pop_steps n q2) = Pop_start \<or> snd (pop_steps n q2) = Pop_read 0)" for n
  proof (induction n)
    case (Suc n)
    then show ?case by (auto simp: pop_steps_def split_beta) (simp_all add: q2 seq_at_def idx)
  qed (simp add: pop_steps_def)
  then show ?thesis using q1(2) q2(2) by (simp add: lfq_capacity_def value_at_def q2(1) idx) (simp add: q)
qed

theorem lock_free_queue_capacity_one_witness:
  "\<exists>q q1 q2. lfq_construct 1 = Inr q \<and> lfq_try_push q (7 :: nat) = Some (q1, True) \<and> lfq_try_push q1 8 = Some (q2, True) \<and>
     (\<forall>n. snd (pop_steps n q2) = Pop_start \<or> snd (pop_steps n q2) = Pop_read 0)"
proof -
  obtain q :: "nat lfq" where q: "lfq_construct 1 = Inr q" "lfq_mask q = 0" "enqueue_pos q = 0"
      "lfq_slots q = [\<lparr>sl_sequence = 0, sl_value = None\<rparr>]"
    by (simp add: lfq_construct_def rounded_capacity_def bit_ceil.simps)
  obtain q1 ok1 where q1: "lfq_try_push q 7 = Some (q1, ok1)" "lfq_mask q1 = 0" "enqueue_pos q1 = 1"
      "lfq_slots q1 = [\<lparr>sl_sequence = 1, sl_value = Some 7\<rparr>]"
    by (simp add: q lfq_try_push_def push_steps_def numeral_eq_Suc seq_at_def slot_index_def store_value_def store_seq_def)
  obtain q2 ok2 where q2: "lfq_try_push q1 8 = Some (q2, ok2)"
    by (simp add: q1 lfq_try_push_def push_steps_def numeral_eq_Suc seq_at_def slot_index_def store_value_def store_seq_def)
  from lock_free_queue_capacity_one [OF q(1) q1(1) q2] show ?thesis using q q1 q2 by auto
qed

end
