(* ===== verification/Lock_Free_Concurrent.thy ===== *)
theory Lock_Free_Concurrent
  imports Lock_Free_Queue
begin

text \<open>
  Any number of threads at one \<open>LockFreeQueue\<close> (lock\_free\_queue.hpp): their atomic steps interleave in every
  order, a compare-exchange may fail spuriously, and a thread may stop between any two steps. The
  history has the values in the order of the enqueue tickets, and what the pops returned with
  their dequeue tickets; it is not read by the queue.
\<close>

section \<open>The system\<close>

record 'a system =
  sy_queue :: "'a lfq"
  sy_threads :: "nat \<Rightarrow> 'a pc"
  sy_in :: "'a list"
  sy_out :: "(u64 \<times> 'a option) list"

fun claimed :: "'a pc \<Rightarrow> 'a pc \<Rightarrow> 'a list" where
  "claimed (Push_cas v pos) (Push_emplace v' pos') = [v]"
| "claimed _ _ = []"

fun delivered :: "'a pc \<Rightarrow> (u64 \<times> 'a option) list" where
  "delivered (Pop_publish r pos) = [(pos, r)]"
| "delivered _ = []"

fun returned :: "'a pc \<Rightarrow> bool" where
  "returned (Push_done ok) \<longleftrightarrow> True"
| "returned (Pop_done r) \<longleftrightarrow> True"
| "returned _ \<longleftrightarrow> False"

definition move :: "'a system \<Rightarrow> nat \<Rightarrow> 'a pc \<Rightarrow> 'a system" where
  "move s t pc = s\<lparr>sy_threads := (sy_threads s)(t := pc)\<rparr>"

inductive sys_step :: "'a system \<Rightarrow> 'a system \<Rightarrow> bool" where
  call_push: "sy_threads s t = Idle \<Longrightarrow> sys_step s (move s t (Push_start v))"
| call_pop: "sy_threads s t = Idle \<Longrightarrow> sys_step s (move s t Pop_start)"
| push: "push_step spurious (sy_queue s) (sy_threads s t) = (q, pc) \<Longrightarrow>
    sys_step s (move (s\<lparr>sy_queue := q, sy_in := sy_in s @ claimed (sy_threads s t) pc\<rparr>) t pc)"
| pop: "pop_step spurious (sy_queue s) (sy_threads s t) = (q, pc) \<Longrightarrow>
    sys_step s (move (s\<lparr>sy_queue := q, sy_out := sy_out s @ delivered (sy_threads s t)\<rparr>) t pc)"
| ret: "returned (sy_threads s t) \<Longrightarrow> sys_step s (move s t Idle)"

definition initial :: "'a lfq \<Rightarrow> 'a system" where
  "initial q = \<lparr>sy_queue = q, sy_threads = (\<lambda>_. Idle), sy_in = [], sy_out = []\<rparr>"

inductive reachable :: "'a lfq \<Rightarrow> 'a system \<Rightarrow> bool" for q0 where
  start: "reachable q0 (initial q0)"
| step: "reachable q0 s \<Longrightarrow> sys_step s s' \<Longrightarrow> reachable q0 s'"

section \<open>The invariant\<close>

fun push_ticket :: "'a pc \<Rightarrow> u64 option" where
  "push_ticket (Push_emplace v pos) = Some pos"
| "push_ticket (Push_publish pos) = Some pos"
| "push_ticket _ = None"

fun pop_ticket :: "'a pc \<Rightarrow> u64 option" where
  "pop_ticket (Pop_take pos) = Some pos"
| "pop_ticket (Pop_reset r pos) = Some pos"
| "pop_ticket (Pop_publish r pos) = Some pos"
| "pop_ticket _ = None"

text \<open>What a thread knows at each point. Stale positions are below the counters they were read from.\<close>

fun pc_ok :: "'a lfq \<Rightarrow> 'a list \<Rightarrow> 'a pc \<Rightarrow> bool" where
  "pc_ok q xs (Push_read v pos) \<longleftrightarrow> unat pos \<le> length xs"
| "pc_ok q xs (Push_cas v pos) \<longleftrightarrow> unat pos \<le> length xs \<and> (pos = enqueue_pos q \<longrightarrow> seq_at q pos = pos)"
| "pc_ok q xs (Push_emplace v pos) \<longleftrightarrow> unat pos < length xs \<and> seq_at q pos = pos \<and> xs ! unat pos = v"
| "pc_ok q xs (Push_publish pos) \<longleftrightarrow> unat pos < length xs \<and> seq_at q pos = pos \<and> value_at q pos = Some (xs ! unat pos)"
| "pc_ok q xs (Pop_read pos) \<longleftrightarrow> pos \<le> dequeue_pos q"
| "pc_ok q xs (Pop_cas pos) \<longleftrightarrow> pos \<le> dequeue_pos q \<and> (pos = dequeue_pos q \<longrightarrow> seq_at q pos = pos + 1)"
| "pc_ok q xs (Pop_take pos) \<longleftrightarrow> pos < dequeue_pos q \<and> seq_at q pos = pos + 1 \<and> value_at q pos = Some (xs ! unat pos)"
| "pc_ok q xs (Pop_reset r pos) \<longleftrightarrow> pos < dequeue_pos q \<and> seq_at q pos = pos + 1 \<and> r = Some (xs ! unat pos)"
| "pc_ok q xs (Pop_publish r pos) \<longleftrightarrow> pos < dequeue_pos q \<and> seq_at q pos = pos + 1 \<and> r = Some (xs ! unat pos)"
| "pc_ok q xs _ \<longleftrightarrow> True"

definition threads_ok :: "'a system \<Rightarrow> bool" where
  "threads_ok s \<longleftrightarrow> (\<forall>t. pc_ok (sy_queue s) (sy_in s) (sy_threads s t)) \<and>
     (\<forall>t t' p. push_ticket (sy_threads s t) = Some p \<and> push_ticket (sy_threads s t') = Some p \<longrightarrow> t = t') \<and>
     (\<forall>t t' p. pop_ticket (sy_threads s t) = Some p \<and> pop_ticket (sy_threads s t') = Some p \<longrightarrow> t = t')"

text \<open>
  A published slot belongs to a claimed ticket and holds its value until the ticket is dequeued; every ticket
  in the queue is published or about to be.
\<close>

definition tickets_ok :: "'a system \<Rightarrow> bool" where
  "tickets_ok s \<longleftrightarrow>
     (\<forall>p. seq_at (sy_queue s) p = p + 1 \<longrightarrow> unat p < length (sy_in s) \<and>
        (dequeue_pos (sy_queue s) \<le> p \<longrightarrow> value_at (sy_queue s) p = Some (sy_in s ! unat p))) \<and>
     (\<forall>p. dequeue_pos (sy_queue s) \<le> p \<and> unat p < length (sy_in s) \<longrightarrow>
        seq_at (sy_queue s) p = p + 1 \<or> (\<exists>t. push_ticket (sy_threads s t) = Some p))"

definition history_ok :: "'a system \<Rightarrow> bool" where
  "history_ok s \<longleftrightarrow> distinct (map fst (sy_out s)) \<and>
     (\<forall>(p, r) \<in> set (sy_out s). p < dequeue_pos (sy_queue s) \<and> r = Some (sy_in s ! unat p) \<and>
        (\<forall>t. pop_ticket (sy_threads s t) \<noteq> Some p)) \<and>
     (\<forall>p < dequeue_pos (sy_queue s). p \<in> fst ` set (sy_out s) \<or> (\<exists>t. pop_ticket (sy_threads s t) = Some p))"

definition sys_inv :: "nat \<Rightarrow> 'a system \<Rightarrow> bool" where
  "sys_inv k s \<longleftrightarrow> sized k (sy_queue s) \<and> length (sy_in s) < 2 ^ 64 \<and>
     enqueue_pos (sy_queue s) = of_nat (length (sy_in s)) \<and> unat (dequeue_pos (sy_queue s)) \<le> length (sy_in s) \<and>
     threads_ok s \<and> tickets_ok s \<and> history_ok s"

lemma move_simps [simp]:
  "sy_queue (move s t pc) = sy_queue s" "sy_in (move s t pc) = sy_in s" "sy_out (move s t pc) = sy_out s"
  "sy_threads (move s t pc) = (sy_threads s)(t := pc)"
  by (simp_all add: move_def)

lemma tickets_disjoint:
  assumes "sized k q" and "seq_at q p = p" and "seq_at q p' = p' + 1"
  shows "slot_index q p \<noteq> slot_index q p'"
  using assms slot_index_suc [OF assms(1), of p'] by (auto simp: seq_at_def)

lemma same_slot_seq: "slot_index q p = slot_index q p' \<Longrightarrow> seq_at q p = seq_at q p'"
  by (simp add: seq_at_def)

section \<open>Steps that only move a thread\<close>

lemma sys_inv_move:
  assumes "sys_inv k s" and "pc_ok (sy_queue s) (sy_in s) pc"
    and "push_ticket pc = push_ticket (sy_threads s t)" and "pop_ticket pc = pop_ticket (sy_threads s t)"
  shows "sys_inv k (move s t pc)"
proof -
  have tick: "push_ticket (sy_threads (move s t pc) u) = push_ticket (sy_threads s u)"
      "pop_ticket (sy_threads (move s t pc) u) = pop_ticket (sy_threads s u)" for u
    using assms(3,4) by auto
  have "threads_ok (move s t pc)" using assms(1,2) unfolding sys_inv_def threads_ok_def tick by simp
  moreover have "tickets_ok (move s t pc)" using assms(1) unfolding sys_inv_def tickets_ok_def tick by simp
  moreover have "history_ok (move s t pc)" using assms(1) unfolding sys_inv_def history_ok_def tick by simp
  ultimately show ?thesis using assms(1) by (simp add: sys_inv_def)
qed

section \<open>Steps at the queue\<close>

lemma pc_ok_push_ticket: "pc_ok q xs pc \<Longrightarrow> push_ticket pc = Some p \<Longrightarrow> unat p < length xs \<and> seq_at q p = p"
  by (cases pc) auto

lemma pc_ok_pop_ticket: "pc_ok q xs pc \<Longrightarrow> pop_ticket pc = Some p \<Longrightarrow> p < dequeue_pos q \<and> seq_at q p = p + 1"
  by (cases pc) auto

lemma sys_inv_push_claim:
  assumes inv: "sys_inv k s" and t: "sy_threads s t = Push_cas v (enqueue_pos (sy_queue s))"
    and bound: "Suc (length (sy_in s)) < 2 ^ 64"
  defines "pos \<equiv> enqueue_pos (sy_queue s)"
  shows "sys_inv k (move (s\<lparr>sy_queue := (sy_queue s)\<lparr>enqueue_pos := pos + 1\<rparr>, sy_in := sy_in s @ [v]\<rparr>) t (Push_emplace v pos))"
    (is "sys_inv k ?s")
proof -
  let ?q = "sy_queue s" and ?xs = "sy_in s"
  have pos: "unat pos = length ?xs" and D: "unat (dequeue_pos ?q) \<le> length ?xs"
    using inv unat_of_nat64 [of "length ?xs"] by (simp_all add: sys_inv_def pos_def)
  have thr: "threads_ok s" and tic: "tickets_ok s" and his: "history_ok s" using inv by (simp_all add: sys_inv_def)
  have ok: "pc_ok ?q ?xs (sy_threads s u)" for u using thr by (simp add: threads_ok_def)
  have pos1: "unat (pos + 1) = Suc (length ?xs)" using pos bound by (simp add: unat_word_ariths)
  have old: "pc_ok (?q\<lparr>enqueue_pos := pos + 1\<rparr>) (?xs @ [v]) (sy_threads s u)" for u
    using ok [of u] pos1 D by (cases "sy_threads s u") (auto simp: nth_append word_less_nat_alt)
  have new: "pc_ok (?q\<lparr>enqueue_pos := pos + 1\<rparr>) (?xs @ [v]) (Push_emplace v pos)"
    using ok [of t] t pos by (simp add: pos_def)
  have ticket: "push_ticket (sy_threads s u) \<noteq> Some pos" for u using pc_ok_push_ticket [OF ok [of u], of pos] pos by auto
  have "threads_ok ?s"
    using thr old new ticket t by (auto simp: threads_ok_def split: if_splits)
  moreover have "tickets_ok ?s"
    unfolding tickets_ok_def
  proof (intro conjI allI impI)
    fix p
    assume "seq_at (sy_queue ?s) p = p + 1"
    then have "unat p < length ?xs" "dequeue_pos ?q \<le> p \<longrightarrow> value_at ?q p = Some (?xs ! unat p)"
      using tic by (auto simp: tickets_ok_def)
    then show "unat p < length (sy_in ?s)" "dequeue_pos (sy_queue ?s) \<le> p \<Longrightarrow> value_at (sy_queue ?s) p = Some (sy_in ?s ! unat p)"
      by (auto simp: nth_append)
  next
    fix p
    assume p: "dequeue_pos (sy_queue ?s) \<le> p \<and> unat p < length (sy_in ?s)"
    show "seq_at (sy_queue ?s) p = p + 1 \<or> (\<exists>u. push_ticket (sy_threads ?s u) = Some p)"
    proof (cases "p = pos")
      case False
      then have "unat p < length ?xs" using p pos by (auto simp: less_Suc_eq word_unat_eq_iff)
      then obtain u where "seq_at ?q p = p + 1 \<or> push_ticket (sy_threads s u) = Some p \<and> u \<noteq> t"
        using tic p t by (fastforce simp: tickets_ok_def)
      then show ?thesis by auto
    qed (auto intro: exI [of _ t])
  qed
  moreover have "history_ok ?s"
  proof -
    have tick: "pop_ticket (sy_threads ?s u) = pop_ticket (sy_threads s u)" for u using t by simp
    show ?thesis using his D unfolding history_ok_def tick by (fastforce simp: nth_append word_less_nat_alt)
  qed
  ultimately show ?thesis using inv bound pos by (simp add: sys_inv_def pos_def)
qed

lemma sys_inv_push_emplace:
  assumes inv: "sys_inv k s" and t: "sy_threads s t = Push_emplace v pos"
  shows "sys_inv k (move (s\<lparr>sy_queue := store_value (sy_queue s) pos (Some v)\<rparr>) t (Push_publish pos))" (is "sys_inv k ?s")
proof -
  let ?q = "sy_queue s" and ?xs = "sy_in s"
  have size: "sized k ?q" and thr: "threads_ok s" and tic: "tickets_ok s" and his: "history_ok s" using inv by (simp_all add: sys_inv_def)
  have ok: "pc_ok ?q ?xs (sy_threads s u)" for u using thr by (simp add: threads_ok_def)
  have pos: "unat pos < length ?xs" "seq_at ?q pos = pos" "?xs ! unat pos = v" using ok [of t] t by simp_all
  have other: "slot_index ?q p \<noteq> slot_index ?q pos" if "seq_at ?q p = p + 1" for p
    using tickets_disjoint [OF size pos(2) that] by simp
  have same: "p = pos" if "seq_at ?q p = p" "slot_index ?q p = slot_index ?q pos" for p
    using that pos(2) same_slot_seq by metis
  have old: "pc_ok (store_value ?q pos (Some v)) ?xs (sy_threads s u)" if "u \<noteq> t" for u
  proof -
    have "push_ticket (sy_threads s u) \<noteq> Some pos" using thr t that by (auto simp: threads_ok_def)
    then show ?thesis using ok [of u] other same
      by (cases "sy_threads s u") (auto simp: at_stores [OF size])
  qed
  have new: "pc_ok (store_value ?q pos (Some v)) ?xs (Push_publish pos)" using pos by (simp add: at_stores [OF size])
  have tick: "push_ticket (sy_threads ?s u) = push_ticket (sy_threads s u)" "pop_ticket (sy_threads ?s u) = pop_ticket (sy_threads s u)" for u
    using t by auto
  have "threads_ok ?s" using thr old new unfolding threads_ok_def tick by simp
  moreover have "tickets_ok ?s"
    using tic other unfolding tickets_ok_def tick by (simp add: at_stores [OF size])
  moreover have "history_ok ?s" using his unfolding history_ok_def tick by simp
  ultimately show ?thesis using inv by (simp add: sys_inv_def)
qed

lemma sys_inv_push_publish:
  assumes inv: "sys_inv k s" and t: "sy_threads s t = Push_publish pos"
  shows "sys_inv k (move (s\<lparr>sy_queue := store_seq (sy_queue s) pos (pos + 1)\<rparr>) t (Push_done True))" (is "sys_inv k ?s")
proof -
  let ?q = "sy_queue s" and ?xs = "sy_in s"
  let ?q' = "store_seq ?q pos (pos + 1)"
  have size: "sized k ?q" and thr: "threads_ok s" and tic: "tickets_ok s" and his: "history_ok s" using inv by (simp_all add: sys_inv_def)
  have enq: "unat (enqueue_pos ?q) = length ?xs" using inv unat_of_nat64 [of "length ?xs"] by (simp add: sys_inv_def)
  have ok: "pc_ok ?q ?xs (sy_threads s u)" for u using thr by (simp add: threads_ok_def)
  have pos: "unat pos < length ?xs" "seq_at ?q pos = pos" "value_at ?q pos = Some (?xs ! unat pos)" using ok [of t] t by simp_all
  have other: "slot_index ?q p \<noteq> slot_index ?q pos" if "seq_at ?q p = p + 1" for p
    using tickets_disjoint [OF size pos(2) that] by simp
  have same: "p = pos" if "seq_at ?q p = p" "slot_index ?q p = slot_index ?q pos" for p
    using that pos(2) same_slot_seq by metis
  have old: "pc_ok ?q' ?xs (sy_threads s u)" if "u \<noteq> t" for u
  proof -
    have "push_ticket (sy_threads s u) \<noteq> Some pos" using thr t that by (auto simp: threads_ok_def)
    moreover have "enqueue_pos ?q \<noteq> pos" using enq pos(1) by auto
    ultimately show ?thesis using ok [of u] other same
      by (cases "sy_threads s u") (auto simp: at_stores [OF size])
  qed
  have "threads_ok ?s" using thr old by (auto simp: threads_ok_def split: if_splits)
  moreover have "tickets_ok ?s"
    unfolding tickets_ok_def
  proof (intro conjI allI impI)
    fix p
    assume "seq_at (sy_queue ?s) p = p + 1"
    then have "p = pos \<or> seq_at ?q p = p + 1" by (auto simp: at_stores [OF size] split: if_splits)
    then show "unat p < length (sy_in ?s)" "dequeue_pos (sy_queue ?s) \<le> p \<Longrightarrow> value_at (sy_queue ?s) p = Some (sy_in ?s ! unat p)"
      using pos tic by (auto simp: at_stores [OF size] tickets_ok_def)
  next
    fix p
    assume p: "dequeue_pos (sy_queue ?s) \<le> p \<and> unat p < length (sy_in ?s)"
    then consider "seq_at ?q p = p + 1" | u where "push_ticket (sy_threads s u) = Some p" using tic by (auto simp: tickets_ok_def)
    then show "seq_at (sy_queue ?s) p = p + 1 \<or> (\<exists>u. push_ticket (sy_threads ?s u) = Some p)"
    proof cases
      case (2 u)
      then show ?thesis using t by (cases "u = t") (auto simp: at_stores [OF size])
    qed (use other in \<open>auto simp: at_stores [OF size]\<close>)
  qed
  moreover have "history_ok ?s"
  proof -
    have tick: "pop_ticket (sy_threads ?s u) = pop_ticket (sy_threads s u)" for u using t by simp
    show ?thesis using his unfolding history_ok_def tick by simp
  qed
  ultimately show ?thesis using inv by (simp add: sys_inv_def)
qed

lemma sys_inv_pop_claim:
  assumes inv: "sys_inv k s" and t: "sy_threads s t = Pop_cas (dequeue_pos (sy_queue s))"
  defines "pos \<equiv> dequeue_pos (sy_queue s)"
  shows "sys_inv k (move (s\<lparr>sy_queue := (sy_queue s)\<lparr>dequeue_pos := pos + 1\<rparr>\<rparr>) t (Pop_take pos))" (is "sys_inv k ?s")
proof -
  let ?q = "sy_queue s" and ?xs = "sy_in s"
  have thr: "threads_ok s" and tic: "tickets_ok s" and his: "history_ok s" using inv by (simp_all add: sys_inv_def)
  have ok: "pc_ok ?q ?xs (sy_threads s u)" for u using thr by (simp add: threads_ok_def)
  have pos: "seq_at ?q pos = pos + 1" using ok [of t] t by (simp add: pos_def)
  then have less: "unat pos < length ?xs" and val: "value_at ?q pos = Some (?xs ! unat pos)"
    using tic by (auto simp: tickets_ok_def pos_def)
  have pos1: "unat (pos + 1) = Suc (unat pos)" using less inv by (simp add: sys_inv_def unat_word_ariths)
  have below: "p < pos + 1 \<longleftrightarrow> p < pos \<or> p = pos" "pos + 1 \<le> p \<Longrightarrow> pos \<le> p" "p \<le> pos \<Longrightarrow> p \<le> pos + 1 \<and> p \<noteq> pos + 1" for p
    using pos1 by (auto simp: word_less_nat_alt word_le_nat_alt word_unat_eq_iff)
  have old: "pc_ok (?q\<lparr>dequeue_pos := pos + 1\<rparr>) ?xs (sy_threads s u)" for u
    using ok [of u] below by (cases "sy_threads s u") (auto simp: pos_def)
  have new: "pc_ok (?q\<lparr>dequeue_pos := pos + 1\<rparr>) ?xs (Pop_take pos)" using pos val below by simp
  have ticket: "pop_ticket (sy_threads s u) \<noteq> Some pos" for u using pc_ok_pop_ticket [OF ok [of u], of pos] by (auto simp: pos_def)
  have "threads_ok ?s" using thr old new ticket t by (auto simp: threads_ok_def split: if_splits)
  moreover have "tickets_ok ?s"
  proof -
    have tick: "push_ticket (sy_threads ?s u) = push_ticket (sy_threads s u)" for u using t by simp
    show ?thesis using tic below unfolding tickets_ok_def tick by (auto simp: pos_def)
  qed
  moreover have "history_ok ?s"
    unfolding history_ok_def
  proof (intro conjI)
    show "distinct (map fst (sy_out ?s))" using his by (simp add: history_ok_def)
    show "\<forall>(p, r) \<in> set (sy_out ?s). p < dequeue_pos (sy_queue ?s) \<and> r = Some (sy_in ?s ! unat p) \<and>
        (\<forall>u. pop_ticket (sy_threads ?s u) \<noteq> Some p)"
    proof clarify
      fix p r
      assume "(p, r) \<in> set (sy_out ?s)"
      then have "p < pos" "r = Some (?xs ! unat p)" "\<forall>u. pop_ticket (sy_threads s u) \<noteq> Some p"
        using his by (auto simp: history_ok_def pos_def)
      then show "p < dequeue_pos (sy_queue ?s) \<and> r = Some (sy_in ?s ! unat p) \<and> (\<forall>u. pop_ticket (sy_threads ?s u) \<noteq> Some p)"
        by (auto simp: below)
    qed
    show "\<forall>p < dequeue_pos (sy_queue ?s). p \<in> fst ` set (sy_out ?s) \<or> (\<exists>u. pop_ticket (sy_threads ?s u) = Some p)"
    proof (intro allI impI)
      fix p
      assume "p < dequeue_pos (sy_queue ?s)"
      then consider "p = pos" | "p < pos" using below by auto
      then show "p \<in> fst ` set (sy_out ?s) \<or> (\<exists>u. pop_ticket (sy_threads ?s u) = Some p)"
      proof cases
        case 2
        then consider "p \<in> fst ` set (sy_out s)" | u where "pop_ticket (sy_threads s u) = Some p"
          using his unfolding history_ok_def pos_def by blast
        then show ?thesis
        proof cases
          case (2 u)
          then show ?thesis using t by (cases "u = t") auto
        qed simp
      qed (auto intro: exI [of _ t])
    qed
  qed
  ultimately show ?thesis using inv less pos1 by (simp add: sys_inv_def)
qed

lemma sys_inv_pop_reset:
  assumes inv: "sys_inv k s" and t: "sy_threads s t = Pop_reset r pos"
  shows "sys_inv k (move (s\<lparr>sy_queue := store_value (sy_queue s) pos None\<rparr>) t (Pop_publish r pos))" (is "sys_inv k ?s")
proof -
  let ?q = "sy_queue s" and ?xs = "sy_in s"
  have size: "sized k ?q" and thr: "threads_ok s" and tic: "tickets_ok s" and his: "history_ok s" using inv by (simp_all add: sys_inv_def)
  have ok: "pc_ok ?q ?xs (sy_threads s u)" for u using thr by (simp add: threads_ok_def)
  have pos: "pos < dequeue_pos ?q" "seq_at ?q pos = pos + 1" "r = Some (?xs ! unat pos)" using ok [of t] t by simp_all
  have other: "slot_index ?q p \<noteq> slot_index ?q pos" if "seq_at ?q p = p" for p
    using tickets_disjoint [OF size that pos(2)] by simp
  have same: "p = pos" if "seq_at ?q p = p + 1" "slot_index ?q p = slot_index ?q pos" for p
    using that pos(2) same_slot_seq by (metis add_right_cancel)
  have old: "pc_ok (store_value ?q pos None) ?xs (sy_threads s u)" if "u \<noteq> t" for u
  proof -
    have "pop_ticket (sy_threads s u) \<noteq> Some pos" using thr t that by (auto simp: threads_ok_def)
    then show ?thesis using ok [of u] other same
      by (cases "sy_threads s u") (auto simp: at_stores [OF size])
  qed
  have new: "pc_ok (store_value ?q pos None) ?xs (Pop_publish r pos)" using pos by (simp add: at_stores [OF size])
  have tick: "push_ticket (sy_threads ?s u) = push_ticket (sy_threads s u)" "pop_ticket (sy_threads ?s u) = pop_ticket (sy_threads s u)" for u
    using t by auto
  have "threads_ok ?s" using thr old new unfolding threads_ok_def tick by simp
  moreover have "tickets_ok ?s"
    using tic pos(1) unfolding tickets_ok_def tick by (auto simp: at_stores [OF size] dest: same)
  moreover have "history_ok ?s" using his unfolding history_ok_def tick by simp
  ultimately show ?thesis using inv by (simp add: sys_inv_def)
qed

lemma sys_inv_pop_publish:
  assumes inv: "sys_inv k s" and t: "sy_threads s t = Pop_publish r pos"
  shows "sys_inv k (move (s\<lparr>sy_queue := store_seq (sy_queue s) pos (pos + lfq_mask (sy_queue s) + 1),
    sy_out := sy_out s @ [(pos, r)]\<rparr>) t (Pop_done r))" (is "sys_inv k ?s")
proof -
  let ?q = "sy_queue s" and ?xs = "sy_in s"
  let ?q' = "store_seq ?q pos (pos + lfq_mask ?q + 1)"
  have size: "sized k ?q" and thr: "threads_ok s" and tic: "tickets_ok s" and his: "history_ok s" using inv by (simp_all add: sys_inv_def)
  have lap: "pos + lfq_mask ?q + 1 = pos + 2 ^ k" using size by (simp add: sized_def)
  have ok: "pc_ok ?q ?xs (sy_threads s u)" for u using thr by (simp add: threads_ok_def)
  have pos: "pos < dequeue_pos ?q" "seq_at ?q pos = pos + 1" "r = Some (?xs ! unat pos)" using ok [of t] t by simp_all
  have other: "slot_index ?q p \<noteq> slot_index ?q pos" if "seq_at ?q p = p" for p
    using tickets_disjoint [OF size that pos(2)] by simp
  have same: "p = pos" if "seq_at ?q p = p + 1" "slot_index ?q p = slot_index ?q pos" for p
    using that pos(2) same_slot_seq by (metis add_right_cancel)
  have vacant: "p + 1 \<noteq> pos + 2 ^ k" if "slot_index ?q p = slot_index ?q pos" for p
    using slot_index_suc [OF size, of p] slot_index_lap [OF size, of pos] that by metis
  have old: "pc_ok ?q' ?xs (sy_threads s u)" if "u \<noteq> t" for u
  proof -
    have "pop_ticket (sy_threads s u) \<noteq> Some pos" using thr t that by (auto simp: threads_ok_def)
    then show ?thesis using ok [of u] other same pos(1)
      by (cases "sy_threads s u") (auto simp: at_stores [OF size])
  qed
  have "threads_ok ?s" using thr old by (auto simp: threads_ok_def split: if_splits)
  moreover have "tickets_ok ?s"
  proof -
    have tick: "push_ticket (sy_threads ?s u) = push_ticket (sy_threads s u)" for u using t by simp
    have seq: "seq_at ?q' p = p + 1 \<longleftrightarrow> seq_at ?q p = p + 1 \<and> slot_index ?q p \<noteq> slot_index ?q pos" for p
      using vacant [of p] lap by (auto simp: at_stores [OF size])
    have keep: "seq_at ?q p = p + 1 \<Longrightarrow> dequeue_pos ?q \<le> p \<Longrightarrow> slot_index ?q p \<noteq> slot_index ?q pos" for p
      using same [of p] pos(1) by auto
    show ?thesis using tic keep unfolding tickets_ok_def tick by (auto simp: seq at_stores(2) [OF size])
  qed
  moreover have "history_ok ?s"
    unfolding history_ok_def
  proof (intro conjI)
    have old_out: "p < dequeue_pos ?q" "x = Some (?xs ! unat p)" "pop_ticket (sy_threads s u) \<noteq> Some p"
      if "(p, x) \<in> set (sy_out s)" for p x u using his that by (auto simp: history_ok_def)
    have "pos \<notin> fst ` set (sy_out s)" using old_out(3) [of _ _ t] t by fastforce
    then show "distinct (map fst (sy_out ?s))" using his by (simp add: history_ok_def)
    have mine: "pop_ticket (sy_threads s u) \<noteq> Some pos" if "u \<noteq> t" for u using thr t that by (auto simp: threads_ok_def)
    show "\<forall>(p, x) \<in> set (sy_out ?s). p < dequeue_pos (sy_queue ?s) \<and> x = Some (sy_in ?s ! unat p) \<and>
        (\<forall>u. pop_ticket (sy_threads ?s u) \<noteq> Some p)"
      using old_out mine pos by auto
    show "\<forall>p < dequeue_pos (sy_queue ?s). p \<in> fst ` set (sy_out ?s) \<or> (\<exists>u. pop_ticket (sy_threads ?s u) = Some p)"
    proof (intro allI impI)
      fix p
      assume "p < dequeue_pos (sy_queue ?s)"
      then have "p < dequeue_pos ?q" by simp
      then consider "p \<in> fst ` set (sy_out s)" | u where "pop_ticket (sy_threads s u) = Some p"
        using his unfolding history_ok_def by blast
      then show "p \<in> fst ` set (sy_out ?s) \<or> (\<exists>u. pop_ticket (sy_threads ?s u) = Some p)"
      proof cases
        case (2 u)
        then show ?thesis using t by (cases "u = t") auto
      qed auto
    qed
  qed
  ultimately show ?thesis using inv by (simp add: sys_inv_def)
qed

section \<open>Every interleaving\<close>

lemma claimed_same: "claimed pc pc = []"
  by (cases pc) simp_all

lemma sys_inv_push_step:
  assumes inv: "sys_inv k s" and st: "push_step spurious (sy_queue s) (sy_threads s t) = (q, pc)"
    and bound: "length (sy_in s @ claimed (sy_threads s t) pc) < 2 ^ 64"
  shows "sys_inv k (move (s\<lparr>sy_queue := q, sy_in := sy_in s @ claimed (sy_threads s t) pc\<rparr>) t pc)"
proof -
  have ok: "pc_ok (sy_queue s) (sy_in s) (sy_threads s t)" using inv by (simp add: sys_inv_def threads_ok_def)
  have enq: "unat (enqueue_pos (sy_queue s)) = length (sy_in s)"
    using inv unat_of_nat64 [of "length (sy_in s)"] by (simp add: sys_inv_def)
  note stay = sys_inv_move [OF inv, of _ t]
  have [simp]: "s\<lparr>sy_queue := sy_queue s, sy_in := sy_in s\<rparr> = s" by simp
  show ?thesis
  proof (cases "sy_threads s t")
    case (Push_read v pos)
    then show ?thesis using st ok by (auto simp: Let_def intro!: stay split: if_splits)
  next
    case (Push_cas v pos)
    show ?thesis
    proof (cases "enqueue_pos (sy_queue s) = pos \<and> \<not> spurious")
      case True
      then show ?thesis using sys_inv_push_claim [OF inv, of t v] Push_cas st bound by auto
    next
      case False
      then show ?thesis using st Push_cas enq by (auto intro!: stay)
    qed
  next
    case (Push_emplace v pos)
    then show ?thesis using sys_inv_push_emplace [OF inv Push_emplace] st by auto
  next
    case (Push_publish pos)
    then show ?thesis using sys_inv_push_publish [OF inv Push_publish] st by auto
  qed (use st enq ok in \<open>auto intro!: stay simp: claimed_same\<close>)
qed

lemma sys_inv_pop_step:
  assumes inv: "sys_inv k s" and st: "pop_step spurious (sy_queue s) (sy_threads s t) = (q, pc)"
  shows "sys_inv k (move (s\<lparr>sy_queue := q, sy_out := sy_out s @ delivered (sy_threads s t)\<rparr>) t pc)"
proof -
  have ok: "pc_ok (sy_queue s) (sy_in s) (sy_threads s t)" using inv by (simp add: sys_inv_def threads_ok_def)
  note stay = sys_inv_move [OF inv, of _ t]
  have [simp]: "s\<lparr>sy_queue := sy_queue s, sy_out := sy_out s\<rparr> = s" by simp
  have res: "q = fst (pop_step spurious (sy_queue s) (sy_threads s t))" "pc = snd (pop_step spurious (sy_queue s) (sy_threads s t))"
    using st by simp_all
  show ?thesis
  proof (cases "sy_threads s t")
    case (Pop_read pos)
    then show ?thesis using st ok by (auto simp: Let_def intro!: stay split: if_splits)
  next
    case (Pop_cas pos)
    show ?thesis
    proof (cases "dequeue_pos (sy_queue s) = pos \<and> \<not> spurious")
      case True
      then show ?thesis using sys_inv_pop_claim [OF inv, of t] Pop_cas st by auto
    next
      case False
      then show ?thesis using st Pop_cas by (auto intro!: stay)
    qed
  next
    case (Pop_reset r pos)
    then show ?thesis using sys_inv_pop_reset [OF inv Pop_reset] st by auto
  next
    case (Pop_publish r pos)
    then show ?thesis using sys_inv_pop_publish [OF inv Pop_publish] st by auto
  qed (use ok in \<open>simp_all add: res stay\<close>)
qed

lemma sys_inv_step:
  assumes "sys_step s s'" and "sys_inv k s" and "length (sy_in s') < 2 ^ 64"
  shows "sys_inv k s'"
  using assms
proof cases
  case (call_push t v)
  then show ?thesis using assms(2) by (auto intro!: sys_inv_move)
next
  case (call_pop t)
  then show ?thesis using assms(2) by (auto intro!: sys_inv_move)
next
  case (push spurious t q pc)
  then show ?thesis using sys_inv_push_step [OF assms(2) push(2)] assms(3) by simp
next
  case (pop spurious t q pc)
  then show ?thesis using sys_inv_pop_step [OF assms(2) pop(2)] by simp
next
  case (ret t)
  then show ?thesis using assms(2) by (cases "sy_threads s t") (auto intro!: sys_inv_move)
qed

lemma sys_step_in: "sys_step s s' \<Longrightarrow> length (sy_in s) \<le> length (sy_in s')"
  by (induction rule: sys_step.induct) simp_all

lemma sys_inv_initial:
  assumes "lfq_inv q" and "lfq_list q = []" and "enqueue_pos q = 0"
  shows "\<exists>k. sys_inv k (initial q)"
proof -
  obtain k where size: "sized k q" using assms(1) by (auto simp: lfq_inv_def)
  have n: "lfq_length q = 0" using assms(2) by (simp add: lfq_list_def)
  then have deq: "dequeue_pos q = 0" using enqueue_pos_length [of q] assms(3) by simp
  have vacant: "seq_at q (of_nat i) = of_nat i" if "i < 2 ^ k" for i
    using assms(1) that size n deq by (auto simp: lfq_inv_def slots_ok_def Let_def sized_def)
  have no: "seq_at q p \<noteq> p + 1" for p
  proof -
    let ?i = "unat p mod 2 ^ k"
    have "slot_index q p = slot_index q (of_nat ?i)" using slot_index_mod [OF size] slot_index_add [OF size, of 0 ?i] by simp
    then show ?thesis using vacant [of ?i] tickets_disjoint [OF size, of "of_nat ?i" p] by auto
  qed
  have "sys_inv k (initial q)"
    using size no assms(3) deq by (simp add: sys_inv_def initial_def threads_ok_def tickets_ok_def history_ok_def)
  then show ?thesis ..
qed

lemma sys_inv_reachable:
  assumes "reachable q s" and "lfq_inv q" and "lfq_list q = []" and "enqueue_pos q = 0" and "length (sy_in s) < 2 ^ 64"
  shows "\<exists>k. sys_inv k s"
  using assms(1,5)
proof (induction rule: reachable.induct)
  case start
  then show ?case using sys_inv_initial [OF assms(2-4)] by simp
next
  case (step s s')
  then show ?case using sys_step_in [OF step(2)] sys_inv_step [OF step(2)] by (meson le_less_trans)
qed

lemma construct_enqueue: "lfq_construct c = Inr q \<Longrightarrow> enqueue_pos q = 0"
  by (auto simp: lfq_construct_def split: sum.splits)

lemma sys_inv_constructed:
  assumes "lfq_construct c = Inr q" and "1 < unat c" and "reachable q s" and "length (sy_in s) < 2 ^ 64"
  shows "\<exists>k. sys_inv k s"
  using sys_inv_reachable [OF assms(3) lfq_construct_inv(1,2) [OF assms(1,2)] construct_enqueue [OF assms(1)] assms(4)] .

lemma quiescent_contents:
  assumes "sys_inv k s" and "\<And>t. sy_threads s t = Idle"
  shows "lfq_list (sy_queue s) = drop (unat (dequeue_pos (sy_queue s))) (sy_in s)"
    and "lfq_length (sy_queue s) \<le> lfq_capacity (sy_queue s)"
proof -
  let ?q = "sy_queue s" and ?xs = "sy_in s" and ?d = "dequeue_pos (sy_queue s)"
  have size: "sized k ?q" and tic: "tickets_ok s" and len: "length ?xs < 2 ^ 64" and d: "unat ?d \<le> length ?xs"
      and e: "enqueue_pos ?q = of_nat (length ?xs)" using assms(1) by (simp_all add: sys_inv_def)
  have "unat (enqueue_pos ?q) = length ?xs" using e len unat_of_nat64 by simp
  then have n: "lfq_length ?q = length ?xs - unat ?d"
    using d by (simp add: lfq_length_def unat_sub word_le_nat_alt)
  have at: "seq_at ?q (?d + of_nat i) = ?d + of_nat i + 1 \<and> value_at ?q (?d + of_nat i) = Some (?xs ! (unat ?d + i))"
    if "i < length ?xs - unat ?d" for i
  proof -
    have u: "unat (?d + of_nat i) = unat ?d + i" using that len by (simp add: unat_word_ariths unat_of_nat)
    then have "?d \<le> ?d + of_nat i" "unat (?d + of_nat i) < length ?xs" using that by (simp_all add: word_le_nat_alt)
    then show ?thesis using tic assms(2) u by (auto simp: tickets_ok_def)
  qed
  show "lfq_list ?q = drop (unat ?d) ?xs"
    using at d by (intro nth_equalityI) (simp_all add: lfq_list_def n)
  have "length ?xs - unat ?d \<le> 2 ^ k"
  proof (rule ccontr)
    assume "\<not> length ?xs - unat ?d \<le> 2 ^ k"
    then have "seq_at ?q ?d = ?d + 1" "seq_at ?q (?d + 2 ^ k) = ?d + 2 ^ k + 1" using at [of 0] at [of "2 ^ k"] by simp_all
    moreover have "seq_at ?q (?d + 2 ^ k) = seq_at ?q ?d" using slot_index_lap [OF size] by (simp add: seq_at_def)
    ultimately have "(2 ^ k :: u64) = 0" by simp
    then show False using size by (simp add: sized_def)
  qed
  then show "lfq_length ?q \<le> lfq_capacity ?q" using n capacity_slots [OF size] size by (simp add: sized_def)
qed



text \<open>
  The slots are free of data races: two threads that are between claiming a ticket and publishing
  the sequence number, whether they push or pop, never work on the same slot, so that the
  value of a slot is touched by one thread at a time.
\<close>

theorem lock_free_queue_race_free:
  assumes "lfq_construct c = Inr q" and "1 < unat c" and "reachable q s" and "length (sy_in s) < 2 ^ 64"
    and "t \<noteq> t'" and "push_ticket (sy_threads s t) = Some p \<or> pop_ticket (sy_threads s t) = Some p"
    and "push_ticket (sy_threads s t') = Some p' \<or> pop_ticket (sy_threads s t') = Some p'"
  shows "slot_index (sy_queue s) p \<noteq> slot_index (sy_queue s) p'"
proof
  assume same: "slot_index (sy_queue s) p = slot_index (sy_queue s) p'"
  obtain k where inv: "sys_inv k s" using sys_inv_constructed [OF assms(1-4)] by blast
  then have size: "sized k (sy_queue s)" and thr: "threads_ok s" by (simp_all add: sys_inv_def)
  have ok: "pc_ok (sy_queue s) (sy_in s) (sy_threads s u)" for u using thr by (simp add: threads_ok_def)
  have seq: "seq_at (sy_queue s) p = seq_at (sy_queue s) p'" using same by (rule same_slot_seq)
  note disjoint = tickets_disjoint [OF size]
  from assms(6,7) show False
  proof (elim disjE)
    assume "push_ticket (sy_threads s t) = Some p" "push_ticket (sy_threads s t') = Some p'"
    with pc_ok_push_ticket [OF ok] seq assms(5) thr show False by (fastforce simp: threads_ok_def)
  next
    assume "pop_ticket (sy_threads s t) = Some p" "pop_ticket (sy_threads s t') = Some p'"
    with pc_ok_pop_ticket [OF ok] seq assms(5) thr show False by (fastforce simp: threads_ok_def)
  next
    assume "push_ticket (sy_threads s t) = Some p" "pop_ticket (sy_threads s t') = Some p'"
    with pc_ok_push_ticket [OF ok] pc_ok_pop_ticket [OF ok] disjoint [of p p'] same show False by blast
  next
    assume "pop_ticket (sy_threads s t) = Some p" "push_ticket (sy_threads s t') = Some p'"
    with pc_ok_push_ticket [OF ok] pc_ok_pop_ticket [OF ok] disjoint [of p' p] same show False by metis
  qed
qed

lemma move_move: "move (move s t a) t b = move s t b"
  by (simp add: move_def)

text \<open>A push that runs undisturbed up to its claim.\<close>

lemma reachable_claim:
  assumes "reachable q s" and "sy_threads s t = Idle" and "seq_at (sy_queue s) (enqueue_pos (sy_queue s)) = enqueue_pos (sy_queue s)"
  shows "reachable q (move (s\<lparr>sy_queue := (sy_queue s)\<lparr>enqueue_pos := enqueue_pos (sy_queue s) + 1\<rparr>, sy_in := sy_in s @ [v]\<rparr>) t
    (Push_emplace v (enqueue_pos (sy_queue s))))"
proof -
  let ?pos = "enqueue_pos (sy_queue s)"
  have quiet: "reachable q (move s t pc')" if "reachable q (move s t pc)" "push_step False (sy_queue s) pc = (sy_queue s, pc')" "claimed pc pc' = []" for pc pc'
    using reachable.step [OF that(1) sys_step.push [of False "move s t pc" t]] that(2,3) by (simp add: move_def)
  have "reachable q (move s t (Push_start v))" using reachable.step [OF assms(1) sys_step.call_push [OF assms(2)]] .
  then have "reachable q (move s t (Push_read v ?pos))" by (rule quiet) simp_all
  then have "reachable q (move s t (Push_cas v ?pos))" by (rule quiet) (simp_all add: assms(3))
  from reachable.step [OF this sys_step.push [of False "move s t (Push_cas v ?pos)" t]]
  show ?thesis by (simp add: move_def)
qed

theorem lock_free_queue_race_free_witness:
  "\<exists>q s. lfq_construct 2 = Inr q \<and> reachable q s \<and> sy_threads s 0 = Push_emplace (7 :: nat) 0 \<and> sy_threads s 1 = Push_emplace 8 1 \<and>
     slot_index (sy_queue s) 0 \<noteq> slot_index (sy_queue s) 1"
proof -
  have two: "bit_ceil 2 = 2" "[0..<2] = [0, 1 :: nat]"
    by (simp add: bit_ceil.simps [of 2] bit_ceil.simps [of "Suc 0"], simp add: upt_rec)
  obtain q :: "nat lfq" where q: "lfq_construct 2 = Inr q" "enqueue_pos q = 0" "lfq_mask q = 1"
      "lfq_slots q = [\<lparr>sl_sequence = 0, sl_value = None\<rparr>, \<lparr>sl_sequence = 1, sl_value = None\<rparr>]"
    by (simp add: lfq_construct_def rounded_capacity_def two)
  have seq: "seq_at q 0 = 0" "seq_at q 1 = 1" by (simp_all add: seq_at_def slot_index_def q)
  define s1 where "s1 = move ((initial q)\<lparr>sy_queue := q\<lparr>enqueue_pos := 1\<rparr>, sy_in := [7]\<rparr>) 0 (Push_emplace 7 0)"
  define s2 where "s2 = move (s1\<lparr>sy_queue := q\<lparr>enqueue_pos := 2\<rparr>, sy_in := [7, 8]\<rparr>) 1 (Push_emplace 8 1)"
  have r1: "reachable q s1"
    using reachable_claim [OF reachable.start, of q 0 7] seq q by (simp add: initial_def s1_def)
  have r2: "reachable q s2"
    using reachable_claim [OF r1, of 1 8] seq q by (simp add: s1_def s2_def initial_def)
  have t: "sy_threads s2 0 = Push_emplace 7 0" "sy_threads s2 1 = Push_emplace 8 1" "length (sy_in s2) = 2"
    by (simp_all add: s2_def s1_def)
  from lock_free_queue_race_free [OF q(1) _ r2, of 0 1 0 1] t have "slot_index (sy_queue s2) 0 \<noteq> slot_index (sy_queue s2) 1" by simp
  then show ?thesis using q(1) r2 t by blast
qed

end
