(* ===== verification/Std_Heap.thy ===== *)
theory Std_Heap
  imports Std_Algorithms
begin

text \<open>
  \<open>std::push_heap\<close> and \<open>std::pop_heap\<close> on a vector, by sifting up and down. The standard only promises the heap
  property and that the elements are kept; what clients rely on is the locale \<open>heap_queue\<close>.
\<close>

section \<open>The algorithms\<close>

definition parent :: "nat \<Rightarrow> nat" where
  "parent i = (i - 1) div 2"

definition swap_at :: "'a list \<Rightarrow> nat \<Rightarrow> nat \<Rightarrow> 'a list" where
  "swap_at xs i j = xs[i := xs ! j, j := xs ! i]"

lemma parent_less: "0 < i \<Longrightarrow> parent i < i"
  by (simp add: parent_def)

function sift_up :: "('a \<Rightarrow> 'a \<Rightarrow> bool) \<Rightarrow> 'a list \<Rightarrow> nat \<Rightarrow> 'a list" where
  "sift_up cmp xs i =
     (if 0 < i \<and> cmp (xs ! parent i) (xs ! i) then sift_up cmp (swap_at xs (parent i) i) (parent i) else xs)"
  by pat_completeness auto
termination
  by (relation "measure (\<lambda>(_, _, i). i)") (auto simp: parent_less)

declare sift_up.simps [simp del]

definition larger_child :: "('a \<Rightarrow> 'a \<Rightarrow> bool) \<Rightarrow> nat \<Rightarrow> 'a list \<Rightarrow> nat \<Rightarrow> nat" where
  "larger_child cmp n xs i =
     (if 2 * i + 2 < n \<and> cmp (xs ! (2 * i + 1)) (xs ! (2 * i + 2)) then 2 * i + 2 else 2 * i + 1)"

function sift_down :: "('a \<Rightarrow> 'a \<Rightarrow> bool) \<Rightarrow> nat \<Rightarrow> 'a list \<Rightarrow> nat \<Rightarrow> 'a list" where
  "sift_down cmp n xs i =
     (let c = larger_child cmp n xs i in
      if 2 * i + 1 < n \<and> cmp (xs ! i) (xs ! c) then sift_down cmp n (swap_at xs i c) c else xs)"
  by pat_completeness auto
termination
  by (relation "measure (\<lambda>(_, n, _, i). n - i)") (auto simp: larger_child_def)

declare sift_down.simps [simp del]

definition push_heap :: "('a \<Rightarrow> 'a \<Rightarrow> bool) \<Rightarrow> 'a list \<Rightarrow> 'a list" where
  "push_heap cmp xs = sift_up cmp xs (length xs - 1)"

definition pop_heap :: "('a \<Rightarrow> 'a \<Rightarrow> bool) \<Rightarrow> 'a list \<Rightarrow> 'a list" where
  "pop_heap cmp xs = (if xs = [] then [] else sift_down cmp (length xs - 1) (swap_at xs 0 (length xs - 1)) 0)"

definition heap_upto :: "('a \<Rightarrow> 'a \<Rightarrow> bool) \<Rightarrow> nat \<Rightarrow> 'a list \<Rightarrow> bool" where
  "heap_upto cmp n xs \<longleftrightarrow> (\<forall>i < n. 0 < i \<longrightarrow> \<not> cmp (xs ! parent i) (xs ! i))"

section \<open>Swapping\<close>

lemma length_swap [simp]: "length (swap_at xs i j) = length xs"
  by (simp add: swap_at_def)

lemma nth_swap: "i < length xs \<Longrightarrow> j < length xs \<Longrightarrow> k < length xs \<Longrightarrow>
    swap_at xs i j ! k = (if k = i then xs ! j else if k = j then xs ! i else xs ! k)"
  by (auto simp: swap_at_def nth_list_update)

lemma mset_swap_at: "i < length xs \<Longrightarrow> j < length xs \<Longrightarrow> mset (swap_at xs i j) = mset xs"
  by (simp add: swap_at_def mset_swap)

lemma parent_cases: "0 < j \<Longrightarrow> parent j = i \<longleftrightarrow> j = 2 * i + 1 \<or> j = 2 * i + 2"
  by (auto simp: parent_def)

lemma sift_up_mset: "i < length xs \<Longrightarrow> mset (sift_up cmp xs i) = mset xs \<and> length (sift_up cmp xs i) = length xs"
proof (induction cmp xs i rule: sift_up.induct)
  case (1 cmp xs i)
  then show ?case by (subst (1 2) sift_up.simps) (auto simp: mset_swap_at less_trans [OF parent_less])
qed

lemma sift_down_mset:
  "n \<le> length xs \<Longrightarrow> i < n \<or> n = 0 \<Longrightarrow> mset (sift_down cmp n xs i) = mset xs \<and> length (sift_down cmp n xs i) = length xs \<and>
    (\<forall>j < length xs. n \<le> j \<longrightarrow> sift_down cmp n xs i ! j = xs ! j)"
proof (induction cmp n xs i rule: sift_down.induct)
  case (1 cmp n xs i)
  let ?c = "larger_child cmp n xs i"
  show ?case
  proof (cases "2 * i + 1 < n \<and> cmp (xs ! i) (xs ! ?c)")
    case True
    then have c: "?c < n" "i < n" by (auto simp: larger_child_def)
    with 1 True have ih: "mset (sift_down cmp n (swap_at xs i ?c) ?c) = mset (swap_at xs i ?c)"
        "length (sift_down cmp n (swap_at xs i ?c) ?c) = length xs"
        "\<forall>j < length xs. n \<le> j \<longrightarrow> sift_down cmp n (swap_at xs i ?c) ?c ! j = swap_at xs i ?c ! j" by auto
    have "sift_down cmp n xs i = sift_down cmp n (swap_at xs i ?c) ?c"
      using True by (subst sift_down.simps) (simp add: Let_def)
    then show ?thesis using ih c 1(2) by (simp add: mset_swap_at nth_swap)
  next
    case False
    then have "sift_down cmp n xs i = xs" by (subst sift_down.simps) (auto simp: Let_def)
    then show ?thesis by simp
  qed
qed

section \<open>The heap property\<close>

text \<open>
  While an element is sifted, the heap property holds except at its index, and the children of that index are
  in order with its parent.
\<close>

definition bridged :: "('a \<Rightarrow> 'a \<Rightarrow> bool) \<Rightarrow> nat \<Rightarrow> 'a list \<Rightarrow> nat \<Rightarrow> bool" where
  "bridged cmp n xs i \<longleftrightarrow> (\<forall>j < n. 0 < j \<and> parent j = i \<and> 0 < i \<longrightarrow> \<not> cmp (xs ! parent i) (xs ! j))"

lemma parent_neq: "0 < j \<Longrightarrow> parent j \<noteq> j"
  using parent_less [of j] by simp

context strict_weak
begin

lemma sift_up_step:
  assumes "i < length xs" and "0 < i" and "cmp (xs ! parent i) (xs ! i)"
    and heap: "\<forall>j < length xs. 0 < j \<and> j \<noteq> i \<longrightarrow> \<not> cmp (xs ! parent j) (xs ! j)" and "bridged cmp (length xs) xs i"
  defines "ys \<equiv> swap_at xs (parent i) i"
  shows "\<forall>j < length xs. 0 < j \<and> j \<noteq> parent i \<longrightarrow> \<not> cmp (ys ! parent j) (ys ! j)" and "bridged cmp (length xs) ys (parent i)"
proof -
  let ?p = "parent i"
  have p: "?p < i" "?p < length xs" using parent_less [OF assms(2)] assms(1) by simp_all
  have ys: "ys ! k = (if k = ?p then xs ! i else if k = i then xs ! ?p else xs ! k)" if "k < length xs" for k
    using that p assms(1) by (simp add: ys_def nth_swap)
  have par: "parent j < length xs" if "j < length xs" "0 < j" for j using that parent_less [of j] by simp
  have bridge: "\<not> cmp (xs ! ?p) (xs ! j)" if "j < length xs" "0 < j" "parent j = i" for j
    using assms(2,5) that by (auto simp: bridged_def)
  show "\<forall>j < length xs. 0 < j \<and> j \<noteq> ?p \<longrightarrow> \<not> cmp (ys ! parent j) (ys ! j)"
  proof (intro allI impI, elim conjE)
    fix j
    assume j: "j < length xs" "0 < j" "j \<noteq> ?p"
    consider "j = i" | "parent j = i" | "j \<noteq> i" "parent j = ?p" | "j \<noteq> i" "parent j \<noteq> i" "parent j \<noteq> ?p" by blast
    then show "\<not> cmp (ys ! parent j) (ys ! j)"
    proof cases
      case 1
      then show ?thesis using ys [of i] ys [of ?p] p assms(1) asym [OF assms(3)] by auto
    next
      case 2
      then show ?thesis using bridge [OF j(1,2) 2] ys [OF j(1)] ys [OF assms(1)] parent_neq [OF j(2)] j(3) p by auto
    next
      case 3
      then have "\<not> cmp (xs ! ?p) (xs ! j)" using heap j by metis
      then show ?thesis using 3 ys [OF j(1)] ys [OF p(2)] j(3) trans [OF assms(3)] by auto
    next
      case 4
      then show ?thesis using heap j ys [OF j(1)] ys [OF par [OF j(1,2)]] by auto
    qed
  qed
  show "bridged cmp (length xs) ys ?p"
    unfolding bridged_def
  proof (intro allI impI, elim conjE)
    fix j
    assume j: "j < length xs" "0 < j" "parent j = ?p" "0 < ?p"
    have pp: "parent ?p < ?p" "ys ! parent ?p = xs ! parent ?p" using parent_less [OF j(4)] ys [of "parent ?p"] p by auto
    have up: "\<not> cmp (xs ! parent ?p) (xs ! ?p)" using heap p j(4) by auto
    show "\<not> cmp (ys ! parent ?p) (ys ! j)"
    proof (cases "j = i")
      case False
      then have "\<not> cmp (xs ! ?p) (xs ! j)" using heap j by metis
      then show ?thesis using pp ys [OF j(1)] False parent_neq [OF j(2)] j(3) not_less_trans [OF _ up] by auto
    qed (use up pp ys [OF assms(1)] p in auto)
  qed
qed

lemma sift_up_heap:
  "i < length xs \<Longrightarrow> \<forall>j < length xs. 0 < j \<and> j \<noteq> i \<longrightarrow> \<not> cmp (xs ! parent j) (xs ! j) \<Longrightarrow> bridged cmp (length xs) xs i \<Longrightarrow>
    heap_upto cmp (length xs) (sift_up cmp xs i)"
proof (induction i arbitrary: xs rule: less_induct)
  case (less i)
  show ?case
  proof (cases "0 < i \<and> cmp (xs ! parent i) (xs ! i)")
    case True
    note step = sift_up_step [OF less.prems(1) _ _ less.prems(2,3)]
    have "parent i < i" using True parent_less by blast
    from less.IH [OF this, of "swap_at xs (parent i) i"] step True this less.prems(1)
    have "heap_upto cmp (length xs) (sift_up cmp (swap_at xs (parent i) i) (parent i))" by simp
    then show ?thesis using True by (subst sift_up.simps) simp
  next
    case False
    then show ?thesis using less.prems(2) by (subst sift_up.simps) (auto simp: heap_upto_def)
  qed
qed

lemma push_heap_heap:
  assumes "heap_upto cmp (length xs) xs"
  shows "heap_upto cmp (length xs + 1) (push_heap cmp (xs @ [x]))"
proof -
  have "\<not> cmp ((xs @ [x]) ! parent j) ((xs @ [x]) ! j)" if "j < length xs" "0 < j" for j
    using assms parent_less [OF that(2)] that by (simp add: heap_upto_def nth_append)
  then have "\<forall>j < length (xs @ [x]). 0 < j \<and> j \<noteq> length xs \<longrightarrow> \<not> cmp ((xs @ [x]) ! parent j) ((xs @ [x]) ! j)"
    by (simp add: less_Suc_eq)
  moreover have "parent j \<noteq> length xs" if "j < length (xs @ [x])" "0 < j" for j
    using parent_less [OF that(2)] that(1) by simp
  then have "bridged cmp (length (xs @ [x])) (xs @ [x]) (length xs)" unfolding bridged_def by blast
  ultimately show ?thesis using sift_up_heap [of "length xs" "xs @ [x]"] by (simp add: push_heap_def)
qed

lemma larger_child_ge:
  assumes "2 * i + 1 < n" and "j < n" and "j = 2 * i + 1 \<or> j = 2 * i + 2"
  shows "\<not> cmp (xs ! larger_child cmp n xs i) (xs ! j)"
  using assms by (auto simp: larger_child_def irrefl dest: asym)

lemma sift_down_step:
  assumes "n \<le> length xs" and "2 * i + 1 < n" and cmp: "cmp (xs ! i) (xs ! larger_child cmp n xs i)"
    and heap: "\<forall>j < n. 0 < j \<and> parent j \<noteq> i \<longrightarrow> \<not> cmp (xs ! parent j) (xs ! j)" and "bridged cmp n xs i"
  defines "c \<equiv> larger_child cmp n xs i"
  shows "\<forall>j < n. 0 < j \<and> parent j \<noteq> c \<longrightarrow> \<not> cmp (swap_at xs i c ! parent j) (swap_at xs i c ! j)"
    and "bridged cmp n (swap_at xs i c) c"
proof -
  let ?ys = "swap_at xs i c"
  have c: "c < n" "i < c" "parent c = i" "c = 2 * i + 1 \<or> c = 2 * i + 2"
    using assms(2) by (auto simp: c_def larger_child_def parent_def)
  have ys: "?ys ! k = (if k = i then xs ! c else if k = c then xs ! i else xs ! k)" if "k < n" for k
    using that c assms(1) by (simp add: nth_swap)
  have par: "parent j < n" if "j < n" "0 < j" for j using that parent_less [of j] by simp
  show "\<forall>j < n. 0 < j \<and> parent j \<noteq> c \<longrightarrow> \<not> cmp (?ys ! parent j) (?ys ! j)"
  proof (intro allI impI, elim conjE)
    fix j
    assume j: "j < n" "0 < j" "parent j \<noteq> c"
    consider "j = c" | "j = i" | "j \<noteq> c" "parent j = i" | "j \<noteq> c" "j \<noteq> i" "parent j \<noteq> i" by blast
    then show "\<not> cmp (?ys ! parent j) (?ys ! j)"
    proof cases
      case 1
      then show ?thesis using ys [OF c(1)] ys [of i] c asym [OF cmp] by (auto simp: c_def)
    next
      case 2
      then have "\<not> cmp (xs ! parent i) (xs ! c)" using assms(5) c j by (auto simp: bridged_def)
      then show ?thesis using 2 ys [OF j(1)] ys [OF par [OF j(1,2)]] parent_neq [OF j(2)] j(3) by auto
    next
      case 3
      then have "\<not> cmp (xs ! c) (xs ! j)"
        using larger_child_ge [OF assms(2) j(1)] parent_cases [OF j(2), of i] by (simp add: c_def)
      then show ?thesis using 3 ys [OF j(1)] ys [OF par [OF j(1,2)]] parent_neq [OF j(2)] by auto
    next
      case 4
      then show ?thesis using heap j ys [OF j(1)] ys [OF par [OF j(1,2)]] by auto
    qed
  qed
  show "bridged cmp n ?ys c"
    unfolding bridged_def
  proof (intro allI impI, elim conjE)
    fix j
    assume j: "j < n" "0 < j" "parent j = c"
    then have "\<not> cmp (xs ! c) (xs ! j)" using heap c by auto
    moreover have "j \<noteq> i" "j \<noteq> c" using parent_less [OF j(2)] j(3) c by auto
    ultimately show "\<not> cmp (?ys ! parent c) (?ys ! j)" using ys [OF j(1)] ys [of i] c by auto
  qed
qed

lemma sift_down_heap:
  "n \<le> length xs \<Longrightarrow> \<forall>j < n. 0 < j \<and> parent j \<noteq> i \<longrightarrow> \<not> cmp (xs ! parent j) (xs ! j) \<Longrightarrow> bridged cmp n xs i \<Longrightarrow>
    heap_upto cmp n (sift_down cmp n xs i)"
proof (induction "n - i" arbitrary: i xs rule: less_induct)
  case less
  let ?c = "larger_child cmp n xs i"
  show ?case
  proof (cases "2 * i + 1 < n \<and> cmp (xs ! i) (xs ! ?c)")
    case True
    have "n - ?c < n - i" using True by (auto simp: larger_child_def)
    from less.hyps [OF this, of "swap_at xs i ?c"] sift_down_step [OF less.prems(1) _ _ less.prems(2,3)] True less.prems(1)
    have "heap_upto cmp n (sift_down cmp n (swap_at xs i ?c) ?c)" by simp
    then show ?thesis using True by (subst sift_down.simps) (simp add: Let_def)
  next
    case False
    then have "sift_down cmp n xs i = xs" by (subst sift_down.simps) (auto simp: Let_def)
    moreover have "\<not> cmp (xs ! parent j) (xs ! j)" if j: "j < n" "0 < j" for j
    proof (cases "parent j = i")
      case True
      then have "j = 2 * i + 1 \<or> j = 2 * i + 2" using parent_cases [OF j(2)] by simp
      moreover from this have "2 * i + 1 < n" using j by auto
      ultimately show ?thesis
        using False True larger_child_ge [of i n j xs] j not_less_trans by metis
    qed (use less.prems(2) j in auto)
    ultimately show ?thesis by (auto simp: heap_upto_def)
  qed
qed

lemma heap_top: "heap_upto cmp n xs \<Longrightarrow> i < n \<Longrightarrow> \<not> cmp (xs ! 0) (xs ! i)"
proof (induction i rule: less_induct)
  case (less i)
  show ?case
  proof (cases "i = 0")
    case False
    then have "\<not> cmp (xs ! 0) (xs ! parent i)" "\<not> cmp (xs ! parent i) (xs ! i)"
      using less parent_less [of i] by (auto simp: heap_upto_def)
    then show ?thesis using not_less_trans by blast
  qed (simp add: irrefl)
qed

end

section \<open>What clients rely on\<close>

locale heap_queue = strict_weak cmp for cmp :: "'a \<Rightarrow> 'a \<Rightarrow> bool" +
  fixes push pop :: "'a list \<Rightarrow> 'a list"
  assumes push_law: "heap_upto cmp (length xs) xs \<Longrightarrow>
      heap_upto cmp (length (push (xs @ [x]))) (push (xs @ [x])) \<and> mset (push (xs @ [x])) = add_mset x (mset xs)"
    and pop_law: "heap_upto cmp (length xs) xs \<Longrightarrow> xs \<noteq> [] \<Longrightarrow>
      heap_upto cmp (length (butlast (pop xs))) (butlast (pop xs)) \<and> mset (pop xs) = mset xs \<and> last (pop xs) = hd xs \<and>
      (\<forall>y \<in> set xs. \<not> cmp (hd xs) y)"
begin

lemma pop_mset: "heap_upto cmp (length xs) xs \<Longrightarrow> xs \<noteq> [] \<Longrightarrow> mset xs = add_mset (hd xs) (mset (butlast (pop xs)))"
  using pop_law [of xs] by (metis append_butlast_last_id mset.simps(1) mset_append mset_zero_iff add_mset_add_single mset_single_iff_right)

end

sublocale strict_weak \<subseteq> hq: heap_queue cmp "push_heap cmp" "pop_heap cmp"
proof (unfold_locales, goal_cases)
  case (1 xs x)
  have "length xs < length (xs @ [x])" by simp
  note sift_up_mset [OF this, of cmp]
  then show ?case using push_heap_heap [OF 1, of x] by (simp add: push_heap_def)
next
  case (2 xs)
  let ?n = "length xs - 1"
  let ?ys = "swap_at xs 0 ?n"
  have n: "?n < length xs" "0 < length xs" using 2(2) by (cases xs; simp)+
  have ys: "?ys ! k = (if k = 0 then xs ! ?n else if k = ?n then xs ! 0 else xs ! k)" if "k < length xs" for k
    using nth_swap [OF n(2,1) that] .
  have "\<not> cmp (?ys ! parent j) (?ys ! j)" if "j < ?n" "0 < j" "parent j \<noteq> 0" for j
    using 2(1) that parent_less [OF that(2)] ys [of j] ys [of "parent j"] by (auto simp: heap_upto_def)
  then have heap: "heap_upto cmp ?n (pop_heap cmp xs)"
    using sift_down_heap [of ?n ?ys 0] 2(2) by (simp add: pop_heap_def bridged_def)
  have zero: "0 < ?n \<or> ?n = 0" by linarith
  have keep: "mset (sift_down cmp ?n ?ys 0) = mset ?ys" "length (sift_down cmp ?n ?ys 0) = length xs"
      "sift_down cmp ?n ?ys 0 ! ?n = ?ys ! ?n"
    using sift_down_mset [of ?n ?ys 0 cmp, OF _ zero] n by auto
  have len: "length (pop_heap cmp xs) = length xs" "pop_heap cmp xs \<noteq> []"
    using keep(2) 2(2) by (auto simp: pop_heap_def)
  have "last (pop_heap cmp xs) = pop_heap cmp xs ! ?n" using len by (simp add: last_conv_nth)
  also have "\<dots> = hd xs" using keep(3) ys [OF n(1)] 2(2) by (simp add: pop_heap_def hd_conv_nth)
  finally have last: "last (pop_heap cmp xs) = hd xs" .
  have "heap_upto cmp (length (butlast (pop_heap cmp xs))) (butlast (pop_heap cmp xs))"
    unfolding heap_upto_def
  proof (intro allI impI)
    fix i
    assume i: "i < length (butlast (pop_heap cmp xs))" "0 < i"
    then have "parent i < length (butlast (pop_heap cmp xs))" using parent_less [OF i(2)] by simp
    then show "\<not> cmp (butlast (pop_heap cmp xs) ! parent i) (butlast (pop_heap cmp xs) ! i)"
      using heap i len by (simp add: heap_upto_def nth_butlast)
  qed
  moreover have "mset (pop_heap cmp xs) = mset xs"
    using keep(1) 2(2) mset_swap_at [OF n(2,1)] by (simp add: pop_heap_def)
  moreover have "\<forall>y \<in> set xs. \<not> cmp (hd xs) y"
    using heap_top [OF 2(1)] 2(2) by (auto simp: in_set_conv_nth hd_conv_nth)
  ultimately show ?case using last by simp
qed

end
