(* ===== verification/Task_Future.thy ===== *)
theory Task_Future
  imports Egl_Prelude
begin

text \<open>
  \<open>TaskPromise\<close>, \<open>TaskFuture\<close> and their \<open>SharedTaskState\<close> (task\_future.hpp). Each method of the shared state
  is one critical section of its mutex and hence one step. A \<open>shared_ptr\<close> is an address in the list of
  states; promises and futures are objects with an identity, so that moving and destroying them is
  visible. A future is used by one thread at a time, so that \<open>get\<close> gives up its pointer when it starts to wait
  or when it returns makes no difference. A call that waits is enabled once the state has an outcome; before that it is
  \<open>Blocked\<close>.
\<close>

section \<open>The shared state\<close>

datatype ('v, 'e) task_result = Unset | Value 'v | Raised 'e

record ('v, 'e) shared_state =
  ss_result :: "('v, 'e) task_result"
  ss_abandoned :: bool

definition has_outcome :: "('v, 'e) shared_state \<Rightarrow> bool" where
  "has_outcome st \<longleftrightarrow> ss_result st \<noteq> Unset \<or> ss_abandoned st"

definition ss_new :: "('v, 'e) shared_state" where
  "ss_new = \<lparr>ss_result = Unset, ss_abandoned = False\<rparr>"

definition ss_set :: "('v, 'e) task_result \<Rightarrow> ('v, 'e) shared_state \<Rightarrow> ('v, 'e) shared_state cpp" where
  "ss_set r st =
     (if has_outcome st then Inl (Logic_error ''TaskPromise: result already set'') else Inr (st\<lparr>ss_result := r\<rparr>))"

definition ss_abandon :: "('v, 'e) shared_state \<Rightarrow> ('v, 'e) shared_state" where
  "ss_abandon st = (if ss_result st = Unset \<and> \<not> ss_abandoned st then st\<lparr>ss_abandoned := True\<rparr> else st)"

datatype ('v, 'e) delivery = Delivered 'v | Rethrown 'e | Broken_promise

text \<open>What \<open>get\<close> returns or throws when it does not have to wait any more.\<close>

definition ss_get :: "('v, 'e) shared_state \<Rightarrow> ('v, 'e) delivery" where
  "ss_get st =
     (case ss_result st of
        Raised e \<Rightarrow> Rethrown e
      | Value v \<Rightarrow> if ss_abandoned st then Broken_promise else Delivered v
      | Unset \<Rightarrow> Broken_promise)"

section \<open>Promises and futures\<close>

record task_promise =
  pr_state :: "nat option"
  pr_retrieved :: bool

type_synonym task_future = "nat option"

text \<open>The objects of a program: a destroyed promise or future is \<open>None\<close>.\<close>

record ('v, 'e) tasks =
  tk_states :: "('v, 'e) shared_state list"
  tk_promises :: "task_promise option list"
  tk_futures :: "task_future option list"

datatype ('v, 'e) tf_out =
  Unit | Object nat | Got "('v, 'e) delivery" | Blocked | Thrown cpp_error | Dead_object

definition live_promise :: "('v, 'e) tasks \<Rightarrow> nat \<Rightarrow> task_promise option" where
  "live_promise w p = (if p < length (tk_promises w) then tk_promises w ! p else None)"

definition live_future :: "('v, 'e) tasks \<Rightarrow> nat \<Rightarrow> task_future option" where
  "live_future w f = (if f < length (tk_futures w) then tk_futures w ! f else None)"

definition promise_new :: "('v, 'e) tasks \<Rightarrow> ('v, 'e) tasks \<times> ('v, 'e) tf_out" where
  "promise_new w =
     (w\<lparr>tk_states := tk_states w @ [ss_new],
        tk_promises := tk_promises w @ [Some \<lparr>pr_state = Some (length (tk_states w)), pr_retrieved = False\<rparr>]\<rparr>,
      Object (length (tk_promises w)))"

definition abandon_if_owned :: "task_promise \<Rightarrow> ('v, 'e) tasks \<Rightarrow> ('v, 'e) tasks" where
  "abandon_if_owned pr w =
     (case pr_state pr of None \<Rightarrow> w
      | Some a \<Rightarrow> w\<lparr>tk_states := (tk_states w)[a := ss_abandon (tk_states w ! a)]\<rparr>)"

definition set_promise :: "nat \<Rightarrow> task_promise option \<Rightarrow> ('v, 'e) tasks \<Rightarrow> ('v, 'e) tasks" where
  "set_promise p x w = w\<lparr>tk_promises := (tk_promises w)[p := x]\<rparr>"

text \<open>The move constructor takes the pointer and copies the flag.\<close>

definition promise_move :: "nat \<Rightarrow> ('v, 'e) tasks \<Rightarrow> ('v, 'e) tasks \<times> ('v, 'e) tf_out" where
  "promise_move p w =
     (case live_promise w p of None \<Rightarrow> (w, Dead_object)
      | Some pr \<Rightarrow>
          (let w' = set_promise p (Some (pr\<lparr>pr_state := None\<rparr>)) w in
           (w'\<lparr>tk_promises := tk_promises w' @ [Some pr]\<rparr>, Object (length (tk_promises w')))))"

definition promise_assign :: "nat \<Rightarrow> nat \<Rightarrow> ('v, 'e) tasks \<Rightarrow> ('v, 'e) tasks \<times> ('v, 'e) tf_out" where
  "promise_assign p p' w =
     (case (live_promise w p, live_promise w p') of
        (Some pr, Some other) \<Rightarrow>
          if p \<noteq> p' then
            (set_promise p' (Some (other\<lparr>pr_state := None\<rparr>))
               (set_promise p (Some (pr\<lparr>pr_state := pr_state other, pr_retrieved := pr_retrieved other\<rparr>)) (abandon_if_owned pr w)), Unit)
          else (w, Unit)
      | _ \<Rightarrow> (w, Dead_object))"

definition promise_destroy :: "nat \<Rightarrow> ('v, 'e) tasks \<Rightarrow> ('v, 'e) tasks \<times> ('v, 'e) tf_out" where
  "promise_destroy p w =
     (case live_promise w p of None \<Rightarrow> (w, Dead_object)
      | Some pr \<Rightarrow> (set_promise p None (abandon_if_owned pr w), Unit))"

definition promise_get_future :: "nat \<Rightarrow> ('v, 'e) tasks \<Rightarrow> ('v, 'e) tasks \<times> ('v, 'e) tf_out" where
  "promise_get_future p w =
     (case live_promise w p of None \<Rightarrow> (w, Dead_object)
      | Some pr \<Rightarrow>
          (case pr_state pr of
             None \<Rightarrow> (w, Thrown (Logic_error ''TaskPromise: no shared state (moved from)''))
           | Some a \<Rightarrow>
               if pr_retrieved pr then (w, Thrown (Logic_error ''TaskPromise: future already retrieved''))
               else
                 (let w' = set_promise p (Some (pr\<lparr>pr_retrieved := True\<rparr>)) w in
                  (w'\<lparr>tk_futures := tk_futures w' @ [Some (Some a)]\<rparr>, Object (length (tk_futures w'))))))"

definition promise_set :: "nat \<Rightarrow> ('v, 'e) task_result \<Rightarrow> ('v, 'e) tasks \<Rightarrow> ('v, 'e) tasks \<times> ('v, 'e) tf_out" where
  "promise_set p r w =
     (case live_promise w p of None \<Rightarrow> (w, Dead_object)
      | Some pr \<Rightarrow>
          (case pr_state pr of
             None \<Rightarrow> (w, Thrown (Logic_error ''TaskPromise: no shared state (moved from)''))
           | Some a \<Rightarrow>
               (case ss_set r (tk_states w ! a) of
                  Inl e \<Rightarrow> (w, Thrown e)
                | Inr st \<Rightarrow> (w\<lparr>tk_states := (tk_states w)[a := st]\<rparr>, Unit))))"

definition promise_set_value :: "nat \<Rightarrow> 'v \<Rightarrow> ('v, 'e) tasks \<Rightarrow> ('v, 'e) tasks \<times> ('v, 'e) tf_out" where
  "promise_set_value p v w = promise_set p (Value v) w"

definition promise_set_exception :: "nat \<Rightarrow> 'e option \<Rightarrow> ('v, 'e) tasks \<Rightarrow> ('v, 'e) tasks \<times> ('v, 'e) tf_out" where
  "promise_set_exception p e w =
     (case e of None \<Rightarrow> (w, Thrown (Invalid_argument ''TaskPromise: null exception_ptr''))
      | Some e \<Rightarrow> promise_set p (Raised e) w)"

definition future_ready :: "nat \<Rightarrow> ('v, 'e) tasks \<Rightarrow> bool cpp" where
  "future_ready f w =
     (case live_future w f of
        Some (Some a) \<Rightarrow> Inr (has_outcome (tk_states w ! a))
      | _ \<Rightarrow> Inl (Logic_error ''TaskFuture: no shared state''))"

definition future_get :: "nat \<Rightarrow> ('v, 'e) tasks \<Rightarrow> ('v, 'e) tasks \<times> ('v, 'e) tf_out" where
  "future_get f w =
     (case live_future w f of None \<Rightarrow> (w, Dead_object)
      | Some None \<Rightarrow> (w, Thrown (Logic_error ''TaskFuture: no shared state''))
      | Some (Some a) \<Rightarrow>
          if has_outcome (tk_states w ! a) then
            (w\<lparr>tk_futures := (tk_futures w)[f := Some None]\<rparr>, Got (ss_get (tk_states w ! a)))
          else (w, Blocked))"

definition future_move :: "nat \<Rightarrow> ('v, 'e) tasks \<Rightarrow> ('v, 'e) tasks \<times> ('v, 'e) tf_out" where
  "future_move f w =
     (case live_future w f of None \<Rightarrow> (w, Dead_object)
      | Some fut \<Rightarrow> (w\<lparr>tk_futures := (tk_futures w)[f := Some None] @ [Some fut]\<rparr>, Object (length (tk_futures w))))"

definition future_destroy :: "nat \<Rightarrow> ('v, 'e) tasks \<Rightarrow> ('v, 'e) tasks \<times> ('v, 'e) tf_out" where
  "future_destroy f w =
     (case live_future w f of None \<Rightarrow> (w, Dead_object) | Some fut \<Rightarrow> (w\<lparr>tk_futures := (tk_futures w)[f := None]\<rparr>, Unit))"

definition future_new :: "('v, 'e) tasks \<Rightarrow> ('v, 'e) tasks \<times> ('v, 'e) tf_out" where
  "future_new w = (w\<lparr>tk_futures := tk_futures w @ [Some None]\<rparr>, Object (length (tk_futures w)))"

text \<open>Moving a future onto itself keeps it, as \<open>shared_ptr\<close> does.\<close>

definition future_assign :: "nat \<Rightarrow> nat \<Rightarrow> ('v, 'e) tasks \<Rightarrow> ('v, 'e) tasks \<times> ('v, 'e) tf_out" where
  "future_assign f f' w =
     (case (live_future w f, live_future w f') of
        (Some fut, Some other) \<Rightarrow>
          if f \<noteq> f' then (w\<lparr>tk_futures := (tk_futures w)[f := Some other, f' := Some None]\<rparr>, Unit) else (w, Unit)
      | _ \<Rightarrow> (w, Dead_object))"

definition future_valid :: "nat \<Rightarrow> ('v, 'e) tasks \<Rightarrow> bool" where
  "future_valid f w \<longleftrightarrow> (case live_future w f of Some (Some a) \<Rightarrow> True | _ \<Rightarrow> False)"

text \<open>What \<open>wait_for\<close> and \<open>wait_until\<close> return when \<open>w\<close> is the state at the end of the wait.\<close>

definition future_wait_for :: "nat \<Rightarrow> ('v, 'e) tasks \<Rightarrow> bool cpp" where
  "future_wait_for f w = future_ready f w"

section \<open>Programs\<close>

datatype ('v, 'e) tf_op =
    New
  | Move nat
  | Assign nat nat
  | Destroy nat
  | Get_future nat
  | Set_value nat 'v
  | Set_exception nat "'e option"
  | Get nat
  | Move_future nat
  | Destroy_future nat
  | New_future
  | Assign_future nat nat

fun tf_step :: "('v, 'e) tf_op \<Rightarrow> ('v, 'e) tasks \<Rightarrow> ('v, 'e) tasks \<times> ('v, 'e) tf_out" where
  "tf_step New w = promise_new w"
| "tf_step (Move p) w = promise_move p w"
| "tf_step (Assign p p') w = promise_assign p p' w"
| "tf_step (Destroy p) w = promise_destroy p w"
| "tf_step (Get_future p) w = promise_get_future p w"
| "tf_step (Set_value p v) w = promise_set_value p v w"
| "tf_step (Set_exception p e) w = promise_set_exception p e w"
| "tf_step (Get f) w = future_get f w"
| "tf_step (Move_future f) w = future_move f w"
| "tf_step (Destroy_future f) w = future_destroy f w"
| "tf_step New_future w = future_new w"
| "tf_step (Assign_future f f') w = future_assign f f' w"

definition tf_run :: "('v, 'e) tf_op list \<Rightarrow> ('v, 'e) tasks \<Rightarrow> ('v, 'e) tasks" where
  "tf_run ops w = fold (\<lambda>oper w. fst (tf_step oper w)) ops w"

definition tf_empty :: "('v, 'e) tasks" where
  "tf_empty = \<lparr>tk_states = [], tk_promises = [], tk_futures = []\<rparr>"

section \<open>Ownership\<close>

definition owns :: "('v, 'e) tasks \<Rightarrow> nat \<Rightarrow> nat \<Rightarrow> bool" where
  "owns w p a \<longleftrightarrow> (\<exists>pr. live_promise w p = Some pr \<and> pr_state pr = Some a)"

definition awaits :: "('v, 'e) tasks \<Rightarrow> nat \<Rightarrow> nat \<Rightarrow> bool" where
  "awaits w f a \<longleftrightarrow> live_future w f = Some (Some a)"

text \<open>
  Every state without an outcome is owned by a live promise; a state has at most one promise and one
  future; and a promise that has not given out its future has none.
\<close>

definition tf_inv :: "('v, 'e) tasks \<Rightarrow> bool" where
  "tf_inv w \<longleftrightarrow>
     (\<forall>p a. owns w p a \<longrightarrow> a < length (tk_states w)) \<and> (\<forall>f a. awaits w f a \<longrightarrow> a < length (tk_states w)) \<and>
     (\<forall>p p' a. owns w p a \<and> owns w p' a \<longrightarrow> p = p') \<and> (\<forall>f f' a. awaits w f a \<and> awaits w f' a \<longrightarrow> f = f') \<and>
     (\<forall>p pr a f. live_promise w p = Some pr \<and> pr_state pr = Some a \<and> \<not> pr_retrieved pr \<longrightarrow> \<not> awaits w f a) \<and>
     (\<forall>a < length (tk_states w). \<not> has_outcome (tk_states w ! a) \<longrightarrow> (\<exists>p. owns w p a)) \<and>
     (\<forall>a < length (tk_states w). \<not> (ss_abandoned (tk_states w ! a) \<and> ss_result (tk_states w ! a) \<noteq> Unset))"

lemma live_simps [simp]:
  "live_promise (w\<lparr>tk_states := sts\<rparr>) p = live_promise w p" "live_promise (w\<lparr>tk_futures := fs\<rparr>) p = live_promise w p"
  "live_future (w\<lparr>tk_states := sts\<rparr>) f = live_future w f" "live_future (w\<lparr>tk_promises := ps\<rparr>) f = live_future w f"
  "live_future (set_promise p x w) f = live_future w f" "tk_states (set_promise p x w) = tk_states w"
  "tk_futures (set_promise p x w) = tk_futures w"
  by (simp_all add: live_promise_def live_future_def set_promise_def)

lemma live_set_promise:
  "live_promise (set_promise p x w) p' = (if p' = p \<and> p < length (tk_promises w) then x else live_promise w p')"
  by (auto simp: live_promise_def set_promise_def)

lemma live_less: "live_promise w p = Some pr \<Longrightarrow> p < length (tk_promises w)" "live_future w f = Some x \<Longrightarrow> f < length (tk_futures w)"
  by (auto simp: live_promise_def live_future_def split: if_splits)

lemma live_append:
  "live_promise (w\<lparr>tk_promises := tk_promises w @ [x]\<rparr>) p = (if p = length (tk_promises w) then x else live_promise w p)"
  "live_future (w\<lparr>tk_futures := tk_futures w @ [y]\<rparr>) f = (if f = length (tk_futures w) then y else live_future w f)"
  by (auto simp: live_promise_def live_future_def nth_append)

lemma live_future_update:
  "f < length (tk_futures w) \<Longrightarrow> live_future (w\<lparr>tk_futures := (tk_futures w)[f := y]\<rparr>) f' = (if f' = f then y else live_future w f')"
  by (auto simp: live_future_def)

lemma live_dead: "live_promise w (length (tk_promises w)) = None" "live_future w (length (tk_futures w)) = None"
  by (simp_all add: live_promise_def live_future_def)

lemma abandon_simps [simp]:
  "live_promise (abandon_if_owned pr w) p = live_promise w p" "live_future (abandon_if_owned pr w) f = live_future w f"
  "tk_promises (abandon_if_owned pr w) = tk_promises w" "length (tk_states (abandon_if_owned pr w)) = length (tk_states w)"
  by (simp_all add: abandon_if_owned_def split: option.splits)

lemma has_outcome_abandon [simp]: "has_outcome (ss_abandon st)"
  by (auto simp: ss_abandon_def has_outcome_def)

lemma abandon_states:
  assumes "\<forall>a. pr_state pr = Some a \<longrightarrow> a < length (tk_states w)"
  shows "tk_states (abandon_if_owned pr w) ! a = (if pr_state pr = Some a then ss_abandon (tk_states w ! a) else tk_states w ! a)"
  using assms by (auto simp: abandon_if_owned_def nth_list_update split: option.splits)

text \<open>An outcome, once there, is never changed.\<close>

definition preserves :: "('v, 'e) tasks \<Rightarrow> ('v, 'e) tasks \<Rightarrow> bool" where
  "preserves w w' \<longleftrightarrow> length (tk_states w) \<le> length (tk_states w') \<and>
     (\<forall>a < length (tk_states w). has_outcome (tk_states w ! a) \<longrightarrow> tk_states w' ! a = tk_states w ! a)"

lemma ss_abandon_id: "has_outcome st \<Longrightarrow> ss_abandon st = st"
  by (auto simp: ss_abandon_def has_outcome_def)

lemma ss_set_Inr: "ss_set r st = Inr st' \<longleftrightarrow> \<not> has_outcome st \<and> st' = st\<lparr>ss_result := r\<rparr>"
  by (auto simp: ss_set_def)

lemma tf_invI:
  assumes "\<And>p a. owns w p a \<Longrightarrow> a < length (tk_states w)" and "\<And>f a. awaits w f a \<Longrightarrow> a < length (tk_states w)"
    and "\<And>p p' a. owns w p a \<Longrightarrow> owns w p' a \<Longrightarrow> p = p'" and "\<And>f f' a. awaits w f a \<Longrightarrow> awaits w f' a \<Longrightarrow> f = f'"
    and "\<And>p pr a f. live_promise w p = Some pr \<Longrightarrow> pr_state pr = Some a \<Longrightarrow> \<not> pr_retrieved pr \<Longrightarrow> \<not> awaits w f a"
    and "\<And>a. a < length (tk_states w) \<Longrightarrow> \<not> has_outcome (tk_states w ! a) \<Longrightarrow> \<exists>p. owns w p a"
    and "\<And>a. a < length (tk_states w) \<Longrightarrow> ss_abandoned (tk_states w ! a) \<Longrightarrow> ss_result (tk_states w ! a) = Unset"
  shows "tf_inv w"
  unfolding tf_inv_def using assms by blast

lemma tf_invD:
  assumes "tf_inv w"
  shows "owns w p a \<Longrightarrow> a < length (tk_states w)" and "awaits w f a \<Longrightarrow> a < length (tk_states w)"
    and "owns w p a \<Longrightarrow> owns w p' a \<Longrightarrow> p = p'" and "awaits w f a \<Longrightarrow> awaits w f' a \<Longrightarrow> f = f'"
    and "live_promise w p = Some pr \<Longrightarrow> pr_state pr = Some a \<Longrightarrow> \<not> pr_retrieved pr \<Longrightarrow> \<not> awaits w f a"
    and "a < length (tk_states w) \<Longrightarrow> \<not> has_outcome (tk_states w ! a) \<Longrightarrow> \<exists>p. owns w p a"
    and "a < length (tk_states w) \<Longrightarrow> ss_abandoned (tk_states w ! a) \<Longrightarrow> ss_result (tk_states w ! a) = Unset"
  using assms unfolding tf_inv_def by blast+

lemma no_outcome: "\<not> has_outcome st \<Longrightarrow> \<not> ss_abandoned st \<and> ss_result st = Unset"
  by (simp add: has_outcome_def)

lemma ownsI: "live_promise w p = Some pr \<Longrightarrow> pr_state pr = Some a \<Longrightarrow> owns w p a"
  by (auto simp: owns_def)

section \<open>Every operation keeps the ownership\<close>

text \<open>
  The general step: owners are renamed along \<open>g\<close> and futures along \<open>h\<close>, which map every object to the one it
  was; states may only gain outcomes, and a state that loses its owner has one.
\<close>

lemma tf_inv_renamed:
  assumes inv: "tf_inv w" and len: "length (tk_states w') = length (tk_states w)"
    and pr: "\<And>p pr a. live_promise w' p = Some pr \<Longrightarrow> pr_state pr = Some a \<Longrightarrow>
      \<exists>pr0. live_promise w (g p) = Some pr0 \<and> pr_state pr0 = Some a \<and> (pr_retrieved pr \<or> \<not> pr_retrieved pr0)"
    and g: "\<And>p p' a. owns w' p a \<Longrightarrow> owns w' p' a \<Longrightarrow> g p = g p' \<Longrightarrow> p = p'"
    and fut: "\<And>f a. awaits w' f a \<Longrightarrow> awaits w (h f) a"
    and h: "\<And>f f' a. awaits w' f a \<Longrightarrow> awaits w' f' a \<Longrightarrow> h f = h f' \<Longrightarrow> f = f'"
    and own: "\<And>p a. owns w p a \<Longrightarrow> (\<exists>p'. owns w' p' a) \<or> has_outcome (tk_states w' ! a)"
    and keep: "\<And>a. a < length (tk_states w) \<Longrightarrow> has_outcome (tk_states w ! a) \<Longrightarrow> tk_states w' ! a = tk_states w ! a"
    and one: "\<And>a. a < length (tk_states w) \<Longrightarrow> \<not> has_outcome (tk_states w ! a) \<Longrightarrow> ss_abandoned (tk_states w' ! a) \<Longrightarrow>
      ss_result (tk_states w' ! a) = Unset"
  shows "tf_inv w' \<and> preserves w w'"
proof -
  have was: "owns w' p a \<Longrightarrow> owns w (g p) a" for p a using pr by (fastforce simp: owns_def)
  have "tf_inv w'"
  proof (rule tf_invI)
    show "owns w' p a \<Longrightarrow> a < length (tk_states w')" for p a using was tf_invD(1) [OF inv] len by metis
    show "awaits w' f a \<Longrightarrow> a < length (tk_states w')" for f a using fut tf_invD(2) [OF inv] len by metis
    show "owns w' p a \<Longrightarrow> owns w' p' a \<Longrightarrow> p = p'" for p p' a using was tf_invD(3) [OF inv] g by metis
    show "awaits w' f a \<Longrightarrow> awaits w' f' a \<Longrightarrow> f = f'" for f f' a using fut tf_invD(4) [OF inv] h by metis
    show "live_promise w' p = Some x \<Longrightarrow> pr_state x = Some a \<Longrightarrow> \<not> pr_retrieved x \<Longrightarrow> \<not> awaits w' f a" for p x a f
      using pr fut tf_invD(5) [OF inv] by metis
    show "a < length (tk_states w') \<Longrightarrow> \<not> has_outcome (tk_states w' ! a) \<Longrightarrow> \<exists>p. owns w' p a" for a
      using own keep tf_invD(6) [OF inv] len by metis
    show "a < length (tk_states w') \<Longrightarrow> ss_abandoned (tk_states w' ! a) \<Longrightarrow> ss_result (tk_states w' ! a) = Unset" for a
      using one keep tf_invD(7) [OF inv] len by metis
  qed
  then show ?thesis using keep len by (simp add: preserves_def)
qed

lemma tf_inv_new:
  assumes inv: "tf_inv w"
  shows "tf_inv (fst (promise_new w)) \<and> preserves w (fst (promise_new w))"
proof -
  let ?w = "fst (promise_new w)" and ?n = "length (tk_states w)" and ?p = "length (tk_promises w)"
  have live: "live_promise ?w p = (if p = ?p then Some \<lparr>pr_state = Some ?n, pr_retrieved = False\<rparr> else live_promise w p)" for p
    by (auto simp: promise_new_def live_promise_def nth_append)
  have aw: "awaits ?w f a \<longleftrightarrow> awaits w f a" for f a by (simp add: awaits_def promise_new_def live_future_def)
  have st: "tk_states ?w = tk_states w @ [ss_new]" by (simp add: promise_new_def)
  have own: "owns ?w p a \<longleftrightarrow> owns w p a \<or> p = ?p \<and> a = ?n" for p a
    using live_dead(1) [of w] by (auto simp: owns_def live)
  have old: "owns w p a \<Longrightarrow> a < ?n" "awaits w f a \<Longrightarrow> a < ?n" for p f a using tf_invD(1,2) [OF inv] by blast+
  have dead: "\<not> owns w ?p a" for a using live_dead(1) [of w] by (simp add: owns_def)
  have "tf_inv ?w"
  proof (rule tf_invI)
    show "owns ?w p a \<Longrightarrow> owns ?w p' a \<Longrightarrow> p = p'" for p p' a
      unfolding own using old tf_invD(3) [OF inv] by blast
    show "live_promise ?w p = Some pr \<Longrightarrow> pr_state pr = Some a \<Longrightarrow> \<not> pr_retrieved pr \<Longrightarrow> \<not> awaits ?w f a" for p pr a f
      unfolding aw live using tf_invD(5) [OF inv] old(2) by (fastforce split: if_splits)
    show "a < length (tk_states ?w) \<Longrightarrow> \<not> has_outcome (tk_states ?w ! a) \<Longrightarrow> \<exists>p. owns ?w p a" for a
      unfolding own st using tf_invD(6) [OF inv, of a] by (auto simp: nth_append less_Suc_eq)
    show "a < length (tk_states ?w) \<Longrightarrow> ss_abandoned (tk_states ?w ! a) \<Longrightarrow> ss_result (tk_states ?w ! a) = Unset" for a
      unfolding st using tf_invD(7) [OF inv, of a] by (auto simp: nth_append less_Suc_eq ss_new_def split: if_splits)
  qed (use old tf_invD(4) [OF inv] in \<open>auto simp: own aw st less_Suc_eq\<close>)
  then show ?thesis by (simp add: preserves_def st nth_append)
qed

lemma tf_inv_same: "tf_inv w \<Longrightarrow> tf_inv w \<and> preserves w w"
  by (simp add: preserves_def)

lemma tf_inv_get:
  assumes inv: "tf_inv w"
  shows "tf_inv (fst (future_get f w)) \<and> preserves w (fst (future_get f w))"
proof -
  let ?w = "fst (future_get f w)"
  have aw: "awaits ?w f' a \<Longrightarrow> awaits w f' a" for f' a
    by (auto simp: future_get_def awaits_def live_future_update dest: live_less split: option.splits if_splits)
  have same: "live_promise ?w p = live_promise w p" "tk_states ?w = tk_states w" for p
    by (auto simp: future_get_def split: option.splits)
  show ?thesis by (rule tf_inv_renamed [OF inv, where g = id and h = id]) (auto simp: same owns_def dest: aw no_outcome)
qed

lemma tf_inv_destroy_future:
  assumes inv: "tf_inv w"
  shows "tf_inv (fst (future_destroy f w)) \<and> preserves w (fst (future_destroy f w))"
proof -
  let ?w = "fst (future_destroy f w)"
  have aw: "awaits ?w f' a \<Longrightarrow> awaits w f' a" for f' a
    by (auto simp: future_destroy_def awaits_def live_future_update dest: live_less split: option.splits if_splits)
  have same: "live_promise ?w p = live_promise w p" "tk_states ?w = tk_states w" for p
    by (auto simp: future_destroy_def split: option.splits)
  show ?thesis by (rule tf_inv_renamed [OF inv, where g = id and h = id]) (auto simp: same owns_def dest: aw no_outcome)
qed

lemma tf_inv_new_future:
  assumes inv: "tf_inv w"
  shows "tf_inv (fst (future_new w)) \<and> preserves w (fst (future_new w))"
proof -
  have aw: "awaits (fst (future_new w)) f a \<Longrightarrow> awaits w f a" for f a by (auto simp: awaits_def future_new_def live_append split: if_splits)
  show ?thesis
    by (rule tf_inv_renamed [OF inv, where g = id and h = id]) (auto simp: future_new_def owns_def dest: no_outcome intro: aw [unfolded future_new_def fst_conv])
qed

lemma live_future_assign:
  assumes "live_future w f = Some x" and "live_future w f' = Some y" and "f \<noteq> f'"
  shows "live_future (fst (future_assign f f' w)) g = (if g = f' then Some None else if g = f then Some y else live_future w g)"
  using assms live_less(2) [OF assms(1)] live_less(2) [OF assms(2)]
  by (auto simp: future_assign_def live_future_def nth_list_update)

lemma tf_inv_assign_future:
  assumes inv: "tf_inv w"
  shows "tf_inv (fst (future_assign f f' w)) \<and> preserves w (fst (future_assign f f' w))"
proof (cases "\<exists>x y. live_future w f = Some x \<and> live_future w f' = Some y \<and> f \<noteq> f'")
  case False
  then have "fst (future_assign f f' w) = w" by (auto simp: future_assign_def split: option.splits)
  then show ?thesis using tf_inv_same [OF inv] by simp
next
  case True
  then obtain x y where xy: "live_future w f = Some x" "live_future w f' = Some y" "f \<noteq> f'" by blast
  note live = live_future_assign [OF xy]
  let ?w = "fst (future_assign f f' w)"
  have same: "live_promise ?w p = live_promise w p" "tk_states ?w = tk_states w" for p
    using xy by (simp_all add: future_assign_def)
  show ?thesis
    by (rule tf_inv_renamed [OF inv, where g = id and h = "\<lambda>g. if g = f then f' else g"])
      (use xy in \<open>auto simp: same owns_def awaits_def live dest: no_outcome split: if_splits\<close>)
qed

lemma tf_inv_move_future:
  assumes inv: "tf_inv w"
  shows "tf_inv (fst (future_move f w)) \<and> preserves w (fst (future_move f w))"
proof (cases "live_future w f")
  case None
  then show ?thesis using tf_inv_same [OF inv] by (simp add: future_move_def)
next
  case (Some x)
  let ?w = "fst (future_move f w)"
  have live: "live_future ?w f' = (if f' = length (tk_futures w) then Some x else if f' = f then Some None else live_future w f')" for f'
    using live_less(2) [OF Some] Some by (auto simp: future_move_def live_future_def nth_append)
  have same: "live_promise ?w p = live_promise w p" "tk_states ?w = tk_states w" for p
    by (auto simp: future_move_def split: option.splits)
  show ?thesis
    by (rule tf_inv_renamed [OF inv, where g = id and h = "\<lambda>f'. if f' = length (tk_futures w) then f else f'"])
      (auto simp: same owns_def awaits_def live Some dest: no_outcome split: if_splits)
qed

lemma tf_inv_move:
  assumes inv: "tf_inv w"
  shows "tf_inv (fst (promise_move p w)) \<and> preserves w (fst (promise_move p w))"
proof (cases "live_promise w p")
  case None
  then show ?thesis using tf_inv_same [OF inv] by (simp add: promise_move_def)
next
  case (Some pr)
  let ?w = "fst (promise_move p w)" and ?n = "length (tk_promises w)"
  have w: "?w = w\<lparr>tk_promises := (tk_promises w)[p := Some (pr\<lparr>pr_state := None\<rparr>)] @ [Some pr]\<rparr>"
    using Some by (simp add: promise_move_def set_promise_def Let_def)
  have live: "live_promise ?w p' = (if p' = ?n then Some pr else if p' = p then Some (pr\<lparr>pr_state := None\<rparr>) else live_promise w p')" for p'
    using live_less(1) [OF Some] by (auto simp: w live_promise_def nth_append)
  have same: "tk_futures ?w = tk_futures w" "tk_states ?w = tk_states w"
    by (simp_all add: w)
  have moved: "owns ?w (if q = p then ?n else q) a" if "owns w q a" for q a
    using that Some live_dead(1) [of w] by (auto simp: owns_def live)
  show ?thesis
  proof (rule tf_inv_renamed [OF inv, where g = "\<lambda>p'. if p' = ?n then p else p'" and h = id])
    show "owns w q a \<Longrightarrow> (\<exists>p'. owns ?w p' a) \<or> has_outcome (tk_states ?w ! a)" for q a using moved by blast
  qed (use Some in \<open>auto simp: live same owns_def awaits_def live_future_def dest: no_outcome split: if_splits\<close>)
qed

lemma tf_inv_get_future:
  assumes inv: "tf_inv w"
  shows "tf_inv (fst (promise_get_future p w)) \<and> preserves w (fst (promise_get_future p w))"
proof (cases "\<exists>pr a. live_promise w p = Some pr \<and> pr_state pr = Some a \<and> \<not> pr_retrieved pr")
  case False
  then have "fst (promise_get_future p w) = w" by (auto simp: promise_get_future_def split: option.splits)
  then show ?thesis using tf_inv_same [OF inv] by simp
next
  case True
  then obtain pr a where pr: "live_promise w p = Some pr" "pr_state pr = Some a" "\<not> pr_retrieved pr" by blast
  let ?w = "fst (promise_get_future p w)" and ?n = "length (tk_futures w)"
  have live: "live_promise ?w p' = (if p' = p then Some (pr\<lparr>pr_retrieved := True\<rparr>) else live_promise w p')" for p'
    using live_less(1) [OF pr(1)] pr by (simp add: promise_get_future_def live_set_promise Let_def)
  have aw: "awaits ?w f b \<longleftrightarrow> awaits w f b \<or> f = ?n \<and> b = a" for f b
    using pr live_dead(2) [of w] by (auto simp: promise_get_future_def Let_def awaits_def live_future_def nth_append)
  have st: "tk_states ?w = tk_states w" using pr by (simp add: promise_get_future_def Let_def)
  have own: "owns ?w q b \<longleftrightarrow> owns w q b" for q b using pr by (auto simp: owns_def live)
  have a: "a < length (tk_states w)" using tf_invD(1) [OF inv ownsI [OF pr(1,2)]] .
  have none: "\<not> awaits w f a" for f using tf_invD(5) [OF inv pr] .
  have "tf_inv ?w"
  proof (rule tf_invI)
    show "awaits ?w f b \<Longrightarrow> awaits ?w f' b \<Longrightarrow> f = f'" for f f' b
      unfolding aw using none tf_invD(4) [OF inv] by blast
    show "live_promise ?w q = Some x \<Longrightarrow> pr_state x = Some b \<Longrightarrow> \<not> pr_retrieved x \<Longrightarrow> \<not> awaits ?w f b" for q x b f
      unfolding aw live using tf_invD(5) [OF inv] tf_invD(3) [OF inv _ ownsI [OF pr(1,2)]] ownsI
      by (fastforce split: if_splits)
  qed (use a tf_invD [OF inv] in \<open>auto simp: own aw st\<close>)
  then show ?thesis by (simp add: preserves_def st)
qed

lemma tf_inv_set:
  assumes inv: "tf_inv w" and r: "r \<noteq> Unset"
  shows "tf_inv (fst (promise_set p r w)) \<and> preserves w (fst (promise_set p r w))"
proof (cases "\<exists>pr a. live_promise w p = Some pr \<and> pr_state pr = Some a \<and> \<not> has_outcome (tk_states w ! a)")
  case False
  then have "fst (promise_set p r w) = w" by (auto simp: promise_set_def ss_set_def split: option.splits)
  then show ?thesis using tf_inv_same [OF inv] by simp
next
  case True
  then obtain pr a where pr: "live_promise w p = Some pr" "pr_state pr = Some a" "\<not> has_outcome (tk_states w ! a)" by blast
  have w: "fst (promise_set p r w) = w\<lparr>tk_states := (tk_states w)[a := (tk_states w ! a)\<lparr>ss_result := r\<rparr>]\<rparr>"
    using pr by (simp add: promise_set_def ss_set_def)
  have "a < length (tk_states w)" using tf_invD(1) [OF inv ownsI [OF pr(1,2)]] .
  then show ?thesis unfolding w
    using no_outcome [OF pr(3)] pr(3)
    by (intro tf_inv_renamed [OF inv, where g = id and h = id])
      (auto simp: owns_def awaits_def nth_list_update dest: no_outcome)
qed

text \<open>A promise that dies or is assigned over leaves its state with an outcome.\<close>

lemma tf_inv_abandoned:
  assumes inv: "tf_inv w" and pr: "live_promise w p = Some pr" and x: "x = None \<or> pr_state (the x) = None"
    and live: "\<And>q. live_promise w' q = (if q = p then x else live_promise w q)"
    and w': "tk_futures w' = tk_futures w" "tk_states w' = tk_states (abandon_if_owned pr w)"
  shows "tf_inv w' \<and> preserves w w'"
proof -
  have "\<forall>a. pr_state pr = Some a \<longrightarrow> a < length (tk_states w)" using tf_invD(1) [OF inv] ownsI [OF pr] by blast
  note st = abandon_states [OF this]
  show ?thesis
  proof (rule tf_inv_renamed [OF inv, where g = id and h = id])
    show "(\<exists>p'. owns w' p' a) \<or> has_outcome (tk_states w' ! a)" if "owns w q a" for q a
    proof (cases "q = p")
      case True
      then show ?thesis using that pr by (auto simp: owns_def w' st)
    next
      case False
      then have "owns w' q a" using that by (simp add: owns_def live)
      then show ?thesis by blast
    qed
    show "ss_abandoned (tk_states w' ! a) \<Longrightarrow> ss_result (tk_states w' ! a) = Unset"
      if "\<not> has_outcome (tk_states w ! a)" for a
      using no_outcome [OF that] by (simp add: w' st ss_abandon_def)
  qed (use pr x in \<open>auto simp: live w' st owns_def awaits_def live_future_def ss_abandon_id split: if_splits\<close>)
qed

lemma tf_inv_destroy:
  assumes inv: "tf_inv w"
  shows "tf_inv (fst (promise_destroy p w)) \<and> preserves w (fst (promise_destroy p w))"
proof (cases "live_promise w p")
  case None
  then show ?thesis using tf_inv_same [OF inv] by (simp add: promise_destroy_def)
next
  case (Some pr)
  show ?thesis
    by (rule tf_inv_abandoned [OF inv Some, where x = None])
      (use live_less(1) [OF Some] in \<open>auto simp: promise_destroy_def Some live_set_promise abandon_if_owned_def split: option.splits\<close>)
qed

lemma preserves_trans: "preserves u v \<Longrightarrow> preserves v w \<Longrightarrow> preserves u w"
  unfolding preserves_def by (metis order.strict_trans2 order.trans)

lemma tf_inv_assign:
  assumes inv: "tf_inv w"
  shows "tf_inv (fst (promise_assign p p' w)) \<and> preserves w (fst (promise_assign p p' w))"
proof (cases "\<exists>pr other. live_promise w p = Some pr \<and> live_promise w p' = Some other \<and> p \<noteq> p'")
  case False
  then have "fst (promise_assign p p' w) = w" by (auto simp: promise_assign_def split: option.splits)
  then show ?thesis using tf_inv_same [OF inv] by simp
next
  case True
  then obtain pr other where pr: "live_promise w p = Some pr" "live_promise w p' = Some other" "p \<noteq> p'" by blast
  let ?w = "fst (promise_assign p p' w)"
  define w1 where "w1 = set_promise p (Some (pr\<lparr>pr_state := None\<rparr>)) (abandon_if_owned pr w)"
  note less = live_less(1) [OF pr(1)] live_less(1) [OF pr(2)]
  have live1: "live_promise w1 q = (if q = p then Some (pr\<lparr>pr_state := None\<rparr>) else live_promise w q)" for q
    using less by (simp add: w1_def live_set_promise)
  have one: "tf_inv w1 \<and> preserves w w1"
    by (rule tf_inv_abandoned [OF inv pr(1), where x = "Some (pr\<lparr>pr_state := None\<rparr>)"])
      (auto simp: live1, auto simp: w1_def abandon_if_owned_def split: option.splits)
  have live: "live_promise ?w q = (if q = p' then Some (other\<lparr>pr_state := None\<rparr>)
      else if q = p then Some (pr\<lparr>pr_state := pr_state other, pr_retrieved := pr_retrieved other\<rparr>) else live_promise w q)" for q
    using less pr by (auto simp: promise_assign_def live_set_promise) (simp_all add: set_promise_def)
  have same: "tk_futures ?w = tk_futures w1" "tk_states ?w = tk_states w1"
    using pr by (simp_all add: promise_assign_def w1_def)
  have "tf_inv ?w \<and> preserves w1 ?w"
  proof (rule tf_inv_renamed [OF conjunct1 [OF one], where g = "\<lambda>q. if q = p then p' else q" and h = id])
    show "(\<exists>q'. owns ?w q' a) \<or> has_outcome (tk_states ?w ! a)" if "owns w1 q a" for q a
    proof -
      have "owns ?w (if q = p' then p else q) a" using that pr by (auto simp: owns_def live live1 split: if_splits)
      then show ?thesis by blast
    qed
  qed (use pr in \<open>auto simp: live live1 same owns_def awaits_def live_future_def dest: no_outcome split: if_splits\<close>)
  then show ?thesis using one preserves_trans by blast
qed

lemmas tf_inv_ops = tf_inv_new tf_inv_move tf_inv_assign tf_inv_destroy tf_inv_get_future tf_inv_set tf_inv_get
  tf_inv_move_future tf_inv_destroy_future tf_inv_new_future tf_inv_assign_future

lemma tf_inv_step: "tf_inv w \<Longrightarrow> tf_inv (fst (tf_step oper w)) \<and> preserves w (fst (tf_step oper w))"
  by (cases oper)
    (simp_all add: promise_set_value_def promise_set_exception_def tf_inv_ops tf_inv_same split: option.splits)

lemma tf_inv_run: "tf_inv w \<Longrightarrow> tf_inv (tf_run ops w) \<and> preserves w (tf_run ops w)"
proof (induction ops arbitrary: w)
  case (Cons oper ops)
  then show ?case using tf_inv_step [OF Cons.prems, of oper] preserves_trans by (fastforce simp: tf_run_def)
qed (simp add: tf_run_def preserves_def)

lemma tf_inv_empty: "tf_inv tf_empty"
  by (simp add: tf_inv_def tf_empty_def owns_def awaits_def live_promise_def live_future_def)

text \<open>
  Property C24. No future is stranded: in every program, whatever is moved, assigned over or destroyed, a
  \<open>get\<close> that has to wait waits for a promise that still exists, and setting its value, setting its
  exception, or destroying it makes the \<open>get\<close> return exactly that value, rethrow exactly that
  exception, or throw \<open>BrokenTaskPromise\<close>.
\<close>

theorem task_future_not_stranded:
  assumes "snd (future_get f (tf_run ops tf_empty)) = Blocked"
  shows "\<exists>p. live_promise (tf_run ops tf_empty) p \<noteq> None \<and>
    (\<forall>v. snd (future_get f (fst (promise_set_value p v (tf_run ops tf_empty)))) = Got (Delivered v)) \<and>
    (\<forall>e. snd (future_get f (fst (promise_set_exception p (Some e) (tf_run ops tf_empty)))) = Got (Rethrown e)) \<and>
    snd (future_get f (fst (promise_destroy p (tf_run ops tf_empty)))) = Got Broken_promise"
proof -
  let ?w = "tf_run ops tf_empty"
  have inv: "tf_inv ?w" using tf_inv_run [OF tf_inv_empty] by blast
  obtain a where a: "live_future ?w f = Some (Some a)" "\<not> has_outcome (tk_states ?w ! a)"
    using assms by (auto simp: future_get_def split: option.splits if_splits)
  then have len: "a < length (tk_states ?w)" using tf_invD(2) [OF inv] by (simp add: awaits_def)
  then obtain p pr where pr: "live_promise ?w p = Some pr" "pr_state pr = Some a"
    using tf_invD(6) [OF inv _ a(2)] by (auto simp: owns_def)
  note unset = no_outcome [OF a(2)]
  have set: "snd (future_get f (fst (promise_set p r ?w))) = Got (ss_get ((tk_states ?w ! a)\<lparr>ss_result := r\<rparr>))" if "r \<noteq> Unset" for r
    using that pr a len by (simp add: promise_set_def ss_set_def future_get_def has_outcome_def)
  have "snd (future_get f (fst (promise_destroy p ?w))) = Got (ss_get (ss_abandon (tk_states ?w ! a)))"
    using pr a len by (simp add: promise_destroy_def abandon_if_owned_def future_get_def)
  then show ?thesis
    using pr unset set by (intro exI [of _ p])
      (simp add: promise_set_value_def promise_set_exception_def ss_get_def ss_abandon_def)
qed

theorem task_future_not_stranded_witness:
  "\<exists>p. live_promise (tf_run [New, Get_future 0, Move 0] (tf_empty :: (nat, nat) tasks)) p \<noteq> None \<and>
     snd (future_get 0 (fst (promise_set_value p 7 (tf_run [New, Get_future 0, Move 0] (tf_empty :: (nat, nat) tasks))))) =
       Got (Delivered 7)"
proof -
  have "snd (future_get 0 (tf_run [New, Get_future 0, Move 0] (tf_empty :: (nat, nat) tasks))) = Blocked"
    by code_simp
  from task_future_not_stranded [OF this] show ?thesis by blast
qed

section \<open>Single delivery\<close>

definition spent :: "('v, 'e) tasks \<Rightarrow> nat \<Rightarrow> bool" where
  "spent w a \<longleftrightarrow> a < length (tk_states w) \<and> (\<forall>f. \<not> awaits w f a) \<and>
     (\<forall>p pr. live_promise w p = Some pr \<longrightarrow> pr_state pr = Some a \<longrightarrow> pr_retrieved pr)"

lemma spent_new: "spent w a \<Longrightarrow> spent (fst (promise_new w)) a"
  by (auto simp: spent_def promise_new_def awaits_def live_future_def live_promise_def nth_append split: if_splits)

lemma spent_futures:
  "spent w a \<Longrightarrow> spent (fst (future_get f w)) a" "spent w a \<Longrightarrow> spent (fst (future_destroy f w)) a"
  by (auto simp: spent_def future_get_def future_destroy_def awaits_def live_future_update dest: live_less split: option.splits if_splits)

lemma spent_move_future: "spent w a \<Longrightarrow> spent (fst (future_move f w)) a"
  by (auto simp: spent_def future_move_def awaits_def live_future_def live_promise_def nth_append nth_list_update
      split: option.splits if_splits)

lemma spent_get_future: "spent w a \<Longrightarrow> spent (fst (promise_get_future p w)) a"
  by (auto simp: spent_def promise_get_future_def awaits_def live_future_def nth_append live_set_promise Let_def
      split: option.splits if_splits)

lemma spent_set: "spent w a \<Longrightarrow> spent (fst (promise_set p r w)) a"
  by (auto simp: spent_def promise_set_def awaits_def split: option.splits sum.splits)

lemma spent_move: "spent w a \<Longrightarrow> spent (fst (promise_move p w)) a"
  by (auto simp: spent_def promise_move_def awaits_def live_append live_set_promise Let_def split: option.splits if_splits)

lemma spent_destroy: "spent w a \<Longrightarrow> spent (fst (promise_destroy p w)) a"
  by (auto simp: spent_def promise_destroy_def awaits_def live_set_promise split: option.splits if_splits)

lemma spent_assign: "spent w a \<Longrightarrow> spent (fst (promise_assign p p' w)) a"
  by (auto simp: spent_def promise_assign_def awaits_def live_set_promise split: option.splits if_splits)

lemma spent_new_future: "spent w a \<Longrightarrow> spent (fst (future_new w)) a"
  by (auto simp: spent_def future_new_def awaits_def live_append)

lemma spent_assign_future: "spent w a \<Longrightarrow> spent (fst (future_assign f f' w)) a"
proof (cases "\<exists>x y. live_future w f = Some x \<and> live_future w f' = Some y \<and> f \<noteq> f'")
  case False
  then have "fst (future_assign f f' w) = w" by (auto simp: future_assign_def split: option.splits)
  then show "spent w a \<Longrightarrow> ?thesis" by simp
next
  case True
  then obtain x y where xy: "live_future w f = Some x" "live_future w f' = Some y" "f \<noteq> f'" by blast
  have "tk_states (fst (future_assign f f' w)) = tk_states w" "live_promise (fst (future_assign f f' w)) p = live_promise w p" for p
    using xy by (simp_all add: future_assign_def)
  then show "spent w a \<Longrightarrow> ?thesis" using xy by (auto simp: spent_def awaits_def live_future_assign [OF xy])
qed

lemmas spent_ops = spent_new_future spent_assign_future spent_new spent_futures spent_move_future spent_get_future spent_set spent_move spent_destroy spent_assign

lemma spent_step: "spent w a \<Longrightarrow> spent (fst (tf_step oper w)) a"
  by (cases oper) (simp_all add: promise_set_value_def promise_set_exception_def spent_ops split: option.splits)

lemma spent_run: "spent w a \<Longrightarrow> spent (tf_run ops w) a"
  by (induction ops arbitrary: w) (simp_all add: tf_run_def spent_step)

text \<open>
  A result is delivered exactly once and never changes: when a \<open>get\<close> has returned or thrown, then
  whatever the program does afterwards, the outcome of the state stays what it was, and no future,
  however it is obtained or moved, refers to that state again.
\<close>

theorem task_future_single_delivery:
  assumes "future_get f (tf_run ops tf_empty) = (w, Got d)" and "live_future (tf_run ops tf_empty) f = Some (Some a)"
  shows "d = ss_get (tk_states (tf_run ops' w) ! a) \<and> (\<forall>f'. live_future (tf_run ops' w) f' \<noteq> Some (Some a))"
proof -
  let ?w = "tf_run ops tf_empty"
  have inv: "tf_inv ?w" using tf_inv_run [OF tf_inv_empty] by blast
  have aw: "awaits ?w f a" using assms(2) by (simp add: awaits_def)
  have less: "a < length (tk_states ?w)" using tf_invD(2) [OF inv aw] .
  have d: "d = ss_get (tk_states ?w ! a)" "has_outcome (tk_states ?w ! a)" and w: "w = ?w\<lparr>tk_futures := (tk_futures ?w)[f := Some None]\<rparr>"
    using assms by (auto simp: future_get_def split: if_splits)
  have st: "tk_states w = tk_states ?w" by (simp add: w)
  have "\<not> awaits w f' a" for f'
    using tf_invD(4) [OF inv aw, of f'] live_future_update [OF live_less(2) [OF assms(2)], of "Some None" f']
    by (auto simp: w awaits_def split: if_splits)
  moreover have "pr_retrieved pr" if "live_promise w p = Some pr" "pr_state pr = Some a" for p pr
    using tf_invD(5) [OF inv, of p pr a f] aw that by (auto simp: w)
  ultimately have "spent w a" using less by (auto simp: spent_def st)
  then have "spent (tf_run ops' w) a" by (rule spent_run)
  moreover have "preserves w (tf_run ops' w)"
    using tf_inv_run tf_inv_step [OF inv, of "Get f"] assms(1) by fastforce
  ultimately show ?thesis using d less by (auto simp: spent_def awaits_def preserves_def st)
qed

theorem task_future_single_delivery_witness:
  "\<exists>w. future_get 0 (tf_run [New, Get_future 0, Set_value 0 7] (tf_empty :: (nat, nat) tasks)) = (w, Got (Delivered 7)) \<and>
     (\<forall>f'. live_future (tf_run [Destroy 0, Get_future 0] w) f' \<noteq> Some (Some 0))"
proof -
  let ?w = "tf_run [New, Get_future 0, Set_value 0 7] (tf_empty :: (nat, nat) tasks)"
  have 1: "snd (future_get 0 ?w) = Got (Delivered 7)" and 2: "live_future ?w 0 = Some (Some 0)" by code_simp+
  from 1 have "future_get 0 ?w = (fst (future_get 0 ?w), Got (Delivered 7))" by (metis prod.collapse)
  from task_future_single_delivery [OF this 2, of "[Destroy 0, Get_future 0]"] this show ?thesis by blast
qed

end
