(* ===== verification/Thread_Pool.thy ===== *)
theory Thread_Pool
  imports Std_Heap Task_Future
begin

text \<open>
  \<open>ThreadPool\<close> (thread\_pool.hpp): the priority queue of tasks, which is a binary heap ordered by
  \<open>runs_later\<close>, and its refinement of a stable priority queue. The workers are in
  \<open>Thread_Pool_Workers\<close>.
\<close>

section \<open>The queue of tasks\<close>

text \<open>The task is the address of the shared state that the promise captured by the closure owns.\<close>

record queued_task =
  qt_priority :: int
  qt_sequence :: u64
  qt_run :: nat

definition runs_later :: "queued_task \<Rightarrow> queued_task \<Rightarrow> bool" where
  "runs_later left right =
     (if qt_priority left \<noteq> qt_priority right then qt_priority left < qt_priority right
      else qt_sequence left > qt_sequence right)"

record task_queue =
  tq_heap :: "queued_task list"
  tq_next_sequence :: u64

definition tq_empty :: task_queue where
  "tq_empty = \<lparr>tq_heap = [], tq_next_sequence = 0\<rparr>"

definition enqueue :: "int \<Rightarrow> nat \<Rightarrow> task_queue \<Rightarrow> task_queue" where
  "enqueue p t q =
     \<lparr>tq_heap = push_heap runs_later (tq_heap q @ [\<lparr>qt_priority = p, qt_sequence = tq_next_sequence q, qt_run = t\<rparr>]),
      tq_next_sequence = tq_next_sequence q + 1\<rparr>"

definition dequeue :: "task_queue \<Rightarrow> nat \<times> task_queue" where
  "dequeue q =
     (let h = pop_heap runs_later (tq_heap q) in (qt_run (last h), q\<lparr>tq_heap := butlast h\<rparr>))"

definition pending :: "task_queue \<Rightarrow> nat" where
  "pending q = length (tq_heap q)"

interpretation pool_heap: strict_weak runs_later
  by unfold_locales (auto simp: runs_later_def split: if_splits)

abbreviation is_heap :: "queued_task list \<Rightarrow> bool" where
  "is_heap h \<equiv> heap_upto runs_later (length h) h"

lemma is_heap_Nil: "is_heap []"
  by (simp add: heap_upto_def)

lemma enqueue_law:
  "is_heap (tq_heap q) \<Longrightarrow> is_heap (tq_heap (enqueue p t q)) \<and>
    mset (tq_heap (enqueue p t q)) = add_mset \<lparr>qt_priority = p, qt_sequence = tq_next_sequence q, qt_run = t\<rparr> (mset (tq_heap q))"
  using pool_heap.hq.push_law by (simp add: enqueue_def)

lemma dequeue_law:
  assumes "is_heap (tq_heap q)" and "tq_heap q \<noteq> []"
  shows "fst (dequeue q) = qt_run (hd (tq_heap q))" and "is_heap (tq_heap (snd (dequeue q)))"
    and "mset (tq_heap q) = add_mset (hd (tq_heap q)) (mset (tq_heap (snd (dequeue q))))"
    and "tq_next_sequence (snd (dequeue q)) = tq_next_sequence q"
    and "\<forall>y \<in> set (tq_heap q). \<not> runs_later (hd (tq_heap q)) y"
  using pool_heap.hq.pop_law [OF assms] pool_heap.hq.pop_mset [OF assms] by (simp_all add: dequeue_def Let_def)

section \<open>A stable priority queue\<close>

text \<open>
  The specification keeps the tasks in submission order; the next one to run is the first of those with the
  highest priority.
\<close>

type_synonym stable_queue = "(int \<times> nat) list"

definition best :: "stable_queue \<Rightarrow> int \<times> nat" where
  "best xs = hd (filter (\<lambda>x. fst x = Max (fst ` set xs)) xs)"

text \<open>The first task of the highest priority is removed at its first occurrence.\<close>

definition spec_take :: "stable_queue \<Rightarrow> nat \<times> stable_queue" where
  "spec_take xs = (snd (best xs), remove1 (best xs) xs)"

datatype queue_op = Enqueue int nat | Dequeue

fun queue_run :: "queue_op list \<Rightarrow> task_queue \<Rightarrow> nat option list" where
  "queue_run [] q = []"
| "queue_run (Enqueue p t # ops) q = queue_run ops (enqueue p t q)"
| "queue_run (Dequeue # ops) q =
     (if tq_heap q = [] then None # queue_run ops q else Some (fst (dequeue q)) # queue_run ops (snd (dequeue q)))"

fun spec_run :: "queue_op list \<Rightarrow> stable_queue \<Rightarrow> nat option list" where
  "spec_run [] xs = []"
| "spec_run (Enqueue p t # ops) xs = spec_run ops (xs @ [(p, t)])"
| "spec_run (Dequeue # ops) xs =
     (if xs = [] then None # spec_run ops xs else Some (fst (spec_take xs)) # spec_run ops (snd (spec_take xs)))"

definition view :: "queued_task \<Rightarrow> int \<times> nat" where
  "view t = (qt_priority t, qt_run t)"

text \<open>\<open>ts\<close> is the content of the heap in submission order; \<open>n\<close> more submissions keep the counter from wrapping.\<close>

definition queue_rel :: "nat \<Rightarrow> task_queue \<Rightarrow> queued_task list \<Rightarrow> bool" where
  "queue_rel n q ts \<longleftrightarrow> is_heap (tq_heap q) \<and> mset (tq_heap q) = mset ts \<and>
     sorted_wrt (\<lambda>a b. qt_sequence a < qt_sequence b) ts \<and> (\<forall>t \<in> set ts. qt_sequence t < tq_next_sequence q) \<and>
     unat (tq_next_sequence q) + n < 2 ^ 64"

lemma best_split:
  assumes "\<forall>a \<in> set as. fst a < fst m" and "\<forall>b \<in> set bs. fst b \<le> fst m"
  shows "best (as @ m # bs) = m" and "remove1 m (as @ m # bs) = as @ bs"
proof -
  have "Max (fst ` set (as @ m # bs)) = fst m"
    by (rule Max_eqI) (use assms in \<open>auto intro: less_imp_le\<close>)
  moreover have "filter (\<lambda>x. fst x = fst m) as = []" using assms(1) by (auto simp: filter_empty_conv)
  ultimately show "best (as @ m # bs) = m" by (simp add: best_def)
  show "remove1 m (as @ m # bs) = as @ bs" using assms(1) by (auto simp: remove1_append)
qed

lemma queue_rel_enqueue:
  assumes "queue_rel (Suc n) q ts"
  shows "queue_rel n (enqueue p t q) (ts @ [\<lparr>qt_priority = p, qt_sequence = tq_next_sequence q, qt_run = t\<rparr>])"
proof -
  have "unat (tq_next_sequence q + 1) = unat (tq_next_sequence q) + 1"
    using assms by (subst unat_add_lem [THEN iffD1]) (simp_all add: queue_rel_def)
  then show ?thesis
    using assms enqueue_law [of q p t] by (auto simp: queue_rel_def enqueue_def sorted_wrt_append word_less_nat_alt)
qed

lemma queue_rel_dequeue:
  assumes rel: "queue_rel n q ts" and ne: "tq_heap q \<noteq> []"
  obtains ts' where "fst (dequeue q) = fst (spec_take (map view ts))" and "snd (spec_take (map view ts)) = map view ts'"
    and "queue_rel n (snd (dequeue q)) ts'"
proof -
  let ?m = "hd (tq_heap q)"
  have heap: "is_heap (tq_heap q)" "mset (tq_heap q) = mset ts" using rel by (simp_all add: queue_rel_def)
  note law = dequeue_law [OF heap(1) ne]
  have set: "set (tq_heap q) = set ts" using mset_eq_setD [OF heap(2)] .
  then have "?m \<in> set ts" using hd_in_set [OF ne] by simp
  then obtain as bs where ts: "ts = as @ ?m # bs" by (auto simp: in_set_conv_decomp)
  have max: "\<not> runs_later ?m y" if "y \<in> set ts" for y using law(5) set that by simp
  have "qt_sequence a < qt_sequence ?m" if "a \<in> set as" for a
    using rel that by (subst (asm) ts) (simp add: queue_rel_def sorted_wrt_append)
  then have as: "\<forall>a \<in> set (map view as). fst a < fst (view ?m)"
    using max ts by (fastforce simp: view_def runs_later_def split: if_splits)
  have bs: "\<forall>b \<in> set (map view bs). fst b \<le> fst (view ?m)"
    using max ts by (fastforce simp: view_def runs_later_def split: if_splits)
  have views: "map view ts = map view as @ view ?m # map view bs" by (subst ts) simp
  show thesis
  proof (rule that [of "as @ bs"])
    show "fst (dequeue q) = fst (spec_take (map view ts))"
      unfolding views spec_take_def best_split(1) [OF as bs] law(1) by (simp add: view_def)
    show "snd (spec_take (map view ts)) = map view (as @ bs)"
      unfolding views spec_take_def best_split(1) [OF as bs] by (simp add: best_split(2) [OF as bs])
    have "add_mset ?m (mset (tq_heap (snd (dequeue q)))) = mset ts" using law(3) heap(2) by simp
    then have "mset (tq_heap (snd (dequeue q))) = mset (as @ bs)" by (subst (asm) ts) simp
    moreover have "sorted_wrt (\<lambda>a b. qt_sequence a < qt_sequence b) (as @ bs)"
      using rel by (subst (asm) ts) (simp add: queue_rel_def sorted_wrt_append)
    moreover have "set (as @ bs) \<subseteq> set ts" by (subst ts) auto
    ultimately show "queue_rel n (snd (dequeue q)) (as @ bs)"
      using rel law(2,4) by (auto simp: queue_rel_def)
  qed
qed

lemma queue_run_spec:
  "queue_rel (length ops) q ts \<Longrightarrow> queue_run ops q = spec_run ops (map view ts)"
proof (induction ops q arbitrary: ts rule: queue_run.induct)
  case (2 p t ops q)
  then have "queue_rel (Suc (length ops)) q ts" by simp
  from 2(1) [OF queue_rel_enqueue [OF this]] show ?case by (simp add: view_def)
next
  case (3 ops q)
  then have rel: "queue_rel (length ops) q ts" by (simp add: queue_rel_def)
  then have emp: "tq_heap q = [] \<longleftrightarrow> ts = []" by (auto simp: queue_rel_def)
  show ?case
  proof (cases "tq_heap q = []")
    case True
    then show ?thesis using 3(1) [OF True rel] emp by simp
  next
    case False
    obtain ts' where "fst (dequeue q) = fst (spec_take (map view ts))" "snd (spec_take (map view ts)) = map view ts'"
        "queue_rel (length ops) (snd (dequeue q)) ts'"
      using queue_rel_dequeue [OF rel False] .
    then show ?thesis using 3(2) [OF False] False emp by simp
  qed
qed simp

text \<open>
  Property C25. The queue of the pool is a stable priority queue: for every sequence of submissions and
  removals shorter than the 64-bit sequence counter can tell apart, the workers get exactly the tasks that
  a list kept in submission order gives when the first task of the highest priority is always taken.
\<close>

theorem thread_pool_stable_priority:
  assumes "length ops < 2 ^ 64"
  shows "queue_run ops tq_empty = spec_run ops []"
proof -
  have "queue_rel (length ops) tq_empty []" using assms by (simp add: queue_rel_def tq_empty_def heap_upto_def)
  from queue_run_spec [OF this] show ?thesis by simp
qed

theorem thread_pool_stable_priority_witness:
  "queue_run [Enqueue 0 1, Enqueue 5 2, Enqueue 0 3, Enqueue 5 4, Dequeue, Dequeue, Enqueue 9 5, Dequeue, Dequeue, Dequeue, Dequeue] tq_empty =
     [Some 2, Some 4, Some 5, Some 1, Some 3, None]"
  by (subst thread_pool_stable_priority) (simp_all add: spec_take_def best_def)

end
