(* ===== verification/Monitor.thy ===== *)
theory Monitor
  imports Egl_Prelude "HOL-Library.Multiset"
begin

text \<open>
  What the models of the monitors share: a step function of a label and a state, with \<open>None\<close> for a step
  that is not enabled, its runs, invariants of the runs, and counting the threads in a given state.
\<close>

section \<open>Runs\<close>

fun run_steps :: "('l \<Rightarrow> 's \<Rightarrow> 's option) \<Rightarrow> 'l list \<Rightarrow> 's \<Rightarrow> 's option" where
  "run_steps step [] s = Some s"
| "run_steps step (l # ls) s = (case step l s of None \<Rightarrow> None | Some s' \<Rightarrow> run_steps step ls s')"

locale step_invariant =
  fixes step :: "'l \<Rightarrow> 's \<Rightarrow> 's option" and inv :: "'s \<Rightarrow> bool"
  assumes step_inv: "inv s \<Longrightarrow> step l s = Some s' \<Longrightarrow> inv s'"
begin

lemma run_inv: "inv s \<Longrightarrow> run_steps step ls s = Some s' \<Longrightarrow> inv s'"
  by (induction ls arbitrary: s) (auto split: option.splits dest: step_inv)

end

section \<open>Counting threads\<close>

lemma sum_list_update:
  fixes f :: "'a \<Rightarrow> 'b :: comm_monoid_add"
  shows "i < length xs \<Longrightarrow> sum_list (map f (xs[i := y])) + f (xs ! i) = sum_list (map f xs) + f y"
proof (induction xs arbitrary: i)
  case (Cons x xs)
  show ?case
  proof (cases i)
    case (Suc j)
    then have "sum_list (map f (xs[j := y])) + f (xs ! j) = sum_list (map f xs) + f y" using Cons by simp
    then show ?thesis using Suc by (simp add: add.assoc)
  qed (simp add: ac_simps)
qed simp

definition count_where :: "('a \<Rightarrow> bool) \<Rightarrow> 'a list \<Rightarrow> nat" where
  "count_where P xs = sum_list (map (\<lambda>x. if P x then 1 else 0) xs)"

lemma count_where_update:
  "i < length xs \<Longrightarrow> count_where P (xs[i := y]) + (if P (xs ! i) then 1 else 0) = count_where P xs + (if P y then 1 else 0)"
  unfolding count_where_def by (rule sum_list_update)

lemma count_where_simps [simp]:
  "count_where P [] = 0" "count_where P (x # xs) = (if P x then 1 else 0) + count_where P xs"
  "count_where P (replicate n x) = (if P x then n else 0)"
  by (simp_all add: count_where_def sum_list_replicate)

lemma count_where_length: "count_where P xs \<le> length xs"
  by (induction xs) auto

lemma count_where_0: "count_where P xs = 0 \<longleftrightarrow> (\<forall>x \<in> set xs. \<not> P x)"
  by (induction xs) auto

lemma count_where_pos: "i < length xs \<Longrightarrow> P (xs ! i) \<Longrightarrow> 0 < count_where P xs"
  using count_where_0 [of P xs] nth_mem by blast

lemma count_where_put:
  "i < length xs \<Longrightarrow> count_where P (xs[i := y]) = count_where P xs - (if P (xs ! i) then 1 else 0) + (if P y then 1 else 0)"
  using count_where_update [of i xs P y] count_where_pos [of i xs P] by (auto split: if_splits)

lemma count_where_map_mono: "(\<And>x. P x \<Longrightarrow> P (f x)) \<Longrightarrow> count_where P xs \<le> count_where P (map f xs)"
  by (induction xs) auto

lemma count_where_map_eq: "(\<And>x. P (f x) \<longleftrightarrow> P x) \<Longrightarrow> count_where P (map f xs) = count_where P xs"
  by (induction xs) auto

lemma count_where_le1:
  "count_where P xs \<le> 1 \<Longrightarrow> i < length xs \<Longrightarrow> j < length xs \<Longrightarrow> P (xs ! i) \<Longrightarrow> P (xs ! j) \<Longrightarrow> i = j"
proof (induction xs arbitrary: i j)
  case (Cons x xs)
  have z: "\<not> P (xs ! k)" if "P x" "k < length xs" for k using Cons.prems(1) that count_where_0 [of P xs] by auto
  have "count_where P xs \<le> 1" using Cons.prems(1) by simp
  then show ?case using Cons.prems(2-) z Cons.IH by (cases i; cases j) auto
qed simp

end
