(* ===== verification/Thread_Pool_Workers.thy ===== *)
theory Thread_Pool_Workers
  imports Thread_Pool Monitor
begin

text \<open>
  The workers of \<open>ThreadPool\<close> (thread\_pool.hpp) as a state machine: constructor, \<open>submit\<close>, \<open>worker_loop\<close> and
  \<open>shutdown\<close>. Each critical section of the mutex is one step, and so are each notification of the condition
  variable, a spurious wake-up and the run of a task. The steps of different threads interleave freely.
\<close>

section \<open>Running a task\<close>

text \<open>What a task throws is its own exception, or an exception of the promise.\<close>

datatype 'e task_exn = From_task 'e | From_library cpp_error

datatype ('v, 'e) behaviour = Returns 'v | Throws 'e

type_synonym ('v, 'e) task_state = "('v, 'e task_exn) shared_state"

text \<open>
  The closure \<open>submit\<close> builds: run the task, hand the value over, and hand over whatever was thrown meanwhile.
  An exception of \<open>set_exception\<close> escapes from the closure (\<open>Inl\<close>).
\<close>

fun run_closure :: "('v, 'e) behaviour \<Rightarrow> ('v, 'e) task_state \<Rightarrow> ('v, 'e) task_state cpp" where
  "run_closure (Returns v) st =
     (case ss_set (Value v) st of Inr st' \<Rightarrow> Inr st' | Inl e \<Rightarrow> ss_set (Raised (From_library e)) st)"
| "run_closure (Throws e) st = ss_set (Raised (From_task e)) st"

section \<open>The state of a pool\<close>

text \<open>
  A worker is about to test the predicate of the wait (it has just started, was woken or has finished a task),
  sleeps in the condition variable, runs the task at an address, has returned from \<open>worker_loop\<close>, or was
  ended by an exception.
\<close>

datatype worker = Checking | Sleeping | Running nat | Exited | Killed

datatype shutdown_phase = Open | Flagged | Joining | Joined

text \<open>
  \<open>tp_notify\<close> counts the calls of \<open>submit\<close> that have released the mutex and not yet notified. The histories
  \<open>tp_accepted\<close> and \<open>tp_started\<close> are not in the code: the tasks accepted and the tasks started.
\<close>

record ('v, 'e) pool =
  tp_queue :: task_queue
  tp_stopping :: bool
  tp_workers :: "worker list"
  tp_states :: "('v, 'e) task_state list"
  tp_notify :: nat
  tp_phase :: shutdown_phase
  tp_accepted :: "nat list"
  tp_started :: "nat list"

definition stop_admissions :: "('v, 'e) pool \<Rightarrow> ('v, 'e) pool" where
  "stop_admissions s = s\<lparr>tp_stopping := True, tp_phase := Flagged\<rparr>"

text \<open>
  The constructor, when the first \<open>spawned\<close> threads can be started. When one cannot, the pool is shut down before the
  exception is rethrown.
\<close>

definition pool_new :: "nat \<Rightarrow> nat \<Rightarrow> ('v, 'e) pool cpp" where
  "pool_new thread_count spawned =
     (if thread_count = 0 then Inl (Invalid_argument ''ThreadPool: thread count must be positive'')
      else
        (let s = \<lparr>tp_queue = tq_empty, tp_stopping = False, tp_workers = replicate (min thread_count spawned) Checking, tp_states = [],
                 tp_notify = 0, tp_phase = Open, tp_accepted = [], tp_started = []\<rparr>
         in Inr (if spawned < thread_count then stop_admissions s else s)))"

text \<open>
  \<open>submit\<close> up to the end of its critical section. When it throws, the closure and with it the promise are destroyed.
\<close>

definition submit :: "int \<Rightarrow> ('v, 'e) pool \<Rightarrow> ('v, 'e) pool \<times> nat cpp" where
  "submit priority s =
     (let a = length (tp_states s) in
      if tp_stopping s then
        (s\<lparr>tp_states := tp_states s @ [ss_abandon ss_new]\<rparr>, Inl (Logic_error ''ThreadPool: submit after shutdown''))
      else
        (s\<lparr>tp_states := tp_states s @ [ss_new], tp_queue := enqueue priority a (tp_queue s), tp_notify := tp_notify s + 1,
           tp_accepted := tp_accepted s @ [a]\<rparr>, Inr a))"

text \<open>The overload without a priority, and the number of workers, which no step changes.\<close>

definition submit_default :: "('v, 'e) pool \<Rightarrow> ('v, 'e) pool \<times> nat cpp" where
  "submit_default s = submit 0 s"

definition thread_count :: "('v, 'e) pool \<Rightarrow> nat" where
  "thread_count s = length (tp_workers s)"

definition set_worker :: "nat \<Rightarrow> worker \<Rightarrow> ('v, 'e) pool \<Rightarrow> ('v, 'e) pool" where
  "set_worker i x s = s\<lparr>tp_workers := (tp_workers s)[i := x]\<rparr>"

definition worker_is :: "('v, 'e) pool \<Rightarrow> nat \<Rightarrow> worker \<Rightarrow> bool" where
  "worker_is s i x \<longleftrightarrow> i < length (tp_workers s) \<and> tp_workers s ! i = x"

text \<open>\<open>notify_one\<close> wakes some sleeping worker, if there is one.\<close>

definition notify_one :: "nat option \<Rightarrow> ('v, 'e) pool \<Rightarrow> ('v, 'e) pool option" where
  "notify_one w s =
     (if tp_notify s = 0 then None
      else (case w of
          None \<Rightarrow> if Sleeping \<in> set (tp_workers s) then None else Some (s\<lparr>tp_notify := tp_notify s - 1\<rparr>)
        | Some i \<Rightarrow> if worker_is s i Sleeping then Some (set_worker i Checking (s\<lparr>tp_notify := tp_notify s - 1\<rparr>)) else None))"

text \<open>The critical section of \<open>worker_loop\<close>.\<close>

definition worker_check :: "nat \<Rightarrow> ('v, 'e) pool \<Rightarrow> ('v, 'e) pool option" where
  "worker_check i s =
     (if \<not> worker_is s i Checking then None
      else if \<not> (tp_stopping s \<or> pending (tp_queue s) \<noteq> 0) then Some (set_worker i Sleeping s)
      else if pending (tp_queue s) = 0 then Some (set_worker i Exited s)
      else (case dequeue (tp_queue s) of
          (a, q) \<Rightarrow> Some (set_worker i (Running a) (s\<lparr>tp_queue := q, tp_started := tp_started s @ [a]\<rparr>))))"

definition spurious_wake :: "nat \<Rightarrow> ('v, 'e) pool \<Rightarrow> ('v, 'e) pool option" where
  "spurious_wake i s = (if worker_is s i Sleeping then Some (set_worker i Checking s) else None)"

text \<open>The task runs outside the lock; then the closure, and with it the promise, is destroyed.\<close>

definition run_task :: "nat \<Rightarrow> ('v, 'e) behaviour \<Rightarrow> ('v, 'e) pool \<Rightarrow> ('v, 'e) pool option" where
  "run_task i b s =
     (if i < length (tp_workers s) then
        (case tp_workers s ! i of
           Running a \<Rightarrow>
             (case run_closure b (tp_states s ! a) of
                Inl e \<Rightarrow> Some (set_worker i Killed s)
              | Inr st \<Rightarrow> Some (set_worker i Checking (s\<lparr>tp_states := (tp_states s)[a := ss_abandon st]\<rparr>)))
         | _ \<Rightarrow> None)
      else None)"

text \<open>\<open>shutdown\<close>: set the flag, notify all, join. It is not called while another call is under way.\<close>

definition shutdown_flag :: "('v, 'e) pool \<Rightarrow> ('v, 'e) pool option" where
  "shutdown_flag s = (if tp_phase s = Open \<or> tp_phase s = Joined then Some (stop_admissions s) else None)"

definition wake :: "worker \<Rightarrow> worker" where
  "wake x = (if x = Sleeping then Checking else x)"

definition shutdown_notify :: "('v, 'e) pool \<Rightarrow> ('v, 'e) pool option" where
  "shutdown_notify s =
     (if tp_phase s = Flagged then Some (s\<lparr>tp_workers := map wake (tp_workers s), tp_phase := Joining\<rparr>) else None)"

definition shutdown_join :: "('v, 'e) pool \<Rightarrow> ('v, 'e) pool option" where
  "shutdown_join s =
     (if tp_phase s = Joining \<and> (\<forall>x \<in> set (tp_workers s). x = Exited) then Some (s\<lparr>tp_phase := Joined\<rparr>) else None)"

section \<open>Executions\<close>

datatype ('v, 'e) pool_label =
    Submit int
  | Notify_one "nat option"
  | Check nat
  | Spurious nat
  | Run nat "('v, 'e) behaviour"
  | Shutdown
  | Notify_all
  | Join

fun pool_step :: "('v, 'e) pool_label \<Rightarrow> ('v, 'e) pool \<Rightarrow> ('v, 'e) pool option" where
  "pool_step (Submit p) s = Some (fst (submit p s))"
| "pool_step (Notify_one w) s = notify_one w s"
| "pool_step (Check i) s = worker_check i s"
| "pool_step (Spurious i) s = spurious_wake i s"
| "pool_step (Run i b) s = run_task i b s"
| "pool_step Shutdown s = shutdown_flag s"
| "pool_step Notify_all s = shutdown_notify s"
| "pool_step Join s = shutdown_join s"

abbreviation pool_run :: "('v, 'e) pool_label list \<Rightarrow> ('v, 'e) pool \<Rightarrow> ('v, 'e) pool option" where
  "pool_run \<equiv> run_steps pool_step"

lemma pool_step_thread_count: "pool_step l s = Some s' \<Longrightarrow> thread_count s' = thread_count s"
  by (cases l)
    (auto simp: thread_count_def submit_def Let_def notify_one_def worker_check_def spurious_wake_def run_task_def shutdown_flag_def stop_admissions_def
      shutdown_notify_def shutdown_join_def set_worker_def split: if_splits option.splits prod.splits worker.splits sum.splits)

lemma pool_run_thread_count: "pool_run ls s = Some s' \<Longrightarrow> thread_count s' = thread_count s"
  by (induction ls arbitrary: s) (auto simp: pool_step_thread_count split: option.splits)

section \<open>Counting workers\<close>

fun task_of :: "worker \<Rightarrow> nat multiset" where
  "task_of (Running a) = {#a#}"
| "task_of _ = {#}"

definition running :: "('v, 'e) pool \<Rightarrow> nat multiset" where
  "running s = sum_list (map task_of (tp_workers s))"

definition num_checking :: "('v, 'e) pool \<Rightarrow> nat" where
  "num_checking s = count_where (\<lambda>x. x = Checking) (tp_workers s)"

definition queued :: "('v, 'e) pool \<Rightarrow> nat multiset" where
  "queued s = image_mset qt_run (mset (tq_heap (tp_queue s)))"

lemma running_set_worker:
  "worker_is s i x \<Longrightarrow> running (set_worker i y s) + task_of x = running s + task_of y"
  using sum_list_update [of i "tp_workers s" task_of y] by (auto simp: worker_is_def running_def set_worker_def)

lemma num_checking_set_worker:
  "worker_is s i x \<Longrightarrow> num_checking (set_worker i y s) + (if x = Checking then 1 else 0) = num_checking s + (if y = Checking then 1 else 0)"
  using count_where_update [of i "tp_workers s" "\<lambda>x. x = Checking" y] by (auto simp: worker_is_def num_checking_def set_worker_def)

lemma set_worker_simps [simp]:
  "tp_queue (set_worker i y s) = tp_queue s" "tp_states (set_worker i y s) = tp_states s"
  "tp_stopping (set_worker i y s) = tp_stopping s" "tp_phase (set_worker i y s) = tp_phase s"
  "tp_notify (set_worker i y s) = tp_notify s" "tp_accepted (set_worker i y s) = tp_accepted s"
  "tp_started (set_worker i y s) = tp_started s" "queued (set_worker i y s) = queued s"
  "queued (s\<lparr>tp_states := sts\<rparr>) = queued s"
  by (simp_all add: set_worker_def queued_def)

lemma set_worker_Nil [simp]: "tp_workers (set_worker i y s) = [] \<longleftrightarrow> tp_workers s = []"
  by (simp add: set_worker_def)

lemma set_worker_in: "x \<in> set (tp_workers (set_worker i y s)) \<Longrightarrow> x = y \<or> x \<in> set (tp_workers s)"
  using set_update_subset_insert [of "tp_workers s" i y] by (auto simp: set_worker_def)

lemma running_member: "a \<in># running s \<longleftrightarrow> Running a \<in> set (tp_workers s)"
proof -
  have "a \<in># sum_list (map task_of ws) \<longleftrightarrow> Running a \<in> set ws" for ws
  proof (induction ws)
    case (Cons w ws)
    then show ?case by (cases w) auto
  qed simp
  then show ?thesis by (simp add: running_def)
qed

section \<open>The tasks of a pool\<close>

definition finished :: "('v, 'e) task_state \<Rightarrow> bool" where
  "finished st \<longleftrightarrow> ss_result st \<noteq> Unset \<and> \<not> ss_abandoned st"

text \<open>
  The tasks accepted are those queued and those started; a task that is queued or running has no outcome yet, and
  every other one has been given a value or an exception.
\<close>

definition tasks_inv :: "('v, 'e) pool \<Rightarrow> bool" where
  "tasks_inv s \<longleftrightarrow> is_heap (tq_heap (tp_queue s)) \<and> mset (tp_accepted s) = queued s + mset (tp_started s) \<and>
     distinct (tp_accepted s) \<and> (\<forall>a \<in> set (tp_accepted s). a < length (tp_states s)) \<and> running s \<subseteq># mset (tp_started s) \<and>
     (\<forall>a \<in> set (tp_accepted s). if a \<in># queued s + running s then \<not> has_outcome (tp_states s ! a) else finished (tp_states s ! a))"

lemma tasks_inv_cong:
  "tasks_inv s \<Longrightarrow> tp_queue s' = tp_queue s \<Longrightarrow> tp_states s' = tp_states s \<Longrightarrow> tp_accepted s' = tp_accepted s \<Longrightarrow>
    tp_started s' = tp_started s \<Longrightarrow> running s' = running s \<Longrightarrow> tasks_inv s'"
  by (simp add: tasks_inv_def queued_def)

lemma tasks_inv_worker:
  assumes "tasks_inv s" and "worker_is s i x" and "task_of x = {#}" and "task_of y = {#}"
  shows "tasks_inv (set_worker i y s)"
  using running_set_worker [OF assms(2), of y] assms by (intro tasks_inv_cong [OF assms(1)]) simp_all

lemma tasks_inv_submit:
  assumes inv: "tasks_inv s"
  shows "tasks_inv (fst (submit p s))"
proof (cases "tp_stopping s")
  case True
  then show ?thesis using inv
    by (auto simp: submit_def Let_def tasks_inv_def queued_def running_def nth_append)
next
  case False
  let ?s = "fst (submit p s)" and ?a = "length (tp_states s)"
  note law = enqueue_law [of "tp_queue s" p ?a]
  have q: "queued ?s = add_mset ?a (queued s)" "running ?s = running s" "is_heap (tq_heap (tp_queue ?s))"
    using law inv False by (simp_all add: submit_def Let_def tasks_inv_def queued_def running_def)
  have new: "?a \<notin> set (tp_accepted s)" using inv by (auto simp: tasks_inv_def)
  have "tp_states ?s = tp_states s @ [ss_new]" "tp_accepted ?s = tp_accepted s @ [?a]" "tp_started ?s = tp_started s"
    using False by (simp_all add: submit_def Let_def)
  then show ?thesis using inv new q
    by (auto simp: tasks_inv_def nth_append has_outcome_def ss_new_def)
qed

lemma tasks_inv_take:
  assumes inv: "tasks_inv s" and w: "worker_is s i Checking" and ne: "pending (tp_queue s) \<noteq> 0" and d: "dequeue (tp_queue s) = (a, q)"
  shows "tasks_inv (set_worker i (Running a) (s\<lparr>tp_queue := q, tp_started := tp_started s @ [a]\<rparr>))"
proof -
  let ?s = "set_worker i (Running a) (s\<lparr>tp_queue := q, tp_started := tp_started s @ [a]\<rparr>)"
  have heap: "is_heap (tq_heap (tp_queue s))" "tq_heap (tp_queue s) \<noteq> []" using inv ne by (simp_all add: tasks_inv_def pending_def)
  note law = dequeue_law [OF heap]
  have q: "queued s = add_mset a (queued ?s)" "is_heap (tq_heap q)" using law d by (simp_all add: queued_def)
  have r: "running ?s = add_mset a (running s)"
    using running_set_worker [of "s\<lparr>tp_queue := q, tp_started := tp_started s @ [a]\<rparr>" i Checking "Running a"] w
    by (simp add: worker_is_def running_def)
  then have "queued ?s + running ?s = queued s + running s" using q by simp
  then show ?thesis using inv q r by (simp add: tasks_inv_def)
qed

lemma run_closure_ok:
  assumes "\<not> has_outcome st"
  obtains st' where "run_closure b st = Inr st'" and "finished st'" and "ss_abandon st' = st'"
proof -
  have *: "has_outcome (st\<lparr>ss_result := r\<rparr>)" "finished (st\<lparr>ss_result := r\<rparr>)" if "r \<noteq> Unset" for r
    using that assms by (auto simp: has_outcome_def finished_def)
  show thesis
    by (cases b) (use assms * in \<open>auto simp: ss_set_def ss_abandon_id intro: that\<close>)
qed

lemma tasks_inv_running:
  assumes "tasks_inv s" and "worker_is s i (Running a)"
  shows "a \<in> set (tp_accepted s)" and "\<not> has_outcome (tp_states s ! a)" and "count (queued s + running s) a = 1"
proof -
  have a: "a \<in># running s" using assms(2) nth_mem by (fastforce simp: running_member worker_is_def)
  have le: "queued s + running s \<subseteq># mset (tp_accepted s)" using assms(1) by (simp add: tasks_inv_def)
  show acc: "a \<in> set (tp_accepted s)" using mset_subset_eqD [OF le, of a] a by simp
  then show "\<not> has_outcome (tp_states s ! a)" using assms(1) a by (auto simp: tasks_inv_def)
  have "distinct (tp_accepted s)" using assms(1) by (simp add: tasks_inv_def)
  then have "count (mset (tp_accepted s)) a \<le> 1" unfolding distinct_count_atmost_1 by simp
  then have "count (queued s + running s) a \<le> 1" using mset_subset_eq_count [OF le, of a] by linarith
  moreover have "0 < count (queued s + running s) a" using a by simp
  ultimately show "count (queued s + running s) a = 1" by linarith
qed

lemma tasks_inv_run:
  assumes inv: "tasks_inv s" and w: "worker_is s i (Running a)" and st: "finished st"
  shows "tasks_inv (set_worker i Checking (s\<lparr>tp_states := (tp_states s)[a := st]\<rparr>))"
proof -
  let ?s = "set_worker i Checking (s\<lparr>tp_states := (tp_states s)[a := st]\<rparr>)"
  note a = tasks_inv_running [OF inv w]
  have r: "running s = add_mset a (running ?s)"
    using running_set_worker [of "s\<lparr>tp_states := (tp_states s)[a := st]\<rparr>" i "Running a" Checking] w
    by (simp add: worker_is_def running_def)
  have q: "queued ?s = queued s" by (simp add: queued_def)
  have "a \<notin># queued ?s + running ?s" using a(3) r q by (simp add: not_in_iff)
  moreover have "b \<in># queued ?s + running ?s \<longleftrightarrow> b \<in># queued s + running s" if "b \<noteq> a" for b using r q that by simp
  ultimately have out: "if b \<in># queued ?s + running ?s then \<not> has_outcome (tp_states ?s ! b) else finished (tp_states ?s ! b)"
    if "b \<in> set (tp_accepted s)" for b
    using inv that st by (cases "b = a") (auto simp: tasks_inv_def)
  have "running ?s \<subseteq># running s" by (simp add: r)
  then have sub: "running ?s \<subseteq># mset (tp_started s)" using inv by (auto simp: tasks_inv_def intro: subset_mset.trans)
  show ?thesis unfolding tasks_inv_def
  proof (intro conjI ballI)
    fix b
    assume "b \<in> set (tp_accepted ?s)"
    then show "if b \<in># queued ?s + running ?s then \<not> has_outcome (tp_states ?s ! b) else finished (tp_states ?s ! b)"
      by (intro out) simp
  qed (use inv sub in \<open>simp_all add: tasks_inv_def\<close>)
qed

section \<open>Sleeping and leaving\<close>

text \<open>
  A worker has left, or none could be started, only when the pool is stopping and its queue is empty; while a worker sleeps, every queued task has
  a worker about to look at the queue or a notification on its way; and nobody sleeps once \<open>notify_all\<close> of a
  shutdown has happened.
\<close>

definition workers_inv :: "('v, 'e) pool \<Rightarrow> bool" where
  "workers_inv s \<longleftrightarrow>
     (Exited \<in> set (tp_workers s) \<or> tp_workers s = [] \<longrightarrow> tp_stopping s \<and> pending (tp_queue s) = 0) \<and> Killed \<notin> set (tp_workers s) \<and>
     (Sleeping \<in> set (tp_workers s) \<longrightarrow> pending (tp_queue s) \<le> num_checking s + tp_notify s) \<and>
     (tp_stopping s \<longleftrightarrow> tp_phase s \<noteq> Open) \<and>
     (tp_phase s = Joining \<or> tp_phase s = Joined \<longrightarrow> Sleeping \<notin> set (tp_workers s)) \<and>
     (tp_phase s = Joined \<longrightarrow> set (tp_workers s) \<subseteq> {Exited})"

definition pool_inv :: "('v, 'e) pool \<Rightarrow> bool" where
  "pool_inv s \<longleftrightarrow> tasks_inv s \<and> workers_inv s"

lemma worker_is_mem: "worker_is s i x \<Longrightarrow> x \<in> set (tp_workers s)"
  by (auto simp: worker_is_def)

lemma pending_law:
  "tasks_inv s \<Longrightarrow> pending (tp_queue (fst (submit p s))) = (if tp_stopping s then pending (tp_queue s) else Suc (pending (tp_queue s)))"
  using enqueue_law [of "tp_queue s" p "length (tp_states s)", THEN conjunct2, THEN arg_cong [where f = size]]
  by (simp add: submit_def Let_def pending_def tasks_inv_def)

lemma pending_dequeue:
  assumes "tasks_inv s" and "pending (tp_queue s) \<noteq> 0"
  shows "Suc (pending (snd (dequeue (tp_queue s)))) = pending (tp_queue s)"
proof -
  have heap: "is_heap (tq_heap (tp_queue s))" "tq_heap (tp_queue s) \<noteq> []" using assms by (auto simp: tasks_inv_def pending_def)
  show ?thesis using dequeue_law(3) [OF heap, THEN arg_cong [where f = size]] by (simp add: pending_def)
qed

lemma pool_inv_submit: "pool_inv s \<Longrightarrow> pool_inv (fst (submit p s))"
proof -
  assume inv: "pool_inv s"
  have "tp_workers (fst (submit p s)) = tp_workers s" "tp_phase (fst (submit p s)) = tp_phase s"
      "tp_stopping (fst (submit p s)) = tp_stopping s" "num_checking (fst (submit p s)) = num_checking s"
      "tp_notify (fst (submit p s)) = (if tp_stopping s then tp_notify s else Suc (tp_notify s))"
    by (simp_all add: submit_def Let_def num_checking_def)
  then show ?thesis using inv tasks_inv_submit pending_law by (fastforce simp: pool_inv_def workers_inv_def)
qed

lemma workers_inv_to_checking:
  assumes "workers_inv s" and "worker_is s i x" and "x \<noteq> Checking" and "x \<noteq> Exited" and "tp_workers s' = (tp_workers s)[i := Checking]"
    and "pending (tp_queue s') = pending (tp_queue s)" and "tp_stopping s' = tp_stopping s" and "tp_phase s' = tp_phase s"
    and "tp_notify s \<le> Suc (tp_notify s')"
  shows "workers_inv s'"
proof -
  have "num_checking s' = Suc (num_checking s)"
    using num_checking_set_worker [OF assms(2), of Checking] assms(3,5) by (simp add: num_checking_def set_worker_def)
  moreover have "set (tp_workers s') \<subseteq> insert Checking (set (tp_workers s))" using assms(5) by (simp add: set_update_subset_insert)
  moreover have "tp_phase s \<noteq> Joined" using assms(1,4) worker_is_mem [OF assms(2)] by (auto simp: workers_inv_def)
  moreover have "tp_workers s' = [] \<longleftrightarrow> tp_workers s = []" by (simp add: assms(5))
  ultimately show ?thesis using assms(1,6-9) by (fastforce simp: workers_inv_def)
qed

lemma pool_inv_notify_one:
  assumes "pool_inv s" and "notify_one w s = Some s'"
  shows "pool_inv s'"
proof (cases w)
  case None
  then have "s' = s\<lparr>tp_notify := tp_notify s - 1\<rparr>" "Sleeping \<notin> set (tp_workers s)"
    using assms(2) by (auto simp: notify_one_def split: if_splits)
  then show ?thesis using assms(1)
    by (auto simp: pool_inv_def workers_inv_def num_checking_def running_def intro: tasks_inv_cong)
next
  case (Some i)
  then have s': "s' = set_worker i Checking (s\<lparr>tp_notify := tp_notify s - 1\<rparr>)" "worker_is s i Sleeping" "tp_notify s \<noteq> 0"
    using assms(2) by (auto simp: notify_one_def split: if_splits)
  have "tasks_inv (s\<lparr>tp_notify := tp_notify s - 1\<rparr>)"
    using assms(1) by (auto simp: pool_inv_def running_def intro: tasks_inv_cong)
  then have "tasks_inv s'" unfolding s'(1) by (rule tasks_inv_worker [where x = Sleeping]) (use s'(2) in \<open>simp_all add: worker_is_def\<close>)
  moreover have "workers_inv s'"
    by (rule workers_inv_to_checking [OF _ s'(2)]) (use assms(1) s' in \<open>auto simp: pool_inv_def set_worker_def\<close>)
  ultimately show ?thesis by (simp add: pool_inv_def)
qed

lemma pool_inv_spurious:
  assumes "pool_inv s" and "spurious_wake i s = Some s'"
  shows "pool_inv s'"
proof -
  have s': "s' = set_worker i Checking s" "worker_is s i Sleeping" using assms(2) by (auto simp: spurious_wake_def split: if_splits)
  have "workers_inv s'"
    by (rule workers_inv_to_checking [OF _ s'(2)]) (use assms(1) s' in \<open>auto simp: pool_inv_def set_worker_def\<close>)
  then show ?thesis using assms(1) tasks_inv_worker [OF _ s'(2), of Checking] by (simp add: s'(1) pool_inv_def)
qed

lemma pool_inv_check:
  assumes inv: "pool_inv s" and step: "worker_check i s = Some s'"
  shows "pool_inv s'"
proof -
  have w: "worker_is s i Checking" using step by (auto simp: worker_check_def split: if_splits)
  have tasks: "tasks_inv s" and wk: "workers_inv s" using inv by (simp_all add: pool_inv_def)
  have phase: "tp_phase s \<noteq> Joined" using wk worker_is_mem [OF w] by (auto simp: workers_inv_def)
  consider (sleep) "\<not> tp_stopping s" "pending (tp_queue s) = 0" "s' = set_worker i Sleeping s"
    | (exit) "tp_stopping s" "pending (tp_queue s) = 0" "s' = set_worker i Exited s"
    | (take) a q where "pending (tp_queue s) \<noteq> 0" "dequeue (tp_queue s) = (a, q)"
        "s' = set_worker i (Running a) (s\<lparr>tp_queue := q, tp_started := tp_started s @ [a]\<rparr>)"
    using step w by (auto simp: worker_check_def split: if_splits prod.splits)
  then show ?thesis
  proof cases
    case sleep
    then have "workers_inv s'"
      using wk phase set_worker_in [of _ i Sleeping s] by (fastforce simp: workers_inv_def)
    then show ?thesis using tasks_inv_worker [OF tasks w, of Sleeping] by (simp add: sleep(3) pool_inv_def)
  next
    case exit
    then have "workers_inv s'"
      using wk phase set_worker_in [of _ i Exited s] by (fastforce simp: workers_inv_def)
    then show ?thesis using tasks_inv_worker [OF tasks w, of Exited] by (simp add: exit(3) pool_inv_def)
  next
    case take
    have "Suc (pending q) = pending (tp_queue s)" using pending_dequeue [OF tasks take(1)] take(2) by simp
    moreover have "Suc (num_checking s') = num_checking s"
      using num_checking_set_worker [of "s\<lparr>tp_queue := q, tp_started := tp_started s @ [a]\<rparr>" i Checking "Running a"] w
      by (simp add: take(3) worker_is_def num_checking_def)
    moreover have "set (tp_workers s') \<subseteq> insert (Running a) (set (tp_workers s))"
      using set_worker_in by (fastforce simp: take(3))
    moreover have "tp_queue s' = q" "tp_notify s' = tp_notify s" "tp_stopping s' = tp_stopping s" "tp_phase s' = tp_phase s"
        "tp_workers s' = [] \<longleftrightarrow> tp_workers s = []"
      by (simp_all add: take(3))
    ultimately have "workers_inv s'" using wk phase by (fastforce simp: workers_inv_def)
    then show ?thesis using tasks_inv_take [OF tasks w take(1,2)] by (simp add: take(3) pool_inv_def)
  qed
qed

lemma run_task_cases:
  assumes "pool_inv s" and "run_task i b s = Some s'"
  obtains a st where "worker_is s i (Running a)" and "run_closure b (tp_states s ! a) = Inr st" and "finished st"
    and "s' = set_worker i Checking (s\<lparr>tp_states := (tp_states s)[a := st]\<rparr>)"
proof -
  obtain a where a: "worker_is s i (Running a)"
    using assms(2) by (auto simp: run_task_def worker_is_def split: if_splits worker.splits)
  then have "\<not> has_outcome (tp_states s ! a)" using assms(1) tasks_inv_running(2) [OF _ a] by (simp add: pool_inv_def)
  from run_closure_ok [OF this, of b] obtain st
    where "run_closure b (tp_states s ! a) = Inr st" "finished st" "ss_abandon st = st" .
  then show thesis using that a assms(2) by (simp add: run_task_def worker_is_def)
qed

lemma pool_inv_run_task:
  assumes "pool_inv s" and "run_task i b s = Some s'"
  shows "pool_inv s'"
proof -
  from run_task_cases [OF assms] obtain a st where w: "worker_is s i (Running a)" and st: "finished st"
    and s': "s' = set_worker i Checking (s\<lparr>tp_states := (tp_states s)[a := st]\<rparr>)" by metis
  have "workers_inv s'"
    by (rule workers_inv_to_checking [OF _ w]) (use assms(1) in \<open>auto simp: s' pool_inv_def set_worker_def\<close>)
  then show ?thesis using tasks_inv_run [OF _ w st] assms(1) by (simp add: s' pool_inv_def)
qed

lemma running_wake: "sum_list (map task_of (map wake ws)) = sum_list (map task_of ws)"
proof -
  have "task_of (wake x) = task_of x" for x by (simp add: wake_def)
  then show ?thesis by (simp add: comp_def)
qed

lemma wake_set: "x \<in> set (map wake ws) \<Longrightarrow> x \<noteq> Sleeping \<and> (x = Checking \<or> x \<in> set ws)"
  by (auto simp: wake_def)

lemma tasks_inv_phase [simp]: "tasks_inv (s\<lparr>tp_phase := ph\<rparr>) = tasks_inv s" "tasks_inv (s\<lparr>tp_stopping := st\<rparr>) = tasks_inv s"
  by (simp_all add: tasks_inv_def queued_def running_def)

lemma pool_inv_flag:
  assumes "pool_inv s" and "shutdown_flag s = Some s'"
  shows "pool_inv s'"
proof -
  have "s' = s\<lparr>tp_stopping := True, tp_phase := Flagged\<rparr>" using assms(2) by (auto simp: shutdown_flag_def stop_admissions_def split: if_splits)
  then show ?thesis using assms(1) by (simp add: pool_inv_def workers_inv_def num_checking_def)
qed

lemma pool_inv_notify_all:
  assumes "pool_inv s" and "shutdown_notify s = Some s'"
  shows "pool_inv s'"
proof -
  have s': "s' = s\<lparr>tp_workers := map wake (tp_workers s), tp_phase := Joining\<rparr>" "tp_phase s = Flagged"
    using assms(2) by (auto simp: shutdown_notify_def split: if_splits)
  have "tasks_inv s'"
    by (rule tasks_inv_cong [of s]) (use assms(1) in \<open>simp_all add: s' pool_inv_def running_def running_wake del: map_map\<close>)
  moreover have "workers_inv s'"
    using assms(1) wake_set [of _ "tp_workers s"] s' by (fastforce simp: pool_inv_def workers_inv_def)
  ultimately show ?thesis by (simp add: pool_inv_def)
qed

lemma pool_inv_join:
  assumes "pool_inv s" and "shutdown_join s = Some s'"
  shows "pool_inv s'"
proof -
  have "s' = s\<lparr>tp_phase := Joined\<rparr>" "tp_phase s = Joining" "set (tp_workers s) \<subseteq> {Exited}"
    using assms(2) by (auto simp: shutdown_join_def split: if_splits)
  then show ?thesis using assms(1) by (auto simp: pool_inv_def workers_inv_def num_checking_def)
qed

lemma pool_inv_step: "pool_inv s \<Longrightarrow> pool_step l s = Some s' \<Longrightarrow> pool_inv s'"
  by (cases l) (auto simp: pool_inv_submit intro: pool_inv_notify_one pool_inv_check pool_inv_spurious pool_inv_run_task pool_inv_flag
      pool_inv_notify_all pool_inv_join)

lemma sum_list_replicate_empty: "sum_list (replicate n {#}) = {#}"
  by (induction n) simp_all

lemma pool_inv_new: "pool_new n k = Inr s \<Longrightarrow> pool_inv s"
  by (auto simp: pool_new_def Let_def stop_admissions_def pool_inv_def tasks_inv_def workers_inv_def queued_def tq_empty_def
      heap_upto_def running_def sum_list_replicate_empty pending_def split: if_splits)

interpretation pool: step_invariant pool_step pool_inv
  by unfold_locales (rule pool_inv_step)

section \<open>Shutting down\<close>

text \<open>The steps the pool itself takes: all but the calls of its clients.\<close>

fun progress :: "('v, 'e) pool_label \<Rightarrow> bool" where
  "progress (Submit p) = False"
| "progress Shutdown = False"
| "progress _ = True"

fun work_left :: "worker \<Rightarrow> nat" where
  "work_left (Running a) = 2"
| "work_left Sleeping = 2"
| "work_left Checking = 1"
| "work_left _ = 0"

fun phase_left :: "shutdown_phase \<Rightarrow> nat" where
  "phase_left Flagged = 2"
| "phase_left Joining = 1"
| "phase_left _ = 0"

definition drain_measure :: "('v, 'e) pool \<Rightarrow> nat" where
  "drain_measure s = 3 * pending (tp_queue s) + sum_list (map work_left (tp_workers s)) + tp_notify s + phase_left (tp_phase s)"

lemma work_left_set_worker:
  "worker_is s i x \<Longrightarrow> sum_list (map work_left (tp_workers (set_worker i y s))) + work_left x = sum_list (map work_left (tp_workers s)) + work_left y"
  using sum_list_update [of i "tp_workers s" work_left y] by (auto simp: worker_is_def set_worker_def)

lemma work_left_wake: "sum_list (map work_left (map wake ws)) \<le> sum_list (map work_left ws)"
  by (induction ws) (auto simp: wake_def)

lemma drain_worker:
  assumes "worker_is s i x" and "work_left y < work_left x"
  shows "drain_measure (set_worker i y s) < drain_measure s"
  using work_left_set_worker [OF assms(1), of y] assms(2) by (simp add: drain_measure_def)

lemma drain_check:
  assumes inv: "pool_inv s" and stop: "tp_stopping s" and step: "worker_check i s = Some s'"
  shows "tp_stopping s' \<and> drain_measure s' < drain_measure s"
proof -
  have w: "worker_is s i Checking" using step by (auto simp: worker_check_def split: if_splits)
  show ?thesis
  proof (cases "pending (tp_queue s) = 0")
    case True
    then have "s' = set_worker i Exited s" using step stop w by (simp add: worker_check_def)
    then show ?thesis using drain_worker [OF w, of Exited] stop by simp
  next
    case False
    obtain a q where d: "dequeue (tp_queue s) = (a, q)" by fastforce
    have "Suc (pending q) = pending (tp_queue s)" using pending_dequeue [OF _ False] inv d by (simp add: pool_inv_def)
    moreover have s': "s' = set_worker i (Running a) (s\<lparr>tp_queue := q, tp_started := tp_started s @ [a]\<rparr>)"
      using step stop w d False by (simp add: worker_check_def)
    moreover have "sum_list (map work_left (tp_workers s')) = sum_list (map work_left (tp_workers s)) + 1"
      using work_left_set_worker [OF w, of "Running a"] by (simp add: s' set_worker_def)
    ultimately show ?thesis using stop by (simp add: drain_measure_def)
  qed
qed

lemma drain_notify_one:
  assumes "tp_stopping s" and "notify_one w s = Some s'"
  shows "tp_stopping s' \<and> drain_measure s' < drain_measure s"
proof (cases w)
  case None
  then show ?thesis using assms by (auto simp: notify_one_def drain_measure_def split: if_splits)
next
  case (Some i)
  then have "s' = set_worker i Checking (s\<lparr>tp_notify := tp_notify s - 1\<rparr>)" "worker_is s i Sleeping" "tp_notify s \<noteq> 0"
    using assms(2) by (auto simp: notify_one_def split: if_splits)
  then show ?thesis using work_left_set_worker [of s i Sleeping Checking] assms(1)
    by (simp add: drain_measure_def set_worker_def)
qed

lemma drain_run_task:
  assumes "pool_inv s" and "tp_stopping s" and "run_task i b s = Some s'"
  shows "tp_stopping s' \<and> drain_measure s' < drain_measure s"
proof -
  from run_task_cases [OF assms(1,3)] obtain a st where "worker_is s i (Running a)"
    and "s' = set_worker i Checking (s\<lparr>tp_states := (tp_states s)[a := st]\<rparr>)" by metis
  then show ?thesis using work_left_set_worker [of s i "Running a" Checking] assms(2)
    by (simp add: drain_measure_def set_worker_def)
qed

lemma drain_submit: "tp_stopping s \<Longrightarrow> tp_stopping (fst (submit p s)) \<and> drain_measure (fst (submit p s)) = drain_measure s"
  by (simp add: submit_def Let_def drain_measure_def)

lemma drain_step:
  assumes "pool_inv s" and "tp_stopping s" and "pool_step l s = Some s'" and "l \<noteq> Shutdown"
  shows "tp_stopping s' \<and> drain_measure s' + (if progress l then 1 else 0) \<le> drain_measure s"
proof (cases l)
  case (Submit p)
  then show ?thesis using drain_submit [OF assms(2)] assms(3) by auto
next
  case (Notify_one w)
  then show ?thesis using drain_notify_one [OF assms(2)] assms(3) by fastforce
next
  case (Check i)
  then show ?thesis using drain_check [OF assms(1,2)] assms(3) by fastforce
next
  case (Spurious i)
  then show ?thesis using drain_worker [of s i Sleeping Checking] assms(2,3) by (auto simp: spurious_wake_def split: if_splits)
next
  case (Run i b)
  then show ?thesis using drain_run_task [OF assms(1,2)] assms(3) by fastforce
next
  case Notify_all
  then show ?thesis using work_left_wake [of "tp_workers s"] assms(2,3)
    by (auto simp: shutdown_notify_def drain_measure_def simp del: map_map split: if_splits)
next
  case Join
  then show ?thesis using assms(2,3) by (auto simp: shutdown_join_def drain_measure_def split: if_splits)
qed (use assms(4) in simp)

lemma drain_run:
  "pool_inv s \<Longrightarrow> tp_stopping s \<Longrightarrow> pool_run ls s = Some s' \<Longrightarrow> Shutdown \<notin> set ls \<Longrightarrow>
    tp_stopping s' \<and> drain_measure s' + length (filter progress ls) \<le> drain_measure s"
proof (induction ls arbitrary: s)
  case (Cons l ls)
  then obtain s1 where s1: "pool_step l s = Some s1" "pool_run ls s1 = Some s'" by (auto split: option.splits)
  have "tp_stopping s1 \<and> drain_measure s1 + (if progress l then 1 else 0) \<le> drain_measure s"
    using drain_step [OF Cons.prems(1,2) s1(1)] Cons.prems(4) by auto
  then show ?case using Cons.IH [of s1] pool_inv_step [OF Cons.prems(1) s1(1)] s1(2) Cons.prems(4) by fastforce
qed simp

lemma stuck_joined:
  assumes inv: "pool_inv s" and stop: "tp_stopping s" and stuck: "\<And>l. progress l \<Longrightarrow> pool_step l s = None"
  shows "tp_phase s = Joined"
proof (rule ccontr)
  assume "tp_phase s \<noteq> Joined"
  moreover have "tp_phase s \<noteq> Open" using inv stop by (simp add: pool_inv_def workers_inv_def)
  moreover have "tp_phase s \<noteq> Flagged" using stuck [of Notify_all] by (auto simp: shutdown_notify_def)
  ultimately have phase: "tp_phase s = Joining" by (cases "tp_phase s") auto
  have "x = Exited" if x: "x \<in> set (tp_workers s)" for x
  proof (cases x)
    case Checking
    then obtain i where "worker_is s i Checking" using x by (auto simp: in_set_conv_nth worker_is_def)
    then show ?thesis using stuck [of "Check i"] stop by (simp add: worker_check_def split: if_splits prod.splits)
  next
    case (Running a)
    then obtain i where "worker_is s i (Running a)" using x by (auto simp: in_set_conv_nth worker_is_def)
    then show ?thesis using stuck [of "Run i (Returns undefined)"] by (simp add: run_task_def worker_is_def split: sum.splits)
  qed (use inv phase x in \<open>auto simp: pool_inv_def workers_inv_def\<close>)
  then show False using stuck [of Join] phase by (auto simp: shutdown_join_def)
qed

lemma joined_complete:
  assumes inv: "pool_inv s" and "tp_phase s = Joined" and a: "a \<in> set (tp_accepted s)"
  shows "count_list (tp_started s) a = 1" and "finished (tp_states s ! a)"
proof -
  have ws: "set (tp_workers s) \<subseteq> {Exited}" using assms by (simp add: pool_inv_def workers_inv_def)
  then have "tp_workers s = [] \<or> Exited \<in> set (tp_workers s)" by (cases "tp_workers s") auto
  then have "pending (tp_queue s) = 0" using inv by (auto simp: pool_inv_def workers_inv_def)
  then have q: "queued s = {#}" by (simp add: queued_def pending_def)
  have "a \<notin># running s" for a using ws by (auto simp: running_member)
  then have "running s = {#}" by blast
  then show "finished (tp_states s ! a)" using inv a q by (simp add: pool_inv_def tasks_inv_def)
  have "mset (tp_accepted s) = mset (tp_started s)" "distinct (tp_accepted s)" using inv q by (simp_all add: pool_inv_def tasks_inv_def)
  then show "count_list (tp_started s) a = 1"
    using a by (metis count_mset distinct_count_atmost_1)
qed

text \<open>
  Property C5. A shutdown drains the pool and ends. From the moment admissions are stopped (by \<open>shutdown\<close>, the
  destructor, or a constructor whose last threads could not be started), the pool takes a bounded number of steps in
  every interleaving, with clients still calling \<open>submit\<close> meanwhile; and when it can take no more, all workers
  are joined, and every task ever accepted was started exactly once and its future gets the value or the
  exception of the task, never a broken promise.
\<close>

theorem thread_pool_drains:
  assumes "pool_new n k = Inr s0" and "pool_run before s0 = Some s" and "tp_stopping s"
    and "pool_run ls s = Some s'" and "Shutdown \<notin> set ls"
  shows "length (filter progress ls) \<le> drain_measure s \<and>
    ((\<forall>l. progress l \<longrightarrow> pool_step l s' = None) \<longrightarrow> tp_phase s' = Joined \<and>
      (\<forall>a \<in> set (tp_accepted s'). count_list (tp_started s') a = 1 \<and>
        ((\<exists>v. ss_get (tp_states s' ! a) = Delivered v) \<or> (\<exists>e. ss_get (tp_states s' ! a) = Rethrown e))))"
proof -
  have inv: "pool_inv s" "pool_inv s'" using pool_inv_new [OF assms(1)] pool.run_inv assms(2,4) by blast+
  have run: "tp_stopping s'" "length (filter progress ls) \<le> drain_measure s"
    using drain_run [OF inv(1) assms(3-5)] by simp_all
  have "(\<exists>v. ss_get st = Delivered v) \<or> (\<exists>e. ss_get st = Rethrown e)" if "finished st" for st :: "('a, 'b) task_state"
    using that by (auto simp: finished_def ss_get_def split: task_result.splits)
  then show ?thesis using run stuck_joined [OF inv(2) run(1)] joined_complete [OF inv(2)] by blast
qed

definition demo_labels :: "(nat, nat) pool_label list" where
  "demo_labels = [Check 0, Submit 0, Submit 7, Notify_one (Some 0), Shutdown]"

definition demo_drain :: "(nat, nat) pool_label list" where
  "demo_drain = [Notify_all, Check 0, Check 1, Submit 3, Run 0 (Throws 4), Run 1 (Returns 5), Notify_one None, Check 1, Check 0, Join]"

theorem thread_pool_drains_witness:
  "\<exists>s0 s s'. pool_new 2 2 = Inr s0 \<and> pool_run demo_labels s0 = Some s \<and> pool_run demo_drain s = Some s' \<and>
     tp_accepted s' = [0, 1] \<and> 9 \<le> drain_measure s"
proof -
  define s0 :: "(nat, nat) pool" where "s0 = projr (pool_new 2 2)"
  have 1: "pool_new 2 2 = Inr s0" by (simp add: s0_def pool_new_def Let_def)
  have 2: "map_option tp_stopping (pool_run demo_labels s0) = Some True"
      "map_option tp_accepted (Option.bind (pool_run demo_labels s0) (pool_run demo_drain)) = Some [0, 1]"
    unfolding s0_def by code_simp+
  then obtain s s' where s: "pool_run demo_labels s0 = Some s" "tp_stopping s" "pool_run demo_drain s = Some s'" "tp_accepted s' = [0, 1]"
    by (auto simp: bind_eq_Some_conv)
  have "length (filter progress demo_drain) \<le> drain_measure s"
    using thread_pool_drains [OF 1 s(1,2,3)] by (simp add: demo_drain_def)
  then show ?thesis using 1 s by (auto simp: demo_drain_def)
qed

text \<open>
  A task that throws never kills a worker: in every reachable state a worker that runs a task can finish it
  whatever the task does, goes back to the queue, and the future of the task delivers exactly the value returned
  or rethrows exactly the exception thrown; no worker ever dies of an exception.
\<close>

theorem thread_pool_task_outcome:
  assumes "pool_new n k = Inr s0" and "pool_run ls s0 = Some s" and "worker_is s i (Running a)"
  shows "\<exists>s'. pool_step (Run i b) s = Some s' \<and> worker_is s' i Checking \<and>
    ss_get (tp_states s' ! a) = (case b of Returns v \<Rightarrow> Delivered v | Throws e \<Rightarrow> Rethrown (From_task e)) \<and>
    Killed \<notin> set (tp_workers s')"
proof -
  have inv: "pool_inv s" using pool.run_inv [OF pool_inv_new [OF assms(1)] assms(2)] .
  then have tasks: "tasks_inv s" by (simp add: pool_inv_def)
  note a = tasks_inv_running [OF tasks assms(3)]
  have less: "a < length (tp_states s)" using tasks a(1) by (simp add: tasks_inv_def)
  from run_closure_ok [OF a(2), of b] obtain st
    where st: "run_closure b (tp_states s ! a) = Inr st" "finished st" "ss_abandon st = st" .
  let ?s = "set_worker i Checking (s\<lparr>tp_states := (tp_states s)[a := st]\<rparr>)"
  have step: "pool_step (Run i b) s = Some ?s" using st assms(3) by (simp add: run_task_def worker_is_def)
  have "ss_get st = (case b of Returns v \<Rightarrow> Delivered v | Throws e \<Rightarrow> Rethrown (From_task e))"
    using st(1) a(2) by (cases b) (auto simp: ss_set_def ss_get_def has_outcome_def)
  moreover have "Killed \<notin> set (tp_workers ?s)" using pool_inv_step [OF inv step] by (simp add: pool_inv_def workers_inv_def)
  ultimately show ?thesis using step less assms(3) by (simp add: worker_is_def set_worker_def)
qed

theorem thread_pool_task_outcome_witness:
  "\<exists>s0 s s'. pool_new 1 1 = Inr s0 \<and> pool_run [Submit 0, Check 0] s0 = Some s \<and>
     pool_step (Run 0 (Throws (4 :: nat))) (s :: (nat, nat) pool) = Some s' \<and> ss_get (tp_states s' ! 0) = Rethrown (From_task 4)"
proof -
  define s0 :: "(nat, nat) pool" where "s0 = projr (pool_new 1 1)"
  have 1: "pool_new 1 1 = Inr s0" by (simp add: s0_def pool_new_def Let_def)
  have "map_option tp_workers (pool_run [Submit 0, Check 0] s0) = Some [Running 0]" unfolding s0_def by code_simp
  then obtain s where s: "pool_run [Submit 0, Check 0] s0 = Some s" "tp_workers s = [Running 0]" by auto
  then have "worker_is s 0 (Running 0)" by (simp add: worker_is_def)
  from thread_pool_task_outcome [OF 1 s(1) this, of "Throws 4"] show ?thesis using 1 s(1) by auto
qed

text \<open>
  No wake-up is lost: in every reachable state, while a worker sleeps there are at least as many workers on
  their way to the queue, or notifications still to be sent, as there are queued tasks; and after the
  \<open>notify_all\<close> of a shutdown nobody sleeps.
\<close>

theorem thread_pool_no_lost_wakeup:
  assumes "pool_new n k = Inr s0" and "pool_run ls s0 = Some s" and "Sleeping \<in> set (tp_workers s)"
  shows "pending (tp_queue s) \<le> num_checking s + tp_notify s \<and> tp_phase s \<noteq> Joining \<and> tp_phase s \<noteq> Joined"
  using pool.run_inv [OF pool_inv_new [OF assms(1)] assms(2)] assms(3) by (auto simp: pool_inv_def workers_inv_def)

theorem thread_pool_no_lost_wakeup_witness:
  "\<exists>s0 s. pool_new 2 2 = Inr s0 \<and> pool_run [Check 0, Check 1, Submit 0, Notify_one (Some 1)] s0 = Some s \<and>
     tp_workers (s :: (nat, nat) pool) = [Sleeping, Checking] \<and> pending (tp_queue s) \<le> num_checking s + tp_notify s"
proof -
  define s0 :: "(nat, nat) pool" where "s0 = projr (pool_new 2 2)"
  have 1: "pool_new 2 2 = Inr s0" by (simp add: s0_def pool_new_def Let_def)
  have "map_option tp_workers (pool_run [Check 0, Check 1, Submit 0, Notify_one (Some 1)] s0) = Some [Sleeping, Checking]"
    unfolding s0_def by code_simp
  then obtain s where s: "pool_run [Check 0, Check 1, Submit 0, Notify_one (Some 1)] s0 = Some s" "tp_workers s = [Sleeping, Checking]"
    by auto
  then show ?thesis using thread_pool_no_lost_wakeup [OF 1 s(1)] 1 by auto
qed

end
