(* ===== verification/Semaphore.thy ===== *)
theory Semaphore
  imports Monitor
begin

text \<open>
  \<open>Semaphore\<close> (semaphore.hpp) with its threads: each critical section of the mutex is one step, and so are each
  notification, a spurious wake-up and the expiry of a timeout. \<open>count_type\<close> is a signed 64-bit integer;
  the counter is an \<open>int\<close>, and that it stays in the range of the type is a theorem.
\<close>

section \<open>Operations\<close>

definition sem_max :: int where
  "sem_max = 2 ^ 63 - 1"

text \<open>
  A thread outside the semaphore, one inside a wait about to test its predicate (with the timeout expired or not),
  and one asleep; a wait has a timeout or not.
\<close>

datatype sem_thread = Outside | Testing bool bool | Asleep bool

text \<open>
  \<open>sm_one\<close> and \<open>sm_all\<close> count the calls of \<open>release\<close> that have left the critical section and not yet notified.
  The histories \<open>sm_released\<close> and \<open>sm_acquired\<close> are not in the code.
\<close>

record sem =
  sm_count :: int
  sm_threads :: "sem_thread list"
  sm_one :: nat
  sm_all :: nat
  sm_released :: int
  sm_acquired :: int

definition sem_new :: "int \<Rightarrow> nat \<Rightarrow> sem cpp" where
  "sem_new initial n =
     (if initial < 0 then Inl (Invalid_argument ''Semaphore: initial count must be non-negative'')
      else Inr \<lparr>sm_count = initial, sm_threads = replicate n Outside, sm_one = 0, sm_all = 0, sm_released = 0, sm_acquired = 0\<rparr>)"

definition take_unit :: "sem \<Rightarrow> sem" where
  "take_unit s = s\<lparr>sm_count := sm_count s - 1, sm_acquired := sm_acquired s + 1\<rparr>"

definition set_thread :: "nat \<Rightarrow> sem_thread \<Rightarrow> sem \<Rightarrow> sem" where
  "set_thread i x s = s\<lparr>sm_threads := (sm_threads s)[i := x]\<rparr>"

definition thread_is :: "sem \<Rightarrow> nat \<Rightarrow> sem_thread \<Rightarrow> bool" where
  "thread_is s i x \<longleftrightarrow> i < length (sm_threads s) \<and> sm_threads s ! i = x"

text \<open>
  The test inside \<open>wait\<close>, \<open>wait_for\<close> and \<open>wait_until\<close>, with the code after the wait: a unit is taken, or the
  timeout has expired and the call returns \<open>false\<close>, or the thread goes to sleep.
\<close>

definition wait_test :: "nat \<Rightarrow> bool \<Rightarrow> bool \<Rightarrow> sem \<Rightarrow> sem \<times> bool option" where
  "wait_test i timed expired s =
     (if sm_count s > 0 then (set_thread i Outside (take_unit s), Some True)
      else if timed \<and> expired then (set_thread i Outside s, Some False)
      else (set_thread i (Asleep timed) s, None))"

definition acquire :: "nat \<Rightarrow> sem \<Rightarrow> sem \<times> bool option" where
  "acquire i s = wait_test i False False s"

definition try_acquire :: "sem \<Rightarrow> sem \<times> bool" where
  "try_acquire s = (if sm_count s = 0 then (s, False) else (take_unit s, True))"

definition try_acquire_for :: "nat \<Rightarrow> sem \<Rightarrow> sem \<times> bool option" where
  "try_acquire_for i s = wait_test i True False s"

definition try_acquire_until :: "nat \<Rightarrow> sem \<Rightarrow> sem \<times> bool option" where
  "try_acquire_until i s = wait_test i True False s"

definition release :: "int \<Rightarrow> sem \<Rightarrow> sem cpp" where
  "release update s =
     (if update < 0 then Inl (Invalid_argument ''Semaphore: release update must be non-negative'')
      else if update = 0 then Inr s
      else if sm_count s > sem_max - update then Inl (Overflow_error ''Semaphore: count would exceed max()'')
      else
        (let s' = s\<lparr>sm_count := sm_count s + update, sm_released := sm_released s + update\<rparr> in
         Inr (if update = 1 then s'\<lparr>sm_one := sm_one s + 1\<rparr> else s'\<lparr>sm_all := sm_all s + 1\<rparr>)))"

definition sem_available :: "sem \<Rightarrow> int" where
  "sem_available s = sm_count s"

fun wake_thread :: "sem_thread \<Rightarrow> sem_thread" where
  "wake_thread (Asleep timed) = Testing timed False"
| "wake_thread x = x"

definition asleep :: "sem_thread \<Rightarrow> bool" where
  "asleep x \<longleftrightarrow> (\<exists>timed. x = Asleep timed)"

lemma asleep_simps [simp, code]: "asleep (Asleep timed)" "\<not> asleep (Testing timed e)" "\<not> asleep Outside"
  by (simp_all add: asleep_def)

section \<open>Executions\<close>

datatype sem_label =
    Acquire nat
  | Try_acquire
  | Try_acquire_for nat
  | Release int
  | Notify_one "nat option"
  | Notify_all
  | Test nat
  | Spurious nat
  | Expire nat

definition wake_one :: "nat \<Rightarrow> sem \<Rightarrow> sem option" where
  "wake_one i s =
     (if i < length (sm_threads s) \<and> asleep (sm_threads s ! i) then Some (set_thread i (wake_thread (sm_threads s ! i)) s) else None)"

fun sem_step :: "sem_label \<Rightarrow> sem \<Rightarrow> sem option" where
  "sem_step (Acquire i) s = (if thread_is s i Outside then Some (fst (acquire i s)) else None)"
| "sem_step Try_acquire s = Some (fst (try_acquire s))"
| "sem_step (Try_acquire_for i) s = (if thread_is s i Outside then Some (fst (try_acquire_for i s)) else None)"
| "sem_step (Release n) s = (case release n s of Inl e \<Rightarrow> Some s | Inr s' \<Rightarrow> Some s')"
| "sem_step (Notify_one w) s =
     (if sm_one s = 0 then None
      else (case w of
          None \<Rightarrow> if \<exists>x \<in> set (sm_threads s). asleep x then None else Some (s\<lparr>sm_one := sm_one s - 1\<rparr>)
        | Some i \<Rightarrow> wake_one i (s\<lparr>sm_one := sm_one s - 1\<rparr>)))"
| "sem_step Notify_all s =
     (if sm_all s = 0 then None else Some (s\<lparr>sm_all := sm_all s - 1, sm_threads := map wake_thread (sm_threads s)\<rparr>))"
| "sem_step (Test i) s =
     (if i < length (sm_threads s) then
        (case sm_threads s ! i of Testing timed expired \<Rightarrow> Some (fst (wait_test i timed expired s)) | _ \<Rightarrow> None)
      else None)"
| "sem_step (Spurious i) s = wake_one i s"
| "sem_step (Expire i) s = (if thread_is s i (Asleep True) then Some (set_thread i (Testing True True) s) else None)"

section \<open>Invariant\<close>

definition testing :: "sem_thread \<Rightarrow> bool" where
  "testing x \<longleftrightarrow> (\<exists>t e. x = Testing t e)"

lemma testing_simps [simp]: "testing (Testing t e)" "\<not> testing Outside" "\<not> testing (Asleep t)"
  by (simp_all add: testing_def)

text \<open>
  The counter is what was there and was released less what was acquired, and within the range of its type; while
  a thread sleeps and no \<open>notify_all\<close> is due, every unit has a thread about to test or a \<open>notify_one\<close> due.
\<close>

definition sem_inv :: "int \<Rightarrow> sem \<Rightarrow> bool" where
  "sem_inv initial s \<longleftrightarrow> sm_count s = initial + sm_released s - sm_acquired s \<and> 0 \<le> sm_count s \<and> sm_count s \<le> sem_max \<and>
     ((\<exists>x \<in> set (sm_threads s). asleep x) \<and> sm_all s = 0 \<longrightarrow> sm_count s \<le> int (count_where testing (sm_threads s) + sm_one s))"

lemma set_thread_asleep:
  "\<not> asleep y \<Longrightarrow> x \<in> set ((sm_threads s)[i := y]) \<Longrightarrow> asleep x \<Longrightarrow> x \<in> set (sm_threads s)"
  using set_update_subset_insert [of "sm_threads s" i y] by auto

lemma sem_inv_wait_test:
  assumes inv: "sem_inv initial s" and i: "i < length (sm_threads s)" "\<not> asleep (sm_threads s ! i)"
  shows "sem_inv initial (fst (wait_test i timed expired s))"
proof -
  note upd = count_where_update [OF i(1), of testing]
  have nonneg: "0 \<le> sm_count s" using inv by (simp add: sem_inv_def)
  consider "sm_count s > 0" | "sm_count s = 0" "timed \<and> expired" | "sm_count s = 0" "\<not> (timed \<and> expired)"
    using nonneg by linarith
  then show ?thesis
  proof cases
    case 1
    then show ?thesis using inv set_thread_asleep [of Outside _ s i] upd [of Outside]
      by (fastforce simp: sem_inv_def wait_test_def set_thread_def take_unit_def split: if_splits)
  qed (use inv in \<open>auto simp: sem_inv_def wait_test_def set_thread_def\<close>)
qed

lemma sem_inv_woken:
  assumes "sem_inv initial s" and "i < length (sm_threads s)" and "asleep (sm_threads s ! i)" and "testing y"
    and "sm_one s \<le> Suc one"
  shows "sem_inv initial (set_thread i y (s\<lparr>sm_one := one\<rparr>))"
proof -
  have "\<not> testing (sm_threads s ! i)" "\<not> asleep y" using assms(3,4) by (auto simp: asleep_def testing_def)
  then have "count_where testing ((sm_threads s)[i := y]) = Suc (count_where testing (sm_threads s))"
    using count_where_update [OF assms(2), of testing y] assms(4) by simp
  then show ?thesis using assms(1,5) set_thread_asleep [OF \<open>\<not> asleep y\<close>, of _ s i]
    by (fastforce simp: sem_inv_def set_thread_def)
qed

lemma wake_thread_asleep: "asleep x \<Longrightarrow> testing (wake_thread x)" "\<not> asleep (wake_thread x)"
  by (cases x; simp)+

lemma sem_inv_wake_one: "sem_inv initial s \<Longrightarrow> sm_one s \<le> Suc one \<Longrightarrow> wake_one i (s\<lparr>sm_one := one\<rparr>) = Some s' \<Longrightarrow> sem_inv initial s'"
  using sem_inv_woken [of initial s i "wake_thread (sm_threads s ! i)" one]
  by (auto simp: wake_one_def wake_thread_asleep split: if_splits)

lemma sem_inv_release: "sem_inv initial s \<Longrightarrow> release n s = Inr s' \<Longrightarrow> sem_inv initial s'"
  by (auto simp: sem_inv_def release_def Let_def split: if_splits)

lemma sem_inv_try: "sem_inv initial s \<Longrightarrow> sem_inv initial (fst (try_acquire s))"
  by (auto simp: sem_inv_def try_acquire_def take_unit_def)

lemma sem_inv_step:
  assumes "sem_inv initial s" and "sem_step l s = Some s'"
  shows "sem_inv initial s'"
proof (cases l)
  case (Notify_one w)
  show ?thesis
  proof (cases w)
    case None
    then show ?thesis using assms Notify_one by (auto simp: sem_inv_def split: if_splits)
  next
    case (Some i)
    then show ?thesis using assms Notify_one sem_inv_wake_one [of initial s "sm_one s - 1" i s'] by (simp split: if_splits)
  qed
next
  case Notify_all
  then show ?thesis using assms wake_thread_asleep(2) by (auto simp: sem_inv_def split: if_splits)
next
  case (Spurious i)
  then show ?thesis using assms sem_inv_wake_one [of initial s "sm_one s" i s'] by simp
next
  case (Expire i)
  then show ?thesis using assms sem_inv_woken [of initial s i "Testing True True" "sm_one s"] by (auto simp: thread_is_def split: if_splits)
next
  case (Release n)
  then show ?thesis using assms sem_inv_release by (auto split: sum.splits)
next
  case (Test i)
  then show ?thesis using assms sem_inv_wait_test by (auto split: if_splits sem_thread.splits)
qed (use assms sem_inv_wait_test sem_inv_try in \<open>auto simp: acquire_def try_acquire_for_def thread_is_def split: if_splits\<close>)

interpretation sem: step_invariant sem_step "sem_inv initial" for initial
  by unfold_locales (rule sem_inv_step)

lemma sem_inv_new: "sem_new initial n = Inr s \<Longrightarrow> initial \<le> sem_max \<Longrightarrow> sem_inv initial s"
  by (auto simp: sem_new_def sem_inv_def split: if_splits)

section \<open>Properties\<close>

text \<open>
  Property C26. A semaphore never hands out a unit it does not have: in every interleaving of its calls, with timeouts,
  spurious wake-ups and refused calls of \<open>release\<close>, the counter is exactly the initial units plus those
  released less those acquired, is never negative, and never leaves the range of its 64-bit type.
\<close>

theorem semaphore_conserves_units:
  assumes "sem_new initial n = Inr s0" and "initial \<le> sem_max" and "run_steps sem_step ls s0 = Some s"
  shows "sem_available s = initial + sm_released s - sm_acquired s \<and> 0 \<le> sem_available s \<and> sem_available s \<le> sem_max \<and>
    sm_acquired s \<le> initial + sm_released s"
  using sem.run_inv [OF sem_inv_new [OF assms(1,2)] assms(3)] by (simp add: sem_inv_def sem_available_def)

theorem semaphore_conserves_units_witness:
  "\<exists>s0 s. sem_new 1 2 = Inr s0 \<and>
     run_steps sem_step [Acquire 0, Acquire 1, Try_acquire_for 0, Release sem_max, Release 1, Expire 0, Test 0] s0 = Some s \<and>
     0 \<le> sem_available s \<and> sem_available s \<le> sem_max"
proof -
  define s0 where "s0 = projr (sem_new 1 2)"
  have 1: "sem_new 1 2 = Inr s0" by (simp add: s0_def sem_new_def)
  have "run_steps sem_step [Acquire 0, Acquire 1, Try_acquire_for 0, Release sem_max, Release 1, Expire 0, Test 0] s0 \<noteq> None"
    unfolding s0_def by code_simp
  then obtain s where s: "run_steps sem_step [Acquire 0, Acquire 1, Try_acquire_for 0, Release sem_max, Release 1, Expire 0, Test 0] s0 = Some s"
    by blast
  then show ?thesis using semaphore_conserves_units [OF 1 _ s] 1 by (auto simp: sem_max_def)
qed

text \<open>
  Property C27. No wake-up of a semaphore is lost: in every reachable state in which a thread sleeps although there are
  units, a \<open>notify_all\<close> is still due, or at least as many threads are about to test the counter, or
  notifications are due, as there are units.
\<close>

theorem semaphore_no_lost_wakeup:
  assumes "sem_new initial n = Inr s0" and "initial \<le> sem_max" and "run_steps sem_step ls s0 = Some s"
    and "x \<in> set (sm_threads s)" and "asleep x"
  shows "0 < sm_all s \<or> sem_available s \<le> int (count_where testing (sm_threads s) + sm_one s)"
  using sem.run_inv [OF sem_inv_new [OF assms(1,2)] assms(3)] assms(4,5) by (auto simp: sem_inv_def sem_available_def)

theorem semaphore_no_lost_wakeup_witness:
  "\<exists>s0 s. sem_new 0 3 = Inr s0 \<and> run_steps sem_step [Acquire 0, Acquire 1, Release 1, Notify_one (Some 1)] s0 = Some s \<and>
     sm_threads s = [Asleep False, Testing False False, Outside] \<and> (0 < sm_all s \<or> sem_available s \<le> 1)"
proof -
  define s0 where "s0 = projr (sem_new 0 3)"
  have 1: "sem_new 0 3 = Inr s0" by (simp add: s0_def sem_new_def)
  have "map_option (\<lambda>s. (sm_threads s, sm_one s)) (run_steps sem_step [Acquire 0, Acquire 1, Release 1, Notify_one (Some 1)] s0) =
      Some ([Asleep False, Testing False False, Outside], 0)"
    unfolding s0_def by code_simp
  then obtain s where s: "run_steps sem_step [Acquire 0, Acquire 1, Release 1, Notify_one (Some 1)] s0 = Some s"
      "sm_threads s = [Asleep False, Testing False False, Outside]" "sm_one s = 0"
    by auto
  then show ?thesis using semaphore_no_lost_wakeup [OF 1 _ s(1), of "Asleep False"] 1 by (auto simp: sem_max_def)
qed

text \<open>\<open>release\<close> fails exactly on a negative update and on one that would leave the range, and then changes nothing.\<close>

lemma release_errors:
  assumes "0 \<le> sm_count s"
  shows "(\<exists>e. release n s = Inl e) \<longleftrightarrow> n < 0 \<or> (0 < n \<and> sm_count s + n > sem_max)"
  using assms by (auto simp: release_def Let_def)

end
