(* ===== verification/Reader_Writer_Lock.thy ===== *)
theory Reader_Writer_Lock
  imports Monitor
begin

text \<open>
  \<open>ReaderWriterLock\<close> (reader\_writer\_lock.hpp) with its threads, as in \<open>Semaphore\<close>: each critical section is
  one step, and so are each notification, a spurious wake-up and the expiry of a timeout. The counters are
  natural numbers; that they count threads, and so never wrap, is part of the invariant.
\<close>

section \<open>Operations\<close>

text \<open>A thread that waits has a timeout or not; one about to test its predicate may have an expired timeout.\<close>

datatype rw_thread =
    Idle
  | Wtest bool bool
  | Wsleep bool
  | Rtest bool bool
  | Rsleep bool
  | Writing
  | Reading

text \<open>
  \<open>rw_turn\<close> and \<open>rw_allow\<close> count the calls that have left the critical section and still have to notify
  \<open>writer_turn_\<close> (one) and \<open>readers_allowed_\<close> (all).
\<close>

record rwlock =
  rw_readers :: nat
  rw_waiting :: nat
  rw_active :: bool
  rw_threads :: "rw_thread list"
  rw_turn :: nat
  rw_allow :: nat

definition rw_new :: "nat \<Rightarrow> rwlock" where
  "rw_new n = \<lparr>rw_readers = 0, rw_waiting = 0, rw_active = False, rw_threads = replicate n Idle, rw_turn = 0, rw_allow = 0\<rparr>"

definition put :: "nat \<Rightarrow> rw_thread \<Rightarrow> rwlock \<Rightarrow> rwlock" where
  "put i x s = s\<lparr>rw_threads := (rw_threads s)[i := x]\<rparr>"

definition writer_may :: "rwlock \<Rightarrow> bool" where
  "writer_may s \<longleftrightarrow> \<not> rw_active s \<and> rw_readers s = 0"

definition reader_may :: "rwlock \<Rightarrow> bool" where
  "reader_may s \<longleftrightarrow> \<not> rw_active s \<and> rw_waiting s = 0"

text \<open>
  The test inside the wait of \<open>lock\<close> and \<open>writer_wait\<close>, with the code after it. \<open>None\<close> means that the call
  goes on waiting.
\<close>

definition writer_test :: "nat \<Rightarrow> bool \<Rightarrow> bool \<Rightarrow> rwlock \<Rightarrow> rwlock \<times> bool option" where
  "writer_test i timed expired s =
     (if writer_may s then (put i Writing (s\<lparr>rw_waiting := rw_waiting s - 1, rw_active := True\<rparr>), Some True)
      else if timed \<and> expired then
        (let s' = put i Idle (s\<lparr>rw_waiting := rw_waiting s - 1\<rparr>) in
         (if rw_waiting s' = 0 \<and> \<not> rw_active s' then s'\<lparr>rw_allow := rw_allow s' + 1\<rparr> else s', Some False))
      else (put i (Wsleep timed) s, None))"

definition rw_lock :: "nat \<Rightarrow> rwlock \<Rightarrow> rwlock \<times> bool option" where
  "rw_lock i s = writer_test i False False (s\<lparr>rw_waiting := rw_waiting s + 1\<rparr>)"

definition try_lock :: "nat \<Rightarrow> rwlock \<Rightarrow> rwlock \<times> bool" where
  "try_lock i s =
     (if rw_active s \<or> rw_readers s > 0 then (s, False) else (put i Writing (s\<lparr>rw_active := True\<rparr>), True))"

text \<open>The first section of \<open>writer_wait\<close>.\<close>

definition writer_wait :: "nat \<Rightarrow> rwlock \<Rightarrow> rwlock \<times> bool option" where
  "writer_wait i s = writer_test i True False (s\<lparr>rw_waiting := rw_waiting s + 1\<rparr>)"

definition try_lock_for :: "nat \<Rightarrow> rwlock \<Rightarrow> rwlock \<times> bool option" where
  "try_lock_for i s = writer_wait i s"

definition try_lock_until :: "nat \<Rightarrow> rwlock \<Rightarrow> rwlock \<times> bool option" where
  "try_lock_until i s = writer_wait i s"

definition unlock :: "nat \<Rightarrow> rwlock \<Rightarrow> rwlock" where
  "unlock i s =
     (let s' = put i Idle (s\<lparr>rw_active := False\<rparr>) in
      if rw_waiting s' > 0 then s'\<lparr>rw_turn := rw_turn s' + 1\<rparr> else s'\<lparr>rw_allow := rw_allow s' + 1\<rparr>)"

definition reader_test :: "nat \<Rightarrow> bool \<Rightarrow> bool \<Rightarrow> rwlock \<Rightarrow> rwlock \<times> bool option" where
  "reader_test i timed expired s =
     (if reader_may s then (put i Reading (s\<lparr>rw_readers := rw_readers s + 1\<rparr>), Some True)
      else if timed \<and> expired then (put i Idle s, Some False)
      else (put i (Rsleep timed) s, None))"

definition lock_shared :: "nat \<Rightarrow> rwlock \<Rightarrow> rwlock \<times> bool option" where
  "lock_shared i s = reader_test i False False s"

definition try_lock_shared :: "nat \<Rightarrow> rwlock \<Rightarrow> rwlock \<times> bool" where
  "try_lock_shared i s =
     (if rw_active s \<or> rw_waiting s > 0 then (s, False) else (put i Reading (s\<lparr>rw_readers := rw_readers s + 1\<rparr>), True))"

definition try_lock_shared_for :: "nat \<Rightarrow> rwlock \<Rightarrow> rwlock \<times> bool option" where
  "try_lock_shared_for i s = reader_test i True False s"

definition try_lock_shared_until :: "nat \<Rightarrow> rwlock \<Rightarrow> rwlock \<times> bool option" where
  "try_lock_shared_until i s = reader_test i True False s"

definition unlock_shared :: "nat \<Rightarrow> rwlock \<Rightarrow> rwlock" where
  "unlock_shared i s =
     (let s' = put i Idle (s\<lparr>rw_readers := rw_readers s - 1\<rparr>) in
      if rw_readers s' = 0 \<and> rw_waiting s' > 0 then s'\<lparr>rw_turn := rw_turn s' + 1\<rparr> else s')"

section \<open>Executions\<close>

fun wake_rw :: "rw_thread \<Rightarrow> rw_thread" where
  "wake_rw (Wsleep timed) = Wtest timed False"
| "wake_rw (Rsleep timed) = Rtest timed False"
| "wake_rw x = x"

fun expire_rw :: "rw_thread \<Rightarrow> rw_thread option" where
  "expire_rw (Wsleep True) = Some (Wtest True True)"
| "expire_rw (Rsleep True) = Some (Rtest True True)"
| "expire_rw x = None"

fun writer_asleep :: "rw_thread \<Rightarrow> bool" where
  "writer_asleep (Wsleep timed) = True"
| "writer_asleep x = False"

fun reader_asleep :: "rw_thread \<Rightarrow> bool" where
  "reader_asleep (Rsleep timed) = True"
| "reader_asleep x = False"

fun writer_testing :: "rw_thread \<Rightarrow> bool" where
  "writer_testing (Wtest timed expired) = True"
| "writer_testing x = False"

fun reader_testing :: "rw_thread \<Rightarrow> bool" where
  "reader_testing (Rtest timed expired) = True"
| "reader_testing x = False"

definition wake_reader :: "rw_thread \<Rightarrow> rw_thread" where
  "wake_reader x = (if reader_asleep x then wake_rw x else x)"

datatype rw_label =
    Lock nat
  | Try_lock nat
  | Try_lock_for nat
  | Unlock nat
  | Lock_shared nat
  | Try_lock_shared nat
  | Try_lock_shared_for nat
  | Unlock_shared nat
  | Test nat
  | Expire nat
  | Spurious nat
  | Notify_writer "nat option"
  | Notify_readers

text \<open>Calls are made by idle threads; a mode is released by a thread that holds it, which is their precondition.\<close>

definition in_state :: "rwlock \<Rightarrow> nat \<Rightarrow> rw_thread \<Rightarrow> bool" where
  "in_state s i x \<longleftrightarrow> i < length (rw_threads s) \<and> rw_threads s ! i = x"

fun rw_step :: "rw_label \<Rightarrow> rwlock \<Rightarrow> rwlock option" where
  "rw_step (Lock i) s = (if in_state s i Idle then Some (fst (rw_lock i s)) else None)"
| "rw_step (Try_lock i) s = (if in_state s i Idle then Some (fst (try_lock i s)) else None)"
| "rw_step (Try_lock_for i) s = (if in_state s i Idle then Some (fst (try_lock_for i s)) else None)"
| "rw_step (Unlock i) s = (if in_state s i Writing then Some (unlock i s) else None)"
| "rw_step (Lock_shared i) s = (if in_state s i Idle then Some (fst (lock_shared i s)) else None)"
| "rw_step (Try_lock_shared i) s = (if in_state s i Idle then Some (fst (try_lock_shared i s)) else None)"
| "rw_step (Try_lock_shared_for i) s = (if in_state s i Idle then Some (fst (try_lock_shared_for i s)) else None)"
| "rw_step (Unlock_shared i) s = (if in_state s i Reading then Some (unlock_shared i s) else None)"
| "rw_step (Test i) s =
     (if i < length (rw_threads s) then
        (case rw_threads s ! i of
           Wtest timed expired \<Rightarrow> Some (fst (writer_test i timed expired s))
         | Rtest timed expired \<Rightarrow> Some (fst (reader_test i timed expired s))
         | _ \<Rightarrow> None)
      else None)"
| "rw_step (Expire i) s =
     (if i < length (rw_threads s) then map_option (\<lambda>x. put i x s) (expire_rw (rw_threads s ! i)) else None)"
| "rw_step (Spurious i) s =
     (if i < length (rw_threads s) \<and> (writer_asleep (rw_threads s ! i) \<or> reader_asleep (rw_threads s ! i))
      then Some (put i (wake_rw (rw_threads s ! i)) s) else None)"
| "rw_step (Notify_writer w) s =
     (if rw_turn s = 0 then None
      else (case w of
          None \<Rightarrow> if \<exists>x \<in> set (rw_threads s). writer_asleep x then None else Some (s\<lparr>rw_turn := rw_turn s - 1\<rparr>)
        | Some i \<Rightarrow>
            if i < length (rw_threads s) \<and> writer_asleep (rw_threads s ! i)
            then Some (put i (wake_rw (rw_threads s ! i)) (s\<lparr>rw_turn := rw_turn s - 1\<rparr>)) else None))"
| "rw_step Notify_readers s =
     (if rw_allow s = 0 then None
      else Some (s\<lparr>rw_allow := rw_allow s - 1, rw_threads := map wake_reader (rw_threads s)\<rparr>))"

section \<open>Invariant\<close>

definition waiting_writer :: "rw_thread \<Rightarrow> bool" where
  "waiting_writer x \<longleftrightarrow> writer_asleep x \<or> writer_testing x"

text \<open>
  The counters count the threads in each mode, and a writer excludes readers. A free lock with a sleeping writer has a
  writer about to test or a notification due; sleeping readers whom nothing holds back have theirs due.
\<close>

definition rw_inv :: "rwlock \<Rightarrow> bool" where
  "rw_inv s \<longleftrightarrow>
     rw_waiting s = count_where waiting_writer (rw_threads s) \<and> rw_readers s = count_where (\<lambda>x. x = Reading) (rw_threads s) \<and>
     (if rw_active s then 1 else 0) = count_where (\<lambda>x. x = Writing) (rw_threads s) \<and> (rw_active s \<longrightarrow> rw_readers s = 0) \<and>
     (writer_may s \<and> 0 < count_where writer_asleep (rw_threads s) \<longrightarrow> 0 < count_where writer_testing (rw_threads s) \<or> 0 < rw_turn s) \<and>
     (reader_may s \<and> 0 < count_where reader_asleep (rw_threads s) \<longrightarrow> 0 < rw_allow s)"

lemma waiting_split: "count_where waiting_writer xs = count_where writer_asleep xs + count_where writer_testing xs"
proof (induction xs)
  case (Cons x xs)
  then show ?case by (cases x) (simp_all add: waiting_writer_def)
qed simp

lemma waiting_writer_simps [simp]:
  "waiting_writer (Wsleep t)" "waiting_writer (Wtest t e)" "\<not> waiting_writer Idle" "\<not> waiting_writer Writing" "\<not> waiting_writer Reading"
  "\<not> waiting_writer (Rsleep t)" "\<not> waiting_writer (Rtest t e)"
  by (simp_all add: waiting_writer_def)

lemma put_simps:
  "writer_may (put i y s) = writer_may s" "reader_may (put i y s) = reader_may s" "rw_threads (put i y s) = (rw_threads s)[i := y]"
  "rw_waiting (put i y s) = rw_waiting s" "rw_readers (put i y s) = rw_readers s" "rw_active (put i y s) = rw_active s"
  "rw_turn (put i y s) = rw_turn s" "rw_allow (put i y s) = rw_allow s"
  by (simp_all add: put_def writer_may_def reader_may_def)

lemmas rw_defs = rw_inv_def writer_may_def reader_may_def put_def waiting_split

lemma rw_counts:
  assumes "i < length (rw_threads s)"
  shows "waiting_writer (rw_threads s ! i) \<Longrightarrow> 0 < count_where writer_asleep (rw_threads s) + count_where writer_testing (rw_threads s)"
    and "rw_threads s ! i = Reading \<Longrightarrow> 0 < count_where (\<lambda>x. x = Reading) (rw_threads s)"
    and "rw_threads s ! i = Writing \<Longrightarrow> 0 < count_where (\<lambda>x. x = Writing) (rw_threads s)"
    and "writer_testing (rw_threads s ! i) \<Longrightarrow> 0 < count_where writer_testing (rw_threads s)"
    and "writer_asleep (rw_threads s ! i) \<Longrightarrow> 0 < count_where writer_asleep (rw_threads s)"
    and "reader_asleep (rw_threads s ! i) \<Longrightarrow> 0 < count_where reader_asleep (rw_threads s)"
  using count_where_pos [OF assms] waiting_split [of "rw_threads s"] by metis+

lemma rw_inv_writer_test:
  assumes "rw_inv s" and "i < length (rw_threads s)" and "rw_threads s ! i = Wtest t e"
  shows "rw_inv (fst (writer_test i timed expired s))"
proof -
  have pos: "0 < count_where writer_testing (rw_threads s)" using rw_counts(4) [OF assms(2)] assms(3) by simp
  consider "writer_may s" | "\<not> writer_may s" "timed \<and> expired" | "\<not> writer_may s" "\<not> (timed \<and> expired)" by blast
  then show ?thesis
  proof cases
    case 1
    then show ?thesis using assms pos by (simp add: writer_test_def rw_defs count_where_put)
  next
    case 2
    then show ?thesis using assms pos by (auto simp: writer_test_def Let_def rw_defs count_where_put)
  next
    case 3
    then show ?thesis using assms pos by (auto simp: writer_test_def rw_defs count_where_put)
  qed
qed

lemma rw_inv_reader_test:
  assumes "rw_inv s" and "i < length (rw_threads s)" and "rw_threads s ! i = Idle \<or> rw_threads s ! i = Rtest t e"
  shows "rw_inv (fst (reader_test i timed expired s))"
proof -
  have x: "\<not> waiting_writer (rw_threads s ! i)" "\<not> writer_asleep (rw_threads s ! i)" "\<not> writer_testing (rw_threads s ! i)" "rw_threads s ! i \<noteq> Writing"
      "rw_threads s ! i \<noteq> Reading" "\<not> reader_asleep (rw_threads s ! i)"
    using assms(3) by auto
  consider "reader_may s" | "\<not> reader_may s" "timed \<and> expired" | "\<not> reader_may s" "\<not> (timed \<and> expired)" by blast
  then show ?thesis
  proof cases
    case 1
    then show ?thesis using assms(1,2) x by (auto simp: reader_test_def rw_defs count_where_put)
  next
    case 2
    then show ?thesis using assms(1,2) x by (auto simp: reader_test_def rw_defs count_where_put)
  next
    case 3
    then show ?thesis using assms(1,2) x by (auto simp: reader_test_def rw_inv_def put_simps count_where_put)
  qed
qed

text \<open>A call of a writer first counts itself among those who wait.\<close>

lemma writer_enters: "writer_test i t e (put i x s) = writer_test i t e s"
  by (simp add: writer_test_def put_def writer_may_def Let_def)

lemma rw_inv_enter:
  assumes "rw_inv s" and "in_state s i Idle"
  shows "rw_inv (fst (writer_test i timed False (s\<lparr>rw_waiting := rw_waiting s + 1\<rparr>)))"
proof -
  let ?s = "put i (Wtest timed False) (s\<lparr>rw_waiting := rw_waiting s + 1\<rparr>)"
  have i: "i < length (rw_threads s)" "rw_threads s ! i = Idle" using assms(2) by (simp_all add: in_state_def)
  have "rw_inv ?s" using assms(1) i by (auto simp: rw_defs count_where_put)
  then have "rw_inv (fst (writer_test i timed False ?s))"
    by (rule rw_inv_writer_test [where t = timed and e = False]) (use i in \<open>simp_all add: put_def\<close>)
  then show ?thesis by (simp only: writer_enters)
qed

lemma rw_inv_try_lock:
  assumes "rw_inv s" and "in_state s i Idle"
  shows "rw_inv (fst (try_lock i s))" and "rw_inv (fst (try_lock_shared i s))"
proof -
  have i: "i < length (rw_threads s)" "rw_threads s ! i = Idle" using assms(2) by (simp_all add: in_state_def)
  show "rw_inv (fst (try_lock i s))" using assms(1) i by (auto simp: try_lock_def rw_defs count_where_put)
  show "rw_inv (fst (try_lock_shared i s))" using assms(1) i by (auto simp: try_lock_shared_def rw_defs count_where_put)
qed

lemma rw_inv_unlock:
  assumes "rw_inv s" and "in_state s i Writing"
  shows "rw_inv (unlock i s)"
proof -
  have i: "i < length (rw_threads s)" "rw_threads s ! i = Writing" using assms(2) by (simp_all add: in_state_def)
  have "rw_active s" using assms(1) rw_counts(3) [OF i] by (auto simp: rw_inv_def split: if_splits)
  then have a: "rw_active s" "count_where (\<lambda>x. x = Writing) (rw_threads s) = 1" using assms(1) by (simp_all add: rw_inv_def)
  then show ?thesis using assms(1) i by (auto simp: unlock_def Let_def rw_defs count_where_put)
qed

lemma rw_inv_unlock_shared:
  assumes "rw_inv s" and "in_state s i Reading"
  shows "rw_inv (unlock_shared i s)"
proof -
  have i: "i < length (rw_threads s)" "rw_threads s ! i = Reading" using assms(2) by (simp_all add: in_state_def)
  have "0 < rw_readers s" "\<not> rw_active s" using assms(1) rw_counts(2) [OF i] by (auto simp: rw_inv_def)
  then show ?thesis using assms(1) i by (auto simp: unlock_shared_def Let_def rw_defs count_where_put)
qed

lemma rw_inv_woken:
  assumes "rw_inv s" and "i < length (rw_threads s)" and "rw_turn s \<le> Suc turn"
    and "writer_asleep (rw_threads s ! i) \<and> writer_testing y \<or> turn = rw_turn s \<and> reader_asleep (rw_threads s ! i) \<and> reader_testing y"
  shows "rw_inv (put i y (s\<lparr>rw_turn := turn\<rparr>))"
proof (cases "writer_asleep (rw_threads s ! i)")
  case True
  then obtain t t' e where "rw_threads s ! i = Wsleep t" "y = Wtest t' e"
    using assms(4) by (cases "rw_threads s ! i"; cases y) auto
  then show ?thesis using assms(1-3) rw_counts(5) [OF assms(2)] by (auto simp: rw_defs count_where_put)
next
  case False
  then obtain t t' e where "rw_threads s ! i = Rsleep t" "y = Rtest t' e" "turn = rw_turn s"
    using assms(4) by (cases "rw_threads s ! i"; cases y) auto
  then show ?thesis using assms(1-3) rw_counts(6) [OF assms(2)] by (auto simp: rw_defs count_where_put)
qed

lemma wake_reader_counts:
  "count_where waiting_writer (map wake_reader xs) = count_where waiting_writer xs"
  "count_where (\<lambda>x. x = Reading) (map wake_reader xs) = count_where (\<lambda>x. x = Reading) xs"
  "count_where (\<lambda>x. x = Writing) (map wake_reader xs) = count_where (\<lambda>x. x = Writing) xs"
  "count_where writer_asleep (map wake_reader xs) = count_where writer_asleep xs"
  "count_where writer_testing (map wake_reader xs) = count_where writer_testing xs"
  "count_where reader_asleep (map wake_reader xs) = 0"
proof -
  have *: "waiting_writer (wake_reader x) = waiting_writer x" "(wake_reader x = Reading) = (x = Reading)"
      "(wake_reader x = Writing) = (x = Writing)" "writer_asleep (wake_reader x) = writer_asleep x"
      "writer_testing (wake_reader x) = writer_testing x" "\<not> reader_asleep (wake_reader x)" for x
    by (cases x; simp add: wake_reader_def)+
  show "count_where waiting_writer (map wake_reader xs) = count_where waiting_writer xs"
    "count_where (\<lambda>x. x = Reading) (map wake_reader xs) = count_where (\<lambda>x. x = Reading) xs"
    "count_where (\<lambda>x. x = Writing) (map wake_reader xs) = count_where (\<lambda>x. x = Writing) xs"
    "count_where writer_asleep (map wake_reader xs) = count_where writer_asleep xs"
    "count_where writer_testing (map wake_reader xs) = count_where writer_testing xs"
    "count_where reader_asleep (map wake_reader xs) = 0"
    by (simp_all add: * count_where_map_eq count_where_0)
qed

lemma rw_inv_notify:
  "rw_inv s \<Longrightarrow> \<not> (\<exists>x \<in> set (rw_threads s). writer_asleep x) \<Longrightarrow> rw_inv (s\<lparr>rw_turn := turn\<rparr>)"
  "rw_inv s \<Longrightarrow> rw_inv (s\<lparr>rw_allow := allow, rw_threads := map wake_reader (rw_threads s)\<rparr>)"
  using count_where_0 [of writer_asleep "rw_threads s"]
  by (auto simp: rw_inv_def writer_may_def reader_may_def wake_reader_counts simp del: map_map)

lemma expire_rw_Some: "expire_rw x = Some y \<Longrightarrow> (x = Wsleep True \<and> y = Wtest True True) \<or> (x = Rsleep True \<and> y = Rtest True True)"
  by (induction x rule: expire_rw.induct) auto

lemma rw_inv_wake:
  assumes "rw_inv s" and "i < length (rw_threads s)" and "rw_turn s \<le> Suc turn"
    and "writer_asleep (rw_threads s ! i) \<or> reader_asleep (rw_threads s ! i) \<and> turn = rw_turn s"
  shows "rw_inv (put i (wake_rw (rw_threads s ! i)) (s\<lparr>rw_turn := turn\<rparr>))"
  by (rule rw_inv_woken [OF assms(1-3)]) (use assms(4) in \<open>cases "rw_threads s ! i"; auto\<close>)

lemma rw_inv_step:
  assumes inv: "rw_inv s" and step: "rw_step l s = Some s'"
  shows "rw_inv s'"
proof (cases l)
  case (Unlock i)
  then show ?thesis using step rw_inv_unlock [OF inv] by (auto split: if_splits)
next
  case (Unlock_shared i)
  then show ?thesis using step rw_inv_unlock_shared [OF inv] by (auto split: if_splits)
next
  case (Test i)
  then show ?thesis using step rw_inv_writer_test [OF inv] rw_inv_reader_test [OF inv] by (auto split: if_splits rw_thread.splits)
next
  case (Expire i)
  then obtain y where y: "i < length (rw_threads s)" "expire_rw (rw_threads s ! i) = Some y" "s' = put i y s"
    using step by (auto split: if_splits)
  then show ?thesis using expire_rw_Some [OF y(2)] rw_inv_woken [OF inv y(1), of "rw_turn s" y] by auto
next
  case (Spurious i)
  then show ?thesis using step rw_inv_wake [OF inv, of i "rw_turn s"] by (auto split: if_splits)
next
  case (Notify_writer w)
  show ?thesis
  proof (cases w)
    case None
    then show ?thesis using step Notify_writer rw_inv_notify(1) [OF inv, of "rw_turn s - 1"] by (auto split: if_splits)
  next
    case (Some i)
    then show ?thesis using step Notify_writer rw_inv_wake [OF inv, of i "rw_turn s - 1"] by (auto split: if_splits)
  qed
next
  case Notify_readers
  then show ?thesis using step rw_inv_notify(2) [OF inv, of "rw_allow s - 1"] by (auto split: if_splits)
qed (use step rw_inv_enter [OF inv] rw_inv_try_lock [OF inv] rw_inv_reader_test [OF inv] in
    \<open>auto simp: rw_lock_def try_lock_for_def writer_wait_def lock_shared_def try_lock_shared_for_def in_state_def split: if_splits\<close>)

interpretation rw: step_invariant rw_step rw_inv
  by unfold_locales (rule rw_inv_step)

lemma rw_inv_new: "rw_inv (rw_new n)"
  by (simp add: rw_inv_def rw_new_def)

section \<open>Properties\<close>

abbreviation rw_run :: "rw_label list \<Rightarrow> rwlock \<Rightarrow> rwlock option" where
  "rw_run \<equiv> run_steps rw_step"



text \<open>
  Writer preference: while a writer waits for the lock, whether it sleeps or is about to look again, no step of any
  thread admits another reader.
\<close>

theorem rwlock_writer_preference:
  assumes "rw_run ls (rw_new n) = Some s" and "x \<in> set (rw_threads s)" and "waiting_writer x"
    and "rw_step l s = Some s'" and "in_state s' j Reading"
  shows "in_state s j Reading"
proof -
  have "rw_inv s" using rw.run_inv [OF rw_inv_new assms(1)] .
  then have w: "rw_waiting s \<noteq> 0" using assms(2,3) by (auto simp: rw_inv_def count_where_0)
  have wk: "wake_rw y = Reading \<longleftrightarrow> y = Reading" "wake_reader y = Reading \<longleftrightarrow> y = Reading" for y
    by (cases y; simp add: wake_reader_def)+
  have ex: "expire_rw y \<noteq> Some Reading" for y using expire_rw_Some by fastforce
  show ?thesis
    using assms(4,5) w
    by (cases l)
      (auto simp: in_state_def rw_lock_def try_lock_def try_lock_for_def writer_wait_def unlock_def lock_shared_def try_lock_shared_def
        try_lock_shared_for_def unlock_shared_def writer_test_def reader_test_def reader_may_def put_def nth_list_update Let_def wk ex
        split: if_splits rw_thread.splits option.splits)
qed

theorem rwlock_writer_preference_witness:
  "\<exists>s s'. rw_run [Lock_shared 0, Lock 1] (rw_new 3) = Some s \<and> rw_step (Lock_shared 2) s = Some s' \<and> \<not> in_state s' 2 Reading"
proof -
  have "map_option rw_threads (rw_run [Lock_shared 0, Lock 1] (rw_new 3)) = Some [Reading, Wsleep False, Idle]" by code_simp
  then obtain s where s: "rw_run [Lock_shared 0, Lock 1] (rw_new 3) = Some s" "rw_threads s = [Reading, Wsleep False, Idle]" by auto
  have step: "rw_step (Lock_shared 2) s = Some (fst (lock_shared 2 s))" using s(2) by (simp add: in_state_def)
  have "\<not> in_state (fst (lock_shared 2 s)) 2 Reading"
    using rwlock_writer_preference [OF s(1) _ _ step, of "Wsleep False" 2] s(2) by (auto simp: in_state_def)
  then show ?thesis using s(1) step by blast
qed

text \<open>
  Property C28. No wake-up is lost and no thread is left behind, timed writers that give up included: in every reachable state in which
  nobody holds the lock, no notification is due and no woken thread has still to look, nobody sleeps.
\<close>

theorem rwlock_no_lost_wakeup:
  assumes "rw_run ls (rw_new n) = Some s" and "\<And>x. x \<in> set (rw_threads s) \<Longrightarrow> x \<noteq> Writing \<and> x \<noteq> Reading"
    and "rw_turn s = 0" and "rw_allow s = 0" and "\<And>x. x \<in> set (rw_threads s) \<Longrightarrow> \<not> writer_testing x"
    and "x \<in> set (rw_threads s)"
  shows "\<not> writer_asleep x \<and> \<not> reader_asleep x"
proof -
  have inv: "rw_inv s" using rw.run_inv [OF rw_inv_new assms(1)] .
  have zero: "count_where (\<lambda>x. x = Writing) (rw_threads s) = 0" "count_where (\<lambda>x. x = Reading) (rw_threads s) = 0"
      "count_where writer_testing (rw_threads s) = 0"
    using assms(2,5) by (simp_all add: count_where_0)
  then have free: "\<not> rw_active s" "rw_readers s = 0" using inv by (auto simp: rw_inv_def split: if_splits)
  then have "count_where writer_asleep (rw_threads s) = 0" using inv zero(3) assms(3) by (auto simp: rw_inv_def writer_may_def)
  moreover from this have "rw_waiting s = 0" using inv zero(3) by (simp add: rw_inv_def waiting_split)
  then have "count_where reader_asleep (rw_threads s) = 0" using inv free assms(4) by (auto simp: rw_inv_def reader_may_def)
  ultimately show ?thesis using assms(6) by (simp add: count_where_0)
qed

theorem rwlock_no_lost_wakeup_witness:
  "\<exists>s. rw_run [Lock 0, Lock_shared 1, Try_lock_for 2, Expire 2, Test 2, Unlock 0, Notify_readers, Test 1, Unlock_shared 1] (rw_new 3) = Some s \<and>
     (\<forall>x \<in> set (rw_threads s). \<not> writer_asleep x \<and> \<not> reader_asleep x)"
proof -
  let ?ls = "[Lock 0, Lock_shared 1, Try_lock_for 2, Expire 2, Test 2, Unlock 0, Notify_readers, Test 1, Unlock_shared 1]"
  have "map_option (\<lambda>s. (rw_threads s, rw_turn s, rw_allow s)) (rw_run ?ls (rw_new 3)) = Some ([Idle, Idle, Idle], 0, 0)" by code_simp
  then obtain s where s: "rw_run ?ls (rw_new 3) = Some s" "rw_threads s = [Idle, Idle, Idle]" "rw_turn s = 0" "rw_allow s = 0" by auto
  have "\<not> writer_asleep x \<and> \<not> reader_asleep x" if "x \<in> set (rw_threads s)" for x
    by (rule rwlock_no_lost_wakeup [OF s(1) _ s(3,4) _ that]) (use s(2) in auto)
  then show ?thesis using s(1) by blast
qed

end
