(* ===== verification/Log_Record.thy ===== *)
theory Log_Record
  imports String_Builder
begin

text \<open>
  The records of the logger (logger.hpp, logger.cpp): severity levels, the rendering of a record as a line, and the sinks
  that receive it. The calendar (\<open>gmtime_r\<close>) and the C streams and sockets are parameters.
\<close>

section \<open>Levels and records\<close>

datatype log_level = Trace | Debug | Info | Warning | Error | Critical | Off

primrec level_rank :: "log_level \<Rightarrow> nat" where
  "level_rank Trace = 0"
| "level_rank Debug = 1"
| "level_rank Info = 2"
| "level_rank Warning = 3"
| "level_rank Error = 4"
| "level_rank Critical = 5"
| "level_rank Off = 6"

text \<open>The order of the enumerators.\<close>

instantiation log_level :: linorder
begin

definition less_eq_log_level :: "log_level \<Rightarrow> log_level \<Rightarrow> bool" where
  "less_eq_log_level a b \<longleftrightarrow> level_rank a \<le> level_rank b"

definition less_log_level :: "log_level \<Rightarrow> log_level \<Rightarrow> bool" where
  "less_log_level a b \<longleftrightarrow> level_rank a < level_rank b"

instance
proof
  fix a b :: log_level
  show "a \<le> b \<Longrightarrow> b \<le> a \<Longrightarrow> a = b"
    by (cases a; cases b) (simp_all add: less_eq_log_level_def)
qed (auto simp: less_eq_log_level_def less_log_level_def)

end

primrec level_name :: "log_level \<Rightarrow> string" where
  "level_name Trace = ''trace''"
| "level_name Debug = ''debug''"
| "level_name Info = ''info''"
| "level_name Warning = ''warning''"
| "level_name Error = ''error''"
| "level_name Critical = ''critical''"
| "level_name Off = ''off''"

text \<open>Time is in nanoseconds since the epoch.\<close>

record log_record =
  lr_time :: int
  lr_level :: log_level
  lr_thread_id :: u64
  lr_message :: string

section \<open>Rendering\<close>

record tm =
  tm_year :: int
  tm_mon :: int
  tm_mday :: int
  tm_hour :: int
  tm_min :: int
  tm_sec :: int

definition append_padded :: "string_builder \<Rightarrow> int \<Rightarrow> nat \<Rightarrow> string_builder" where
  "append_padded out v width =
     (case to_chars 16 v of None \<Rightarrow> out
      | Some digits \<Rightarrow> append_text (foldl append_char out (replicate (width - length digits) CHR ''0'')) digits)"

definition append_timestamp :: "string_builder \<Rightarrow> tm \<Rightarrow> int \<Rightarrow> string_builder" where
  "append_timestamp out utc millisecond =
     (let out = append_char (append_padded out (tm_year utc + 1900) 4) CHR ''-'';
          out = append_char (append_padded out (tm_mon utc + 1) 2) CHR ''-'';
          out = append_char (append_padded out (tm_mday utc) 2) CHR '' '';
          out = append_char (append_padded out (tm_hour utc) 2) CHR '':'';
          out = append_char (append_padded out (tm_min utc) 2) CHR '':'';
          out = append_char (append_padded out (tm_sec utc) 2) CHR ''.''
      in append_padded out millisecond 3)"

definition render_line :: "(int \<Rightarrow> tm option) \<Rightarrow> log_record \<Rightarrow> string" where
  "render_line gmtime r =
     (let second_point = lr_time r div 1000000000;
          millisecond = (lr_time r - second_point * 1000000000) div 1000000;
          out = append_char sb_empty_builder CHR ''['';
          out = (case gmtime second_point of
                   Some utc \<Rightarrow> append_timestamp out utc millisecond
                 | None \<Rightarrow> append_char (append_int out second_point) CHR ''s'');
          out = append_text (append_text (append_text out ''] ['') (level_name (lr_level r))) ''] ['';
          out = append_text (append_int out (uint (lr_thread_id r))) ''] ''
      in snd (sb_take (append_text out (lr_message r))))"

section \<open>Sinks\<close>

text \<open>
  A sink has a state; \<open>write\<close> gets the record and its line, and both operations may throw (\<open>True\<close>).
\<close>

record 'k sink_ops =
  so_write :: "'k \<Rightarrow> log_record \<Rightarrow> string \<Rightarrow> 'k \<times> bool"
  so_flush :: "'k \<Rightarrow> 'k \<times> bool"

text \<open>\<open>ConsoleSink\<close>, given \<open>fwrite\<close> (the number of characters written), \<open>fputc\<close> (failed or not) and \<open>fflush\<close>.\<close>

definition console_write ::
  "('f \<Rightarrow> string \<Rightarrow> 'f \<times> nat) \<Rightarrow> ('f \<Rightarrow> char \<Rightarrow> 'f \<times> bool) \<Rightarrow> 'f \<Rightarrow> log_record \<Rightarrow> string \<Rightarrow> 'f \<times> bool" where
  "console_write fwrite fputc target r line =
     (case fwrite target line of (target', n) \<Rightarrow> if n \<noteq> length line then (target', True) else fputc target' CHR 0x0A)"

definition console_flush :: "('f \<Rightarrow> 'f \<times> bool) \<Rightarrow> 'f \<Rightarrow> 'f \<times> bool" where
  "console_flush fflush target = fflush target"

text \<open>\<open>FileSink\<close>: an output stream does nothing any more once its state is bad.\<close>

record 'f file_sink =
  fs_file :: 'f
  fs_bad :: bool

definition stream_op :: "('f \<Rightarrow> 'f \<times> bool) \<Rightarrow> 'f file_sink \<Rightarrow> 'f file_sink" where
  "stream_op f st = (if fs_bad st then st else (case f (fs_file st) of (file, fails) \<Rightarrow> \<lparr>fs_file = file, fs_bad = fails\<rparr>))"

definition file_write ::
  "('f \<Rightarrow> string \<Rightarrow> 'f \<times> bool) \<Rightarrow> 'f file_sink \<Rightarrow> log_record \<Rightarrow> string \<Rightarrow> 'f file_sink \<times> bool" where
  "file_write put st r line =
     (let st' = stream_op (\<lambda>f. put f [CHR 0x0A]) (stream_op (\<lambda>f. put f line) st) in (st', fs_bad st'))"

definition file_flush :: "('f \<Rightarrow> 'f \<times> bool) \<Rightarrow> 'f file_sink \<Rightarrow> 'f file_sink \<times> bool" where
  "file_flush sync st = (let st' = stream_op sync st in (st', fs_bad st'))"

text \<open>\<open>UdpSink\<close>: one datagram without a newline, and nothing to flush.\<close>

definition udp_write :: "('f \<Rightarrow> string \<Rightarrow> 'f \<times> bool) \<Rightarrow> 'f \<Rightarrow> log_record \<Rightarrow> string \<Rightarrow> 'f \<times> bool" where
  "udp_write send_datagram socket r line = (case send_datagram socket line of (socket', sent) \<Rightarrow> (socket', \<not> sent))"

definition udp_flush :: "'f \<Rightarrow> 'f \<times> bool" where
  "udp_flush socket = (socket, False)"

section \<open>What a line shows\<close>

definition padded_digits :: "nat \<Rightarrow> nat \<Rightarrow> string" where
  "padded_digits width n = replicate (width - length (nat_digits n)) CHR ''0'' @ nat_digits n"

lemma digits_value_zeros: "digits_value (replicate k CHR ''0'' @ s) = digits_value s"
proof -
  have "foldl (\<lambda>v c. 10 * v + digit_value c) 0 (replicate k CHR ''0'') = 0"
    by (induction k) (simp_all add: digit_value_def)
  then show ?thesis by (simp add: digits_value_def)
qed

lemma padded_digits:
  assumes "n < 10 ^ width" and "0 < width"
  shows "length (padded_digits width n) = width" and "digits_value (padded_digits width n) = n"
  using length_nat_digits [OF assms] by (simp_all add: padded_digits_def digits_value_zeros)

text \<open>The buffer after each append.\<close>

lemma buffer_char: "sb_buffer (append_char out c) = sb_buffer out @ [c]"
  by (simp add: append_char_def)

lemma buffer_text: "sb_buffer (append_text out t) = sb_buffer out @ t"
  by (simp add: append_text_def)

lemma buffer_chars: "sb_buffer (foldl append_char out cs) = sb_buffer out @ cs"
  by (induction cs arbitrary: out) (simp_all add: buffer_char)

lemma buffer_padded:
  assumes "0 \<le> v" and "v < 10 ^ width" and "0 < width" and "width \<le> 16"
  shows "sb_buffer (append_padded out v width) = sb_buffer out @ padded_digits width (nat v)"
proof -
  have d: "int_digits v = nat_digits (nat v)" using assms(1) by (simp add: int_digits_def)
  have "nat v < 10 ^ width" using assms(1,2) by (simp add: nat_less_iff)
  then have "length (nat_digits (nat v)) \<le> 16" using length_nat_digits assms(3,4) order_trans by blast
  then show ?thesis by (simp add: append_padded_def to_chars_def d buffer_text buffer_chars padded_digits_def)
qed

lemma buffer_thread: "sb_buffer (append_int out (uint (t :: u64))) = sb_buffer out @ int_digits (uint t)"
proof -
  have "length (int_digits (uint t)) \<le> 20" using uint_lt2p [of t] order_trans [OF _ uint_ge_0 [of t]]
    by (intro length_int_digits) simp_all
  then show ?thesis by (simp add: append_int_def to_chars_def)
qed

lemmas buffers = buffer_char buffer_text buffer_padded buffer_thread

definition tm_valid :: "tm \<Rightarrow> bool" where
  "tm_valid t \<longleftrightarrow> 0 \<le> tm_year t + 1900 \<and> tm_year t + 1900 \<le> 9999 \<and> 0 \<le> tm_mon t \<and> tm_mon t \<le> 11 \<and> 1 \<le> tm_mday t \<and> tm_mday t \<le> 31 \<and>
     0 \<le> tm_hour t \<and> tm_hour t \<le> 23 \<and> 0 \<le> tm_min t \<and> tm_min t \<le> 59 \<and> 0 \<le> tm_sec t \<and> tm_sec t \<le> 60"

definition timestamp :: "tm \<Rightarrow> int \<Rightarrow> string" where
  "timestamp t ms =
     padded_digits 4 (nat (tm_year t + 1900)) @ ''-'' @ padded_digits 2 (nat (tm_mon t + 1)) @ ''-'' @ padded_digits 2 (nat (tm_mday t)) @ '' '' @
     padded_digits 2 (nat (tm_hour t)) @ '':'' @ padded_digits 2 (nat (tm_min t)) @ '':'' @ padded_digits 2 (nat (tm_sec t)) @ ''.'' @
     padded_digits 3 (nat ms)"

lemma buffer_timestamp:
  assumes "tm_valid t" and "0 \<le> ms" and "ms < 1000"
  shows "sb_buffer (append_timestamp out t ms) = sb_buffer out @ timestamp t ms"
  using assms by (simp add: append_timestamp_def Let_def buffers tm_valid_def timestamp_def)

text \<open>Seven fields of fixed width between separators, taken out by column.\<close>

lemma columns:
  assumes "length a = 4" "length b = 2" "length c = 2" "length d = 2" "length e = 2" "length f = 2" "length g = 3"
    and ts: "ts = a @ [x1] @ b @ [x2] @ c @ [x3] @ d @ [x4] @ e @ [x5] @ f @ [x6] @ g"
  shows "length ts = 23" and "take 4 ts = a" and "take 2 (drop 5 ts) = b" and "take 2 (drop 8 ts) = c" and "take 2 (drop 11 ts) = d"
    and "take 2 (drop 14 ts) = e" and "take 2 (drop 17 ts) = f" and "drop 20 ts = g"
  unfolding ts using assms(1-7) by simp_all

lemma timestamp_fields:
  assumes "tm_valid t" and "0 \<le> ms" and "ms < 1000"
  shows "length (timestamp t ms) = 23" and "digits_value (take 4 (timestamp t ms)) = nat (tm_year t + 1900)"
    and "digits_value (take 2 (drop 5 (timestamp t ms))) = nat (tm_mon t + 1)" and "digits_value (take 2 (drop 8 (timestamp t ms))) = nat (tm_mday t)"
    and "digits_value (take 2 (drop 11 (timestamp t ms))) = nat (tm_hour t)" and "digits_value (take 2 (drop 14 (timestamp t ms))) = nat (tm_min t)"
    and "digits_value (take 2 (drop 17 (timestamp t ms))) = nat (tm_sec t)" and "digits_value (drop 20 (timestamp t ms)) = nat ms"
proof -
  have year: "nat (tm_year t + 1900) < 10 ^ 4" and m: "nat (tm_mon t + 1) < 10 ^ 2" and d: "nat (tm_mday t) < 10 ^ 2"
    and h: "nat (tm_hour t) < 10 ^ 2" and mi: "nat (tm_min t) < 10 ^ 2" and sec: "nat (tm_sec t) < 10 ^ 2" and mil: "nat ms < 10 ^ 3"
    using assms by (auto simp: tm_valid_def nat_less_iff)
  note p = padded_digits [OF year] padded_digits [OF m] padded_digits [OF d] padded_digits [OF h] padded_digits [OF mi] padded_digits [OF sec]
    padded_digits [OF mil]
  note cols = columns [OF p(1,3,5,7,9,11,13), OF zero_less_numeral zero_less_numeral zero_less_numeral zero_less_numeral zero_less_numeral
    zero_less_numeral zero_less_numeral timestamp_def]
  show "length (timestamp t ms) = 23" "digits_value (take 4 (timestamp t ms)) = nat (tm_year t + 1900)"
    "digits_value (take 2 (drop 5 (timestamp t ms))) = nat (tm_mon t + 1)" "digits_value (take 2 (drop 8 (timestamp t ms))) = nat (tm_mday t)"
    "digits_value (take 2 (drop 11 (timestamp t ms))) = nat (tm_hour t)" "digits_value (take 2 (drop 14 (timestamp t ms))) = nat (tm_min t)"
    "digits_value (take 2 (drop 17 (timestamp t ms))) = nat (tm_sec t)" "digits_value (drop 20 (timestamp t ms)) = nat ms"
    unfolding cols by (simp_all add: p)
qed

text \<open>Flooring to the second and taking the rest in milliseconds never disagree, before the epoch either.\<close>

lemma milliseconds: "(t - t div 1000000000 * 1000000000) div 1000000 = t div 1000000 mod (1000 :: int)"
proof -
  have "t - t div 1000000000 * 1000000000 = t mod (1000000 * 1000)" by (simp add: minus_div_mult_eq_mod)
  also have "\<dots> = 1000000 * (t div 1000000 mod 1000) + t mod 1000000" by (rule zmod_zmult2_eq) simp
  finally show ?thesis by simp
qed

lemma render_line_text:
  assumes "gmtime (lr_time r div 1000000000) = Some utc" and "tm_valid utc"
  shows "render_line gmtime r = ''['' @ timestamp utc (lr_time r div 1000000 mod 1000) @ ''] ['' @ level_name (lr_level r) @ ''] ['' @
    int_digits (uint (lr_thread_id r)) @ ''] '' @ lr_message r"
  using assms buffer_timestamp [OF assms(2), of "lr_time r div 1000000 mod 1000"]
  by (simp add: render_line_def Let_def sb_take_def buffers sb_empty_builder_def milliseconds)

text \<open>
  A line can be read back: when the calendar gives a date of the years 0 to 9999, the line of a record is the
  timestamp, the level, the thread and the message in brackets and order, the timestamp has 23 characters,
  and its columns are the date, the time and the milliseconds of the record.
\<close>

theorem log_line_layout:
  assumes "gmtime (lr_time r div 1000000000) = Some utc" and "tm_valid utc"
  shows "\<exists>ts. render_line gmtime r = ''['' @ ts @ ''] ['' @ level_name (lr_level r) @ ''] ['' @ int_digits (uint (lr_thread_id r)) @ ''] '' @ lr_message r \<and>
    length ts = 23 \<and> digits_value (take 4 ts) = nat (tm_year utc + 1900) \<and> digits_value (take 2 (drop 5 ts)) = nat (tm_mon utc + 1) \<and>
    digits_value (take 2 (drop 8 ts)) = nat (tm_mday utc) \<and> digits_value (take 2 (drop 11 ts)) = nat (tm_hour utc) \<and>
    digits_value (take 2 (drop 14 ts)) = nat (tm_min utc) \<and> digits_value (take 2 (drop 17 ts)) = nat (tm_sec utc) \<and>
    digits_value (drop 20 ts) = nat (lr_time r div 1000000 mod 1000)"
proof -
  have ms: "0 \<le> lr_time r div 1000000 mod 1000" "lr_time r div 1000000 mod 1000 < 1000" by simp_all
  show ?thesis using render_line_text [of gmtime r utc, OF assms] timestamp_fields [OF assms(2) ms] by blast
qed

theorem log_line_layout_witness:
  "\<exists>ts. render_line (\<lambda>s. Some \<lparr>tm_year = 69, tm_mon = 11, tm_mday = 31, tm_hour = 23, tm_min = 59, tm_sec = 59\<rparr>)
      \<lparr>lr_time = -1, lr_level = Info, lr_thread_id = 7, lr_message = ''hi''\<rparr> = ''['' @ ts @ ''] [info] [7] hi'' \<and>
    digits_value (drop 20 ts) = 999"
proof -
  have "int_digits 7 = ''7''" by code_simp
  then show ?thesis
    using log_line_layout [of "\<lambda>s. Some \<lparr>tm_year = 69, tm_mon = 11, tm_mday = 31, tm_hour = 23, tm_min = 59, tm_sec = 59\<rparr>"
        "\<lparr>lr_time = -1, lr_level = Info, lr_thread_id = 7, lr_message = ''hi''\<rparr>"
        "\<lparr>tm_year = 69, tm_mon = 11, tm_mday = 31, tm_hour = 23, tm_min = 59, tm_sec = 59\<rparr>"]
    by (auto simp: tm_valid_def)
qed

end
