(* ===== verification/Logger.thy ===== *)
theory Logger
  imports Log_Record Monitor "HOL-Library.Sublist"
begin

text \<open>
  \<open>Logger\<close> (logger.hpp, logger.cpp): the filter, the bounded queue, the pump thread that delivers to the sinks, \<open>flush\<close>
  as a barrier that rides the queue, and \<open>shutdown\<close>. Each critical section is one step, and so are each
  notification, a spurious wake-up and each visit to the sinks. Sinks do not call their logger; the guards against
  that are in \<open>enqueue\<close> and \<open>flush\<close>, whose first argument says that the caller is the pump. Tickets of \<open>flush\<close> are
  natural numbers: fewer than \<open>2 ^ 64\<close> calls are made.
\<close>

section \<open>State\<close>

datatype overflow_policy = Block | Drop

datatype queue_item = Record log_record | Flush_marker nat

text \<open>
  A client thread is outside the logger, waits for space with its record, or waits for its ticket; a waiting thread is
  about to test its predicate or asleep.
\<close>

datatype client = Outside | Space_test log_record | Space_sleep log_record | Flush_test nat | Flush_sleep nat

text \<open>
  The pump: at the test of its wait, asleep, with an item in hand and \<open>space_available_\<close> still to notify, with an item to
  deliver, about to complete a ticket, about to announce it; and the same after the loop.
\<close>

datatype pump =
    Pump_test
  | Pump_sleep
  | Pump_hold queue_item
  | Pump_work queue_item
  | Pump_mark nat
  | Pump_announce
  | Final_flush
  | Final_mark
  | Final_announce
  | Pump_done

datatype log_phase = Open | Flagged | Pump_notified | Joining | Joined

datatype sink_event = Ev_write log_record | Ev_flush

text \<open>
  \<open>lg_notify\<close> counts the calls that have still to notify \<open>records_available_\<close>. The last five members are histories, not in the
  code: records accepted, records taken by \<open>deliver\<close>, the number accepted at each call of \<open>flush\<close>, the number
  delivered at the last flush of the sinks, and the calls of the sinks.
\<close>

record 'k logger =
  lg_sinks :: "'k list"
  lg_capacity :: nat
  lg_policy :: overflow_policy
  lg_min_level :: log_level
  lg_dropped :: u64
  lg_failures :: u64
  lg_queue :: "queue_item list"
  lg_requested :: nat
  lg_completed :: nat
  lg_stopping :: bool
  lg_pump :: pump
  lg_clients :: "client list"
  lg_notify :: nat
  lg_phase :: log_phase
  lg_accepted :: "log_record list"
  lg_delivered :: "log_record list"
  lg_marks :: "nat list"
  lg_flushed :: nat
  lg_events :: "sink_event list"

definition logger_new :: "'k list \<Rightarrow> nat \<Rightarrow> overflow_policy \<Rightarrow> nat \<Rightarrow> 'k logger cpp" where
  "logger_new sinks queue_capacity policy n =
     (if sinks = [] then Inl (Invalid_argument ''Logger: at least one sink is required'')
      else if queue_capacity = 0 then Inl (Invalid_argument ''Logger: queue capacity must be positive'')
      else Inr \<lparr>lg_sinks = sinks, lg_capacity = queue_capacity, lg_policy = policy, lg_min_level = Trace, lg_dropped = 0, lg_failures = 0,
        lg_queue = [], lg_requested = 0, lg_completed = 0, lg_stopping = False, lg_pump = Pump_test, lg_clients = replicate n Outside,
        lg_notify = 0, lg_phase = Open, lg_accepted = [], lg_delivered = [], lg_marks = [], lg_flushed = 0, lg_events = []\<rparr>)"

definition set_client :: "nat \<Rightarrow> client \<Rightarrow> 'k logger \<Rightarrow> 'k logger" where
  "set_client i x s = s\<lparr>lg_clients := (lg_clients s)[i := x]\<rparr>"

definition client_is :: "'k logger \<Rightarrow> nat \<Rightarrow> client \<Rightarrow> bool" where
  "client_is s i x \<longleftrightarrow> i < length (lg_clients s) \<and> lg_clients s ! i = x"

section \<open>Logging\<close>

text \<open>The outcome of a call: it still waits (\<open>None\<close>), or has thrown or returned.\<close>

definition admit :: "log_record \<Rightarrow> 'k logger \<Rightarrow> 'k logger" where
  "admit r s = s\<lparr>lg_queue := lg_queue s @ [Record r], lg_notify := lg_notify s + 1, lg_accepted := lg_accepted s @ [r]\<rparr>"

definition space_test :: "nat \<Rightarrow> log_record \<Rightarrow> 'k logger \<Rightarrow> 'k logger \<times> unit cpp option" where
  "space_test i r s =
     (if lg_stopping s then (set_client i Outside s, Some (Inl (Logic_error ''Logger: log after shutdown'')))
      else if length (lg_queue s) < lg_capacity s then (set_client i Outside (admit r s), Some (Inr ()))
      else (set_client i (Space_sleep r) s, None))"

definition enqueue :: "bool \<Rightarrow> nat \<Rightarrow> log_record \<Rightarrow> 'k logger \<Rightarrow> 'k logger \<times> unit cpp option" where
  "enqueue on_pump i r s =
     (if lg_stopping s then (s, Some (Inl (Logic_error ''Logger: log after shutdown'')))
      else if length (lg_queue s) \<ge> lg_capacity s then
        if lg_policy s = Drop then (s\<lparr>lg_dropped := lg_dropped s + 1\<rparr>, Some (Inr ()))
        else if on_pump then (s, Some (Inl (Logic_error ''Logger: log from inside a sink would deadlock on a full queue'')))
        else space_test i r s
      else (admit r s, Some (Inr ())))"

definition log :: "bool \<Rightarrow> nat \<Rightarrow> log_record \<Rightarrow> 'k logger \<Rightarrow> 'k logger \<times> unit cpp option" where
  "log on_pump i r s =
     (if lr_level r = Off then (s, Some (Inl (Invalid_argument ''Logger: off is a filter threshold, not a loggable level'')))
      else if lr_level r < lg_min_level s then (s, Some (Inr ()))
      else enqueue on_pump i r s)"

definition set_level :: "log_level \<Rightarrow> 'k logger \<Rightarrow> 'k logger" where
  "set_level l s = s\<lparr>lg_min_level := l\<rparr>"

section \<open>Flushing\<close>

definition wake_pump :: "pump \<Rightarrow> pump" where
  "wake_pump p = (if p = Pump_sleep then Pump_test else p)"

definition flush_test :: "nat \<Rightarrow> nat \<Rightarrow> 'k logger \<Rightarrow> 'k logger \<times> unit cpp option" where
  "flush_test i ticket s =
     (if lg_completed s \<ge> ticket then (set_client i Outside s, Some (Inr ())) else (set_client i (Flush_sleep ticket) s, None))"

text \<open>\<open>records_available_\<close> is notified under the lock.\<close>

definition flush :: "bool \<Rightarrow> nat \<Rightarrow> 'k logger \<Rightarrow> 'k logger \<times> unit cpp option" where
  "flush on_pump i s =
     (if on_pump then (s, Some (Inl (Logic_error ''Logger: flush from inside a sink would deadlock'')))
      else if lg_stopping s then (s, Some (Inr ()))
      else
        (let ticket = lg_requested s + 1 in
         flush_test i ticket
           (s\<lparr>lg_requested := ticket, lg_queue := lg_queue s @ [Flush_marker ticket], lg_pump := wake_pump (lg_pump s),
              lg_marks := lg_marks s @ [length (lg_accepted s)]\<rparr>)))"

section \<open>The pump\<close>

text \<open>The sinks one after the other; what one throws is counted.\<close>

fun each_sink :: "('k \<Rightarrow> 'k \<times> bool) \<Rightarrow> 'k list \<Rightarrow> u64 \<Rightarrow> 'k list \<times> u64" where
  "each_sink f [] failures = ([], failures)"
| "each_sink f (k # ks) failures =
     (case f k of (k', threw) \<Rightarrow>
      case each_sink f ks (if threw then failures + 1 else failures) of (ks', n) \<Rightarrow> (k' # ks', n))"

text \<open>\<open>oom\<close> says that rendering the line fails for lack of memory.\<close>

definition deliver :: "'k sink_ops \<Rightarrow> (int \<Rightarrow> tm option) \<Rightarrow> bool \<Rightarrow> log_record \<Rightarrow> 'k logger \<Rightarrow> 'k logger" where
  "deliver ops gmtime oom r s =
     (if oom then s\<lparr>lg_failures := lg_failures s + 1, lg_delivered := lg_delivered s @ [r]\<rparr>
      else
        (case each_sink (\<lambda>k. so_write ops k r (render_line gmtime r)) (lg_sinks s) (lg_failures s) of (ks, n) \<Rightarrow>
           s\<lparr>lg_sinks := ks, lg_failures := n, lg_delivered := lg_delivered s @ [r], lg_events := lg_events s @ [Ev_write r]\<rparr>))"

definition flush_sinks :: "'k sink_ops \<Rightarrow> 'k logger \<Rightarrow> 'k logger" where
  "flush_sinks ops s =
     (case each_sink (so_flush ops) (lg_sinks s) (lg_failures s) of (ks, n) \<Rightarrow>
        s\<lparr>lg_sinks := ks, lg_failures := n, lg_flushed := length (lg_delivered s), lg_events := lg_events s @ [Ev_flush]\<rparr>)"

definition pump_check :: "'k logger \<Rightarrow> 'k logger option" where
  "pump_check s =
     (if lg_pump s \<noteq> Pump_test then None
      else if \<not> (lg_stopping s \<or> lg_queue s \<noteq> []) then Some (s\<lparr>lg_pump := Pump_sleep\<rparr>)
      else (case lg_queue s of
          [] \<Rightarrow> Some (s\<lparr>lg_pump := Final_flush\<rparr>)
        | item # rest \<Rightarrow> Some (s\<lparr>lg_queue := rest, lg_pump := Pump_hold item\<rparr>)))"

fun space_asleep :: "client \<Rightarrow> bool" where
  "space_asleep (Space_sleep r) = True"
| "space_asleep x = False"

fun wake_client :: "client \<Rightarrow> client" where
  "wake_client (Space_sleep r) = Space_test r"
| "wake_client (Flush_sleep t) = Flush_test t"
| "wake_client x = x"

definition notify_space :: "nat option \<Rightarrow> 'k logger \<Rightarrow> 'k logger option" where
  "notify_space w s =
     (case lg_pump s of
        Pump_hold item \<Rightarrow>
          (case w of
             None \<Rightarrow> if \<exists>x \<in> set (lg_clients s). space_asleep x then None else Some (s\<lparr>lg_pump := Pump_work item\<rparr>)
           | Some i \<Rightarrow>
               if i < length (lg_clients s) \<and> space_asleep (lg_clients s ! i)
               then Some (set_client i (wake_client (lg_clients s ! i)) (s\<lparr>lg_pump := Pump_work item\<rparr>)) else None)
      | _ \<Rightarrow> None)"

definition pump_work :: "'k sink_ops \<Rightarrow> (int \<Rightarrow> tm option) \<Rightarrow> bool \<Rightarrow> 'k logger \<Rightarrow> 'k logger option" where
  "pump_work ops gmtime oom s =
     (case lg_pump s of
        Pump_work (Record r) \<Rightarrow> Some ((deliver ops gmtime oom r s)\<lparr>lg_pump := Pump_test\<rparr>)
      | Pump_work (Flush_marker t) \<Rightarrow> Some ((flush_sinks ops s)\<lparr>lg_pump := Pump_mark t\<rparr>)
      | Final_flush \<Rightarrow> Some ((flush_sinks ops s)\<lparr>lg_pump := Final_mark\<rparr>)
      | _ \<Rightarrow> None)"

definition pump_complete :: "'k logger \<Rightarrow> 'k logger option" where
  "pump_complete s =
     (case lg_pump s of
        Pump_mark t \<Rightarrow> Some (s\<lparr>lg_completed := max (lg_completed s) t, lg_pump := Pump_announce\<rparr>)
      | Final_mark \<Rightarrow> Some (s\<lparr>lg_completed := lg_requested s, lg_pump := Final_announce\<rparr>)
      | _ \<Rightarrow> None)"

definition wake_flusher :: "client \<Rightarrow> client" where
  "wake_flusher x = (if space_asleep x then x else wake_client x)"

definition pump_announce :: "'k logger \<Rightarrow> 'k logger option" where
  "pump_announce s =
     (case lg_pump s of
        Pump_announce \<Rightarrow> Some (s\<lparr>lg_clients := map wake_flusher (lg_clients s), lg_pump := Pump_test\<rparr>)
      | Final_announce \<Rightarrow> Some (s\<lparr>lg_clients := map wake_flusher (lg_clients s), lg_pump := Pump_done\<rparr>)
      | _ \<Rightarrow> None)"

section \<open>Shutting down\<close>

definition shutdown_flag :: "'k logger \<Rightarrow> 'k logger option" where
  "shutdown_flag s =
     (if lg_phase s = Open \<or> lg_phase s = Joined then Some (s\<lparr>lg_stopping := True, lg_phase := Flagged\<rparr>) else None)"

definition shutdown_wake_pump :: "'k logger \<Rightarrow> 'k logger option" where
  "shutdown_wake_pump s =
     (if lg_phase s = Flagged then Some (s\<lparr>lg_pump := wake_pump (lg_pump s), lg_phase := Pump_notified\<rparr>) else None)"

definition wake_producer :: "client \<Rightarrow> client" where
  "wake_producer x = (if space_asleep x then wake_client x else x)"

definition shutdown_wake_producers :: "'k logger \<Rightarrow> 'k logger option" where
  "shutdown_wake_producers s =
     (if lg_phase s = Pump_notified then Some (s\<lparr>lg_clients := map wake_producer (lg_clients s), lg_phase := Joining\<rparr>) else None)"

definition shutdown_join :: "'k logger \<Rightarrow> 'k logger option" where
  "shutdown_join s = (if lg_phase s = Joining \<and> lg_pump s = Pump_done then Some (s\<lparr>lg_phase := Joined\<rparr>) else None)"

section \<open>Executions\<close>

datatype log_label =
    Log nat log_record
  | Set_level log_level
  | Flush nat
  | Shutdown
  | Notify_records
  | Pump_check
  | Notify_space "nat option"
  | Pump_visit bool
  | Pump_complete
  | Pump_announces
  | Wake_pump
  | Wake_producers
  | Join
  | Test nat
  | Spurious_pump
  | Spurious nat

definition notify_records :: "'k logger \<Rightarrow> 'k logger option" where
  "notify_records s =
     (if lg_notify s = 0 then None else Some (s\<lparr>lg_notify := lg_notify s - 1, lg_pump := wake_pump (lg_pump s)\<rparr>))"

definition client_test :: "nat \<Rightarrow> 'k logger \<Rightarrow> 'k logger option" where
  "client_test i s =
     (if i < length (lg_clients s) then
        (case lg_clients s ! i of
           Space_test r \<Rightarrow> Some (fst (space_test i r s))
         | Flush_test t \<Rightarrow> Some (fst (flush_test i t s))
         | _ \<Rightarrow> None)
      else None)"

definition client_spurious :: "nat \<Rightarrow> 'k logger \<Rightarrow> 'k logger option" where
  "client_spurious i s =
     (if i < length (lg_clients s) \<and> wake_client (lg_clients s ! i) \<noteq> lg_clients s ! i
      then Some (set_client i (wake_client (lg_clients s ! i)) s) else None)"

fun log_step :: "'k sink_ops \<Rightarrow> (int \<Rightarrow> tm option) \<Rightarrow> log_label \<Rightarrow> 'k logger \<Rightarrow> 'k logger option" where
  "log_step ops gmtime (Log i r) s = (if client_is s i Outside then Some (fst (log False i r s)) else None)"
| "log_step ops gmtime (Set_level l) s = Some (set_level l s)"
| "log_step ops gmtime (Flush i) s = (if client_is s i Outside then Some (fst (flush False i s)) else None)"
| "log_step ops gmtime Shutdown s = shutdown_flag s"
| "log_step ops gmtime Notify_records s = notify_records s"
| "log_step ops gmtime Pump_check s = pump_check s"
| "log_step ops gmtime (Notify_space w) s = notify_space w s"
| "log_step ops gmtime (Pump_visit oom) s = pump_work ops gmtime oom s"
| "log_step ops gmtime Pump_complete s = pump_complete s"
| "log_step ops gmtime Pump_announces s = pump_announce s"
| "log_step ops gmtime Wake_pump s = shutdown_wake_pump s"
| "log_step ops gmtime Wake_producers s = shutdown_wake_producers s"
| "log_step ops gmtime Join s = shutdown_join s"
| "log_step ops gmtime (Test i) s = client_test i s"
| "log_step ops gmtime Spurious_pump s = (if lg_pump s = Pump_sleep then Some (s\<lparr>lg_pump := Pump_test\<rparr>) else None)"
| "log_step ops gmtime (Spurious i) s = client_spurious i s"

end
