(* ===== verification/Logger_Queue.thy ===== *)
theory Logger_Queue
  imports Logger
begin

text \<open>
  What the queue of the logger keeps: records in order, tickets in order, and where each \<open>flush\<close> stands between the records.
\<close>

section \<open>The order of items\<close>

fun records :: "queue_item list \<Rightarrow> log_record list" where
  "records [] = []"
| "records (Record r # xs) = r # records xs"
| "records (Flush_marker t # xs) = records xs"

fun tickets :: "queue_item list \<Rightarrow> nat list" where
  "tickets [] = []"
| "tickets (Record r # xs) = tickets xs"
| "tickets (Flush_marker t # xs) = t # tickets xs"

text \<open>The number of records before each marker, when \<open>n\<close> have been delivered already.\<close>

fun positions :: "nat \<Rightarrow> queue_item list \<Rightarrow> nat list" where
  "positions n [] = []"
| "positions n (Record r # xs) = positions (Suc n) xs"
| "positions n (Flush_marker t # xs) = n # positions n xs"

lemma items_append:
  "records (xs @ ys) = records xs @ records ys" "tickets (xs @ ys) = tickets xs @ tickets ys"
  "positions n (xs @ ys) = positions n xs @ positions (n + length (records xs)) ys"
  by (induction xs arbitrary: n rule: records.induct) simp_all

definition queue_ok ::
  "log_record list \<Rightarrow> log_record list \<Rightarrow> queue_item list \<Rightarrow> nat \<Rightarrow> nat \<Rightarrow> nat list \<Rightarrow> nat \<Rightarrow> bool" where
  "queue_ok acc del pend fin req marks fl \<longleftrightarrow>
     acc = del @ records pend \<and> fin \<le> req \<and> tickets pend = [Suc fin..<Suc req] \<and> length marks = req \<and>
     drop fin marks = positions (length del) pend \<and> (\<forall>m \<in> set (take fin marks). m \<le> fl) \<and> fl \<le> length del"

lemma queue_ok_record:
  "queue_ok acc del pend fin req marks fl \<Longrightarrow> queue_ok (acc @ [r]) del (pend @ [Record r]) fin req marks fl"
  by (simp add: queue_ok_def items_append)

lemma queue_ok_marker:
  "queue_ok acc del pend fin req marks fl \<Longrightarrow>
    queue_ok acc del (pend @ [Flush_marker (Suc req)]) fin (Suc req) (marks @ [length acc]) fl"
  by (auto simp: queue_ok_def items_append)

lemma queue_ok_deliver:
  "queue_ok acc del (Record r # pend) fin req marks fl \<Longrightarrow> queue_ok acc (del @ [r]) pend fin req marks fl"
  by (simp add: queue_ok_def)

lemma queue_ok_flush:
  "queue_ok acc del pend fin req marks fl \<Longrightarrow> queue_ok acc del pend fin req marks (length del)"
  by (auto simp: queue_ok_def intro: order_trans)

lemma queue_ok_complete:
  assumes "queue_ok acc del (Flush_marker t # pend) fin req marks (length del)"
  shows "queue_ok acc del pend (max fin t) req marks (length del)"
proof -
  have eq: "t # tickets pend = [Suc fin..<Suc req]" using assms by (simp add: queue_ok_def)
  then have less: "fin < req" by (metis list.distinct(1) not_less upt_conv_Nil Suc_le_mono)
  then have t: "t = Suc fin" "tickets pend = [Suc (Suc fin)..<Suc req]"
    using eq upt_conv_Cons [of "Suc fin" "Suc req"] by simp_all
  have d: "drop fin marks = length del # positions (length del) pend" "length marks = req" using assms by (simp_all add: queue_ok_def)
  then have "marks ! fin = length del" "drop (Suc fin) marks = positions (length del) pend"
    using less by (simp_all add: Cons_nth_drop_Suc [symmetric])
  then show ?thesis using assms less t d(2) by (auto simp: queue_ok_def take_Suc_conv_app_nth)
qed

section \<open>The invariant of the queue\<close>

fun in_hand :: "pump \<Rightarrow> queue_item list" where
  "in_hand (Pump_hold item) = [item]"
| "in_hand (Pump_work item) = [item]"
| "in_hand (Pump_mark t) = [Flush_marker t]"
| "in_hand _ = []"

definition unfinished :: "'k logger \<Rightarrow> queue_item list" where
  "unfinished s = in_hand (lg_pump s) @ lg_queue s"

fun final :: "pump \<Rightarrow> bool" where
  "final Final_flush = True"
| "final Final_mark = True"
| "final Final_announce = True"
| "final Pump_done = True"
| "final _ = False"

fun just_flushed :: "pump \<Rightarrow> bool" where
  "just_flushed (Pump_mark t) = True"
| "just_flushed Final_mark = True"
| "just_flushed Final_announce = True"
| "just_flushed Pump_done = True"
| "just_flushed _ = False"

definition log_inv :: "'k logger \<Rightarrow> bool" where
  "log_inv s \<longleftrightarrow>
     queue_ok (lg_accepted s) (lg_delivered s) (unfinished s) (lg_completed s) (lg_requested s) (lg_marks s) (lg_flushed s) \<and>
     (final (lg_pump s) \<longrightarrow> lg_stopping s \<and> lg_queue s = []) \<and> (just_flushed (lg_pump s) \<longrightarrow> lg_flushed s = length (lg_delivered s))"

lemma wake_pump_simps [simp]:
  "in_hand (wake_pump p) = in_hand p" "final (wake_pump p) = final p" "just_flushed (wake_pump p) = just_flushed p"
  by (simp_all add: wake_pump_def)

lemma log_inv_cong:
  assumes "log_inv s" and "lg_accepted s' = lg_accepted s" and "lg_delivered s' = lg_delivered s" and "unfinished s' = unfinished s"
    and "lg_completed s' = lg_completed s" and "lg_requested s' = lg_requested s" and "lg_marks s' = lg_marks s" and "lg_flushed s' = lg_flushed s"
    and "final (lg_pump s') \<Longrightarrow> lg_stopping s' \<and> lg_queue s' = []" and "just_flushed (lg_pump s') \<Longrightarrow> just_flushed (lg_pump s)"
  shows "log_inv s'"
  using assms by (simp add: log_inv_def)

text \<open>Members of the client side do not matter.\<close>

lemma log_inv_clients [simp]:
  "log_inv (set_client i x s) = log_inv s" "log_inv (s\<lparr>lg_clients := cs\<rparr>) = log_inv s" "log_inv (s\<lparr>lg_notify := n\<rparr>) = log_inv s"
  "log_inv (s\<lparr>lg_phase := ph\<rparr>) = log_inv s" "log_inv (s\<lparr>lg_dropped := d\<rparr>) = log_inv s" "log_inv (s\<lparr>lg_min_level := l\<rparr>) = log_inv s"
  by (simp_all add: log_inv_def set_client_def unfinished_def)

lemma log_inv_wake_pump [simp]: "log_inv (s\<lparr>lg_pump := wake_pump (lg_pump s)\<rparr>) = log_inv s"
  by (simp add: log_inv_def unfinished_def)

lemma log_inv_admit: "log_inv s \<Longrightarrow> \<not> lg_stopping s \<Longrightarrow> log_inv (admit r s)"
  using queue_ok_record [of _ _ "unfinished s" _ _ _ _ r] by (auto simp: log_inv_def admit_def unfinished_def)

lemma log_inv_space_test: "log_inv s \<Longrightarrow> log_inv (fst (space_test i r s))"
  by (simp add: space_test_def log_inv_admit)

lemma log_inv_log: "log_inv s \<Longrightarrow> log_inv (fst (log b i r s))"
  by (simp add: log_def enqueue_def log_inv_admit log_inv_space_test)

lemma log_inv_flush: "log_inv s \<Longrightarrow> log_inv (fst (flush b i s))"
  using queue_ok_marker [of "lg_accepted s" _ "unfinished s"]
  by (auto simp: flush_def flush_test_def Let_def log_inv_def set_client_def unfinished_def)

lemma log_inv_pump_check: "log_inv s \<Longrightarrow> pump_check s = Some s' \<Longrightarrow> log_inv s'"
  by (auto simp: pump_check_def log_inv_def unfinished_def split: if_splits list.splits)

lemma log_inv_notify_space: "log_inv s \<Longrightarrow> notify_space w s = Some s' \<Longrightarrow> log_inv s'"
  by (auto simp: notify_space_def log_inv_def unfinished_def set_client_def split: pump.splits option.splits if_splits)

lemma log_inv_pump_work: "log_inv s \<Longrightarrow> pump_work ops gmtime oom s = Some s' \<Longrightarrow> log_inv s'"
  by (auto simp: pump_work_def log_inv_def unfinished_def deliver_def flush_sinks_def
      intro: queue_ok_deliver queue_ok_flush split: pump.splits queue_item.splits prod.splits if_splits)

lemma log_inv_pump_complete:
  assumes "log_inv s" and "pump_complete s = Some s'"
  shows "log_inv s'"
proof (cases "lg_pump s")
  case (Pump_mark t)
  then show ?thesis using assms queue_ok_complete [of "lg_accepted s" "lg_delivered s" t]
    by (auto simp: pump_complete_def log_inv_def unfinished_def)
next
  case Final_mark
  then have "lg_completed s = lg_requested s" using assms(1) by (auto simp: log_inv_def unfinished_def queue_ok_def split: if_splits)
  then show ?thesis using Final_mark assms by (auto simp: pump_complete_def log_inv_def unfinished_def)
qed (use assms(2) in \<open>auto simp: pump_complete_def\<close>)

lemma log_inv_pump_announce: "log_inv s \<Longrightarrow> pump_announce s = Some s' \<Longrightarrow> log_inv s'"
  by (auto simp: pump_announce_def log_inv_def unfinished_def split: pump.splits)

lemma log_inv_shutdown:
  "log_inv s \<Longrightarrow> shutdown_flag s = Some s' \<Longrightarrow> log_inv s'" "log_inv s \<Longrightarrow> shutdown_join s = Some s' \<Longrightarrow> log_inv s'"
  "log_inv s \<Longrightarrow> shutdown_wake_pump s = Some s' \<Longrightarrow> log_inv s'" "log_inv s \<Longrightarrow> shutdown_wake_producers s = Some s' \<Longrightarrow> log_inv s'"
  by (auto simp: shutdown_flag_def shutdown_join_def shutdown_wake_pump_def shutdown_wake_producers_def log_inv_def unfinished_def split: if_splits)

lemma log_inv_notify_records: "log_inv s \<Longrightarrow> notify_records s = Some s' \<Longrightarrow> log_inv s'"
  by (auto simp: notify_records_def log_inv_def unfinished_def split: if_splits)

lemma log_inv_client:
  "log_inv s \<Longrightarrow> client_test i s = Some s' \<Longrightarrow> log_inv s'" "log_inv s \<Longrightarrow> client_spurious i s = Some s' \<Longrightarrow> log_inv s'"
  by (auto simp: client_test_def client_spurious_def log_inv_space_test flush_test_def split: if_splits client.splits)

lemma log_inv_spurious_pump: "log_inv s \<Longrightarrow> lg_pump s = Pump_sleep \<Longrightarrow> log_inv (s\<lparr>lg_pump := Pump_test\<rparr>)"
  by (simp add: log_inv_def unfinished_def)

lemmas log_inv_ops = log_inv_notify_records log_inv_client log_inv_pump_check log_inv_notify_space log_inv_pump_work log_inv_pump_complete
  log_inv_pump_announce log_inv_shutdown

lemma log_inv_step:
  assumes "log_inv s" and "log_step ops gmtime l s = Some s'"
  shows "log_inv s'"
  using assms(2)
  by (cases l) (auto simp: assms(1) log_inv_log log_inv_flush set_level_def log_inv_spurious_pump split: if_splits intro: log_inv_ops [OF assms(1)])

interpretation log_queue: step_invariant "log_step ops gmtime" log_inv for ops gmtime
  by unfold_locales (rule log_inv_step)

lemma log_inv_new: "logger_new ks c p n = Inr s \<Longrightarrow> log_inv s"
  by (auto simp: logger_new_def log_inv_def unfinished_def queue_ok_def split: if_splits)

end
