(* ===== verification/Logger_Wakeups.thy ===== *)
theory Logger_Wakeups
  imports Logger_Queue
begin

text \<open>
  The three condition variables of the logger: no wake-up of the pump, of a producer that waits for space or of a caller of
  \<open>flush\<close> is lost.
\<close>

section \<open>Invariant\<close>

fun space_testing :: "client \<Rightarrow> bool" where
  "space_testing (Space_test r) = True"
| "space_testing x = False"

fun holding :: "pump \<Rightarrow> nat" where
  "holding (Pump_hold item) = 1"
| "holding _ = 0"

fun announcing :: "pump \<Rightarrow> bool" where
  "announcing Pump_announce = True"
| "announcing Final_announce = True"
| "announcing _ = False"

definition space_free :: "'k logger \<Rightarrow> nat" where
  "space_free s = lg_capacity s - length (lg_queue s)"

definition pump_wakes :: "'k logger \<Rightarrow> bool" where
  "pump_wakes s \<longleftrightarrow> (lg_stopping s \<longleftrightarrow> lg_phase s \<noteq> Open) \<and> (lg_phase s = Joined \<longrightarrow> lg_pump s = Pump_done) \<and>
     (lg_pump s = Pump_sleep \<longrightarrow> (lg_queue s = [] \<or> 0 < lg_notify s) \<and> (lg_stopping s \<longrightarrow> lg_phase s = Flagged))"

text \<open>While a producer sleeps, every free slot has a producer about to look or a notification on its way.\<close>

definition space_wakes :: "'k logger \<Rightarrow> bool" where
  "space_wakes s \<longleftrightarrow>
     (0 < count_where space_asleep (lg_clients s) \<longrightarrow>
        (lg_stopping s \<longrightarrow> lg_phase s = Flagged \<or> lg_phase s = Pump_notified) \<and>
        (\<not> lg_stopping s \<longrightarrow> space_free s \<le> count_where space_testing (lg_clients s) + holding (lg_pump s)))"

definition flush_wakes :: "'k logger \<Rightarrow> bool" where
  "flush_wakes s \<longleftrightarrow>
     (\<forall>t. Flush_sleep t \<in> set (lg_clients s) \<longrightarrow> t \<le> lg_requested s \<and> (lg_completed s < t \<or> announcing (lg_pump s))) \<and>
     (\<forall>t. Flush_test t \<in> set (lg_clients s) \<longrightarrow> t \<le> lg_requested s)"

definition wake_inv :: "'k logger \<Rightarrow> bool" where
  "wake_inv s \<longleftrightarrow> log_inv s \<and> pump_wakes s \<and> space_wakes s \<and> flush_wakes s"

lemmas wakes_defs = pump_wakes_def space_wakes_def flush_wakes_def space_free_def

lemma in_update: "x \<in> set (xs[i := y]) \<Longrightarrow> x = y \<or> x \<in> set xs"
  using set_update_subset_insert [of xs i y] by auto

lemma wake_pump_holding [simp]: "holding (wake_pump p) = holding p" "announcing (wake_pump p) = announcing p" "wake_pump p \<noteq> Pump_sleep"
  by (simp_all add: wake_pump_def)

lemma wake_pump_done [simp]: "wake_pump p = Pump_done \<longleftrightarrow> p = Pump_done"
  by (simp add: wake_pump_def)

section \<open>Clients\<close>

lemma wakes_admit:
  assumes "pump_wakes s" and "flush_wakes s"
  shows "pump_wakes (admit r s)" and "flush_wakes (admit r s)"
  using assms by (auto simp: wakes_defs admit_def)

lemma wakes_set_client:
  assumes "pump_wakes s" and "flush_wakes s" and "\<And>t. x = Flush_sleep t \<Longrightarrow> t \<le> lg_requested s \<and> lg_completed s < t"
    and "\<And>t. x = Flush_test t \<Longrightarrow> t \<le> lg_requested s"
  shows "pump_wakes (set_client i x s)" and "flush_wakes (set_client i x s)"
proof -
  show "pump_wakes (set_client i x s)" using assms(1) by (simp add: pump_wakes_def set_client_def)
  have "y \<in> set (lg_clients (set_client i x s)) \<Longrightarrow> y = x \<or> y \<in> set (lg_clients s)" for y
    using in_update [of y "lg_clients s" i x] by (simp add: set_client_def)
  then show "flush_wakes (set_client i x s)" using assms(2-4) unfolding flush_wakes_def
    by (simp add: set_client_def) metis
qed

lemma space_wakes_admit:
  assumes "space_wakes s" and "\<not> lg_stopping s"
  shows "space_wakes (admit r s)"
  using assms by (auto simp: wakes_defs admit_def)

lemma space_wakes_leave:
  assumes "space_wakes s" and "i < length (lg_clients s)" and "space_testing (lg_clients s ! i)" and "\<not> lg_stopping s"
    and "length (lg_queue s) < lg_capacity s"
  shows "space_wakes (set_client i Outside (admit r s))"
proof -
  have "\<not> space_asleep (lg_clients s ! i)" using assms(3) by (cases "lg_clients s ! i") auto
  then show ?thesis using assms by (auto simp: wakes_defs admit_def set_client_def count_where_put)
qed

lemma space_wakes_other:
  assumes "space_wakes s" and "i < length (lg_clients s)" and "\<not> space_testing (lg_clients s ! i)" and "\<not> space_asleep x" and "\<not> space_testing x"
  shows "space_wakes (set_client i x s)"
  using assms by (cases "space_asleep (lg_clients s ! i)") (auto simp: wakes_defs set_client_def count_where_put)

lemma space_wakes_refused:
  assumes "space_wakes s" and "i < length (lg_clients s)" and "lg_stopping s"
  shows "space_wakes (set_client i Outside s)"
  using assms by (cases "space_asleep (lg_clients s ! i)") (auto simp: wakes_defs set_client_def count_where_put)

lemma space_wakes_sleep:
  assumes "i < length (lg_clients s)" and "\<not> lg_stopping s" and "lg_capacity s \<le> length (lg_queue s)"
  shows "space_wakes (set_client i (Space_sleep r) s)"
  using assms by (simp add: wakes_defs set_client_def)

lemma wake_inv_space_test:
  assumes "wake_inv s" and "i < length (lg_clients s)" and "space_testing (lg_clients s ! i) \<or> lg_capacity s \<le> length (lg_queue s)"
  shows "wake_inv (fst (space_test i r s))"
proof -
  have s: "log_inv s" "pump_wakes s" "space_wakes s" "flush_wakes s" using assms(1) by (simp_all add: wake_inv_def)
  note inv = log_inv_space_test [OF s(1), of i r]
  consider "lg_stopping s" | "\<not> lg_stopping s" "length (lg_queue s) < lg_capacity s" | "\<not> lg_stopping s" "lg_capacity s \<le> length (lg_queue s)"
    by linarith
  then show ?thesis
  proof cases
    case 1
    then show ?thesis using s inv wakes_set_client [OF s(2,4), of Outside i] space_wakes_refused [OF s(3) assms(2)]
      by (simp add: wake_inv_def space_test_def)
  next
    case 2
    then show ?thesis using s inv wakes_set_client [OF wakes_admit [OF s(2,4), of r], of Outside i] space_wakes_leave [OF s(3) assms(2)] assms(3)
      by (simp add: wake_inv_def space_test_def)
  next
    case 3
    then show ?thesis using s inv wakes_set_client [OF s(2,4), of "Space_sleep r" i] space_wakes_sleep [OF assms(2)]
      by (simp add: wake_inv_def space_test_def)
  qed
qed

lemma wake_inv_log:
  assumes "wake_inv s" and "client_is s i Outside"
  shows "wake_inv (fst (log False i r s))"
proof -
  have s: "log_inv s" "pump_wakes s" "space_wakes s" "flush_wakes s" using assms(1) by (simp_all add: wake_inv_def)
  have i: "i < length (lg_clients s)" using assms(2) by (simp add: client_is_def)
  have drop: "wake_inv (s\<lparr>lg_dropped := d\<rparr>)" for d using assms(1) by (simp add: wake_inv_def wakes_defs)
  have admit: "wake_inv (admit r s)" if "\<not> lg_stopping s"
    using s that by (simp add: wake_inv_def log_inv_admit wakes_admit space_wakes_admit)
  show ?thesis using assms(1) drop admit wake_inv_space_test [OF assms(1) i, of r] by (simp add: log_def enqueue_def)
qed

lemma wake_inv_flush_test:
  assumes "wake_inv s" and "i < length (lg_clients s)" and "\<not> space_testing (lg_clients s ! i)" and "t \<le> lg_requested s"
  shows "wake_inv (fst (flush_test i t s))"
  using assms wakes_set_client [of s Outside i] wakes_set_client [of s "Flush_sleep t" i] space_wakes_other [of s i]
  by (simp add: wake_inv_def flush_test_def)

lemma wake_inv_flush:
  assumes "wake_inv s" and "client_is s i Outside"
  shows "wake_inv (fst (flush False i s))"
proof (cases "lg_stopping s")
  case True
  then show ?thesis using assms(1) by (simp add: flush_def)
next
  case False
  let ?s = "s\<lparr>lg_requested := lg_requested s + 1, lg_queue := lg_queue s @ [Flush_marker (lg_requested s + 1)], lg_pump := wake_pump (lg_pump s),
              lg_marks := lg_marks s @ [length (lg_accepted s)]\<rparr>"
  have i: "i < length (lg_clients s)" "lg_clients s ! i = Outside" using assms(2) by (simp_all add: client_is_def)
  have inv: "log_inv ?s"
    using assms(1) False queue_ok_marker [of "lg_accepted s" _ "unfinished s"] by (auto simp: wake_inv_def log_inv_def unfinished_def)
  have "wake_inv ?s" using assms(1) False inv by (auto simp: wake_inv_def wakes_defs le_SucI)
  then have "wake_inv (fst (flush_test i (lg_requested s + 1) ?s))" by (rule wake_inv_flush_test) (use i in simp_all)
  then show ?thesis using False by (simp add: flush_def)
qed

section \<open>The pump\<close>

lemma pump_check_cases:
  assumes "pump_check s = Some s'"
  shows "s' = s\<lparr>lg_pump := Pump_sleep\<rparr> \<and> lg_queue s = [] \<and> \<not> lg_stopping s \<or> s' = s\<lparr>lg_pump := Final_flush\<rparr> \<and> lg_queue s = [] \<or>
    (\<exists>item rest. lg_queue s = item # rest \<and> s' = s\<lparr>lg_queue := rest, lg_pump := Pump_hold item\<rparr>)"
proof (cases "lg_queue s")
  case Nil
  then show ?thesis using assms by (cases "lg_stopping s") (simp_all add: pump_check_def split: if_splits)
next
  case (Cons item rest)
  then show ?thesis using assms by (simp add: pump_check_def split: if_splits)
qed

lemma wake_inv_pump_check:
  assumes "wake_inv s" and "pump_check s = Some s'"
  shows "wake_inv s'"
proof -
  have s: "log_inv s" "pump_wakes s" "space_wakes s" "flush_wakes s" using assms(1) by (simp_all add: wake_inv_def)
  have pump: "lg_pump s = Pump_test" using assms(2) by (auto simp: pump_check_def split: if_splits)
  note pump_check_cases [OF assms(2)]
  then have "pump_wakes s' \<and> space_wakes s' \<and> flush_wakes s'"
  proof (elim disjE conjE exE)
    assume "s' = s\<lparr>lg_pump := Pump_sleep\<rparr>" "lg_queue s = []" "\<not> lg_stopping s"
    then show ?thesis using s(2-4) pump by (simp add: wakes_defs)
  next
    assume "s' = s\<lparr>lg_pump := Final_flush\<rparr>" "lg_queue s = []"
    then show ?thesis using s(2-4) pump by (simp add: wakes_defs)
  next
    fix item rest
    assume 3: "lg_queue s = item # rest" "s' = s\<lparr>lg_queue := rest, lg_pump := Pump_hold item\<rparr>"
    then have "space_free s' \<le> Suc (space_free s)" by (simp add: space_free_def)
    then have "space_wakes s'" using s(3) pump 3 by (fastforce simp: space_wakes_def)
    then show ?thesis using s(2,4) pump 3 by (simp add: pump_wakes_def flush_wakes_def)
  qed
  then show ?thesis using log_inv_pump_check [OF s(1) assms(2)] by (simp add: wake_inv_def)
qed

lemma wakes_same_clients:
  assumes "pump_wakes s" and "space_wakes s" and "flush_wakes s" and "lg_stopping s' = lg_stopping s" and "lg_phase s' = lg_phase s"
    and "lg_clients s' = lg_clients s" and "lg_queue s' = lg_queue s" and "lg_capacity s' = lg_capacity s" and "lg_requested s' = lg_requested s"
    and "lg_pump s \<noteq> Pump_done" and "lg_pump s' \<noteq> Pump_sleep" and "holding (lg_pump s) \<le> holding (lg_pump s')"
    and "announcing (lg_pump s') \<or> lg_completed s' = lg_completed s \<and> \<not> announcing (lg_pump s)"
  shows "pump_wakes s' \<and> space_wakes s' \<and> flush_wakes s'"
proof (intro conjI)
  show "pump_wakes s'" using assms(1,4,5,10,11) by (auto simp: pump_wakes_def)
  show "space_wakes s'" using assms(2,4-8,12) by (auto simp: space_wakes_def space_free_def)
  show "flush_wakes s'" using assms(3,6,9,13) by (auto simp: flush_wakes_def)
qed

lemma wake_inv_pump_work:
  assumes "wake_inv s" and "pump_work ops gmtime oom s = Some s'"
  shows "wake_inv s'"
proof -
  have s: "log_inv s" "pump_wakes s" "space_wakes s" "flush_wakes s" using assms(1) by (simp_all add: wake_inv_def)
  have same: "lg_stopping (deliver ops gmtime oom r s) = lg_stopping s" "lg_phase (deliver ops gmtime oom r s) = lg_phase s"
      "lg_clients (deliver ops gmtime oom r s) = lg_clients s" "lg_queue (deliver ops gmtime oom r s) = lg_queue s"
      "lg_capacity (deliver ops gmtime oom r s) = lg_capacity s" "lg_requested (deliver ops gmtime oom r s) = lg_requested s"
      "lg_completed (deliver ops gmtime oom r s) = lg_completed s"
      "lg_stopping (flush_sinks ops s) = lg_stopping s" "lg_phase (flush_sinks ops s) = lg_phase s"
      "lg_clients (flush_sinks ops s) = lg_clients s" "lg_queue (flush_sinks ops s) = lg_queue s"
      "lg_capacity (flush_sinks ops s) = lg_capacity s" "lg_requested (flush_sinks ops s) = lg_requested s"
      "lg_completed (flush_sinks ops s) = lg_completed s" for r
    by (simp_all add: deliver_def flush_sinks_def split: prod.splits)
  have "pump_wakes s' \<and> space_wakes s' \<and> flush_wakes s'"
    by (rule wakes_same_clients [OF s(2-4)])
      (use assms(2) in \<open>auto simp: pump_work_def same split: pump.splits queue_item.splits\<close>)
  then show ?thesis using log_inv_pump_work [OF s(1) assms(2)] by (simp add: wake_inv_def)
qed

lemma wake_inv_pump_complete:
  assumes "wake_inv s" and "pump_complete s = Some s'"
  shows "wake_inv s'"
proof -
  have s: "log_inv s" "pump_wakes s" "space_wakes s" "flush_wakes s" using assms(1) by (simp_all add: wake_inv_def)
  have "pump_wakes s' \<and> space_wakes s' \<and> flush_wakes s'"
    by (rule wakes_same_clients [OF s(2-4)]) (use assms(2) in \<open>auto simp: pump_complete_def split: pump.splits\<close>)
  then show ?thesis using log_inv_pump_complete [OF s(1) assms(2)] by (simp add: wake_inv_def)
qed

lemma wake_inv_notify_space:
  assumes "wake_inv s" and "notify_space w s = Some s'"
  shows "wake_inv s'"
proof -
  have s: "log_inv s" "pump_wakes s" "space_wakes s" "flush_wakes s" using assms(1) by (simp_all add: wake_inv_def)
  obtain item where pump: "lg_pump s = Pump_hold item" using assms(2) by (auto simp: notify_space_def split: pump.splits)
  have "pump_wakes s' \<and> space_wakes s' \<and> flush_wakes s'"
  proof (cases w)
    case None
    then have "s' = s\<lparr>lg_pump := Pump_work item\<rparr>" "count_where space_asleep (lg_clients s) = 0"
      using assms(2) pump by (auto simp: notify_space_def count_where_0 split: if_splits)
    then show ?thesis using s(2-4) pump by (simp add: wakes_defs)
  next
    case (Some i)
    then obtain r where s': "i < length (lg_clients s)" "lg_clients s ! i = Space_sleep r"
        "s' = set_client i (Space_test r) (s\<lparr>lg_pump := Pump_work item\<rparr>)"
      using assms(2) pump by (cases "lg_clients s ! i") (auto simp: notify_space_def split: if_splits)
    have "pump_wakes (s\<lparr>lg_pump := Pump_work item\<rparr>)" "flush_wakes (s\<lparr>lg_pump := Pump_work item\<rparr>)"
      using s(2,4) pump by (simp_all add: wakes_defs)
    from wakes_set_client [OF this, of "Space_test r" i] have "pump_wakes s'" "flush_wakes s'" by (simp_all add: s'(3))
    moreover have "space_wakes s'" using s(3) pump s' by (auto simp: wakes_defs set_client_def count_where_put)
    ultimately show ?thesis by simp
  qed
  then show ?thesis using log_inv_notify_space [OF s(1) assms(2)] by (simp add: wake_inv_def)
qed

lemma wake_flusher_facts:
  "wake_flusher x \<noteq> Flush_sleep t" "wake_flusher x = Flush_test t \<Longrightarrow> x = Flush_test t \<or> x = Flush_sleep t"
  "space_asleep (wake_flusher x) = space_asleep x" "space_testing (wake_flusher x) = space_testing x"
  by (cases x; simp add: wake_flusher_def)+

lemma wake_inv_pump_announce:
  assumes "wake_inv s" and "pump_announce s = Some s'"
  shows "wake_inv s'"
proof -
  have s: "log_inv s" "pump_wakes s" "space_wakes s" "flush_wakes s" using assms(1) by (simp_all add: wake_inv_def)
  have pump: "announcing (lg_pump s)" using assms(2) by (auto simp: pump_announce_def split: pump.splits)
  obtain p where s': "s' = s\<lparr>lg_clients := map wake_flusher (lg_clients s), lg_pump := p\<rparr>" "p = Pump_test \<or> p = Pump_done"
    using assms(2) by (auto simp: pump_announce_def split: pump.splits)
  have "flush_wakes s'"
    unfolding flush_wakes_def
  proof (intro conjI allI impI)
    fix t
    have "Flush_sleep t \<notin> set (lg_clients s')" using wake_flusher_facts(1) [THEN not_sym] by (auto simp: s'(1))
    then show "t \<le> lg_requested s'" "lg_completed s' < t \<or> announcing (lg_pump s')" if "Flush_sleep t \<in> set (lg_clients s')"
      using that by blast+
  next
    fix t
    assume "Flush_test t \<in> set (lg_clients s')"
    then obtain x where "x \<in> set (lg_clients s)" "wake_flusher x = Flush_test t" by (auto simp: s'(1))
    then show "t \<le> lg_requested s'" using wake_flusher_facts(2) [of x t] s(4) by (auto simp: s'(1) flush_wakes_def)
  qed
  moreover have "space_wakes s'" using s(3) pump s'
    by (cases "lg_pump s") (auto simp: wakes_defs count_where_map_eq wake_flusher_facts)
  moreover have "pump_wakes s'" using s(2) pump s' by (cases "lg_pump s") (auto simp: wakes_defs)
  ultimately show ?thesis using log_inv_pump_announce [OF s(1) assms(2)] by (simp add: wake_inv_def)
qed

section \<open>Shutting down\<close>

lemma wake_producer_facts:
  "\<not> space_asleep (wake_producer x)" "wake_producer x = Flush_test t \<longleftrightarrow> x = Flush_test t" "wake_producer x = Flush_sleep t \<longleftrightarrow> x = Flush_sleep t"
  by (cases x; simp add: wake_producer_def)+

lemma wake_inv_shutdown_flag:
  assumes "wake_inv s" and "shutdown_flag s = Some s'"
  shows "wake_inv s'"
proof -
  have "s' = s\<lparr>lg_stopping := True, lg_phase := Flagged\<rparr>" using assms(2) by (auto simp: shutdown_flag_def split: if_splits)
  then have "pump_wakes s' \<and> space_wakes s' \<and> flush_wakes s'" using assms(1) by (auto simp: wake_inv_def wakes_defs)
  then show ?thesis using assms log_inv_shutdown(1) by (auto simp: wake_inv_def)
qed

lemma wake_inv_shutdown_join:
  assumes "wake_inv s" and "shutdown_join s = Some s'"
  shows "wake_inv s'"
proof -
  have "s' = s\<lparr>lg_phase := Joined\<rparr>" "lg_phase s = Joining" "lg_pump s = Pump_done" using assms(2) by (auto simp: shutdown_join_def split: if_splits)
  then have "pump_wakes s' \<and> space_wakes s' \<and> flush_wakes s'" using assms(1) by (auto simp: wake_inv_def wakes_defs)
  then show ?thesis using assms log_inv_shutdown(2) by (auto simp: wake_inv_def)
qed

lemma wake_inv_shutdown_wake_pump:
  assumes "wake_inv s" and "shutdown_wake_pump s = Some s'"
  shows "wake_inv s'"
proof -
  have s': "s' = s\<lparr>lg_pump := wake_pump (lg_pump s), lg_phase := Pump_notified\<rparr>" "lg_phase s = Flagged"
    using assms(2) by (auto simp: shutdown_wake_pump_def split: if_splits)
  then have "pump_wakes s' \<and> space_wakes s' \<and> flush_wakes s'" using assms(1) by (auto simp: wake_inv_def wakes_defs)
  then show ?thesis using assms log_inv_shutdown(3) by (auto simp: wake_inv_def)
qed

lemma wake_inv_shutdown_wake_producers:
  assumes "wake_inv s" and "shutdown_wake_producers s = Some s'"
  shows "wake_inv s'"
proof -
  have s: "log_inv s" "pump_wakes s" "space_wakes s" "flush_wakes s" using assms(1) by (simp_all add: wake_inv_def)
  have s': "s' = s\<lparr>lg_clients := map wake_producer (lg_clients s), lg_phase := Joining\<rparr>" "lg_phase s = Pump_notified"
    using assms(2) by (auto simp: shutdown_wake_producers_def split: if_splits)
  have "count_where space_asleep (map wake_producer (lg_clients s)) = 0" by (simp add: count_where_0 wake_producer_facts)
  then have "space_wakes s'" by (simp add: s' space_wakes_def)
  moreover have "pump_wakes s'" using s(2) s' by (auto simp: pump_wakes_def)
  moreover have "y \<in> set (map wake_producer cs) \<longleftrightarrow> y \<in> set cs" if "y = Flush_sleep t \<or> y = Flush_test t" for y t cs
    using that wake_producer_facts(2,3) by (auto simp: image_iff) metis+
  then have "flush_wakes s'" using s(4) by (simp add: s' flush_wakes_def)
  ultimately show ?thesis using log_inv_shutdown(4) [OF s(1) assms(2)] by (simp add: wake_inv_def)
qed

section \<open>All steps\<close>

lemma wake_inv_notify_records:
  assumes "wake_inv s" and "notify_records s = Some s'"
  shows "wake_inv s'"
proof -
  have "s' = s\<lparr>lg_notify := lg_notify s - 1, lg_pump := wake_pump (lg_pump s)\<rparr>"
    using assms(2) by (auto simp: notify_records_def split: if_splits)
  then have "pump_wakes s' \<and> space_wakes s' \<and> flush_wakes s'" using assms(1) by (auto simp: wake_inv_def wakes_defs)
  then show ?thesis using assms log_inv_notify_records by (auto simp: wake_inv_def)
qed

lemma wake_inv_spurious_pump: "wake_inv s \<Longrightarrow> lg_pump s = Pump_sleep \<Longrightarrow> wake_inv (s\<lparr>lg_pump := Pump_test\<rparr>)"
  by (auto simp: wake_inv_def wakes_defs log_inv_spurious_pump)

lemma wake_inv_client_test:
  assumes "wake_inv s" and "client_test i s = Some s'"
  shows "wake_inv s'"
proof -
  have i: "i < length (lg_clients s)" using assms(2) by (auto simp: client_test_def split: if_splits)
  show ?thesis
  proof (cases "lg_clients s ! i")
    case (Space_test r)
    then show ?thesis using wake_inv_space_test [OF assms(1) i, of r] assms(2) i by (simp add: client_test_def)
  next
    case (Flush_test t)
    moreover from this have "t \<le> lg_requested s" using assms(1) i nth_mem [OF i] by (auto simp: wake_inv_def flush_wakes_def)
    ultimately show ?thesis using wake_inv_flush_test [OF assms(1) i, of t] assms(2) i by (simp add: client_test_def)
  qed (use assms(2) i in \<open>auto simp: client_test_def\<close>)
qed

lemma wake_inv_client_spurious:
  assumes "wake_inv s" and "client_spurious i s = Some s'"
  shows "wake_inv s'"
proof -
  have s: "log_inv s" "pump_wakes s" "space_wakes s" "flush_wakes s" using assms(1) by (simp_all add: wake_inv_def)
  have i: "i < length (lg_clients s)" and s': "s' = set_client i (wake_client (lg_clients s ! i)) s"
    using assms(2) by (auto simp: client_spurious_def split: if_splits)
  have ne: "wake_client (lg_clients s ! i) \<noteq> lg_clients s ! i" using assms(2) by (auto simp: client_spurious_def split: if_splits)
  show ?thesis
  proof (cases "lg_clients s ! i")
    case (Space_sleep r)
    then have "space_wakes s'" using s(3) i by (auto simp: s' wakes_defs set_client_def count_where_put)
    then show ?thesis using s wakes_set_client [OF s(2,4), of "Space_test r" i] Space_sleep by (simp add: s' wake_inv_def)
  next
    case (Flush_sleep t)
    then have "t \<le> lg_requested s" using s(4) nth_mem [OF i] by (auto simp: flush_wakes_def)
    then show ?thesis using s wakes_set_client [OF s(2,4), of "Flush_test t" i] space_wakes_other [OF s(3) i, of "Flush_test t"] Flush_sleep
      by (simp add: s' wake_inv_def)
  qed (use ne in auto)
qed

lemmas wake_inv_ops = wake_inv_notify_records wake_inv_client_test wake_inv_client_spurious wake_inv_pump_check wake_inv_notify_space
  wake_inv_pump_work wake_inv_pump_complete wake_inv_pump_announce wake_inv_shutdown_flag wake_inv_shutdown_join wake_inv_shutdown_wake_pump
  wake_inv_shutdown_wake_producers

lemma wake_inv_set_level: "wake_inv s \<Longrightarrow> wake_inv (set_level l s)"
  by (simp add: wake_inv_def wakes_defs set_level_def)

lemma wake_inv_step:
  assumes "wake_inv s" and "log_step ops gmtime l s = Some s'"
  shows "wake_inv s'"
  using assms(2)
  by (cases l)
    (auto simp: wake_inv_log [OF assms(1)] wake_inv_flush [OF assms(1)] wake_inv_set_level [OF assms(1)] wake_inv_spurious_pump [OF assms(1)]
      split: if_splits intro: wake_inv_ops [OF assms(1)])

interpretation log_wake: step_invariant "log_step ops gmtime" wake_inv for ops gmtime
  by unfold_locales (rule wake_inv_step)

lemma wake_inv_new: "logger_new ks c p n = Inr s \<Longrightarrow> wake_inv s"
  using log_inv_new [of ks c p n s]
  by (auto simp: logger_new_def wake_inv_def wakes_defs split: if_splits)

end
