(* ===== verification/Logger_Shutdown.thy ===== *)
theory Logger_Shutdown
  imports Logger_Wakeups
begin

text \<open>What the logger promises: draining, the barrier of \<open>flush\<close>, and the independence of its sinks.\<close>

abbreviation log_run :: "'k sink_ops \<Rightarrow> (int \<Rightarrow> tm option) \<Rightarrow> log_label list \<Rightarrow> 'k logger \<Rightarrow> 'k logger option" where
  "log_run ops gmtime \<equiv> run_steps (log_step ops gmtime)"

section \<open>A bound on the steps of a shutdown\<close>

text \<open>Steps of the logger itself: not the calls of its clients and not spurious wake-ups.\<close>

fun progress :: "log_label \<Rightarrow> bool" where
  "progress (Log i r) = False"
| "progress (Set_level l) = False"
| "progress (Flush i) = False"
| "progress Shutdown = False"
| "progress Spurious_pump = False"
| "progress (Spurious i) = False"
| "progress _ = True"

fun spurious :: "log_label \<Rightarrow> bool" where
  "spurious (Spurious i) = True"
| "spurious _ = False"

fun client_left :: "client \<Rightarrow> nat" where
  "client_left Outside = 0"
| "client_left (Space_test r) = 1"
| "client_left (Space_sleep r) = 2"
| "client_left (Flush_test t) = 2"
| "client_left (Flush_sleep t) = 1"

text \<open>\<open>n\<close> is the number of clients: an announcement may send each of them to test once more.\<close>

fun pump_left :: "nat \<Rightarrow> pump \<Rightarrow> nat" where
  "pump_left n (Pump_hold item) = 9 + 2 * n"
| "pump_left n (Pump_work item) = 8 + 2 * n"
| "pump_left n (Pump_mark t) = 7 + 2 * n"
| "pump_left n Pump_announce = 6 + 2 * n"
| "pump_left n Pump_sleep = 6 + n"
| "pump_left n Pump_test = 5 + n"
| "pump_left n Final_flush = 4 + n"
| "pump_left n Final_mark = 3 + n"
| "pump_left n Final_announce = 2 + n"
| "pump_left n Pump_done = 0"

fun phase_left :: "log_phase \<Rightarrow> nat" where
  "phase_left Flagged = 3"
| "phase_left Pump_notified = 2"
| "phase_left Joining = 1"
| "phase_left _ = 0"

definition log_measure :: "'k logger \<Rightarrow> nat" where
  "log_measure s = (5 + length (lg_clients s)) * length (lg_queue s) + pump_left (length (lg_clients s)) (lg_pump s) +
     sum_list (map client_left (lg_clients s)) + lg_notify s + phase_left (lg_phase s)"

lemma left_set_client:
  "i < length cs \<Longrightarrow> sum_list (map client_left (cs[i := x])) + client_left (cs ! i) = sum_list (map client_left cs) + client_left x"
  by (rule sum_list_update)

lemma left_wake_flusher: "sum_list (map client_left (map wake_flusher cs)) \<le> sum_list (map client_left cs) + length cs"
proof (induction cs)
  case (Cons c cs)
  then show ?case by (cases c) (simp_all add: wake_flusher_def)
qed simp

lemma left_wake_producer: "sum_list (map client_left (map wake_producer cs)) \<le> sum_list (map client_left cs)"
proof (induction cs)
  case (Cons c cs)
  then show ?case by (cases c) (simp_all add: wake_producer_def)
qed simp

lemma pump_left_wake: "pump_left n (wake_pump p) \<le> pump_left n p"
  by (simp add: wake_pump_def)

lemma drain_client_test:
  assumes "lg_stopping s" and "client_test i s = Some s'"
  shows "lg_stopping s' \<and> log_measure s' < log_measure s"
proof -
  have i: "i < length (lg_clients s)" using assms(2) by (auto simp: client_test_def split: if_splits)
  note left = left_set_client [OF i, of Outside] left_set_client [OF i, of "Flush_sleep _"]
  show ?thesis
  proof (cases "lg_clients s ! i")
    case (Space_test r)
    then show ?thesis using assms i left(1) by (auto simp: client_test_def space_test_def log_measure_def set_client_def)
  next
    case (Flush_test t)
    then show ?thesis using assms i left(1) left(2) [of t] by (auto simp: client_test_def flush_test_def log_measure_def set_client_def)
  qed (use assms(2) i in \<open>auto simp: client_test_def\<close>)
qed

lemma drain_notify_space:
  assumes "lg_stopping s" and "notify_space w s = Some s'"
  shows "lg_stopping s' \<and> log_measure s' < log_measure s"
proof -
  obtain item where pump: "lg_pump s = Pump_hold item" using assms(2) by (auto simp: notify_space_def split: pump.splits)
  show ?thesis
  proof (cases w)
    case None
    then show ?thesis using assms pump by (auto simp: notify_space_def log_measure_def split: if_splits)
  next
    case (Some i)
    then obtain r where s': "i < length (lg_clients s)" "lg_clients s ! i = Space_sleep r"
        "s' = set_client i (Space_test r) (s\<lparr>lg_pump := Pump_work item\<rparr>)"
      using assms(2) pump by (cases "lg_clients s ! i") (auto simp: notify_space_def split: if_splits)
    then show ?thesis using left_set_client [OF s'(1), of "Space_test r"] assms(1) pump by (simp add: log_measure_def set_client_def)
  qed
qed

lemma drain_pump_check:
  assumes "lg_stopping s" and "pump_check s = Some s'"
  shows "lg_stopping s' \<and> log_measure s' < log_measure s"
proof -
  have pump: "lg_pump s = Pump_test" using assms(2) by (auto simp: pump_check_def split: if_splits)
  show ?thesis using pump_check_cases [OF assms(2)] assms(1) pump by (auto simp: log_measure_def)
qed

lemma sinks_frame [simp]:
  "lg_clients (deliver ops gmtime oom r s) = lg_clients s" "lg_queue (deliver ops gmtime oom r s) = lg_queue s"
  "lg_notify (deliver ops gmtime oom r s) = lg_notify s" "lg_phase (deliver ops gmtime oom r s) = lg_phase s"
  "lg_stopping (deliver ops gmtime oom r s) = lg_stopping s" "lg_stopping (flush_sinks ops s) = lg_stopping s"
  "lg_clients (flush_sinks ops s) = lg_clients s" "lg_queue (flush_sinks ops s) = lg_queue s"
  "lg_notify (flush_sinks ops s) = lg_notify s" "lg_phase (flush_sinks ops s) = lg_phase s"
  by (simp_all add: deliver_def flush_sinks_def split: prod.splits)

lemma drain_pump:
  "lg_stopping s \<Longrightarrow> pump_work ops gmtime oom s = Some s' \<Longrightarrow> lg_stopping s' \<and> log_measure s' < log_measure s"
  "lg_stopping s \<Longrightarrow> pump_complete s = Some s' \<Longrightarrow> lg_stopping s' \<and> log_measure s' < log_measure s"
  by (auto simp: pump_work_def pump_complete_def log_measure_def split: pump.splits queue_item.splits)

lemma drain_announce:
  "lg_stopping s \<Longrightarrow> pump_announce s = Some s' \<Longrightarrow> lg_stopping s' \<and> log_measure s' < log_measure s"
  using left_wake_flusher [of "lg_clients s"] by (auto simp: pump_announce_def log_measure_def simp del: map_map split: pump.splits)

lemma drain_notify_records:
  "lg_stopping s \<Longrightarrow> notify_records s = Some s' \<Longrightarrow> lg_stopping s' \<and> log_measure s' < log_measure s"
  using pump_left_wake [of "length (lg_clients s)" "lg_pump s"] by (auto simp: notify_records_def log_measure_def split: if_splits)

lemma drain_shutdown:
  "lg_stopping s \<Longrightarrow> shutdown_wake_pump s = Some s' \<Longrightarrow> lg_stopping s' \<and> log_measure s' < log_measure s"
  "lg_stopping s \<Longrightarrow> shutdown_wake_producers s = Some s' \<Longrightarrow> lg_stopping s' \<and> log_measure s' < log_measure s"
  "lg_stopping s \<Longrightarrow> shutdown_join s = Some s' \<Longrightarrow> lg_stopping s' \<and> log_measure s' < log_measure s"
  using pump_left_wake [of "length (lg_clients s)" "lg_pump s"] left_wake_producer [of "lg_clients s"]
  by (auto simp: shutdown_wake_pump_def shutdown_wake_producers_def shutdown_join_def log_measure_def simp del: map_map split: if_splits)

lemma drain_spurious:
  assumes "lg_stopping s" and "client_spurious i s = Some s'"
  shows "lg_stopping s' \<and> log_measure s' \<le> Suc (log_measure s)"
proof -
  have i: "i < length (lg_clients s)" "s' = set_client i (wake_client (lg_clients s ! i)) s"
    using assms(2) by (auto simp: client_spurious_def split: if_splits)
  have "client_left (wake_client (lg_clients s ! i)) \<le> Suc (client_left (lg_clients s ! i))" by (cases "lg_clients s ! i") simp_all
  then show ?thesis using left_set_client [OF i(1), of "wake_client (lg_clients s ! i)"] assms(1) by (simp add: i(2) log_measure_def set_client_def)
qed

text \<open>Once admissions are stopped, the calls of clients change nothing.\<close>

lemma drain_calls:
  "lg_stopping s \<Longrightarrow> fst (log b i r s) = s" "lg_stopping s \<Longrightarrow> fst (flush b i s) = s"
  by (simp_all add: log_def enqueue_def flush_def)

lemmas drain_ops = drain_notify_records drain_client_test drain_pump_check drain_notify_space drain_pump drain_announce drain_shutdown

lemma log_drain_step:
  assumes stop: "lg_stopping s" and step: "log_step ops gmtime l s = Some s'" and "l \<noteq> Shutdown"
  shows "lg_stopping s' \<and> log_measure s' + (if progress l then 1 else 0) \<le> log_measure s + (if spurious l then 1 else 0)"
proof (cases "progress l")
  case True
  then have "lg_stopping s' \<and> log_measure s' < log_measure s"
    using step by (cases l) (auto dest: drain_ops [OF stop])
  then show ?thesis using True by simp
next
  case False
  show ?thesis
  proof (cases l)
    case (Spurious i)
    then show ?thesis using drain_spurious [OF stop, of i s'] step by simp
  next
    case Spurious_pump
    then show ?thesis using step stop by (auto simp: log_measure_def split: if_splits)
  qed (use False assms in \<open>auto simp: drain_calls set_level_def log_measure_def split: if_splits\<close>)
qed

lemma log_drain_run:
  "lg_stopping s \<Longrightarrow> log_run ops gmtime ls s = Some s' \<Longrightarrow> Shutdown \<notin> set ls \<Longrightarrow>
    lg_stopping s' \<and> log_measure s' + length (filter progress ls) \<le> log_measure s + length (filter spurious ls)"
proof (induction ls arbitrary: s)
  case (Cons l ls)
  then obtain s1 where s1: "log_step ops gmtime l s = Some s1" "log_run ops gmtime ls s1 = Some s'" by (auto split: option.splits)
  have "l \<noteq> Shutdown" using Cons.prems(3) by auto
  from log_drain_step [OF Cons.prems(1) s1(1) this] Cons.IH [OF _ s1(2)] Cons.prems(3) show ?case by (auto split: if_splits)
qed simp

section \<open>Nobody is left behind\<close>

lemma stuck_phase:
  assumes inv: "wake_inv s" and stop: "lg_stopping s" and stuck: "\<And>l. progress l \<Longrightarrow> log_step ops gmtime l s = None"
  shows "lg_phase s = Joined" and "lg_pump s = Pump_done"
proof -
  have wakes: "pump_wakes s" using inv by (simp add: wake_inv_def)
  have "lg_phase s \<noteq> Open" "lg_phase s \<noteq> Flagged" "lg_phase s \<noteq> Pump_notified"
    using wakes stop stuck [of Wake_pump] stuck [of Wake_producers] by (auto simp: pump_wakes_def shutdown_wake_pump_def shutdown_wake_producers_def)
  moreover have "lg_pump s = Pump_done"
  proof (cases "lg_pump s")
    case Pump_test
    then show ?thesis using stuck [of Pump_check] stop by (auto simp: pump_check_def split: list.splits)
  next
    case (Pump_hold item)
    have "\<not> space_asleep x" if x: "x \<in> set (lg_clients s)" for x
    proof
      assume "space_asleep x"
      then obtain i where "i < length (lg_clients s)" "space_asleep (lg_clients s ! i)" using x by (auto simp: in_set_conv_nth)
      then show False using stuck [of "Notify_space (Some i)"] Pump_hold by (auto simp: notify_space_def)
    qed
    then show ?thesis using stuck [of "Notify_space None"] Pump_hold by (auto simp: notify_space_def)
  next
    case (Pump_work item)
    then show ?thesis using stuck [of "Pump_visit False"] by (cases item) (auto simp: pump_work_def)
  next
    case Pump_sleep
    then show ?thesis using wakes stop \<open>lg_phase s \<noteq> Flagged\<close> by (auto simp: pump_wakes_def)
  next
    case Final_flush
    then show ?thesis using stuck [of "Pump_visit False"] by (auto simp: pump_work_def)
  qed (use stuck [of Pump_complete] stuck [of Pump_announces] in \<open>auto simp: pump_complete_def pump_announce_def\<close>)
  ultimately show "lg_phase s = Joined" "lg_pump s = Pump_done"
    using stuck [of Join] by (cases "lg_phase s"; auto simp: shutdown_join_def)+
qed

lemma stuck_clients:
  assumes inv: "wake_inv s" and stop: "lg_stopping s" and stuck: "\<And>l. progress l \<Longrightarrow> log_step ops gmtime l s = None"
    and x: "x \<in> set (lg_clients s)"
  shows "x = Outside"
proof -
  note ph = stuck_phase [OF inv stop stuck]
  obtain i where i: "i < length (lg_clients s)" "lg_clients s ! i = x" using x by (auto simp: in_set_conv_nth)
  have test: "client_test i s = None" using stuck [of "Test i"] by simp
  show ?thesis
  proof (cases x)
    case (Space_sleep r)
    then have "0 < count_where space_asleep (lg_clients s)" using count_where_pos [OF i(1), of space_asleep] i(2) by simp
    then show ?thesis using inv stop ph(1) by (auto simp: wake_inv_def space_wakes_def)
  next
    case (Flush_sleep t)
    then have t: "t \<le> lg_requested s" "lg_completed s < t" using inv x ph(2) by (auto simp: wake_inv_def flush_wakes_def)
    have "tickets (unfinished s) = []" using inv ph(2) by (simp add: wake_inv_def log_inv_def unfinished_def)
    then have "lg_requested s \<le> lg_completed s" using inv by (auto simp: wake_inv_def log_inv_def queue_ok_def split: if_splits)
    then show ?thesis using t by simp
  qed (use test i in \<open>auto simp: client_test_def\<close>)
qed


definition demo_ops :: "string list sink_ops" where
  "demo_ops = \<lparr>so_write = (\<lambda>k r line. (k @ [lr_message r], False)), so_flush = (\<lambda>k. (k, True))\<rparr>"

definition demo_record :: "string \<Rightarrow> log_record" where
  "demo_record msg = \<lparr>lr_time = 0, lr_level = Info, lr_thread_id = 1, lr_message = msg\<rparr>"

definition demo_before :: "log_label list" where
  "demo_before = [Log 0 (demo_record ''a''), Log 1 (demo_record ''b''), Flush 2, Shutdown]"

definition demo_after :: "log_label list" where
  "demo_after = [Wake_pump, Pump_check, Wake_producers, Test 1, Notify_space None, Notify_records, Pump_visit False, Pump_check, Notify_space None,
     Pump_visit False, Pump_complete, Pump_announces, Test 2, Pump_check, Pump_visit False, Pump_complete, Pump_announces, Join]"


section \<open>The barrier of flush\<close>

lemma log_step_mono:
  assumes "log_step ops gmtime l s = Some s'"
  shows "prefix (lg_accepted s) (lg_accepted s') \<and> prefix (lg_marks s) (lg_marks s')"
proof -
  have "prefix (lg_accepted s) (lg_accepted (fst (space_test i r s)))"
      "lg_marks (fst (space_test i r s)) = lg_marks s" for i r
    by (simp_all add: space_test_def admit_def set_client_def)
  moreover have "lg_accepted (deliver ops gmtime oom r s) = lg_accepted s" "lg_marks (deliver ops gmtime oom r s) = lg_marks s"
      "lg_accepted (flush_sinks ops s) = lg_accepted s" "lg_marks (flush_sinks ops s) = lg_marks s" for oom r
    by (simp_all add: deliver_def flush_sinks_def split: prod.splits)
  ultimately show ?thesis using assms
    by (cases l)
      (auto simp: log_def enqueue_def admit_def set_level_def flush_def flush_test_def Let_def shutdown_flag_def notify_records_def pump_check_def
        notify_space_def pump_work_def pump_complete_def pump_announce_def shutdown_wake_pump_def shutdown_wake_producers_def shutdown_join_def
        client_test_def client_spurious_def set_client_def
        split: if_splits list.splits option.splits pump.splits queue_item.splits client.splits)
qed

lemma log_run_mono:
  "log_run ops gmtime ls s = Some s' \<Longrightarrow> prefix (lg_accepted s) (lg_accepted s') \<and> prefix (lg_marks s) (lg_marks s')"
proof (induction ls arbitrary: s)
  case (Cons l ls)
  then obtain s1 where s1: "log_step ops gmtime l s = Some s1" "log_run ops gmtime ls s1 = Some s'" by (auto split: option.splits)
  show ?case using Cons.IH [OF s1(2)] log_step_mono [OF s1(1)] prefix_order.trans by metis
qed simp

text \<open>A completed ticket: everything accepted before it was issued is delivered and flushed.\<close>

lemma completed_ticket:
  assumes "log_inv s" and "prefix (acc) (lg_accepted s)" and "k < lg_completed s" and "lg_marks s ! k = length acc"
  shows "prefix acc (take (lg_flushed s) (lg_delivered s))"
proof -
  have ok: "queue_ok (lg_accepted s) (lg_delivered s) (unfinished s) (lg_completed s) (lg_requested s) (lg_marks s) (lg_flushed s)"
    using assms(1) by (simp add: log_inv_def)
  then have "k < length (take (lg_completed s) (lg_marks s))" using assms(3) by (simp add: queue_ok_def)
  from nth_mem [OF this] have "lg_marks s ! k \<in> set (take (lg_completed s) (lg_marks s))" using assms(3) by simp
  then have "length acc \<le> lg_flushed s" "lg_flushed s \<le> length (lg_delivered s)" using ok assms(4) by (auto simp: queue_ok_def)
  moreover have "prefix (lg_delivered s) (lg_accepted s)" using ok by (simp add: queue_ok_def)
  ultimately have "prefix acc (lg_delivered s)" using assms(2) prefix_length_prefix order_trans by blast
  then show ?thesis using \<open>length acc \<le> lg_flushed s\<close> by (auto elim!: prefixE)
qed


definition demo_flush :: "log_label list" where
  "demo_flush = [Pump_check, Notify_space None, Pump_visit False, Pump_check, Notify_space None, Pump_visit False, Pump_complete, Pump_announces]"



section \<open>Sinks\<close>

fun sink_apply :: "'k sink_ops \<Rightarrow> (int \<Rightarrow> tm option) \<Rightarrow> sink_event \<Rightarrow> 'k \<Rightarrow> 'k" where
  "sink_apply ops gmtime (Ev_write r) k = fst (so_write ops k r (render_line gmtime r))"
| "sink_apply ops gmtime Ev_flush k = fst (so_flush ops k)"

fun written :: "sink_event list \<Rightarrow> log_record list" where
  "written [] = []"
| "written (Ev_write r # es) = r # written es"
| "written (Ev_flush # es) = written es"

lemma written_append: "written (xs @ ys) = written xs @ written ys"
  by (induction xs rule: written.induct) simp_all

lemma each_sink_map: "each_sink f ks n = (map (fst \<circ> f) ks, n + of_nat (count_where (snd \<circ> f) ks))"
  by (induction ks arbitrary: n) (auto split: prod.splits)

definition sinks_inv :: "'k sink_ops \<Rightarrow> (int \<Rightarrow> tm option) \<Rightarrow> 'k list \<Rightarrow> 'k logger \<Rightarrow> bool" where
  "sinks_inv ops gmtime ks s \<longleftrightarrow>
     lg_sinks s = map (fold (sink_apply ops gmtime) (lg_events s)) ks \<and> subseq (written (lg_events s)) (lg_delivered s)"

lemma sinks_inv_deliver: "sinks_inv ops gmtime ks s \<Longrightarrow> sinks_inv ops gmtime ks (deliver ops gmtime oom r s)"
  by (auto simp: sinks_inv_def deliver_def each_sink_map written_append list_emb_append_mono intro: subseq_rev_drop_many)

lemma sinks_inv_flush: "sinks_inv ops gmtime ks s \<Longrightarrow> sinks_inv ops gmtime ks (flush_sinks ops s)"
  by (auto simp: sinks_inv_def flush_sinks_def each_sink_map written_append)

lemma sinks_inv_step:
  assumes "sinks_inv ops gmtime ks s" and "log_step ops gmtime l s = Some s'"
  shows "sinks_inv ops gmtime ks s'"
proof (cases l)
  case (Pump_visit oom)
  have "sinks_inv ops gmtime ks (x\<lparr>lg_pump := p\<rparr>) = sinks_inv ops gmtime ks x" for x p by (simp add: sinks_inv_def)
  then show ?thesis using assms Pump_visit sinks_inv_deliver [OF assms(1)] sinks_inv_flush [OF assms(1)]
    by (auto simp: pump_work_def split: pump.splits queue_item.splits)
qed (use assms in \<open>auto simp: sinks_inv_def log_def enqueue_def admit_def set_level_def flush_def flush_test_def Let_def shutdown_flag_def
    notify_records_def pump_check_def notify_space_def pump_complete_def pump_announce_def shutdown_wake_pump_def
    shutdown_wake_producers_def shutdown_join_def client_test_def client_spurious_def set_client_def space_test_def
    split: if_splits list.splits option.splits pump.splits queue_item.splits client.splits\<close>)

interpretation log_sinks: step_invariant "log_step ops gmtime" "sinks_inv ops gmtime ks" for ops gmtime ks
  by unfold_locales (rule sinks_inv_step)

text \<open>
  Property C32. Sinks do not disturb each other: whatever the sinks throw, the state of every sink is the result of the same sequence of writes and
  flushes applied to it alone, and the records written are accepted ones in the order of acceptance.
\<close>

theorem logger_sinks_isolated:
  assumes "logger_new ks c pol n = Inr s0" and "log_run ops gmtime ls s0 = Some s"
  shows "lg_sinks s = map (fold (sink_apply ops gmtime) (lg_events s)) ks \<and> subseq (written (lg_events s)) (lg_accepted s)"
proof -
  have "sinks_inv ops gmtime ks s0" using assms(1) by (auto simp: logger_new_def sinks_inv_def split: if_splits)
  from log_sinks.run_inv [OF this assms(2)] have "sinks_inv ops gmtime ks s" .
  moreover have "log_inv s" using log_queue.run_inv [OF log_inv_new [OF assms(1)] assms(2)] .
  then have "prefix (lg_delivered s) (lg_accepted s)" by (simp add: log_inv_def queue_ok_def)
  from prefix_imp_subseq [OF this] have "subseq x (lg_delivered s) \<Longrightarrow> subseq x (lg_accepted s)" for x using subseq_order.trans by blast
  ultimately show ?thesis by (simp add: sinks_inv_def)
qed

theorem logger_sinks_isolated_witness:
  "\<exists>s0 s. logger_new [[''x''], []] 4 Drop 1 = Inr s0 \<and>
     log_run demo_ops (\<lambda>_. None) [Log 0 (demo_record ''a''), Pump_check, Notify_space None, Pump_visit False] s0 = Some s \<and>
     lg_sinks s = [[''x'', ''a''], [''a'']]"
proof -
  define s0 :: "string list logger" where "s0 = projr (logger_new [[''x''], []] 4 Drop 1)"
  have 1: "logger_new [[''x''], []] 4 Drop 1 = Inr s0" by (simp add: s0_def logger_new_def)
  have "map_option lg_events (log_run demo_ops (\<lambda>_. None) [Log 0 (demo_record ''a''), Pump_check, Notify_space None, Pump_visit False] s0) =
      Some [Ev_write (demo_record ''a'')]" unfolding s0_def by code_simp
  then obtain s where s: "log_run demo_ops (\<lambda>_. None) [Log 0 (demo_record ''a''), Pump_check, Notify_space None, Pump_visit False] s0 = Some s"
      "lg_events s = [Ev_write (demo_record ''a'')]" by auto
  then show ?thesis using logger_sinks_isolated [OF 1 s(1)] 1 by (auto simp: demo_ops_def demo_record_def)
qed

end
