(* ===== verification/Retry.thy ===== *)
theory Retry
  imports Egl_Prelude
begin

text \<open>
  Loops that make a system call again when it was interrupted. Such a loop may run for ever; it returns when the interruptions
  come to an end, and then it has the result of one call that was not interrupted.
\<close>

locale retry =
  fixes call :: "'s \<Rightarrow> 's \<times> 'r" and interrupted :: "'r \<Rightarrow> bool" and result :: "'s \<Rightarrow> 'r \<Rightarrow> 'q" and loop :: "'s \<Rightarrow> 'q option"
  assumes loop_eq: "loop s = (case call s of (s', r) \<Rightarrow> if interrupted r then loop s' else Some (result s' r))"
begin

lemma returns:
  assumes again: "\<And>s s' r. P s \<Longrightarrow> call s = (s', r) \<Longrightarrow> interrupted r \<Longrightarrow> P s' \<and> (budget s' :: nat) < budget s" and "P s"
  shows "\<exists>s0 s' r. P s0 \<and> call s0 = (s', r) \<and> \<not> interrupted r \<and> loop s = Some (result s' r)"
  using assms(2)
proof (induction "budget s" arbitrary: s rule: less_induct)
  case less
  obtain s' r where c: "call s = (s', r)" by fastforce
  show ?case
  proof (cases "interrupted r")
    case True
    then have "loop s = loop s'" using c by (simp add: loop_eq [of s])
    then show ?thesis using less.hyps [of s'] again [OF less.prems c True] by simp
  next
    case False
    then have "loop s = Some (result s' r)" using c by (simp add: loop_eq [of s])
    then show ?thesis using less.prems c False by blast
  qed
qed

end

section \<open>Transfers\<close>

text \<open>
  A call that transfers a prefix of its block, or fails and transfers nothing; \<open>content\<close> is what has been transferred so far.
  Only finitely many calls are interrupted or transfer nothing: \<open>budget\<close> counts them.
\<close>

definition transfer_contract ::
  "('s \<Rightarrow> 'a list \<Rightarrow> 's \<times> (int + nat)) \<Rightarrow> (int \<Rightarrow> bool) \<Rightarrow> ('s \<Rightarrow> 'a list) \<Rightarrow> ('s \<Rightarrow> nat) \<Rightarrow> bool" where
  "transfer_contract put interrupted content budget \<longleftrightarrow>
     (\<forall>s bs. bs \<noteq> [] \<longrightarrow> (case put s bs of
        (s', Inr n) \<Rightarrow> n \<le> length bs \<and> content s' = content s @ take n bs \<and> budget s' + (if n = 0 then 1 else 0) \<le> budget s
      | (s', Inl e) \<Rightarrow> content s' = content s \<and> budget s' + (if interrupted e then 1 else 0) \<le> budget s))"

text \<open>A loop that makes the call again for what is left, and again when it was interrupted.\<close>

locale transfer_loop =
  fixes put :: "'s \<Rightarrow> 'a list \<Rightarrow> 's \<times> (int + nat)" and interrupted :: "int \<Rightarrow> bool" and loop :: "'s \<Rightarrow> 'a list \<Rightarrow> ('s \<times> int option) option"
  assumes loop_eq: "loop s src =
    (if src = [] then Some (s, None)
     else (case put s src of
         (s', Inl e) \<Rightarrow> if interrupted e then loop s' src else Some (s', Some e)
       | (s', Inr n) \<Rightarrow> loop s' (drop n src)))"
begin

text \<open>The loop returns; it has transferred everything, or a proper prefix and reports the error.\<close>

lemma transfers:
  assumes con: "transfer_contract put interrupted content budget"
  shows "\<exists>s' r. loop s bs = Some (s', r) \<and>
    (case r of None \<Rightarrow> content s' = content s @ bs | Some e \<Rightarrow> \<exists>k < length bs. content s' = content s @ take k bs)"
proof (induction "length bs + budget s" arbitrary: bs s rule: less_induct)
  case less
  show ?case
  proof (cases "bs = []")
    case True
    then show ?thesis by (subst loop_eq) simp
  next
    case False
    obtain s1 r where r: "put s bs = (s1, r)" by fastforce
    note c = con [unfolded transfer_contract_def, rule_format, OF False, of s, unfolded r]
    show ?thesis
    proof (cases r)
      case (Inl e)
      show ?thesis
      proof (cases "interrupted e")
        case True
        then have eq: "loop s bs = loop s1 bs" using False r Inl by (subst loop_eq) simp
        have s1: "content s1 = content s" "length bs + budget s1 < length bs + budget s" using c Inl True by simp_all
        show ?thesis using less [OF s1(2)] unfolding eq s1(1) .
      next
        case no: False
        then have "loop s bs = Some (s1, Some e)" using False r Inl by (subst loop_eq) simp
        then show ?thesis using c Inl False by (auto intro: exI [of _ 0])
      qed
    next
      case (Inr n)
      have n: "n \<le> length bs" "content s1 = content s @ take n bs" "budget s1 + (if n = 0 then 1 else 0) \<le> budget s"
        using c unfolding Inr by simp_all
      then have dec: "length (drop n bs) + budget s1 < length bs + budget s" using False by (cases "n = 0") auto
      have eq: "loop s bs = loop s1 (drop n bs)" using r Inr False by (subst loop_eq) simp
      have "\<exists>k < length bs. take n bs @ take j (drop n bs) = take k bs" if "j < length (drop n bs)" for j
        using that by (intro exI [of _ "n + j"]) (simp add: take_add)
      then show ?thesis using less [OF dec] unfolding eq n(2) by (force split: option.splits)
    qed
  qed
qed

end

end
