(* ===== verification/File_System.thy ===== *)
theory File_System
  imports Retry
begin

text \<open>
  The part of file\_stream.cpp that owns the calls to the operating system, in both of its branches: \<open>open\<close>, \<open>read\<close>,
  \<open>write\<close> and \<open>close\<close> on POSIX, \<open>CreateFileA\<close>, \<open>ReadFile\<close>, \<open>WriteFile\<close> and \<open>CloseHandle\<close> on Windows. The calls are a
  parameter. Those of POSIX may be interrupted for ever, so the loops around them are partial: a result \<open>None\<close> means that a
  function does not return. The functions above this layer see one interface, whatever the platform.
\<close>

section \<open>POSIX\<close>

datatype file_mode = Read | Write | Append

text \<open>The flags of \<open>open\<close> that the code uses.\<close>

datatype open_flag = O_RDONLY | O_WRONLY | O_CREAT | O_TRUNC | O_APPEND

text \<open>A call returns its error number (\<open>Inl\<close>) or its result: the descriptor, the bytes read, the number of bytes written.\<close>

record 'os sys =
  sys_open :: "'os \<Rightarrow> string \<Rightarrow> open_flag list \<Rightarrow> nat \<Rightarrow> 'os \<times> (int + int)"
  sys_read :: "'os \<Rightarrow> int \<Rightarrow> nat \<Rightarrow> 'os \<times> (int + u8 list)"
  sys_write :: "'os \<Rightarrow> int \<Rightarrow> u8 list \<Rightarrow> 'os \<times> (int + nat)"
  sys_close :: "'os \<Rightarrow> int \<Rightarrow> 'os \<times> int option"

definition EINTR :: int where
  "EINTR = 4"

fun open_flags :: "file_mode \<Rightarrow> open_flag list" where
  "open_flags Read = [O_RDONLY]"
| "open_flags Write = [O_WRONLY, O_CREAT, O_TRUNC]"
| "open_flags Append = [O_WRONLY, O_CREAT, O_APPEND]"

text \<open>The system sees the path as a C string, up to its first null character. New files are \<open>rw-r--r--\<close>, octal 644.\<close>

definition c_str :: "string \<Rightarrow> string" where
  "c_str path = takeWhile (\<lambda>c. c \<noteq> CHR 0x00) path"

partial_function (option) posix_open :: "'os sys \<Rightarrow> 'os \<Rightarrow> string \<Rightarrow> file_mode \<Rightarrow> ('os \<times> (int + int)) option" where
  "posix_open sys os path mode =
     (case sys_open sys os (c_str path) (open_flags mode) 420 of
        (os', Inl e) \<Rightarrow> if e = EINTR then posix_open sys os' path mode else Some (os', Inl e)
      | (os', Inr fd) \<Rightarrow> Some (os', Inr fd))"

partial_function (option) posix_read :: "'os sys \<Rightarrow> 'os \<Rightarrow> int \<Rightarrow> nat \<Rightarrow> ('os \<times> (int + u8 list)) option" where
  "posix_read sys os h n =
     (case sys_read sys os h n of
        (os', Inl e) \<Rightarrow> if e = EINTR then posix_read sys os' h n else Some (os', Inl e)
      | (os', Inr bs) \<Rightarrow> Some (os', Inr bs))"

text \<open>The last argument is what is still to be written.\<close>

partial_function (option) posix_write_all :: "'os sys \<Rightarrow> 'os \<Rightarrow> int \<Rightarrow> u8 list \<Rightarrow> ('os \<times> int option) option" where
  "posix_write_all sys os h src =
     (if src = [] then Some (os, None)
      else (case sys_write sys os h src of
          (os', Inl e) \<Rightarrow> if e = EINTR then posix_write_all sys os' h src else Some (os', Some e)
        | (os', Inr n) \<Rightarrow> posix_write_all sys os' h (drop n src)))"

definition posix_close :: "'os sys \<Rightarrow> 'os \<Rightarrow> int \<Rightarrow> 'os \<times> int option" where
  "posix_close sys os h =
     (case sys_close sys os h of (os', r) \<Rightarrow> (os', if r = None \<or> r = Some EINTR then None else r))"

section \<open>Windows\<close>

datatype access_right = GENERIC_READ | GENERIC_WRITE | FILE_APPEND_DATA

datatype share_mode = FILE_SHARE_READ | FILE_SHARE_WRITE | FILE_SHARE_DELETE

datatype disposition = OPEN_EXISTING | CREATE_ALWAYS | OPEN_ALWAYS

text \<open>
  A call returns what \<open>GetLastError\<close> says after it failed (\<open>Inl\<close>, a \<open>DWORD\<close>) or its result: the handle, the bytes read, the
  number of bytes written. \<open>ReadFile\<close> gets the size of its block as a \<open>DWORD\<close>. The attributes of a new file are always
  \<open>FILE_ATTRIBUTE_NORMAL\<close>, and neither security attributes nor a template are given.
\<close>

record 'os win =
  CreateFileA :: "'os \<Rightarrow> string \<Rightarrow> access_right \<Rightarrow> share_mode list \<Rightarrow> disposition \<Rightarrow> 'os \<times> (u32 + int)"
  ReadFile :: "'os \<Rightarrow> int \<Rightarrow> u32 \<Rightarrow> 'os \<times> (u32 + u8 list)"
  WriteFile :: "'os \<Rightarrow> int \<Rightarrow> u8 list \<Rightarrow> 'os \<times> (u32 + u32)"
  CloseHandle :: "'os \<Rightarrow> int \<Rightarrow> 'os \<times> u32 option"

fun open_access :: "file_mode \<Rightarrow> access_right \<times> disposition" where
  "open_access Read = (GENERIC_READ, OPEN_EXISTING)"
| "open_access Write = (GENERIC_WRITE, CREATE_ALWAYS)"
| "open_access Append = (FILE_APPEND_DATA, OPEN_ALWAYS)"

text \<open>An error code as the \<open>int\<close> it is cast to, and the cap on the size of one transfer, \<open>numeric_limits<DWORD>::max()\<close>.\<close>

definition win_error :: "u32 \<Rightarrow> int" where
  "win_error e = sint e"

definition dword_max :: nat where
  "dword_max = 4294967295"

definition windows_open :: "'os win \<Rightarrow> 'os \<Rightarrow> string \<Rightarrow> file_mode \<Rightarrow> 'os \<times> (int + int)" where
  "windows_open win os path mode =
     (let (acc, disp) = open_access mode;
          (os', r) = CreateFileA win os (c_str path) acc [FILE_SHARE_READ, FILE_SHARE_WRITE, FILE_SHARE_DELETE] disp
      in (os', case r of Inl e \<Rightarrow> Inl (win_error e) | Inr h \<Rightarrow> Inr h))"

definition windows_read :: "'os win \<Rightarrow> 'os \<Rightarrow> int \<Rightarrow> nat \<Rightarrow> 'os \<times> (int + u8 list)" where
  "windows_read win os h n =
     (let capped = word_of_nat (min n dword_max); (os', r) = ReadFile win os h capped
      in (os', case r of Inl e \<Rightarrow> Inl (win_error e) | Inr bs \<Rightarrow> Inr bs))"

text \<open>One turn of the loop of \<open>os_write_all\<close>, and the loop; a call that writes nothing is made again, so it is partial too.\<close>

definition windows_write :: "'os win \<Rightarrow> 'os \<Rightarrow> int \<Rightarrow> u8 list \<Rightarrow> 'os \<times> (int + nat)" where
  "windows_write win os h chunk =
     (let capped = min (length chunk) dword_max; (os', r) = WriteFile win os h (take capped chunk)
      in (os', case r of Inl e \<Rightarrow> Inl (win_error e) | Inr wrote \<Rightarrow> Inr (unat wrote)))"

partial_function (option) windows_write_all :: "'os win \<Rightarrow> 'os \<Rightarrow> int \<Rightarrow> u8 list \<Rightarrow> ('os \<times> int option) option" where
  "windows_write_all win os h src =
     (if src = [] then Some (os, None)
      else (case windows_write win os h src of
          (os', Inl e) \<Rightarrow> Some (os', Some e)
        | (os', Inr wrote) \<Rightarrow> windows_write_all win os' h (drop wrote src)))"

definition windows_close :: "'os win \<Rightarrow> 'os \<Rightarrow> int \<Rightarrow> 'os \<times> int option" where
  "windows_close win os h = (case CloseHandle win os h of (os', r) \<Rightarrow> (os', map_option win_error r))"

section \<open>The layer the stream uses\<close>

text \<open>Which of the two branches is compiled.\<close>

datatype 'os platform = Posix "'os sys" | Windows "'os win"

fun os_open :: "'os platform \<Rightarrow> 'os \<Rightarrow> string \<Rightarrow> file_mode \<Rightarrow> ('os \<times> (int + int)) option" where
  "os_open (Posix sys) os path mode = posix_open sys os path mode"
| "os_open (Windows win) os path mode = Some (windows_open win os path mode)"

fun os_read :: "'os platform \<Rightarrow> 'os \<Rightarrow> int \<Rightarrow> nat \<Rightarrow> ('os \<times> (int + u8 list)) option" where
  "os_read (Posix sys) os h n = posix_read sys os h n"
| "os_read (Windows win) os h n = Some (windows_read win os h n)"

fun os_write_all :: "'os platform \<Rightarrow> 'os \<Rightarrow> int \<Rightarrow> u8 list \<Rightarrow> ('os \<times> int option) option" where
  "os_write_all (Posix sys) os h src = posix_write_all sys os h src"
| "os_write_all (Windows win) os h src = windows_write_all win os h src"

fun os_close :: "'os platform \<Rightarrow> 'os \<Rightarrow> int \<Rightarrow> 'os \<times> int option" where
  "os_close (Posix sys) os h = posix_close sys os h"
| "os_close (Windows win) os h = windows_close win os h"

declare posix_open.simps [code] posix_read.simps [code] posix_write_all.simps [code] windows_write_all.simps [code]

section \<open>What the system calls promise\<close>

text \<open>
  A write transfers a prefix of its block, or fails and transfers nothing; \<open>content\<close> is what the file behind the handle holds.
  \<open>WriteFile\<close> only promises it of blocks whose size is a \<open>DWORD\<close>.
\<close>

fun write_contract :: "'os platform \<Rightarrow> int \<Rightarrow> ('os \<Rightarrow> u8 list) \<Rightarrow> ('os \<Rightarrow> nat) \<Rightarrow> bool" where
  "write_contract (Posix sys) h content budget \<longleftrightarrow>
     transfer_contract (\<lambda>os. sys_write sys os h) (\<lambda>e. e = EINTR) content budget \<and>
     (\<forall>os. content (fst (sys_close sys os h)) = content os)"
| "write_contract (Windows win) h content budget \<longleftrightarrow>
     (\<forall>os bs. bs \<noteq> [] \<and> length bs \<le> dword_max \<longrightarrow> (case WriteFile win os h bs of
        (os', Inr n) \<Rightarrow> unat n \<le> length bs \<and> content os' = content os @ take (unat n) bs \<and> budget os' + (if n = 0 then 1 else 0) \<le> budget os
      | (os', Inl e) \<Rightarrow> content os' = content os \<and> budget os' \<le> budget os)) \<and>
     (\<forall>os. content (fst (CloseHandle win os h)) = content os)"

text \<open>
  A read takes a prefix of what is left, and nothing only at the end; \<open>rest\<close> is what is left. A failed call has an error code
  other than 0.
\<close>

fun read_contract :: "'os platform \<Rightarrow> int \<Rightarrow> ('os \<Rightarrow> u8 list) \<Rightarrow> ('os \<Rightarrow> nat) \<Rightarrow> bool" where
  "read_contract (Posix sys) h rest budget \<longleftrightarrow>
     (\<forall>os n. 0 < n \<longrightarrow> (case sys_read sys os h n of
        (os', Inr bs) \<Rightarrow> length bs \<le> n \<and> rest os = bs @ rest os' \<and> (bs = [] \<longrightarrow> rest os = []) \<and> budget os' \<le> budget os
      | (os', Inl e) \<Rightarrow> e \<noteq> 0 \<and> rest os' = rest os \<and> budget os' + (if e = EINTR then 1 else 0) \<le> budget os))"
| "read_contract (Windows win) h rest budget \<longleftrightarrow>
     (\<forall>os n. 0 < n \<longrightarrow> (case ReadFile win os h n of
        (os', Inr bs) \<Rightarrow> length bs \<le> unat n \<and> rest os = bs @ rest os' \<and> (bs = [] \<longrightarrow> rest os = [])
      | (os', Inl e) \<Rightarrow> e \<noteq> 0 \<and> rest os' = rest os))"

interpretation posix_open: retry "\<lambda>os. sys_open sys os (c_str path) (open_flags mode) 420" "\<lambda>r. r = Inl EINTR" Pair
    "\<lambda>os. posix_open sys os path mode" for sys path mode
  by unfold_locales (subst posix_open.simps, auto split: prod.split sum.split)

interpretation posix_read: retry "\<lambda>os. sys_read sys os h n" "\<lambda>r. r = Inl EINTR" Pair "\<lambda>os. posix_read sys os h n" for sys h n
  by unfold_locales (subst posix_read.simps, auto split: prod.split sum.split)

interpretation posix_write_all: transfer_loop "\<lambda>os. sys_write sys os h" "\<lambda>e. e = EINTR" "\<lambda>os. posix_write_all sys os h" for sys h
  by unfold_locales (rule posix_write_all.simps)

interpretation windows_write_all: transfer_loop "\<lambda>os. windows_write win os h" "\<lambda>e. False" "\<lambda>os. windows_write_all win os h" for win h
  by unfold_locales (subst windows_write_all.simps, simp cong: sum.case_cong)

section \<open>What the layer promises\<close>

lemma win_error_eq_0 [simp]: "win_error e = 0 \<longleftrightarrow> e = 0"
  by (simp add: win_error_def signed_eq_0_iff)

text \<open>The cap keeps the size of a block within a \<open>DWORD\<close>, and never makes it 0.\<close>

lemma capped_size:
  assumes "0 < n"
  shows "(word_of_nat (min n dword_max) :: u32) \<noteq> 0" and "unat (word_of_nat (min n dword_max) :: u32) \<le> n"
proof -
  have "unat (word_of_nat (min n dword_max) :: u32) = min n dword_max"
    by (simp add: unsigned_of_nat take_bit_nat_eq_self dword_max_def min_less_iff_disj)
  moreover have "min n dword_max \<noteq> 0" using assms by (simp add: dword_max_def)
  ultimately show "(word_of_nat (min n dword_max) :: u32) \<noteq> 0" "unat (word_of_nat (min n dword_max) :: u32) \<le> n"
    by auto
qed

lemma windows_write_transfers:
  assumes "write_contract (Windows win) h content budget"
  shows "transfer_contract (\<lambda>os. windows_write win os h) (\<lambda>e. False) content budget"
proof -
  have "case windows_write win os h bs of
        (os', Inr n) \<Rightarrow> n \<le> length bs \<and> content os' = content os @ take n bs \<and> budget os' + (if n = 0 then 1 else 0) \<le> budget os
      | (os', Inl e) \<Rightarrow> content os' = content os \<and> budget os' \<le> budget os" if bs: "bs \<noteq> []" for os bs
  proof -
    let ?block = "take (min (length bs) dword_max) bs"
    have block: "?block \<noteq> []" "length ?block \<le> dword_max" using bs by (simp_all add: dword_max_def)
    obtain os' r where r: "WriteFile win os h ?block = (os', r)" by fastforce
    have "case r of Inr n \<Rightarrow> unat n \<le> length ?block \<and> content os' = content os @ take (unat n) ?block \<and> budget os' + (if n = 0 then 1 else 0) \<le> budget os
      | Inl e \<Rightarrow> content os' = content os \<and> budget os' \<le> budget os"
      using conjunct1 [OF assms [unfolded write_contract.simps], rule_format, OF conjI [OF block], of os] unfolding r by (simp only: prod.case)
    then show ?thesis by (cases r) (simp_all add: windows_write_def r unat_eq_zero min_absorb1)
  qed
  then show ?thesis unfolding transfer_contract_def if_False add_0_right by (intro allI impI)
qed

lemma os_write_all_spec:
  assumes "write_contract sys h content budget"
  shows "\<exists>os' r. os_write_all sys os h bs = Some (os', r) \<and>
    (case r of None \<Rightarrow> content os' = content os @ bs | Some e \<Rightarrow> \<exists>k < length bs. content os' = content os @ take k bs)"
proof (cases sys)
  case (Posix s)
  then show ?thesis using assms posix_write_all.transfers [of s h content budget os bs] by simp
next
  case (Windows w)
  then show ?thesis using assms windows_write_all.transfers [OF windows_write_transfers, of w h content budget os bs] by simp
qed

lemma os_close_content: "write_contract sys h content budget \<Longrightarrow> content (fst (os_close sys os h)) = content os"
  by (cases sys) (simp_all add: posix_close_def windows_close_def case_prod_beta)

lemma os_read_spec:
  assumes con: "read_contract sys h rest budget" and n: "0 < n"
  shows "\<exists>os' r. os_read sys os h n = Some (os', r) \<and>
    (case r of Inl e \<Rightarrow> e \<noteq> 0 \<and> rest os' = rest os | Inr bs \<Rightarrow> length bs \<le> n \<and> rest os = bs @ rest os' \<and> (bs = [] \<longrightarrow> rest os = []))"
proof (cases sys)
  case (Posix s)
  have c: "case r of Inr bs \<Rightarrow> length bs \<le> n \<and> rest os = bs @ rest os1 \<and> (bs = [] \<longrightarrow> rest os = []) \<and> budget os1 \<le> budget os
      | Inl e \<Rightarrow> e \<noteq> 0 \<and> rest os1 = rest os \<and> budget os1 + (if e = EINTR then 1 else 0) \<le> budget os"
    if "sys_read s os h n = (os1, r)" for os os1 r
    using con [unfolded Posix read_contract.simps, rule_format, OF n, of os] by (simp add: that)
  obtain os0 os1 r where 1: "rest os0 = rest os" "sys_read s os0 h n = (os1, r)" "posix_read s os h n = Some (os1, r)"
    using posix_read.returns [of "\<lambda>os1. rest os1 = rest os" s h n budget os] c by fastforce
  then show ?thesis using c [OF 1(2)] Posix by (cases r) auto
next
  case (Windows w)
  let ?n = "word_of_nat (min n dword_max) :: u32"
  obtain os' r where r: "ReadFile w os h ?n = (os', r)" by fastforce
  have "0 < ?n" using capped_size(1) [OF n] by (simp add: word_neq_0_conv)
  then have "case r of Inr bs \<Rightarrow> length bs \<le> unat ?n \<and> rest os = bs @ rest os' \<and> (bs = [] \<longrightarrow> rest os = []) | Inl e \<Rightarrow> e \<noteq> 0 \<and> rest os' = rest os"
    using con [unfolded Windows read_contract.simps, rule_format, of ?n os] by (simp add: r)
  then show ?thesis using capped_size(2) [OF n] by (cases r) (auto simp: Windows windows_read_def r Let_def)
qed

end
