(* ===== verification/File_Stream.thy ===== *)
theory File_Stream
  imports File_System "HOL-Library.Monad_Syntax"
begin

text \<open>
  \<open>FileStream\<close> (file\_stream.hpp, file\_stream.cpp): a buffered wrapper of one file, over the layer of system calls of either
  platform. The loops of that layer are partial, so a result \<open>None\<close> means that a call does not return.
\<close>

section \<open>The stream\<close>

record file_stream =
  fs_handle :: int
  fs_buffer :: "u8 list"
  fs_pos :: nat
  fs_len :: nat
  fs_mode :: file_mode
  fs_error :: int
  fs_eof :: bool

definition fs_closed :: file_stream where
  "fs_closed = \<lparr>fs_handle = -1, fs_buffer = [], fs_pos = 0, fs_len = 0, fs_mode = Read, fs_error = 0, fs_eof = False\<rparr>"

definition fs_is_open :: "file_stream \<Rightarrow> bool" where
  "fs_is_open s \<longleftrightarrow> fs_handle s \<noteq> -1"

definition fs_open :: "'os platform \<Rightarrow> 'os \<Rightarrow> string \<Rightarrow> file_mode \<Rightarrow> nat \<Rightarrow> ('os \<times> file_stream) option" where
  "fs_open sys os path mode buffer_size =
     (let stream = fs_closed\<lparr>fs_mode := mode, fs_buffer := replicate (max buffer_size 1) 0\<rparr> in
      do {
        (os', r) \<leftarrow> os_open sys os path mode;
        Some (os', case r of Inl e \<Rightarrow> stream\<lparr>fs_error := e\<rparr> | Inr h \<Rightarrow> stream\<lparr>fs_handle := h\<rparr>)
      })"

text \<open>The bytes of the buffer that are still to be served.\<close>

definition fs_window :: "file_stream \<Rightarrow> u8 list" where
  "fs_window s = drop (fs_pos s) (take (fs_len s) (fs_buffer s))"

definition fill_buffer :: "'os platform \<Rightarrow> 'os \<times> file_stream \<Rightarrow> (('os \<times> file_stream) \<times> bool) option" where
  "fill_buffer sys st =
     (case st of (os, s) \<Rightarrow>
      let s = s\<lparr>fs_pos := 0, fs_len := 0\<rparr> in
      do {
        (os', r) \<leftarrow> os_read sys os (fs_handle s) (length (fs_buffer s));
        Some (case r of
            Inl e \<Rightarrow> ((os', s\<lparr>fs_error := e\<rparr>), False)
          | Inr bs \<Rightarrow>
              if bs = [] then ((os', s\<lparr>fs_eof := True\<rparr>), False)
              else ((os', s\<lparr>fs_buffer := bs @ drop (length bs) (fs_buffer s), fs_len := length bs\<rparr>), True))
      })"

definition flush_buffer :: "'os platform \<Rightarrow> 'os \<times> file_stream \<Rightarrow> (('os \<times> file_stream) \<times> bool) option" where
  "flush_buffer sys st =
     (case st of (os, s) \<Rightarrow>
      if fs_pos s = 0 then Some (st, True)
      else do {
        (os', r) \<leftarrow> os_write_all sys os (fs_handle s) (take (fs_pos s) (fs_buffer s));
        Some (case r of Some e \<Rightarrow> ((os', s\<lparr>fs_error := e\<rparr>), False) | None \<Rightarrow> ((os', s\<lparr>fs_pos := 0\<rparr>), True))
      })"

section \<open>Reading\<close>

definition refill :: "'os platform \<Rightarrow> 'os \<times> file_stream \<Rightarrow> (('os \<times> file_stream) \<times> bool) option" where
  "refill sys st = (if fs_pos (snd st) \<ge> fs_len (snd st) then fill_buffer sys st else Some (st, True))"

definition advance :: "nat \<Rightarrow> 'os \<times> file_stream \<Rightarrow> 'os \<times> file_stream" where
  "advance k st = (fst st, (snd st)\<lparr>fs_pos := fs_pos (snd st) + k\<rparr>)"

text \<open>The loop of \<open>read\<close>; \<open>out\<close> is the part of the destination that is filled.\<close>

partial_function (option) read_loop ::
  "'os platform \<Rightarrow> nat \<Rightarrow> u8 list \<Rightarrow> 'os \<times> file_stream \<Rightarrow> (('os \<times> file_stream) \<times> u8 list) option" where
  "read_loop sys n out st =
     (if length out < n then
        do {
          (st', ok) \<leftarrow> refill sys st;
          if ok then
            (let k = min (length (fs_window (snd st'))) (n - length out) in
             read_loop sys n (out @ take k (fs_window (snd st'))) (advance k st'))
          else Some (st', out)
        }
      else Some (st, out))"

definition fs_read :: "'os platform \<Rightarrow> nat \<Rightarrow> 'os \<times> file_stream \<Rightarrow> (('os \<times> file_stream) \<times> u8 list option cpp) option" where
  "fs_read sys n st =
     (if \<not> fs_is_open (snd st) then Some (st, Inr None)
      else if fs_mode (snd st) \<noteq> Read then Some (st, Inl (Logic_error ''FileStream::read on a stream not opened for reading''))
      else do {
        (st', out) \<leftarrow> read_loop sys n [] st;
        Some (st', Inr (if out = [] \<and> fs_error (snd st') \<noteq> 0 then None else Some out))
      })"

text \<open>The loop of \<open>read_line\<close>; the flag says that the newline was found.\<close>

partial_function (option) line_loop ::
  "'os platform \<Rightarrow> u8 list \<Rightarrow> 'os \<times> file_stream \<Rightarrow> (('os \<times> file_stream) \<times> u8 list \<times> bool) option" where
  "line_loop sys line st =
     do {
       (st', ok) \<leftarrow> refill sys st;
       if ok then
         (let window = fs_window (snd st'); before = takeWhile (\<lambda>b. b \<noteq> 10) window in
          if length before < length window then Some (advance (length before + 1) st', line @ before, True)
          else line_loop sys (line @ before) (advance (length before) st'))
       else Some (st', line, False)
     }"

definition strip_cr :: "u8 list \<Rightarrow> u8 list" where
  "strip_cr line = (if line \<noteq> [] \<and> last line = 13 then butlast line else line)"

definition fs_read_line :: "'os platform \<Rightarrow> 'os \<times> file_stream \<Rightarrow> (('os \<times> file_stream) \<times> u8 list option cpp) option" where
  "fs_read_line sys st =
     (if \<not> fs_is_open (snd st) then Some (st, Inr None)
      else if fs_mode (snd st) \<noteq> Read then Some (st, Inl (Logic_error ''FileStream::read_line on a stream not opened for reading''))
      else do {
        (st', line, found) \<leftarrow> line_loop sys [] st;
        Some (st', Inr (if found then Some (strip_cr line)
                        else if fs_error (snd st') \<noteq> 0 then None
                        else if line = [] then None
                        else Some line))
      })"

section \<open>Writing\<close>

definition fs_write :: "'os platform \<Rightarrow> u8 list \<Rightarrow> 'os \<times> file_stream \<Rightarrow> (('os \<times> file_stream) \<times> bool cpp) option" where
  "fs_write sys src st =
     (if \<not> fs_is_open (snd st) then Some (st, Inr False)
      else if fs_mode (snd st) \<noteq> Write \<and> fs_mode (snd st) \<noteq> Append then
        Some (st, Inl (Logic_error ''FileStream::write on a stream not opened for writing''))
      else if length src \<ge> length (fs_buffer (snd st)) then
        do {
          (st', ok) \<leftarrow> flush_buffer sys st;
          if \<not> ok then Some (st', Inr False)
          else do {
            (os, r) \<leftarrow> os_write_all sys (fst st') (fs_handle (snd st')) src;
            Some (case r of Some e \<Rightarrow> ((os, (snd st')\<lparr>fs_error := e\<rparr>), Inr False) | None \<Rightarrow> ((os, snd st'), Inr True))
          }
        }
      else
        do {
          (st', ok) \<leftarrow> (if fs_pos (snd st) + length src > length (fs_buffer (snd st)) then flush_buffer sys st else Some (st, True));
          if \<not> ok then Some (st', Inr False)
          else
            (let s = snd st' in
             Some ((fst st', s\<lparr>fs_buffer := take (fs_pos s) (fs_buffer s) @ src @ drop (fs_pos s + length src) (fs_buffer s),
                              fs_pos := fs_pos s + length src\<rparr>), Inr True))
        })"

definition fs_flush :: "'os platform \<Rightarrow> 'os \<times> file_stream \<Rightarrow> (('os \<times> file_stream) \<times> bool) option" where
  "fs_flush sys st =
     (if \<not> fs_is_open (snd st) then Some (st, False)
      else if fs_mode (snd st) = Read then Some (st, True)
      else flush_buffer sys st)"

definition fs_close :: "'os platform \<Rightarrow> 'os \<times> file_stream \<Rightarrow> (('os \<times> file_stream) \<times> bool) option" where
  "fs_close sys st =
     (if \<not> fs_is_open (snd st) then Some (st, True)
      else do {
        (st', ok) \<leftarrow> (if fs_mode (snd st) = Write \<or> fs_mode (snd st) = Append then flush_buffer sys st else Some (st, True));
        let (os, r) = os_close sys (fst st') (fs_handle (snd st')) in
        let s = (case r of Some e \<Rightarrow> (snd st')\<lparr>fs_error := e\<rparr> | None \<Rightarrow> snd st') in
        Some ((os, s\<lparr>fs_handle := -1, fs_pos := 0, fs_len := 0\<rparr>), ok \<and> r = None)
      })"

text \<open>Moving: the new stream, and what is left of the old one. Its buffer has been moved out.\<close>

definition fs_move :: "file_stream \<Rightarrow> file_stream \<times> file_stream" where
  "fs_move other = (other, other\<lparr>fs_handle := -1, fs_buffer := [], fs_pos := 0, fs_len := 0\<rparr>)"

definition fs_assign :: "'os platform \<Rightarrow> 'os \<Rightarrow> file_stream \<Rightarrow> file_stream \<Rightarrow> ('os \<times> file_stream \<times> file_stream) option" where
  "fs_assign sys os s other =
     do { (st, ok) \<leftarrow> fs_close sys (os, s); Some (fst st, fst (fs_move other), snd (fs_move other)) }"

definition fs_destroy :: "'os platform \<Rightarrow> 'os \<times> file_stream \<Rightarrow> 'os option" where
  "fs_destroy sys st = map_option (\<lambda>(st', ok). fst st') (fs_close sys st)"

declare read_loop.simps [code] line_loop.simps [code]

lemma fs_open_open:
  assumes "fs_open sys os path mode n = Some (os0, s0)" and "fs_is_open s0"
  shows "s0 = fs_closed\<lparr>fs_mode := mode, fs_buffer := replicate (max n 1) 0, fs_handle := fs_handle s0\<rparr>"
proof -
  obtain r where r: "os_open sys os path mode = Some (os0, r)"
      "s0 = (case r of Inl e \<Rightarrow> fs_closed\<lparr>fs_mode := mode, fs_buffer := replicate (max n 1) 0, fs_error := e\<rparr>
        | Inr h \<Rightarrow> fs_closed\<lparr>fs_mode := mode, fs_buffer := replicate (max n 1) 0, fs_handle := h\<rparr>)"
    using assms(1) by (auto simp: fs_open_def Let_def bind_eq_Some_conv simp del: One_nat_def)
  then show ?thesis using assms(2) by (cases r) (simp_all add: fs_is_open_def fs_closed_def)
qed

end
