(* ===== verification/File_Stream_Write.thy ===== *)
theory File_Stream_Write
  imports File_Stream
begin

text \<open>Writing through a \<open>FileStream\<close>: what was written reaches the file, once and in order, when no call reported an error.\<close>

section \<open>The stream\<close>

definition writer_ok :: "file_stream \<Rightarrow> bool" where
  "writer_ok s \<longleftrightarrow> fs_is_open s \<and> fs_mode s \<noteq> Read \<and> fs_buffer s \<noteq> [] \<and> fs_pos s \<le> length (fs_buffer s)"

text \<open>What the caller has written: what is in the file and what is in the buffer.\<close>

definition logical :: "('os \<Rightarrow> u8 list) \<Rightarrow> 'os \<times> file_stream \<Rightarrow> u8 list" where
  "logical content st = content (fst st) @ take (fs_pos (snd st)) (fs_buffer (snd st))"

lemma flush_buffer_spec:
  assumes con: "write_contract sys (fs_handle (snd st)) content budget" and ok: "writer_ok (snd st)"
  obtains st' b where "flush_buffer sys st = Some (st', b)" and "writer_ok (snd st')" and "fs_handle (snd st') = fs_handle (snd st)"
    and "fs_buffer (snd st') = fs_buffer (snd st)"
    and "b \<longrightarrow> fs_pos (snd st') = 0 \<and> content (fst st') = logical content st"
proof -
  obtain os s where st: "st = (os, s)" by fastforce
  show thesis
  proof (cases "fs_pos s = 0")
    case True
    show ?thesis by (rule that [of st True]) (use True ok in \<open>simp_all add: st flush_buffer_def logical_def\<close>)
  next
    case False
    from os_write_all_spec [OF con, of os "take (fs_pos s) (fs_buffer s)"]
    obtain os' r where r: "os_write_all sys os (fs_handle s) (take (fs_pos s) (fs_buffer s)) = Some (os', r)"
        "r = None \<Longrightarrow> content os' = content os @ take (fs_pos s) (fs_buffer s)"
      by (auto simp: st split: option.splits)
    show ?thesis
    proof (cases r)
      case None
      show ?thesis
        by (rule that [of "(os', s\<lparr>fs_pos := 0\<rparr>)" True])
          (use None r ok False in \<open>simp_all add: st flush_buffer_def logical_def writer_ok_def fs_is_open_def\<close>)
    next
      case (Some e)
      show ?thesis
        by (rule that [of "(os', s\<lparr>fs_error := e\<rparr>)" False])
          (use Some r ok False in \<open>simp_all add: st flush_buffer_def writer_ok_def fs_is_open_def\<close>)
    qed
  qed
qed

text \<open>Copying a block that fits into the buffer.\<close>

lemma buffer_copy:
  assumes "pos + length src \<le> length buf"
  shows "length (take pos buf @ src @ drop (pos + length src) buf) = length buf"
    and "take (pos + length src) (take pos buf @ src @ drop (pos + length src) buf) = take pos buf @ src"
proof -
  have "length (take pos buf) = pos" using assms by simp
  then show "length (take pos buf @ src @ drop (pos + length src) buf) = length buf"
    "take (pos + length src) (take pos buf @ src @ drop (pos + length src) buf) = take pos buf @ src"
    using assms by (simp_all del: length_take)
qed

lemma fs_write_spec:
  assumes con: "write_contract sys (fs_handle (snd st)) content budget" and ok: "writer_ok (snd st)"
  obtains st' b where "fs_write sys src st = Some (st', Inr b)" and "writer_ok (snd st')" and "fs_handle (snd st') = fs_handle (snd st)"
    and "b \<longrightarrow> logical content st' = logical content st @ src"
proof -
  have mode: "fs_is_open (snd st)" "fs_mode (snd st) = Write \<or> fs_mode (snd st) = Append"
    using ok by (auto simp: writer_ok_def intro: file_mode.exhaust)
  have guard: "\<not> (fs_mode (snd st) \<noteq> Write \<and> fs_mode (snd st) \<noteq> Append)" using mode(2) by blast
  obtain st1 b1 where f: "flush_buffer sys st = Some (st1, b1)" "writer_ok (snd st1)" "fs_handle (snd st1) = fs_handle (snd st)"
      "fs_buffer (snd st1) = fs_buffer (snd st)" "b1 \<longrightarrow> fs_pos (snd st1) = 0 \<and> content (fst st1) = logical content st"
    by (rule flush_buffer_spec [OF con ok])
  show thesis
  proof (cases "length src \<ge> length (fs_buffer (snd st))")
    case True
    show ?thesis
    proof (cases b1)
      case False
      then show ?thesis using that [of st1 False] f True mode(1) guard by (simp add: fs_write_def)
    next
      case b1: True
      from os_write_all_spec [OF con, of "fst st1" src]
      obtain os' r where r: "os_write_all sys (fst st1) (fs_handle (snd st)) src = Some (os', r)" "r = None \<Longrightarrow> content os' = content (fst st1) @ src"
        by (auto split: option.splits)
      show ?thesis
      proof (cases r)
        case None
        show ?thesis
          by (rule that [of "(os', snd st1)" True]) (use f r b1 None True mode(1) guard in \<open>simp_all add: fs_write_def logical_def\<close>)
      next
        case (Some e)
        show ?thesis
          by (rule that [of "(os', (snd st1)\<lparr>fs_error := e\<rparr>)" False])
            (use f r b1 Some True mode(1) guard in \<open>simp_all add: fs_write_def writer_ok_def fs_is_open_def\<close>)
      qed
    qed
  next
    case small: False
    define st2 where "st2 = (if fs_pos (snd st) + length src > length (fs_buffer (snd st)) then (st1, b1) else (st, True))"
    have eq: "(if fs_pos (snd st) + length src > length (fs_buffer (snd st)) then flush_buffer sys st else Some (st, True)) = Some st2"
      using f(1) by (simp add: st2_def)
    have s2: "writer_ok (snd (fst st2))" "fs_handle (snd (fst st2)) = fs_handle (snd st)" using f ok by (simp_all add: st2_def)
    show ?thesis
    proof (cases "snd st2")
      case False
      then show ?thesis using that [of "fst st2" False] s2 eq small mode(1) guard by (cases st2) (simp add: fs_write_def)
    next
      case True
      let ?s = "snd (fst st2)"
      have fit: "fs_pos ?s + length src \<le> length (fs_buffer ?s)" and log: "logical content (fst st2) = logical content st"
        using True small f by (auto simp: st2_def logical_def split: if_splits)
      note copy = buffer_copy [OF fit]
      show ?thesis
        by (rule that [of "(fst (fst st2), ?s\<lparr>fs_buffer := take (fs_pos ?s) (fs_buffer ?s) @ src @ drop (fs_pos ?s + length src) (fs_buffer ?s),
            fs_pos := fs_pos ?s + length src\<rparr>)" True])
          (use True s2 eq small mode(1) guard log copy fit in
            \<open>cases st2; auto simp: fs_write_def Let_def logical_def writer_ok_def fs_is_open_def simp del: append_take_drop_id\<close>)+
    qed
  qed
qed

section \<open>Sequences of writes\<close>

datatype write_op = Put "u8 list" | Sync

primrec op_bytes :: "write_op \<Rightarrow> u8 list" where
  "op_bytes (Put bs) = bs"
| "op_bytes Sync = []"

fun write_step :: "'os platform \<Rightarrow> write_op \<Rightarrow> 'os \<times> file_stream \<Rightarrow> (('os \<times> file_stream) \<times> bool) option" where
  "write_step sys (Put bs) st = map_option (\<lambda>(st', r). (st', r = Inr True)) (fs_write sys bs st)"
| "write_step sys Sync st = fs_flush sys st"

text \<open>The results of the calls, in order.\<close>

fun write_steps :: "'os platform \<Rightarrow> write_op list \<Rightarrow> 'os \<times> file_stream \<Rightarrow> (('os \<times> file_stream) \<times> bool list) option" where
  "write_steps sys [] st = Some (st, [])"
| "write_steps sys (x # xs) st =
     do { (st', b) \<leftarrow> write_step sys x st; (st'', bs) \<leftarrow> write_steps sys xs st'; Some (st'', b # bs) }"

lemma write_step_spec:
  assumes con: "write_contract sys (fs_handle (snd st)) content budget" and ok: "writer_ok (snd st)"
  obtains st' b where "write_step sys x st = Some (st', b)" and "writer_ok (snd st')" and "fs_handle (snd st') = fs_handle (snd st)"
    and "b \<longrightarrow> logical content st' = logical content st @ op_bytes x"
proof (cases x)
  case (Put bs)
  obtain st' b where "fs_write sys bs st = Some (st', Inr b)" "writer_ok (snd st')" "fs_handle (snd st') = fs_handle (snd st)"
      "b \<longrightarrow> logical content st' = logical content st @ bs"
    by (rule fs_write_spec [OF con ok])
  then show ?thesis using that [of st' b] Put by simp
next
  case Sync
  obtain st' b where "flush_buffer sys st = Some (st', b)" "writer_ok (snd st')" "fs_handle (snd st') = fs_handle (snd st)"
      "fs_buffer (snd st') = fs_buffer (snd st)" "b \<longrightarrow> fs_pos (snd st') = 0 \<and> content (fst st') = logical content st"
    by (rule flush_buffer_spec [OF con ok])
  moreover have "fs_flush sys st = flush_buffer sys st" using ok by (simp add: fs_flush_def writer_ok_def)
  ultimately show ?thesis using that [of st' b] Sync by (simp add: logical_def)
qed

lemma write_steps_spec:
  "write_contract sys (fs_handle (snd st)) content budget \<Longrightarrow> writer_ok (snd st) \<Longrightarrow>
    \<exists>st' bs. write_steps sys xs st = Some (st', bs) \<and> length bs = length xs \<and> writer_ok (snd st') \<and> fs_handle (snd st') = fs_handle (snd st) \<and>
      (list_all id bs \<longrightarrow> logical content st' = logical content st @ concat (map op_bytes xs))"
proof (induction xs arbitrary: st)
  case (Cons x xs)
  obtain st1 b where 1: "write_step sys x st = Some (st1, b)" "writer_ok (snd st1)" "fs_handle (snd st1) = fs_handle (snd st)"
      "b \<longrightarrow> logical content st1 = logical content st @ op_bytes x"
    by (rule write_step_spec [OF Cons.prems])
  from Cons.IH [of st1] 1 Cons.prems(1) show ?case by auto
qed simp

lemma fs_close_spec:
  assumes con: "write_contract sys (fs_handle (snd st)) content budget" and ok: "writer_ok (snd st)"
  shows "\<exists>st' b. fs_close sys st = Some (st', b) \<and> \<not> fs_is_open (snd st') \<and> (b \<longrightarrow> content (fst st') = logical content st)"
proof -
  obtain st1 b where 1: "flush_buffer sys st = Some (st1, b)" "writer_ok (snd st1)" "fs_handle (snd st1) = fs_handle (snd st)"
      "fs_buffer (snd st1) = fs_buffer (snd st)" "b \<longrightarrow> fs_pos (snd st1) = 0 \<and> content (fst st1) = logical content st"
    by (rule flush_buffer_spec [OF con ok])
  have mode: "fs_is_open (snd st)" "fs_mode (snd st) = Write \<or> fs_mode (snd st) = Append"
    using ok by (auto simp: writer_ok_def intro: file_mode.exhaust)
  obtain os r where r: "os_close sys (fst st1) (fs_handle (snd st)) = (os, r)" by fastforce
  then have "content os = content (fst st1)" using os_close_content [OF con, of "fst st1"] by simp
  then show ?thesis using 1 mode r by (auto simp: fs_close_def fs_is_open_def Let_def split: option.splits)
qed

text \<open>
  Property C33. Whatever the sizes of the blocks and of the buffer, and however the system splits or interrupts the transfers, every call on a
  stream opened for writing returns; and when none of them reported an error, closing it without an error leaves in the file
  exactly what was there followed by the blocks in order.
\<close>

theorem file_stream_writes:
  assumes "fs_open sys os path mode buffer_size = Some (os0, s0)" and "fs_is_open s0" and "mode \<noteq> Read"
    and "write_contract sys (fs_handle s0) content budget"
  shows "\<exists>st' bs st'' b. write_steps sys xs (os0, s0) = Some (st', bs) \<and> length bs = length xs \<and> fs_close sys st' = Some (st'', b) \<and>
    \<not> fs_is_open (snd st'') \<and> (list_all id bs \<and> b \<longrightarrow> content (fst st'') = content os0 @ concat (map op_bytes xs))"
proof -
  have s0: "writer_ok s0" "fs_pos s0 = 0"
    using arg_cong [OF fs_open_open [OF assms(1,2)], of fs_pos] arg_cong [OF fs_open_open [OF assms(1,2)], of fs_mode]
      arg_cong [OF fs_open_open [OF assms(1,2)], of fs_buffer] assms(2,3) by (simp_all add: fs_closed_def writer_ok_def)
  from write_steps_spec [of sys "(os0, s0)" content budget xs] assms(4) s0(1)
  obtain st' bs where 1: "write_steps sys xs (os0, s0) = Some (st', bs)" "length bs = length xs" "writer_ok (snd st')" "fs_handle (snd st') = fs_handle s0"
      "list_all id bs \<longrightarrow> logical content st' = logical content (os0, s0) @ concat (map op_bytes xs)" by auto
  have "write_contract sys (fs_handle (snd st')) content budget" using assms(4) 1(4) by simp
  from fs_close_spec [OF this 1(3)] obtain st'' b where 2: "fs_close sys st' = Some (st'', b)" "\<not> fs_is_open (snd st'')"
      "b \<longrightarrow> content (fst st'') = logical content st'" by blast
  have "logical content (os0, s0) = content os0" by (simp add: logical_def s0(2))
  then have "list_all id bs \<and> b \<longrightarrow> content (fst st'') = content os0 @ concat (map op_bytes xs)" using 1(5) 2(3) by simp
  then show ?thesis using 1(1,2) 2(1,2) by blast
qed

section \<open>A system\<close>

text \<open>
  A system with one file whose next transfers are scripted: an error number, or how many bytes the call takes at most. When the
  script is over, everything is taken.
\<close>

type_synonym scripted = "u8 list \<times> (int + nat) list"

fun scripted_write :: "scripted \<Rightarrow> int \<Rightarrow> u8 list \<Rightarrow> scripted \<times> (int + nat)" where
  "scripted_write (file, []) h bs = ((file @ bs, []), Inr (length bs))"
| "scripted_write (file, Inl e # script) h bs = ((file, script), Inl e)"
| "scripted_write (file, Inr n # script) h bs = ((file @ take n bs, script), Inr (min n (length bs)))"

definition scripted_sys :: "scripted platform" where
  "scripted_sys = Posix \<lparr>sys_open = (\<lambda>os path flags perms. (os, Inr 3)), sys_read = (\<lambda>os h n. (os, Inr [])), sys_write = scripted_write,
     sys_close = (\<lambda>os h. (os, None))\<rparr>"

lemma scripted_contract: "write_contract scripted_sys h fst (\<lambda>os. length (snd os))"
proof -
  have "case scripted_write os h bs of
        (os', Inr n) \<Rightarrow> n \<le> length bs \<and> fst os' = fst os @ take n bs \<and> length (snd os') + (if n = 0 then 1 else 0) \<le> length (snd os)
      | (os', Inl e) \<Rightarrow> fst os' = fst os \<and> length (snd os') + (if e = EINTR then 1 else 0) \<le> length (snd os)" if "bs \<noteq> []" for os bs
    using that by (induction os h bs rule: scripted_write.induct) (auto simp: min_def)
  then show ?thesis by (simp add: transfer_contract_def scripted_sys_def)
qed

lemmas scripted_simps = scripted_sys_def fs_open_def posix_open.simps fs_closed_def fs_write_def fs_flush_def fs_is_open_def flush_buffer_def
  posix_write_all.simps fs_close_def posix_close_def EINTR_def

text \<open>The same for Windows, with error codes and counts of 32 bits.\<close>

type_synonym win_scripted = "u8 list \<times> (u32 + u32) list"

fun win_scripted_write :: "win_scripted \<Rightarrow> int \<Rightarrow> u8 list \<Rightarrow> win_scripted \<times> (u32 + u32)" where
  "win_scripted_write (file, []) h bs = ((file @ bs, []), Inr (word_of_nat (length bs)))"
| "win_scripted_write (file, Inl e # script) h bs = ((file, script), Inl e)"
| "win_scripted_write (file, Inr n # script) h bs = ((file @ take (unat n) bs, script), Inr (word_of_nat (min (unat n) (length bs))))"

definition scripted_win :: "win_scripted platform" where
  "scripted_win = Windows \<lparr>CreateFileA = (\<lambda>os path acc share disp. (os, Inr 3)), ReadFile = (\<lambda>os h n. (os, Inr [])),
     WriteFile = win_scripted_write, CloseHandle = (\<lambda>os h. (os, None))\<rparr>"

lemma dword_count: "n \<le> dword_max \<Longrightarrow> unat (word_of_nat n :: u32) = n"
  by (simp add: unsigned_of_nat take_bit_nat_eq_self dword_max_def)

lemma win_scripted_contract: "write_contract scripted_win h fst (\<lambda>os. length (snd os))"
proof -
  have zero: "word_of_nat n = (0 :: u32) \<longleftrightarrow> n = 0" if "n \<le> dword_max" for n
    using dword_count [OF that] by (auto simp flip: unsigned_eq_0_iff)
  have "case win_scripted_write os h bs of
        (os', Inr n) \<Rightarrow> unat n \<le> length bs \<and> fst os' = fst os @ take (unat n) bs \<and> length (snd os') + (if n = 0 then 1 else 0) \<le> length (snd os)
      | (os', Inl e) \<Rightarrow> fst os' = fst os \<and> length (snd os') \<le> length (snd os)" if "bs \<noteq> []" "length bs \<le> dword_max" for os bs
    using that by (induction os h bs rule: win_scripted_write.induct) (auto simp: dword_count zero min_le_iff_disj, auto simp: min_def split: if_splits)
  then show ?thesis by (simp add: scripted_win_def)
qed

lemmas win_scripted_simps = scripted_win_def fs_closed_def fs_write_def fs_flush_def fs_is_open_def flush_buffer_def
  windows_write_all.simps windows_write_def dword_max_def fs_close_def windows_close_def

definition demo_stream :: file_stream where
  "demo_stream = fs_closed\<lparr>fs_mode := Write, fs_buffer := [0, 0, 0, 0], fs_handle := 3\<rparr>"

theorem file_stream_writes_witness:
  "(\<exists>st' st''. write_steps scripted_sys [Put [1, 2], Put [3, 4, 5], Sync] (([], [Inl 4, Inr 1]), demo_stream) = Some (st', [True, True, True]) \<and>
     fs_close scripted_sys st' = Some (st'', True) \<and> fst (fst st'') = [1, 2, 3, 4, 5]) \<and>
   (\<exists>st' st''. write_steps scripted_win [Put [1, 2], Put [3, 4, 5], Sync] (([], [Inr 0, Inr 1]), demo_stream) = Some (st', [True, True, True]) \<and>
     fs_close scripted_win st' = Some (st'', True) \<and> fst (fst st'') = [1, 2, 3, 4, 5])"
proof
  let ?w = "write_steps scripted_sys [Put [1, 2], Put [3, 4, 5], Sync] (([], [Inl 4, Inr 1]), demo_stream)"
  have o: "fs_open scripted_sys ([], [Inl 4, Inr 1]) ''f'' Write 4 = Some (([], [Inl 4, Inr 1]), demo_stream)"
    by (simp add: scripted_sys_def fs_open_def posix_open.simps numeral_eq_Suc demo_stream_def)
  have ok: "fs_is_open demo_stream" by (simp add: demo_stream_def fs_is_open_def)
  have "map_option (\<lambda>(st, bs). (bs, map_option snd (fs_close scripted_sys st))) ?w = Some ([True, True, True], Some True)"
    by code_simp
  then show "\<exists>st' st''. ?w = Some (st', [True, True, True]) \<and> fs_close scripted_sys st' = Some (st'', True) \<and> fst (fst st'') = [1, 2, 3, 4, 5]"
    using file_stream_writes [OF o ok _ scripted_contract, of "[Put [1, 2], Put [3, 4, 5], Sync]"] by auto
  have w: "fs_open scripted_win ([], [Inr 0, Inr 1]) ''f'' Write 4 = Some (([], [Inr 0, Inr 1]), demo_stream)"
    by (simp add: scripted_win_def fs_open_def windows_open_def numeral_eq_Suc demo_stream_def)
  have "map_option (\<lambda>(st, bs). (bs, map_option snd (fs_close scripted_win st)))
      (write_steps scripted_win [Put [1, 2], Put [3, 4, 5], Sync] (([], [Inr 0, Inr 1]), demo_stream)) = Some ([True, True, True], Some True)"
    by (simp add: win_scripted_simps demo_stream_def)
  then show "\<exists>st' st''. write_steps scripted_win [Put [1, 2], Put [3, 4, 5], Sync] (([], [Inr 0, Inr 1]), demo_stream) = Some (st', [True, True, True]) \<and>
     fs_close scripted_win st' = Some (st'', True) \<and> fst (fst st'') = [1, 2, 3, 4, 5]"
    using file_stream_writes [OF w ok _ win_scripted_contract, of "[Put [1, 2], Put [3, 4, 5], Sync]"] by auto
qed


end
