(* ===== verification/File_Stream_Read.thy ===== *)
theory File_Stream_Read
  imports File_Stream
begin

text \<open>Reading through a \<open>FileStream\<close>: blocks and lines come out as they are in the file, whatever the buffer and the transfers.\<close>

section \<open>The stream\<close>

definition reader_ok :: "file_stream \<Rightarrow> bool" where
  "reader_ok s \<longleftrightarrow> fs_is_open s \<and> fs_mode s = Read \<and> fs_buffer s \<noteq> [] \<and> fs_len s \<le> length (fs_buffer s)"

text \<open>What the caller has still to get: the rest of the buffer and of the file.\<close>

definition remaining :: "('os \<Rightarrow> u8 list) \<Rightarrow> 'os \<times> file_stream \<Rightarrow> u8 list" where
  "remaining rest st = fs_window (snd st) @ rest (fst st)"

lemma window_empty: "fs_len s \<le> length (fs_buffer s) \<Longrightarrow> fs_window s = [] \<longleftrightarrow> fs_len s \<le> fs_pos s"
  by (simp add: fs_window_def)

lemma refill_spec:
  assumes con: "read_contract sys (fs_handle (snd st)) rest budget" and ok: "reader_ok (snd st)"
  obtains st' b where "refill sys st = Some (st', b)" and "reader_ok (snd st')" and "fs_handle (snd st') = fs_handle (snd st)"
    and "remaining rest st' = remaining rest st" and "b \<longrightarrow> fs_window (snd st') \<noteq> [] \<and> fs_error (snd st') = fs_error (snd st)"
    and "\<not> b \<longrightarrow> fs_window (snd st') = [] \<and> (fs_error (snd st') \<noteq> 0 \<or> remaining rest st = [] \<and> fs_error (snd st') = fs_error (snd st))"
proof -
  obtain os s where st: "st = (os, s)" by fastforce
  have len: "fs_len s \<le> length (fs_buffer s)" "0 < length (fs_buffer s)" using ok by (simp_all add: st reader_ok_def)
  show thesis
  proof (cases "fs_pos s \<ge> fs_len s")
    case False
    then have "fs_window s \<noteq> []" using window_empty [OF len(1)] by simp
    then show ?thesis using that [of st True] False ok by (simp add: refill_def st)
  next
    case True
    then have w: "fs_window s = []" using window_empty [OF len(1)] by simp
    have con': "read_contract sys (fs_handle s) rest budget" using con by (simp add: st)
    from os_read_spec [OF con' len(2), of os] obtain os' r where r: "os_read sys os (fs_handle s) (length (fs_buffer s)) = Some (os', r)"
        "case r of Inl e \<Rightarrow> e \<noteq> 0 \<and> rest os' = rest os
         | Inr bs \<Rightarrow> length bs \<le> length (fs_buffer s) \<and> rest os = bs @ rest os' \<and> (bs = [] \<longrightarrow> rest os = [])" by blast
    show ?thesis
    proof (cases r)
      case (Inl e)
      show ?thesis
        by (rule that [of "(os', s\<lparr>fs_pos := 0, fs_len := 0, fs_error := e\<rparr>)" False])
          (use True r Inl w ok in \<open>simp_all add: refill_def fill_buffer_def Let_def st reader_ok_def fs_is_open_def remaining_def fs_window_def\<close>)
    next
      case (Inr bs)
      show ?thesis
      proof (cases "bs = []")
        case nil: True
        show ?thesis
          by (rule that [of "(os', s\<lparr>fs_pos := 0, fs_len := 0, fs_eof := True\<rparr>)" False])
            (use True r Inr w ok nil in \<open>auto simp: refill_def fill_buffer_def Let_def st reader_ok_def fs_is_open_def remaining_def fs_window_def\<close>)
      next
        case False
        show ?thesis
          by (rule that [of "(os', s\<lparr>fs_pos := 0, fs_buffer := bs @ drop (length bs) (fs_buffer s), fs_len := length bs\<rparr>)" True])
            (use True r Inr w ok False in \<open>simp_all add: refill_def fill_buffer_def Let_def st reader_ok_def fs_is_open_def remaining_def fs_window_def\<close>)
      qed
    qed
  qed
qed

lemma advance_spec:
  assumes "reader_ok (snd st)" and "k \<le> length (fs_window (snd st))"
  shows "reader_ok (snd (advance k st))" and "fs_handle (snd (advance k st)) = fs_handle (snd st)" and "fs_error (snd (advance k st)) = fs_error (snd st)"
    and "fs_window (snd (advance k st)) = drop k (fs_window (snd st))" and "remaining rest st = take k (fs_window (snd st)) @ remaining rest (advance k st)"
proof -
  show "reader_ok (snd (advance k st))" "fs_handle (snd (advance k st)) = fs_handle (snd st)" "fs_error (snd (advance k st)) = fs_error (snd st)"
    using assms(1) by (simp_all add: advance_def reader_ok_def fs_is_open_def)
  show w: "fs_window (snd (advance k st)) = drop k (fs_window (snd st))" by (simp add: advance_def fs_window_def add.commute)
  show "remaining rest st = take k (fs_window (snd st)) @ remaining rest (advance k st)"
    unfolding remaining_def w by (simp add: advance_def flip: append_assoc)
qed

section \<open>Blocks\<close>

lemma read_loop_spec:
  "read_contract sys (fs_handle (snd st)) rest budget \<Longrightarrow> reader_ok (snd st) \<Longrightarrow> length out \<le> n \<Longrightarrow>
    \<exists>st' bs. read_loop sys n out st = Some (st', out @ bs) \<and> reader_ok (snd st') \<and> fs_handle (snd st') = fs_handle (snd st) \<and>
      remaining rest st = bs @ remaining rest st' \<and> length (out @ bs) \<le> n \<and>
      (length (out @ bs) < n \<longrightarrow> fs_error (snd st') \<noteq> 0 \<or> remaining rest st' = [] \<and> fs_error (snd st') = fs_error (snd st)) \<and>
      (length (out @ bs) = n \<longrightarrow> fs_error (snd st') = fs_error (snd st))"
proof (induction "n - length out" arbitrary: out st rule: less_induct)
  case less
  show ?case
  proof (cases "length out < n")
    case False
    then show ?thesis using less.prems by (subst read_loop.simps) simp
  next
    case True
    obtain st1 b where 1: "refill sys st = Some (st1, b)" "reader_ok (snd st1)" "fs_handle (snd st1) = fs_handle (snd st)"
        "remaining rest st1 = remaining rest st" "b \<longrightarrow> fs_window (snd st1) \<noteq> [] \<and> fs_error (snd st1) = fs_error (snd st)"
        "\<not> b \<longrightarrow> fs_window (snd st1) = [] \<and> (fs_error (snd st1) \<noteq> 0 \<or> remaining rest st = [] \<and> fs_error (snd st1) = fs_error (snd st))"
      by (rule refill_spec [OF less.prems(1,2)])
    show ?thesis
    proof (cases b)
      case False
      then have "read_loop sys n out st = Some (st1, out @ [])" using True 1(1) by (subst read_loop.simps) simp
      then show ?thesis using False True 1 by (intro exI [of _ st1] exI [of _ "[]"]) auto
    next
      case b: True
      define k where "k = min (length (fs_window (snd st1))) (n - length out)"
      let ?bs = "take k (fs_window (snd st1))" and ?st = "advance k st1"
      have k: "0 < k" "k \<le> length (fs_window (snd st1))" "length (out @ ?bs) \<le> n" "length ?bs = k"
        using b 1(5) True by (auto simp: k_def)
      note adv = advance_spec(1-4) [OF 1(2) k(2)] advance_spec(5) [OF 1(2) k(2), of rest]
      have con: "read_contract sys (fs_handle (snd ?st)) rest budget" using less.prems(1) adv(2) 1(3) by simp
      have "n - length (out @ ?bs) < n - length out" using k True by simp
      from less.hyps [OF this con adv(1) k(3)] obtain st' bs where ih: "read_loop sys n (out @ ?bs) ?st = Some (st', (out @ ?bs) @ bs)"
          "reader_ok (snd st')" "fs_handle (snd st') = fs_handle (snd ?st)" "remaining rest ?st = bs @ remaining rest st'"
          "length ((out @ ?bs) @ bs) \<le> n"
          "length ((out @ ?bs) @ bs) < n \<longrightarrow> fs_error (snd st') \<noteq> 0 \<or> remaining rest st' = [] \<and> fs_error (snd st') = fs_error (snd ?st)"
          "length ((out @ ?bs) @ bs) = n \<longrightarrow> fs_error (snd st') = fs_error (snd ?st)" by blast
      have "read_loop sys n out st = read_loop sys n (out @ ?bs) ?st"
        using True b 1(1) by (subst read_loop.simps) (simp add: k_def Let_def)
      moreover have "remaining rest st = ?bs @ bs @ remaining rest st'" using adv(5) 1(4) ih(4) by simp
      ultimately show ?thesis using ih adv(2,3) 1(3,5) b by (intro exI [of _ st'] exI [of _ "?bs @ bs"]) simp
    qed
  qed
qed

text \<open>
  Whatever the size of the buffer and however the system splits or interrupts the transfers, \<open>read\<close> returns and hands out the next bytes of the file
  in order, as many as asked for unless the file ends or an error is reported; nothing is lost or handed out twice, and
  a result of no bytes from a stream without an error means the end of the file.
\<close>

theorem file_stream_reads:
  assumes "read_contract sys (fs_handle (snd st)) rest budget" and "reader_ok (snd st)"
  shows "\<exists>st' r. fs_read sys n st = Some (st', Inr r) \<and> reader_ok (snd st') \<and>
    (case r of None \<Rightarrow> fs_error (snd st') \<noteq> 0 \<and> remaining rest st' = remaining rest st
     | Some bs \<Rightarrow> remaining rest st = bs @ remaining rest st' \<and> length bs \<le> n \<and>
         (length bs < n \<longrightarrow> fs_error (snd st') \<noteq> 0 \<or> remaining rest st' = []))"
proof -
  from read_loop_spec [OF assms, of "[]" n] obtain st' bs where 1: "read_loop sys n [] st = Some (st', bs)" "reader_ok (snd st')"
      "remaining rest st = bs @ remaining rest st'" "length bs \<le> n" "length bs < n \<longrightarrow> fs_error (snd st') \<noteq> 0 \<or> remaining rest st' = []"
    by auto
  have "fs_is_open (snd st)" "fs_mode (snd st) = Read" using assms(2) by (simp_all add: reader_ok_def)
  then have "fs_read sys n st = Some (st', Inr (if bs = [] \<and> fs_error (snd st') \<noteq> 0 then None else Some bs))" using 1(1) by (simp add: fs_read_def)
  then show ?thesis using 1(2-) by (cases "bs = [] \<and> fs_error (snd st') \<noteq> 0") auto
qed

section \<open>Lines\<close>

lemma line_loop_spec:
  "read_contract sys (fs_handle (snd st)) rest budget \<Longrightarrow> reader_ok (snd st) \<Longrightarrow>
    \<exists>st' bs found. line_loop sys line st = Some (st', line @ bs, found) \<and> reader_ok (snd st') \<and> fs_handle (snd st') = fs_handle (snd st) \<and>
      10 \<notin> set bs \<and> remaining rest st = bs @ (if found then [10] else []) @ remaining rest st' \<and>
      (found \<longrightarrow> fs_error (snd st') = fs_error (snd st)) \<and>
      (\<not> found \<longrightarrow> fs_error (snd st') \<noteq> 0 \<or> remaining rest st' = [] \<and> fs_error (snd st') = fs_error (snd st))"
proof (induction "length (remaining rest st)" arbitrary: line st rule: less_induct)
  case less
  obtain st1 b where 1: "refill sys st = Some (st1, b)" "reader_ok (snd st1)" "fs_handle (snd st1) = fs_handle (snd st)"
      "remaining rest st1 = remaining rest st" "b \<longrightarrow> fs_window (snd st1) \<noteq> [] \<and> fs_error (snd st1) = fs_error (snd st)"
      "\<not> b \<longrightarrow> fs_window (snd st1) = [] \<and> (fs_error (snd st1) \<noteq> 0 \<or> remaining rest st = [] \<and> fs_error (snd st1) = fs_error (snd st))"
    by (rule refill_spec [OF less.prems])
  let ?w = "fs_window (snd st1)"
  define before where "before = takeWhile (\<lambda>b. b \<noteq> 10) ?w"
  have bef: "10 \<notin> set before" "length before \<le> length ?w" "take (length before) ?w = before"
    using length_takeWhile_le takeWhile_eq_take [of "\<lambda>b. b \<noteq> 10" ?w] by (auto simp: before_def dest: set_takeWhileD)
  show ?case
  proof (cases b)
    case False
    then have "line_loop sys line st = Some (st1, line @ [], False)" using 1(1) by (subst line_loop.simps) simp
    then show ?thesis using False 1 by (intro exI [of _ st1] exI [of _ "[]"] exI [of _ False]) auto
  next
    case b: True
    show ?thesis
    proof (cases "length before < length ?w")
      case True
      let ?st = "advance (length before + 1) st1"
      have le: "length before + 1 \<le> length ?w" using True by simp
      note adv = advance_spec(1-4) [OF 1(2) le] advance_spec(5) [OF 1(2) le, of rest]
      have "?w ! length before = 10" using True nth_length_takeWhile [of "\<lambda>b. b \<noteq> 10" ?w] by (simp add: before_def)
      then have "take (length before + 1) ?w = before @ [10]" using True bef(3) by (simp add: take_Suc_conv_app_nth)
      moreover have "line_loop sys line st = Some (?st, line @ before, True)"
        using b 1(1) True by (subst line_loop.simps) (simp add: Let_def before_def)
      ultimately show ?thesis using adv 1(3-5) b bef(1) by (intro exI [of _ ?st] exI [of _ before] exI [of _ True]) simp
    next
      case False
      then have all: "length before = length ?w" using bef(2) by simp
      let ?st = "advance (length before) st1"
      note adv = advance_spec(1-4) [OF 1(2) bef(2)] advance_spec(5) [OF 1(2) bef(2), of rest]
      have con: "read_contract sys (fs_handle (snd ?st)) rest budget" using less.prems(1) adv(2) 1(3) by simp
      have rem: "remaining rest st = before @ remaining rest ?st" using adv(5) 1(4) bef(3) by simp
      moreover have "before \<noteq> []" using b 1(5) all by auto
      ultimately have "length (remaining rest ?st) < length (remaining rest st)" by simp
      from less.hyps [OF this con adv(1), of "line @ before"] obtain st' bs found
        where ih: "line_loop sys (line @ before) ?st = Some (st', (line @ before) @ bs, found)" "reader_ok (snd st')"
          "fs_handle (snd st') = fs_handle (snd ?st)" "10 \<notin> set bs" "remaining rest ?st = bs @ (if found then [10] else []) @ remaining rest st'"
          "found \<longrightarrow> fs_error (snd st') = fs_error (snd ?st)"
          "\<not> found \<longrightarrow> fs_error (snd st') \<noteq> 0 \<or> remaining rest st' = [] \<and> fs_error (snd st') = fs_error (snd ?st)" by blast
      have "line_loop sys line st = line_loop sys (line @ before) ?st"
        using b 1(1) all by (subst line_loop.simps) (simp add: Let_def before_def)
      then show ?thesis using ih adv(2,3) 1(3,5) b rem bef(1)
        by (intro exI [of _ st'] exI [of _ "before @ bs"] exI [of _ found]) simp
    qed
  qed
qed

text \<open>The next line of a text and what follows it; a carriage return before the newline is dropped.\<close>

definition next_line :: "u8 list \<Rightarrow> u8 list option \<times> u8 list" where
  "next_line text_arg =
     (let before = takeWhile (\<lambda>b. b \<noteq> 10) text_arg; after = dropWhile (\<lambda>b. b \<noteq> 10) text_arg in
      if text_arg = [] then (None, [])
      else if after = [] then (Some before, [])
      else (Some (strip_cr before), tl after))"

lemma next_line_split:
  assumes "10 \<notin> set bs"
  shows "next_line (bs @ 10 # r) = (Some (strip_cr bs), r)" and "bs \<noteq> [] \<Longrightarrow> next_line bs = (Some bs, [])" and "next_line [] = (None, [])"
proof -
  have *: "takeWhile (\<lambda>b. b \<noteq> 10) (bs @ xs) = bs @ takeWhile (\<lambda>b. b \<noteq> 10) xs" "dropWhile (\<lambda>b. b \<noteq> 10) (bs @ xs) = dropWhile (\<lambda>b. b \<noteq> 10) xs" for xs
    using assms by (induction bs) auto
  show "next_line (bs @ 10 # r) = (Some (strip_cr bs), r)" using *[of "10 # r"] by (simp add: next_line_def Let_def)
  show "bs \<noteq> [] \<Longrightarrow> next_line bs = (Some bs, [])" using *[of "[]"] by (simp add: next_line_def Let_def)
qed (simp add: next_line_def)

text \<open>One call: the next line, unless an error is or was reported.\<close>

lemma fs_read_line_spec:
  assumes "read_contract sys (fs_handle (snd st)) rest budget" and "reader_ok (snd st)"
  shows "\<exists>st' r. fs_read_line sys st = Some (st', Inr r) \<and> reader_ok (snd st') \<and> fs_handle (snd st') = fs_handle (snd st) \<and>
    (fs_error (snd st') = 0 \<longrightarrow> fs_error (snd st) = 0 \<and> next_line (remaining rest st) = (r, remaining rest st'))"
proof -
  from line_loop_spec [OF assms(1,2), of "[]"] obtain st' bs found where 1: "line_loop sys [] st = Some (st', bs, found)"
      "reader_ok (snd st')" "fs_handle (snd st') = fs_handle (snd st)" "10 \<notin> set bs"
      "remaining rest st = bs @ (if found then [10] else []) @ remaining rest st'" "found \<longrightarrow> fs_error (snd st') = fs_error (snd st)"
      "\<not> found \<longrightarrow> fs_error (snd st') \<noteq> 0 \<or> remaining rest st' = [] \<and> fs_error (snd st') = fs_error (snd st)"
    by auto
  have mode: "fs_is_open (snd st)" "fs_mode (snd st) = Read" using assms(2) by (simp_all add: reader_ok_def)
  show ?thesis
  proof (cases found)
    case True
    then show ?thesis using 1 mode next_line_split(1) [OF 1(4)] by (simp add: fs_read_line_def)
  next
    case False
    then show ?thesis using 1 mode next_line_split(2,3) [OF 1(4)] by (cases "bs = []") (auto simp: fs_read_line_def)
  qed
qed

text \<open>Calling \<open>read_line\<close> \<open>n\<close> times.\<close>

fun read_lines :: "'os platform \<Rightarrow> nat \<Rightarrow> 'os \<times> file_stream \<Rightarrow> (('os \<times> file_stream) \<times> u8 list option cpp list) option" where
  "read_lines sys 0 st = Some (st, [])"
| "read_lines sys (Suc n) st = do { (st', r) \<leftarrow> fs_read_line sys st; (st'', rs) \<leftarrow> read_lines sys n st'; Some (st'', r # rs) }"

text \<open>A text file: lines, each with its line end.\<close>

fun line_text :: "u8 list \<times> bool \<Rightarrow> u8 list" where
  "line_text (line, crlf) = line @ (if crlf then [13, 10] else [10])"

fun plain_line :: "u8 list \<times> bool \<Rightarrow> bool" where
  "plain_line (line, crlf) \<longleftrightarrow> 10 \<notin> set line \<and> (line = [] \<or> last line \<noteq> 13)"

lemma next_line_text: "plain_line x \<Longrightarrow> next_line (line_text x @ r) = (Some (fst x), r)"
proof (cases x)
  case (Pair line crlf)
  assume "plain_line x"
  then show ?thesis using Pair next_line_split(1) [of line r] next_line_split(1) [of "line @ [13]" r] by (auto simp: strip_cr_def)
qed

lemma read_lines_total:
  "read_contract sys (fs_handle (snd st)) rest budget \<Longrightarrow> reader_ok (snd st) \<Longrightarrow>
    \<exists>st' rs. read_lines sys n st = Some (st', rs) \<and> (fs_error (snd st) \<noteq> 0 \<longrightarrow> fs_error (snd st') \<noteq> 0)"
proof (induction n arbitrary: st)
  case (Suc n)
  from fs_read_line_spec [OF Suc.prems] obtain st1 r where 1: "fs_read_line sys st = Some (st1, Inr r)" "reader_ok (snd st1)"
      "fs_handle (snd st1) = fs_handle (snd st)" "fs_error (snd st) \<noteq> 0 \<longrightarrow> fs_error (snd st1) \<noteq> 0" by auto
  from Suc.IH [of st1] Suc.prems(1) 1(2,3) obtain st' rs where "read_lines sys n st1 = Some (st', rs)"
      "fs_error (snd st1) \<noteq> 0 \<longrightarrow> fs_error (snd st') \<noteq> 0" by auto
  then show ?case using 1(1,4) by simp
qed simp

lemma read_lines_spec:
  "read_contract sys (fs_handle (snd st)) rest budget \<Longrightarrow> reader_ok (snd st) \<Longrightarrow> list_all plain_line ls \<Longrightarrow>
    remaining rest st = concat (map line_text ls) \<Longrightarrow>
    \<exists>st' rs. read_lines sys (Suc (length ls)) st = Some (st', rs) \<and>
      (fs_error (snd st') = 0 \<longrightarrow> fs_error (snd st) = 0 \<and> rs = map (\<lambda>l. Inr (Some (fst l))) ls @ [Inr None])"
proof (induction ls arbitrary: st)
  case Nil
  from fs_read_line_spec [OF Nil(1,2)] obtain st' r where "fs_read_line sys st = Some (st', Inr r)"
      "fs_error (snd st') = 0 \<longrightarrow> fs_error (snd st) = 0 \<and> next_line [] = (r, remaining rest st')" using Nil(4) by auto
  then show ?case by (simp add: next_line_def)
next
  case (Cons l ls)
  let ?tail = "concat (map line_text ls)"
  from fs_read_line_spec [OF Cons.prems(1,2)] obtain st1 r where 1: "fs_read_line sys st = Some (st1, Inr r)" "reader_ok (snd st1)"
      "fs_handle (snd st1) = fs_handle (snd st)"
      "fs_error (snd st1) = 0 \<longrightarrow> fs_error (snd st) = 0 \<and> next_line (line_text l @ ?tail) = (r, remaining rest st1)"
    using Cons.prems(4) by auto
  have con: "read_contract sys (fs_handle (snd st1)) rest budget" using Cons.prems(1) 1(3) by simp
  have step: "read_lines sys n st1 = Some (st', rs) \<Longrightarrow> read_lines sys (Suc n) st = Some (st', Inr r # rs)" for n st' rs using 1(1) by simp
  show ?case
  proof (cases "fs_error (snd st1) = 0")
    case True
    then have "r = Some (fst l)" "remaining rest st1 = ?tail" "fs_error (snd st) = 0"
      using 1(4) next_line_text [of l ?tail] Cons.prems(3) by auto
    from Cons.IH [OF con 1(2) _ this(2)] Cons.prems(3) obtain st' rs where "read_lines sys (Suc (length ls)) st1 = Some (st', rs)"
        "fs_error (snd st') = 0 \<longrightarrow> rs = map (\<lambda>l. Inr (Some (fst l))) ls @ [Inr None]" by auto
    then show ?thesis using step [of "Suc (length ls)"] \<open>r = Some (fst l)\<close> \<open>fs_error (snd st) = 0\<close> by (simp del: read_lines.simps)
  next
    case False
    from read_lines_total [OF con 1(2), of "Suc (length ls)"] obtain st' rs where "read_lines sys (Suc (length ls)) st1 = Some (st', rs)"
        "fs_error (snd st') \<noteq> 0" using False by blast
    then show ?thesis using step [of "Suc (length ls)"] by (simp del: read_lines.simps)
  qed
qed

text \<open>
  Property C35. Lines are read back: a file of lines, each ended by a newline with or without a carriage return before it, is handed out by \<open>read_line\<close> line by line without
  the line ends and then reports its end, for every size of the buffer and however the system splits or interrupts the
  transfers, unless an error is reported; every call returns.
\<close>

theorem file_stream_lines:
  assumes "fs_open sys os path Read buffer_size = Some (os0, s0)" and "fs_is_open s0" and "read_contract sys (fs_handle s0) rest budget"
    and "list_all plain_line ls" and "rest os0 = concat (map line_text ls)"
  shows "\<exists>st' rs. read_lines sys (Suc (length ls)) (os0, s0) = Some (st', rs) \<and>
    (fs_error (snd st') = 0 \<longrightarrow> rs = map (\<lambda>l. Inr (Some (fst l))) ls @ [Inr None])"
proof -
  note o = fs_open_open [OF assms(1,2)]
  have s0: "fs_mode s0 = Read" "fs_buffer s0 \<noteq> []" "fs_len s0 = 0"
    using arg_cong [OF o, of fs_mode] arg_cong [OF o, of fs_buffer] arg_cong [OF o, of fs_len] by (simp_all add: fs_closed_def)
  then have "reader_ok s0" using assms(2) by (simp add: reader_ok_def)
  moreover have "remaining rest (os0, s0) = concat (map line_text ls)" using s0(3) assms(5) by (simp add: remaining_def fs_window_def)
  ultimately show ?thesis using read_lines_spec [of sys "(os0, s0)" rest budget ls] assms(3,4) by auto
qed

text \<open>A system with one file that hands out at most so many bytes per call as its script says, or is interrupted (\<open>None\<close>).\<close>

type_synonym trickle = "u8 list \<times> nat option list"

fun trickle_read :: "trickle \<Rightarrow> int \<Rightarrow> nat \<Rightarrow> trickle \<times> (int + u8 list)" where
  "trickle_read (file, []) h n = ((drop n file, []), Inr (take n file))"
| "trickle_read (file, None # script) h n = ((file, script), Inl 4)"
| "trickle_read (file, Some k # script) h n = ((drop (min n (Suc k)) file, script), Inr (take (min n (Suc k)) file))"

definition trickle_sys :: "trickle platform" where
  "trickle_sys = Posix \<lparr>sys_open = (\<lambda>os path flags perms. (os, Inr 3)), sys_read = trickle_read, sys_write = (\<lambda>os h bs. (os, Inl 9)),
     sys_close = (\<lambda>os h. (os, None))\<rparr>"

lemma trickle_contract: "read_contract trickle_sys h fst (\<lambda>os. length (snd os))"
proof -
  have "case trickle_read os h n of
        (os', Inr bs) \<Rightarrow> length bs \<le> n \<and> fst os = bs @ fst os' \<and> (bs = [] \<longrightarrow> fst os = []) \<and> length (snd os') \<le> length (snd os)
      | (os', Inl e) \<Rightarrow> e \<noteq> 0 \<and> fst os' = fst os \<and> length (snd os') + (if e = EINTR then 1 else 0) \<le> length (snd os)" if "0 < n" for os n
    using that by (induction os h n rule: trickle_read.induct) (auto simp: EINTR_def)
  then show ?thesis by (simp add: trickle_sys_def)
qed

definition demo_lines :: "(u8 list \<times> bool) list" where
  "demo_lines = [([104, 105], True), ([], False), ([33], False)]"

definition demo_reader :: file_stream where
  "demo_reader = fs_closed\<lparr>fs_mode := Read, fs_buffer := [0, 0], fs_handle := 3\<rparr>"

definition demo_os :: trickle where
  "demo_os = (concat (map line_text demo_lines), [Some 0, None, Some 1])"

lemma demo_open: "fs_open trickle_sys demo_os ''f'' Read 2 = Some (demo_os, demo_reader)"
  by (simp add: trickle_sys_def fs_open_def posix_open.simps demo_reader_def numeral_eq_Suc)

theorem file_stream_lines_witness:
  "\<exists>st'. read_lines trickle_sys 4 (demo_os, demo_reader) = Some (st', [Inr (Some [104, 105]), Inr (Some []), Inr (Some [33]), Inr None])"
proof -
  have e: "map_option (\<lambda>(st, rs). fs_error (snd st)) (read_lines trickle_sys 4 (demo_os, demo_reader)) = Some 0" by code_simp
  have ok: "fs_is_open demo_reader" "list_all plain_line demo_lines" "fst demo_os = concat (map line_text demo_lines)" "Suc (length demo_lines) = 4"
    by (simp_all add: demo_reader_def fs_is_open_def demo_lines_def demo_os_def)
  from file_stream_lines [OF demo_open ok(1) trickle_contract ok(2,3)] obtain st' rs
    where r: "read_lines trickle_sys 4 (demo_os, demo_reader) = Some (st', rs)"
      "fs_error (snd st') = 0 \<longrightarrow> rs = map (\<lambda>l. Inr (Some (fst l))) demo_lines @ [Inr None]" unfolding ok(4) by blast
  have "fs_error (snd st') = 0" using e unfolding r(1) by simp
  then have "rs = map (\<lambda>l. Inr (Some (fst l))) demo_lines @ [Inr None]" using r(2) by blast
  then show ?thesis unfolding r(1) by (simp add: demo_lines_def)
qed

theorem file_stream_reads_witness:
  "\<exists>st' bs. fs_read trickle_sys 3 (demo_os, demo_reader) = Some (st', Inr (Some bs)) \<and> fst demo_os = bs @ remaining fst st'"
proof -
  have ok: "reader_ok (snd (demo_os, demo_reader))" by (simp add: demo_reader_def reader_ok_def fs_is_open_def fs_closed_def)
  have v: "map_option (\<lambda>(st, r). r) (fs_read trickle_sys 3 (demo_os, demo_reader)) = Some (Inr (Some [104, 105, 13]))" by code_simp
  have rem: "remaining fst (demo_os, demo_reader) = fst demo_os" by (simp add: remaining_def fs_window_def demo_reader_def fs_closed_def)
  from file_stream_reads [OF trickle_contract ok, of 3] obtain st' r where r: "fs_read trickle_sys 3 (demo_os, demo_reader) = Some (st', Inr r)"
      "\<forall>bs. r = Some bs \<longrightarrow> fst demo_os = bs @ remaining fst st'" unfolding rem by (elim exE conjE) (auto split: option.splits)
  have "r = Some [104, 105, 13]" using v unfolding r(1) by simp
  then show ?thesis using r by blast
qed

end
