(* ===== verification/Stopwatch.thy ===== *)
theory Stopwatch
  imports Egl_Prelude
begin

text \<open>
  \<open>Stopwatch\<close> (stopwatch.hpp). Each operation that reads the steady clock gets the reading, in nanoseconds, as an argument.
\<close>

section \<open>Operations\<close>

record stopwatch =
  sw_started_at :: int
  sw_accumulated :: int
  sw_running :: bool

definition sw_new :: stopwatch where
  "sw_new = \<lparr>sw_started_at = 0, sw_accumulated = 0, sw_running = False\<rparr>"

definition sw_start :: "int \<Rightarrow> stopwatch \<Rightarrow> stopwatch cpp" where
  "sw_start now w =
     (if sw_running w then Inl (Logic_error ''Stopwatch: already running'')
      else Inr (w\<lparr>sw_started_at := now, sw_running := True\<rparr>))"

definition sw_start_new :: "int \<Rightarrow> stopwatch cpp" where
  "sw_start_new now = sw_start now sw_new"

definition sw_stop :: "int \<Rightarrow> stopwatch \<Rightarrow> stopwatch cpp" where
  "sw_stop now w =
     (if \<not> sw_running w then Inl (Logic_error ''Stopwatch: not running'')
      else Inr (w\<lparr>sw_accumulated := sw_accumulated w + (now - sw_started_at w), sw_running := False\<rparr>))"

definition sw_reset :: "stopwatch \<Rightarrow> stopwatch" where
  "sw_reset w = w\<lparr>sw_accumulated := 0, sw_running := False\<rparr>"

definition sw_restart :: "int \<Rightarrow> stopwatch \<Rightarrow> stopwatch cpp" where
  "sw_restart now w = sw_start now (sw_reset w)"

definition sw_elapsed :: "int \<Rightarrow> stopwatch \<Rightarrow> int" where
  "sw_elapsed now w = (if sw_running w then sw_accumulated w + (now - sw_started_at w) else sw_accumulated w)"

text \<open>\<open>duration_cast\<close> to a coarser unit truncates towards zero.\<close>

definition coarser :: "int \<Rightarrow> int \<Rightarrow> int" where
  "coarser unit d = (if d < 0 then - (- d div unit) else d div unit)"

definition sw_elapsed_microseconds :: "int \<Rightarrow> stopwatch \<Rightarrow> int" where
  "sw_elapsed_microseconds now w = coarser 1000 (sw_elapsed now w)"

definition sw_elapsed_milliseconds :: "int \<Rightarrow> stopwatch \<Rightarrow> int" where
  "sw_elapsed_milliseconds now w = coarser 1000000 (sw_elapsed now w)"

section \<open>Sequences of calls\<close>

datatype sw_op = Start | Stop | Reset | Restart

fun sw_step :: "sw_op \<times> int \<Rightarrow> stopwatch \<Rightarrow> stopwatch cpp" where
  "sw_step (Start, now) w = sw_start now w"
| "sw_step (Stop, now) w = sw_stop now w"
| "sw_step (Reset, now) w = Inr (sw_reset w)"
| "sw_step (Restart, now) w = sw_restart now w"

text \<open>A call that throws leaves the stopwatch as it is.\<close>

definition sw_run :: "(sw_op \<times> int) list \<Rightarrow> stopwatch \<Rightarrow> stopwatch" where
  "sw_run calls w = foldl (\<lambda>w c. case sw_step c w of Inl e \<Rightarrow> w | Inr w' \<Rightarrow> w') w calls"

text \<open>
  What a stopwatch is for: the time since the last reset during which it was running. Between two calls it runs or it does not, and
  only a \<open>Start\<close> of a stopped and a \<open>Stop\<close> of a running one, and a \<open>Reset\<close> or \<open>Restart\<close>, change that.
\<close>

fun running_after :: "sw_op \<Rightarrow> bool \<Rightarrow> bool" where
  "running_after Start r = True"
| "running_after Stop r = False"
| "running_after Reset r = False"
| "running_after Restart r = True"

fun running_time :: "(sw_op \<times> int) list \<Rightarrow> int \<Rightarrow> int \<times> bool \<times> int \<Rightarrow> int" where
  "running_time [] now (total_time, r, since) = total_time + (if r then now - since else 0)"
| "running_time ((oper, t) # calls) now (total_time, r, since) =
     running_time calls now
       (if oper = Reset \<or> oper = Restart then 0 else total_time + (if r then t - since else 0), running_after oper r, t)"

lemma sw_run_time:
  "sw_accumulated w + (if sw_running w then since - sw_started_at w else 0) = total_time \<Longrightarrow>
    sw_elapsed now (sw_run calls w) = running_time calls now (total_time, sw_running w, since)"
proof (induction calls arbitrary: w total_time since)
  case Nil
  then show ?case by (auto simp: sw_run_def sw_elapsed_def)
next
  case (Cons c calls)
  obtain oper t where c: "c = (oper, t)" by fastforce
  let ?w = "case sw_step c w of Inl e \<Rightarrow> w | Inr w' \<Rightarrow> w'"
  let ?t = "if oper = Reset \<or> oper = Restart then 0 else total_time + (if sw_running w then t - since else 0)"
  have "sw_running ?w = running_after oper (sw_running w)" "sw_accumulated ?w + (if sw_running ?w then t - sw_started_at ?w else 0) = ?t"
    using Cons.prems by (cases oper; auto simp: c sw_start_def sw_stop_def sw_reset_def sw_restart_def)+
  moreover have "sw_run (c # calls) w = sw_run calls ?w" by (simp add: sw_run_def)
  ultimately show ?case using Cons.IH [of ?w t ?t] by (simp add: c)
qed

text \<open>
  A stopwatch measures the time it runs: after any sequence of calls, misuse that throws included, the elapsed time is the total length of the stretches since the last
  reset during which it was running, up to now if it runs; and in microseconds and milliseconds it is that time rounded down.
\<close>

theorem stopwatch_measures:
  assumes "0 \<le> running_time calls now (0, False, 0)"
  shows "sw_elapsed now (sw_run calls sw_new) = running_time calls now (0, False, 0) \<and>
    sw_elapsed_microseconds now (sw_run calls sw_new) = running_time calls now (0, False, 0) div 1000 \<and>
    sw_elapsed_milliseconds now (sw_run calls sw_new) = sw_elapsed_microseconds now (sw_run calls sw_new) div 1000"
proof -
  have "sw_elapsed now (sw_run calls sw_new) = running_time calls now (0, False, 0)"
    using sw_run_time [of sw_new 0 0 now calls] by (simp add: sw_new_def)
  then show ?thesis using assms
    by (simp add: sw_elapsed_microseconds_def sw_elapsed_milliseconds_def coarser_def flip: zdiv_zmult2_eq)
qed

theorem stopwatch_measures_witness:
  "sw_elapsed 100 (sw_run [(Start, 10), (Start, 15), (Stop, 20), (Stop, 25), (Start, 50)] sw_new) = 60"
  using stopwatch_measures [of "[(Start, 10), (Start, 15), (Stop, 20), (Stop, 25), (Start, 50)]" 100] by simp

end
