(* ===== verification/Tcp_Socket.thy ===== *)
theory Tcp_Socket
  imports File_Stream Decimal
begin

text \<open>
  \<open>TcpSocket\<close> and \<open>TcpServer\<close> (tcp\_socket.hpp, tcp\_socket.cpp, as they are compiled on Linux and on Windows): owners of one
  socket descriptor each. The system calls are a parameter. A loop that retries an interrupted call is
  partial: \<open>None\<close> means that it does not return.
\<close>

unbundle bit_operations_syntax

section \<open>System calls\<close>

text \<open>An entry of the list that \<open>getaddrinfo\<close> returns.\<close>

record addrinfo =
  ai_family :: int
  ai_socktype :: int
  ai_protocol :: int
  ai_addr :: "u8 list"

text \<open>
  A call returns its error number (\<open>Inl\<close>, or \<open>Some\<close> where there is no result). A failed \<open>getaddrinfo\<close> returns what \<open>errno\<close> is
  after it. Ports are in host order on both sides. \<open>select\<close> also returns the timeout as it leaves it, \<open>poll\<close> and \<open>select\<close> return
  \<open>None\<close> and \<open>False\<close> when the time is up; \<open>getsockopt\<close> of \<open>SO_ERROR\<close> leaves the variable alone (\<open>None\<close>) when it fails.
\<close>

text \<open>
  What only Winsock has: \<open>ioctlsocket\<close> of \<open>FIONBIO\<close>, and \<open>WSAStartup\<close>, which one call per process makes; \<open>ws_once\<close> is the flag
  of that call.
\<close>

record 'os winsock =
  ws_ioctlsocket :: "'os \<Rightarrow> int \<Rightarrow> u32 \<Rightarrow> 'os \<times> int option"
  ws_once :: "'os \<Rightarrow> bool"
  ws_startup :: "'os \<Rightarrow> 'os"

text \<open>\<open>net_winsock\<close> is \<open>None\<close> on POSIX. The descriptor flags are only used there.\<close>

record 'os net =
  net_getaddrinfo :: "'os \<Rightarrow> string \<Rightarrow> string \<Rightarrow> 'os \<times> (int + addrinfo list)"
  net_socket :: "'os \<Rightarrow> int \<Rightarrow> int \<Rightarrow> int \<Rightarrow> 'os \<times> (int + int)"
  net_reuse_addr :: "'os \<Rightarrow> int \<Rightarrow> 'os"
  net_getfl :: "'os \<Rightarrow> int \<Rightarrow> 'os \<times> (int + int)"
  net_setfl :: "'os \<Rightarrow> int \<Rightarrow> int \<Rightarrow> 'os \<times> int option"
  net_connect :: "'os \<Rightarrow> int \<Rightarrow> u8 list \<Rightarrow> 'os \<times> int option"
  net_bind :: "'os \<Rightarrow> int \<Rightarrow> u32 \<Rightarrow> u16 \<Rightarrow> 'os \<times> int option"
  net_listen :: "'os \<Rightarrow> int \<Rightarrow> int \<Rightarrow> 'os \<times> int option"
  net_getsockname :: "'os \<Rightarrow> int \<Rightarrow> 'os \<times> (int + u16)"
  net_accept :: "'os \<Rightarrow> int \<Rightarrow> 'os \<times> (int + int)"
  net_send :: "'os \<Rightarrow> int \<Rightarrow> u8 list \<Rightarrow> 'os \<times> (int + nat)"
  net_recv :: "'os \<Rightarrow> int \<Rightarrow> nat \<Rightarrow> 'os \<times> (int + u8 list)"
  net_poll :: "'os \<Rightarrow> int \<Rightarrow> 16 word \<Rightarrow> int \<Rightarrow> 'os \<times> (int + 16 word option)"
  net_select :: "'os \<Rightarrow> int \<Rightarrow> int \<Rightarrow> (int \<times> int) option \<Rightarrow> 'os \<times> (int \<times> int) option \<times> (int + bool)"
  net_so_error :: "'os \<Rightarrow> int \<Rightarrow> 'os \<times> int option"
  net_shutdown_write :: "'os \<Rightarrow> int \<Rightarrow> 'os \<times> int option"
  net_close :: "'os \<Rightarrow> int \<Rightarrow> 'os"
  net_winsock :: "'os winsock option"

text \<open>Error numbers and events of the two platforms.\<close>

definition EAGAIN :: int where "EAGAIN = 11"
definition EINPROGRESS :: int where "EINPROGRESS = 115"
definition WSAEWOULDBLOCK :: int where "WSAEWOULDBLOCK = 10035"
definition O_NONBLOCK :: int where "O_NONBLOCK = 2048"
definition FD_SETSIZE :: int where "FD_SETSIZE = 1024"
definition AF_INET :: int where "AF_INET = 2"
definition SOCK_STREAM :: int where "SOCK_STREAM = 1"
definition IPPROTO_TCP :: int where "IPPROTO_TCP = 6"
definition INADDR_ANY :: u32 where "INADDR_ANY = 0"
definition INT_MAX :: nat where "INT_MAX = 2147483647"

abbreviation on_windows :: "'os net \<Rightarrow> bool" where
  "on_windows net \<equiv> net_winsock net \<noteq> None"

definition POLLIN :: "'os net \<Rightarrow> 16 word" where "POLLIN net = (if on_windows net then 0x300 else 1)"
definition POLLOUT :: "'os net \<Rightarrow> 16 word" where "POLLOUT net = (if on_windows net then 0x10 else 4)"
definition POLLERR :: "'os net \<Rightarrow> 16 word" where "POLLERR net = (if on_windows net then 1 else 8)"
definition POLLNVAL :: "'os net \<Rightarrow> 16 word" where "POLLNVAL net = (if on_windows net then 4 else 32)"

text \<open>On Linux \<open>EWOULDBLOCK\<close> and \<open>EAGAIN\<close> are the same number. Winsock calls are never interrupted.\<close>

definition is_would_block :: "'os net \<Rightarrow> int \<Rightarrow> bool" where
  "is_would_block net err \<longleftrightarrow> err = (if on_windows net then WSAEWOULDBLOCK else EAGAIN)"

definition is_in_progress :: "'os net \<Rightarrow> int \<Rightarrow> bool" where
  "is_in_progress net err \<longleftrightarrow> err = (if on_windows net then WSAEWOULDBLOCK else EINPROGRESS)"

definition is_interrupted :: "'os net \<Rightarrow> int \<Rightarrow> bool" where
  "is_interrupted net err \<longleftrightarrow> \<not> on_windows net \<and> err = EINTR"

definition ensure_started :: "'os net \<Rightarrow> 'os \<Rightarrow> 'os" where
  "ensure_started net os =
     (case net_winsock net of None \<Rightarrow> os | Some ws \<Rightarrow> if ws_once ws os then os else ws_startup ws os)"

partial_function (option) posix_send :: "'os net \<Rightarrow> 'os \<Rightarrow> int \<Rightarrow> u8 list \<Rightarrow> ('os \<times> (int + nat)) option" where
  "posix_send net os h bs =
     (case net_send net os h bs of
        (os', Inl e) \<Rightarrow> if e = EINTR then posix_send net os' h bs else Some (os', Inl e)
      | (os', Inr n) \<Rightarrow> Some (os', Inr n))"

definition windows_send :: "'os net \<Rightarrow> 'os \<Rightarrow> int \<Rightarrow> u8 list \<Rightarrow> 'os \<times> (int + nat)" where
  "windows_send net os h bs = (let capped = min (length bs) INT_MAX in net_send net os h (take capped bs))"

definition native_send :: "'os net \<Rightarrow> 'os \<Rightarrow> int \<Rightarrow> u8 list \<Rightarrow> ('os \<times> (int + nat)) option" where
  "native_send net os h bs = (if on_windows net then Some (windows_send net os h bs) else posix_send net os h bs)"

partial_function (option) posix_recv :: "'os net \<Rightarrow> 'os \<Rightarrow> int \<Rightarrow> nat \<Rightarrow> ('os \<times> (int + u8 list)) option" where
  "posix_recv net os h len =
     (case net_recv net os h len of
        (os', Inl e) \<Rightarrow> if e = EINTR then posix_recv net os' h len else Some (os', Inl e)
      | (os', Inr bs) \<Rightarrow> Some (os', Inr bs))"

definition windows_recv :: "'os net \<Rightarrow> 'os \<Rightarrow> int \<Rightarrow> nat \<Rightarrow> 'os \<times> (int + u8 list)" where
  "windows_recv net os h len = (let capped = min len INT_MAX in net_recv net os h capped)"

definition native_recv :: "'os net \<Rightarrow> 'os \<Rightarrow> int \<Rightarrow> nat \<Rightarrow> ('os \<times> (int + u8 list)) option" where
  "native_recv net os h len = (if on_windows net then Some (windows_recv net os h len) else posix_recv net os h len)"

definition posix_set_nonblocking :: "'os net \<Rightarrow> 'os \<Rightarrow> int \<Rightarrow> bool \<Rightarrow> 'os \<times> int option" where
  "posix_set_nonblocking net os h enabled =
     (case net_getfl net os h of
        (os', Inl e) \<Rightarrow> (os', Some e)
      | (os', Inr flags) \<Rightarrow> net_setfl net os' h (if enabled then flags OR O_NONBLOCK else flags AND NOT O_NONBLOCK))"

definition windows_set_nonblocking :: "'os winsock \<Rightarrow> 'os \<Rightarrow> int \<Rightarrow> bool \<Rightarrow> 'os \<times> int option" where
  "windows_set_nonblocking ws os h enabled = ws_ioctlsocket ws os h (if enabled then 1 else 0)"

definition set_nonblocking_native :: "'os net \<Rightarrow> 'os \<Rightarrow> int \<Rightarrow> bool \<Rightarrow> 'os \<times> int option" where
  "set_nonblocking_native net os h enabled =
     (case net_winsock net of
        None \<Rightarrow> posix_set_nonblocking net os h enabled
      | Some ws \<Rightarrow> windows_set_nonblocking ws os h enabled)"

definition get_so_error :: "'os net \<Rightarrow> 'os \<Rightarrow> int \<Rightarrow> 'os \<times> int" where
  "get_so_error net os h = (case net_so_error net os h of (os', v) \<Rightarrow> (os', case v of None \<Rightarrow> 0 | Some e \<Rightarrow> e))"

section \<open>Waiting\<close>

datatype wait_result = Ready | Timed_out | Wait_error

text \<open>The result with the returned events and the error number, which are only set when they are meaningful.\<close>

partial_function (option) poll_one ::
  "'os net \<Rightarrow> 'os \<Rightarrow> int \<Rightarrow> 16 word \<Rightarrow> int \<Rightarrow> ('os \<times> wait_result \<times> 16 word \<times> int) option" where
  "poll_one net os h events timeout_ms =
     (case net_poll net os h events timeout_ms of
        (os', Inl code) \<Rightarrow>
          if is_interrupted net code then poll_one net os' h events timeout_ms else Some (os', Wait_error, 0, code)
      | (os', Inr None) \<Rightarrow> Some (os', Timed_out, 0, 0)
      | (os', Inr (Some revents)) \<Rightarrow> Some (os', Ready, revents, 0))"

text \<open>Seconds and microseconds of a timeout; a negative one is no timeout.\<close>

definition select_timeout :: "int \<Rightarrow> (int \<times> int) option" where
  "select_timeout timeout_ms = (if timeout_ms \<ge> 0 then Some (timeout_ms div 1000, (timeout_ms mod 1000) * 1000) else None)"

text \<open>The number of descriptors to look at, which Winsock ignores.\<close>

definition select_nfds :: "'os net \<Rightarrow> int \<Rightarrow> int" where
  "select_nfds net h = (if on_windows net then 0 else h + 1)"

partial_function (option) select_loop ::
  "'os net \<Rightarrow> 'os \<Rightarrow> int \<Rightarrow> (int \<times> int) option \<Rightarrow> ('os \<times> wait_result \<times> int) option" where
  "select_loop net os h timeout =
     (case net_select net os (select_nfds net h) h timeout of
        (os', timeout', Inl code) \<Rightarrow>
          if is_interrupted net code then select_loop net os' h timeout' else Some (os', Wait_error, code)
      | (os', timeout', Inr ready) \<Rightarrow> Some (os', if ready then Ready else Timed_out, 0))"

text \<open>
  On POSIX \<open>FD_SET\<close> of a descriptor that an \<open>fd_set\<close> has no bit for is undefined; on Windows an \<open>fd_set\<close> is an array, in which one
  socket always has a place.
\<close>

definition wait_connect_resolved :: "'os net \<Rightarrow> 'os \<Rightarrow> int \<Rightarrow> int \<Rightarrow> ('os \<times> wait_result \<times> int) cpp option" where
  "wait_connect_resolved net os h timeout_ms =
     (if \<not> on_windows net \<and> (h < 0 \<or> h \<ge> FD_SETSIZE) then Some (Inl Undefined_behaviour)
      else map_option Inr (select_loop net os h (select_timeout timeout_ms)))"

section \<open>TcpSocket\<close>

record tcp_socket =
  ts_handle :: int
  ts_error :: int
  ts_non_blocking :: bool

definition ts_closed :: tcp_socket where
  "ts_closed = \<lparr>ts_handle = -1, ts_error = 0, ts_non_blocking = False\<rparr>"

definition ts_is_open :: "tcp_socket \<Rightarrow> bool" where
  "ts_is_open s \<longleftrightarrow> ts_handle s \<noteq> -1"

text \<open>The loop of \<open>connect\<close> over the addresses: the last error, or the descriptor of the first address that works.\<close>

fun connect_loop :: "'os net \<Rightarrow> bool \<Rightarrow> 'os \<Rightarrow> addrinfo list \<Rightarrow> int \<Rightarrow> 'os \<times> (int + int)" where
  "connect_loop net non_blocking os [] last_err = (os, Inl last_err)"
| "connect_loop net non_blocking os (ai # rest) last_err =
     (case net_socket net os (ai_family ai) (ai_socktype ai) (ai_protocol ai) of
        (os1, Inl e) \<Rightarrow> connect_loop net non_blocking os1 rest e
      | (os1, Inr fd) \<Rightarrow>
          (case (if non_blocking then set_nonblocking_native net os1 fd True else (os1, None)) of
             (os2, Some e) \<Rightarrow> connect_loop net non_blocking (net_close net os2 fd) rest e
           | (os2, None) \<Rightarrow>
               (case net_connect net os2 fd (ai_addr ai) of
                  (os3, None) \<Rightarrow> (os3, Inr fd)
                | (os3, Some e) \<Rightarrow>
                    if is_in_progress net e then (os3, Inr fd)
                    else connect_loop net non_blocking (net_close net os3 fd) rest e)))"

definition tcp_connect :: "'os net \<Rightarrow> 'os \<Rightarrow> string \<Rightarrow> u16 \<Rightarrow> bool \<Rightarrow> 'os \<times> tcp_socket" where
  "tcp_connect net os host port non_blocking =
     (let sock = ts_closed\<lparr>ts_non_blocking := non_blocking\<rparr> in
      case net_getaddrinfo net (ensure_started net os) (c_str host) (nat_digits (unat port)) of
        (os1, Inl e) \<Rightarrow> (os1, sock\<lparr>ts_error := e\<rparr>)
      | (os1, Inr ais) \<Rightarrow>
          (case connect_loop net non_blocking os1 ais 0 of
             (os2, Inr fd) \<Rightarrow> (os2, sock\<lparr>ts_handle := fd\<rparr>)
           | (os2, Inl e) \<Rightarrow> (os2, sock\<lparr>ts_error := e\<rparr>)))"

definition set_non_blocking :: "'os net \<Rightarrow> bool \<Rightarrow> 'os \<times> tcp_socket \<Rightarrow> ('os \<times> tcp_socket) \<times> bool" where
  "set_non_blocking net enabled st =
     (case st of (os, s) \<Rightarrow>
      if \<not> ts_is_open s then (st, False)
      else (case set_nonblocking_native net os (ts_handle s) enabled of
          (os', Some e) \<Rightarrow> ((os', s\<lparr>ts_error := e\<rparr>), False)
        | (os', None) \<Rightarrow> ((os', s\<lparr>ts_non_blocking := enabled\<rparr>), True)))"

definition wait_connected :: "'os net \<Rightarrow> int \<Rightarrow> 'os \<times> tcp_socket \<Rightarrow> (('os \<times> tcp_socket) \<times> wait_result) cpp option" where
  "wait_connected net timeout_ms st =
     (case st of (os, s) \<Rightarrow>
      if \<not> ts_is_open s then Some (Inr (st, Wait_error))
      else map_option (\<lambda>r. case r of
          Inl x \<Rightarrow> Inl x
        | Inr (os1, Wait_error, e) \<Rightarrow> Inr ((os1, s\<lparr>ts_error := e\<rparr>), Wait_error)
        | Inr (os1, Timed_out, e) \<Rightarrow> Inr ((os1, s), Timed_out)
        | Inr (os1, Ready, e) \<Rightarrow>
            (case get_so_error net os1 (ts_handle s) of
               (os2, so) \<Rightarrow> if so \<noteq> 0 then Inr ((os2, s\<lparr>ts_error := so\<rparr>), Wait_error) else Inr ((os2, s), Ready)))
        (wait_connect_resolved net os (ts_handle s) timeout_ms))"

definition wait_readable :: "'os net \<Rightarrow> int \<Rightarrow> 'os \<times> tcp_socket \<Rightarrow> (('os \<times> tcp_socket) \<times> wait_result) option" where
  "wait_readable net timeout_ms st =
     (case st of (os, s) \<Rightarrow>
      if \<not> ts_is_open s then Some (st, Wait_error)
      else map_option (\<lambda>(os1, r, revents, e). ((os1, if r = Wait_error then s\<lparr>ts_error := e\<rparr> else s), r))
        (poll_one net os (ts_handle s) (POLLIN net) timeout_ms))"

definition wait_writable :: "'os net \<Rightarrow> int \<Rightarrow> 'os \<times> tcp_socket \<Rightarrow> (('os \<times> tcp_socket) \<times> wait_result) option" where
  "wait_writable net timeout_ms st =
     (case st of (os, s) \<Rightarrow>
      if \<not> ts_is_open s then Some (st, Wait_error)
      else map_option (\<lambda>(os1, r, revents, e).
          if r \<noteq> Ready then ((os1, if r = Wait_error then s\<lparr>ts_error := e\<rparr> else s), r)
          else if revents AND (POLLERR net OR POLLNVAL net) \<noteq> 0 then
            (case get_so_error net os1 (ts_handle s) of
               (os2, so) \<Rightarrow> ((os2, s\<lparr>ts_error := if so \<noteq> 0 then so else ts_error s\<rparr>), Wait_error))
          else ((os1, s), Ready))
        (poll_one net os (ts_handle s) (POLLOUT net) timeout_ms))"

datatype io_status = Ok | Closed | Would_block | Io_error

record io_result =
  io_status :: io_status
  io_bytes :: nat

definition io :: "io_status \<Rightarrow> nat \<Rightarrow> io_result" where
  "io status n = \<lparr>io_status = status, io_bytes = n\<rparr>"

definition tcp_send :: "'os net \<Rightarrow> u8 list \<Rightarrow> 'os \<times> tcp_socket \<Rightarrow> (('os \<times> tcp_socket) \<times> io_result) option" where
  "tcp_send net src st =
     (case st of (os, s) \<Rightarrow>
      if \<not> ts_is_open s then Some (st, io Io_error 0)
      else map_option (\<lambda>(os1, r). case r of
          Inl err \<Rightarrow> if is_would_block net err then ((os1, s), io Would_block 0) else ((os1, s\<lparr>ts_error := err\<rparr>), io Io_error 0)
        | Inr n \<Rightarrow> ((os1, s), io Ok n))
        (native_send net os (ts_handle s) src))"

text \<open>\<open>recv\<close> into a destination of \<open>len\<close> bytes; the bytes stored there are part of the result.\<close>

definition tcp_recv :: "'os net \<Rightarrow> nat \<Rightarrow> 'os \<times> tcp_socket \<Rightarrow> (('os \<times> tcp_socket) \<times> io_result \<times> u8 list) option" where
  "tcp_recv net len st =
     (case st of (os, s) \<Rightarrow>
      if \<not> ts_is_open s then Some (st, io Io_error 0, [])
      else map_option (\<lambda>(os1, r). case r of
          Inl err \<Rightarrow> if is_would_block net err then ((os1, s), io Would_block 0, []) else ((os1, s\<lparr>ts_error := err\<rparr>), io Io_error 0, [])
        | Inr bs \<Rightarrow> if bs = [] then ((os1, s), io Closed 0, []) else ((os1, s), io Ok (length bs), bs))
        (native_recv net os (ts_handle s) len))"

definition shutdown_write :: "'os net \<Rightarrow> 'os \<times> tcp_socket \<Rightarrow> ('os \<times> tcp_socket) \<times> bool" where
  "shutdown_write net st =
     (case st of (os, s) \<Rightarrow>
      if \<not> ts_is_open s then (st, False)
      else (case net_shutdown_write net os (ts_handle s) of
          (os1, Some e) \<Rightarrow> ((os1, s\<lparr>ts_error := e\<rparr>), False)
        | (os1, None) \<Rightarrow> ((os1, s), True)))"

definition tcp_close :: "'os net \<Rightarrow> 'os \<times> tcp_socket \<Rightarrow> ('os \<times> tcp_socket) \<times> bool" where
  "tcp_close net st =
     (case st of (os, s) \<Rightarrow>
      if \<not> ts_is_open s then (st, True) else ((net_close net os (ts_handle s), s\<lparr>ts_handle := -1\<rparr>), True))"

text \<open>Moving: the new socket, and what is left of the old one.\<close>

definition tcp_move :: "tcp_socket \<Rightarrow> tcp_socket \<times> tcp_socket" where
  "tcp_move other = (other, other\<lparr>ts_handle := -1\<rparr>)"

definition tcp_assign :: "'os net \<Rightarrow> 'os \<Rightarrow> tcp_socket \<Rightarrow> tcp_socket \<Rightarrow> 'os \<times> tcp_socket \<times> tcp_socket" where
  "tcp_assign net os s other = (fst (fst (tcp_close net (os, s))), tcp_move other)"

definition tcp_destroy :: "'os net \<Rightarrow> 'os \<times> tcp_socket \<Rightarrow> 'os \<times> tcp_socket" where
  "tcp_destroy net st = fst (tcp_close net st)"

section \<open>TcpServer\<close>

record tcp_server =
  sv_handle :: int
  sv_error :: int
  sv_local_port :: u16
  sv_non_blocking :: bool

definition sv_closed :: tcp_server where
  "sv_closed = \<lparr>sv_handle = -1, sv_error = 0, sv_local_port = 0, sv_non_blocking = False\<rparr>"

definition sv_is_open :: "tcp_server \<Rightarrow> bool" where
  "sv_is_open s \<longleftrightarrow> sv_handle s \<noteq> -1"

definition tcp_listen :: "'os net \<Rightarrow> 'os \<Rightarrow> u16 \<Rightarrow> int \<Rightarrow> bool \<Rightarrow> 'os \<times> tcp_server" where
  "tcp_listen net os port backlog non_blocking =
     (let server = sv_closed\<lparr>sv_non_blocking := non_blocking\<rparr> in
      case net_socket net (ensure_started net os) AF_INET SOCK_STREAM IPPROTO_TCP of
        (os1, Inl e) \<Rightarrow> (os1, server\<lparr>sv_error := e\<rparr>)
      | (os1, Inr fd) \<Rightarrow>
          (let os2 = net_reuse_addr net os1 fd in
           case (if non_blocking then set_nonblocking_native net os2 fd True else (os2, None)) of
             (os3, Some e) \<Rightarrow> (net_close net os3 fd, server\<lparr>sv_error := e\<rparr>)
           | (os3, None) \<Rightarrow>
               (case net_bind net os3 fd INADDR_ANY port of
                  (os4, Some e) \<Rightarrow> (net_close net os4 fd, server\<lparr>sv_error := e\<rparr>)
                | (os4, None) \<Rightarrow>
                    (case net_listen net os4 fd backlog of
                       (os5, Some e) \<Rightarrow> (net_close net os5 fd, server\<lparr>sv_error := e\<rparr>)
                     | (os5, None) \<Rightarrow>
                         (case net_getsockname net os5 fd of
                            (os6, r) \<Rightarrow> (os6, server\<lparr>sv_local_port := (case r of Inr bound \<Rightarrow> bound | Inl e \<Rightarrow> port), sv_handle := fd\<rparr>))))))"

definition server_wait_readable :: "'os net \<Rightarrow> int \<Rightarrow> 'os \<times> tcp_server \<Rightarrow> (('os \<times> tcp_server) \<times> wait_result) option" where
  "server_wait_readable net timeout_ms st =
     (case st of (os, s) \<Rightarrow>
      if \<not> sv_is_open s then Some (st, Wait_error)
      else map_option (\<lambda>(os1, r, revents, e). ((os1, if r = Wait_error then s\<lparr>sv_error := e\<rparr> else s), r))
        (poll_one net os (sv_handle s) (POLLIN net) timeout_ms))"

partial_function (option) accept_loop ::
  "'os net \<Rightarrow> 'os \<times> tcp_server \<Rightarrow> (('os \<times> tcp_server) \<times> tcp_socket option) option" where
  "accept_loop net st =
     (case st of (os, s) \<Rightarrow>
      (case net_accept net os (sv_handle s) of
         (os1, Inl code) \<Rightarrow>
           if is_interrupted net code then accept_loop net (os1, s)
           else Some ((os1, if is_would_block net code then s else s\<lparr>sv_error := code\<rparr>), None)
       | (os1, Inr fd) \<Rightarrow>
           Some (case set_nonblocking_native net os1 fd (sv_non_blocking s) of
             (os2, Some e) \<Rightarrow> ((net_close net os2 fd, s\<lparr>sv_error := e\<rparr>), None)
           | (os2, None) \<Rightarrow> ((os2, s), Some \<lparr>ts_handle = fd, ts_error = 0, ts_non_blocking = sv_non_blocking s\<rparr>))))"

definition tcp_accept :: "'os net \<Rightarrow> 'os \<times> tcp_server \<Rightarrow> (('os \<times> tcp_server) \<times> tcp_socket option) option" where
  "tcp_accept net st =
     (case st of (os, s) \<Rightarrow>
      if \<not> sv_is_open s then Some (st, None) else accept_loop net (os, s\<lparr>sv_error := 0\<rparr>))"

definition server_close :: "'os net \<Rightarrow> 'os \<times> tcp_server \<Rightarrow> ('os \<times> tcp_server) \<times> bool" where
  "server_close net st =
     (case st of (os, s) \<Rightarrow>
      if \<not> sv_is_open s then (st, True)
      else ((net_close net os (sv_handle s), s\<lparr>sv_handle := -1, sv_local_port := 0\<rparr>), True))"

definition server_move :: "tcp_server \<Rightarrow> tcp_server \<times> tcp_server" where
  "server_move other = (other, other\<lparr>sv_handle := -1, sv_local_port := 0\<rparr>)"

definition server_assign :: "'os net \<Rightarrow> 'os \<Rightarrow> tcp_server \<Rightarrow> tcp_server \<Rightarrow> 'os \<times> tcp_server \<times> tcp_server" where
  "server_assign net os s other = (fst (fst (server_close net (os, s))), server_move other)"

definition server_destroy :: "'os net \<Rightarrow> 'os \<times> tcp_server \<Rightarrow> 'os \<times> tcp_server" where
  "server_destroy net st = fst (server_close net st)"

declare posix_send.simps [code] posix_recv.simps [code] poll_one.simps [code] select_loop.simps [code] accept_loop.simps [code]

section \<open>Retried calls\<close>

definition interrupted :: "'os net \<Rightarrow> int + 'a \<Rightarrow> bool" where
  "interrupted net r \<longleftrightarrow> (case r of Inl e \<Rightarrow> is_interrupted net e | Inr x \<Rightarrow> False)"

lemma interrupted_simps [simp]:
  "interrupted net (Inl e) \<longleftrightarrow> is_interrupted net e" "\<not> interrupted net (Inr x)"
  by (simp_all add: interrupted_def)

lemma winsock_not_interrupted [simp]: "\<not> interrupted (net\<lparr>net_winsock := Some ws\<rparr>) r"
  by (simp add: interrupted_def is_interrupted_def split: sum.split)

interpretation posix_send: retry "\<lambda>os. net_send net os h bs" "\<lambda>r. r = Inl EINTR" Pair "\<lambda>os. posix_send net os h bs" for net h bs
  by unfold_locales (subst posix_send.simps, auto split: prod.split sum.split)

interpretation posix_recv: retry "\<lambda>os. net_recv net os h n" "\<lambda>r. r = Inl EINTR" Pair "\<lambda>os. posix_recv net os h n" for net h n
  by unfold_locales (subst posix_recv.simps, auto split: prod.split sum.split)

interpretation poll_one: retry "\<lambda>os. net_poll net os h ev t" "interrupted net"
  "\<lambda>os r. (os, case r of Inl code \<Rightarrow> (Wait_error, 0, code) | Inr None \<Rightarrow> (Timed_out, 0, 0) | Inr (Some revents) \<Rightarrow> (Ready, revents, 0))"
  "\<lambda>os. poll_one net os h ev t" for net h ev t
  by unfold_locales (subst poll_one.simps, auto split: prod.split sum.split option.split)

interpretation select_loop: retry "\<lambda>(os, tv). case net_select net os (select_nfds net h) h tv of (os', tv', r) \<Rightarrow> ((os', tv'), r)" "interrupted net"
  "\<lambda>s r. (fst s, case r of Inl code \<Rightarrow> (Wait_error, code) | Inr ready \<Rightarrow> (if ready then Ready else Timed_out, 0))"
  "\<lambda>(os, tv). select_loop net os h tv" for net h
  by unfold_locales (clarsimp, subst select_loop.simps, auto split: prod.split sum.split)

end
