(* ===== verification/Tcp_Descriptors.thy ===== *)
theory Tcp_Descriptors
  imports Tcp_Socket "HOL-Library.Multiset"
begin

text \<open>
  Ownership of descriptors: a program that works with any number of sockets and servers, and what each of their operations
  does to the set of open descriptors, error paths included.
\<close>

section \<open>What the system calls promise\<close>

text \<open>
  \<open>fds\<close> are the open descriptors: \<open>socket\<close> and \<open>accept\<close> open a new one or fail, \<open>close\<close> closes, no other call opens or closes. A call
  is interrupted finitely often in a row: \<open>budget\<close> decreases.
\<close>

definition opens :: "('os \<Rightarrow> int set) \<Rightarrow> 'os \<Rightarrow> 'os \<times> (int + int) \<Rightarrow> bool" where
  "opens fds os res \<longleftrightarrow>
     (case res of
        (os', Inr fd) \<Rightarrow> fd \<noteq> -1 \<and> fd \<notin> fds os \<and> fds os' = insert fd (fds os)
      | (os', Inl e) \<Rightarrow> fds os' = fds os)"

definition fd_contract :: "'os net \<Rightarrow> ('os \<Rightarrow> int set) \<Rightarrow> ('os \<Rightarrow> nat) \<Rightarrow> bool" where
  "fd_contract net fds budget \<longleftrightarrow>
     (\<forall>os f t p. opens fds os (net_socket net os f t p)) \<and>
     (\<forall>os h. opens fds os (net_accept net os h) \<and>
        (interrupted net (snd (net_accept net os h)) \<longrightarrow> budget (fst (net_accept net os h)) < budget os)) \<and>
     (\<forall>os h. fds (net_close net os h) = fds os - {h}) \<and>
     (\<forall>os h bs. fds (fst (net_send net os h bs)) = fds os \<and>
        (interrupted net (snd (net_send net os h bs)) \<longrightarrow> budget (fst (net_send net os h bs)) < budget os)) \<and>
     (\<forall>os h n. fds (fst (net_recv net os h n)) = fds os \<and>
        (interrupted net (snd (net_recv net os h n)) \<longrightarrow> budget (fst (net_recv net os h n)) < budget os)) \<and>
     (\<forall>os h ev t. fds (fst (net_poll net os h ev t)) = fds os \<and>
        (interrupted net (snd (net_poll net os h ev t)) \<longrightarrow> budget (fst (net_poll net os h ev t)) < budget os)) \<and>
     (\<forall>os n h t. fds (fst (net_select net os n h t)) = fds os \<and>
        (interrupted net (snd (snd (net_select net os n h t))) \<longrightarrow> budget (fst (net_select net os n h t)) < budget os)) \<and>
     (\<forall>os host port. fds (fst (net_getaddrinfo net os host port)) = fds os) \<and>
     (\<forall>os h. fds (net_reuse_addr net os h) = fds os) \<and>
     (\<forall>os h. fds (fst (net_getfl net os h)) = fds os) \<and>
     (\<forall>os h fl. fds (fst (net_setfl net os h fl)) = fds os) \<and>
     (\<forall>os h a. fds (fst (net_connect net os h a)) = fds os) \<and>
     (\<forall>os h a p. fds (fst (net_bind net os h a p)) = fds os) \<and>
     (\<forall>os h b. fds (fst (net_listen net os h b)) = fds os) \<and>
     (\<forall>os h. fds (fst (net_getsockname net os h)) = fds os) \<and>
     (\<forall>os h. fds (fst (net_so_error net os h)) = fds os) \<and>
     (\<forall>os h. fds (fst (net_shutdown_write net os h)) = fds os) \<and>
     (\<forall>ws. net_winsock net = Some ws \<longrightarrow>
        (\<forall>os. fds (ws_startup ws os) = fds os) \<and> (\<forall>os h m. fds (fst (ws_ioctlsocket ws os h m)) = fds os))"

text \<open>The descriptors that the system hands out.\<close>

definition fd_range :: "'os net \<Rightarrow> int set \<Rightarrow> bool" where
  "fd_range net R \<longleftrightarrow>
     (\<forall>os f t p. case snd (net_socket net os f t p) of Inr fd \<Rightarrow> fd \<in> R | Inl e \<Rightarrow> True) \<and>
     (\<forall>os h. case snd (net_accept net os h) of Inr fd \<Rightarrow> fd \<in> R | Inl e \<Rightarrow> True)"

text \<open>
  Those that \<open>FD_SET\<close> may be used with: on Windows all, on POSIX the numbers below \<open>FD_SETSIZE\<close>. A process that may have no more
  than \<open>FD_SETSIZE\<close> descriptors open, which is the usual limit, only gets those.
\<close>

definition fd_safe :: "'os net \<Rightarrow> int set" where
  "fd_safe net = (if on_windows net then UNIV else {0..<FD_SETSIZE})"

abbreviation fd_limit :: "'os net \<Rightarrow> bool" where
  "fd_limit net \<equiv> fd_range net (fd_safe net)"

section \<open>Programs\<close>

record 'os tcp_world =
  tw_os :: 'os
  tw_socks :: "tcp_socket list"
  tw_servers :: "tcp_server list"

datatype tcp_op =
    Connect string u16 bool | Set_non_blocking nat bool | Wait_connected nat int | Wait_readable nat int | Wait_writable nat int
  | Send nat "u8 list" | Recv nat nat | Shutdown_write nat | Close nat | Move nat | Assign nat nat | Destroy nat
  | Listen u16 int bool | Server_wait nat int | Accept nat | Server_close nat | Server_move nat | Server_assign nat nat
  | Server_destroy nat

definition put_sock :: "nat \<Rightarrow> 'os \<times> tcp_socket \<Rightarrow> 'os tcp_world \<Rightarrow> 'os tcp_world" where
  "put_sock i st w = w\<lparr>tw_os := fst st, tw_socks := (tw_socks w)[i := snd st]\<rparr>"

definition put_server :: "nat \<Rightarrow> 'os \<times> tcp_server \<Rightarrow> 'os tcp_world \<Rightarrow> 'os tcp_world" where
  "put_server i st w = w\<lparr>tw_os := fst st, tw_servers := (tw_servers w)[i := snd st]\<rparr>"

abbreviation sock :: "'os tcp_world \<Rightarrow> nat \<Rightarrow> 'os \<times> tcp_socket" where
  "sock w i \<equiv> (tw_os w, tw_socks w ! i)"

abbreviation server :: "'os tcp_world \<Rightarrow> nat \<Rightarrow> 'os \<times> tcp_server" where
  "server w i \<equiv> (tw_os w, tw_servers w ! i)"

text \<open>Which objects an operation works on; programs only name objects there are, and assign between different ones.\<close>

fun op_ok :: "'os tcp_world \<Rightarrow> tcp_op \<Rightarrow> bool" where
  "op_ok w (Connect host port nb) = True"
| "op_ok w (Set_non_blocking i b) = (i < length (tw_socks w))"
| "op_ok w (Wait_connected i t) = (i < length (tw_socks w))"
| "op_ok w (Wait_readable i t) = (i < length (tw_socks w))"
| "op_ok w (Wait_writable i t) = (i < length (tw_socks w))"
| "op_ok w (Send i bs) = (i < length (tw_socks w))"
| "op_ok w (Recv i n) = (i < length (tw_socks w))"
| "op_ok w (Shutdown_write i) = (i < length (tw_socks w))"
| "op_ok w (Close i) = (i < length (tw_socks w))"
| "op_ok w (Move i) = (i < length (tw_socks w))"
| "op_ok w (Assign i j) = (i < length (tw_socks w) \<and> j < length (tw_socks w) \<and> i \<noteq> j)"
| "op_ok w (Destroy i) = (i < length (tw_socks w))"
| "op_ok w (Listen port b nb) = True"
| "op_ok w (Server_wait i t) = (i < length (tw_servers w))"
| "op_ok w (Accept i) = (i < length (tw_servers w))"
| "op_ok w (Server_close i) = (i < length (tw_servers w))"
| "op_ok w (Server_move i) = (i < length (tw_servers w))"
| "op_ok w (Server_assign i j) = (i < length (tw_servers w) \<and> j < length (tw_servers w) \<and> i \<noteq> j)"
| "op_ok w (Server_destroy i) = (i < length (tw_servers w))"

text \<open>A new object is appended. One that is destroyed stays in its list as a closed one.\<close>

fun tcp_exec :: "'os net \<Rightarrow> tcp_op \<Rightarrow> 'os tcp_world \<Rightarrow> 'os tcp_world cpp option" where
  "tcp_exec net (Connect host port nb) w =
     (case tcp_connect net (tw_os w) host port nb of (os, s) \<Rightarrow> Some (Inr (w\<lparr>tw_os := os, tw_socks := tw_socks w @ [s]\<rparr>)))"
| "tcp_exec net (Set_non_blocking i b) w = Some (Inr (put_sock i (fst (set_non_blocking net b (sock w i))) w))"
| "tcp_exec net (Wait_connected i t) w =
     map_option (map_sum id (\<lambda>(st, r). put_sock i st w)) (wait_connected net t (sock w i))"
| "tcp_exec net (Wait_readable i t) w = map_option (\<lambda>(st, r). Inr (put_sock i st w)) (wait_readable net t (sock w i))"
| "tcp_exec net (Wait_writable i t) w = map_option (\<lambda>(st, r). Inr (put_sock i st w)) (wait_writable net t (sock w i))"
| "tcp_exec net (Send i bs) w = map_option (\<lambda>(st, r). Inr (put_sock i st w)) (tcp_send net bs (sock w i))"
| "tcp_exec net (Recv i n) w = map_option (\<lambda>(st, r). Inr (put_sock i st w)) (tcp_recv net n (sock w i))"
| "tcp_exec net (Shutdown_write i) w = Some (Inr (put_sock i (fst (shutdown_write net (sock w i))) w))"
| "tcp_exec net (Close i) w = Some (Inr (put_sock i (fst (tcp_close net (sock w i))) w))"
| "tcp_exec net (Move i) w =
     (case tcp_move (tw_socks w ! i) of (new, old) \<Rightarrow> Some (Inr (w\<lparr>tw_socks := (tw_socks w)[i := old] @ [new]\<rparr>)))"
| "tcp_exec net (Assign i j) w =
     (case tcp_assign net (tw_os w) (tw_socks w ! i) (tw_socks w ! j) of
        (os, new, old) \<Rightarrow> Some (Inr (w\<lparr>tw_os := os, tw_socks := (tw_socks w)[i := new, j := old]\<rparr>)))"
| "tcp_exec net (Destroy i) w = Some (Inr (put_sock i (tcp_destroy net (sock w i)) w))"
| "tcp_exec net (Listen port b nb) w =
     (case tcp_listen net (tw_os w) port b nb of (os, s) \<Rightarrow> Some (Inr (w\<lparr>tw_os := os, tw_servers := tw_servers w @ [s]\<rparr>)))"
| "tcp_exec net (Server_wait i t) w = map_option (\<lambda>(st, r). Inr (put_server i st w)) (server_wait_readable net t (server w i))"
| "tcp_exec net (Accept i) w =
     map_option (\<lambda>(st, peer). Inr (let w' = put_server i st w in
         case peer of None \<Rightarrow> w' | Some s \<Rightarrow> w'\<lparr>tw_socks := tw_socks w' @ [s]\<rparr>))
       (tcp_accept net (server w i))"
| "tcp_exec net (Server_close i) w = Some (Inr (put_server i (fst (server_close net (server w i))) w))"
| "tcp_exec net (Server_move i) w =
     (case server_move (tw_servers w ! i) of (new, old) \<Rightarrow> Some (Inr (w\<lparr>tw_servers := (tw_servers w)[i := old] @ [new]\<rparr>)))"
| "tcp_exec net (Server_assign i j) w =
     (case server_assign net (tw_os w) (tw_servers w ! i) (tw_servers w ! j) of
        (os, new, old) \<Rightarrow> Some (Inr (w\<lparr>tw_os := os, tw_servers := (tw_servers w)[i := new, j := old]\<rparr>)))"
| "tcp_exec net (Server_destroy i) w = Some (Inr (put_server i (server_destroy net (server w i)) w))"

text \<open>An operation on an object that does not exist is left out.\<close>

fun tcp_run :: "'os net \<Rightarrow> tcp_op list \<Rightarrow> 'os tcp_world \<Rightarrow> 'os tcp_world cpp option" where
  "tcp_run net [] w = Some (Inr w)"
| "tcp_run net (x # xs) w =
     (if op_ok w x then
        (case tcp_exec net x w of
           None \<Rightarrow> None
         | Some (Inl e) \<Rightarrow> Some (Inl e)
         | Some (Inr w') \<Rightarrow> tcp_run net xs w')
      else tcp_run net xs w)"

definition open_handles :: "'os tcp_world \<Rightarrow> int list" where
  "open_handles w = filter (\<lambda>h. h \<noteq> -1) (map ts_handle (tw_socks w) @ map sv_handle (tw_servers w))"

section \<open>What an operation does to the descriptors\<close>

lemma fd_keeps:
  assumes "fd_contract net fds budget"
  shows "net_send net os h bs = (os', r) \<Longrightarrow> fds os' = fds os"
    and "net_recv net os h n = (os', r') \<Longrightarrow> fds os' = fds os"
    and "net_poll net os h ev t = (os', rp) \<Longrightarrow> fds os' = fds os"
    and "net_select net os nf h tv = (os', rs) \<Longrightarrow> fds os' = fds os"
    and "net_getaddrinfo net os host port = (os', rg) \<Longrightarrow> fds os' = fds os"
    and "fds (net_reuse_addr net os h) = fds os"
    and "net_getfl net os h = (os', rf) \<Longrightarrow> fds os' = fds os"
    and "net_setfl net os h fl = (os', ro) \<Longrightarrow> fds os' = fds os"
    and "net_connect net os h a = (os', ro) \<Longrightarrow> fds os' = fds os"
    and "net_bind net os h ad po = (os', ro) \<Longrightarrow> fds os' = fds os"
    and "net_listen net os h b = (os', ro) \<Longrightarrow> fds os' = fds os"
    and "net_getsockname net os h = (os', rn) \<Longrightarrow> fds os' = fds os"
    and "net_so_error net os h = (os', ro) \<Longrightarrow> fds os' = fds os"
    and "net_shutdown_write net os h = (os', ro) \<Longrightarrow> fds os' = fds os"
    and "fds (net_close net os h) = fds os - {h}"
  using assms unfolding fd_contract_def by (metis fst_conv)+

lemma winsock_keeps:
  assumes "fd_contract net fds budget"
  shows "fds (ensure_started net os) = fds os" and "net_winsock net = Some ws \<Longrightarrow> ws_ioctlsocket ws os h m = (os', ro) \<Longrightarrow> fds os' = fds os"
proof -
  have k: "(\<forall>os. fds (ws_startup ws os) = fds os) \<and> (\<forall>os h m. fds (fst (ws_ioctlsocket ws os h m)) = fds os)" if "net_winsock net = Some ws" for ws
    using assms that unfolding fd_contract_def by blast
  then show "fds (ensure_started net os) = fds os" by (simp add: ensure_started_def split: option.split)
  show "net_winsock net = Some ws \<Longrightarrow> ws_ioctlsocket ws os h m = (os', ro) \<Longrightarrow> fds os' = fds os" using k by (metis fst_conv)
qed

lemma fd_interrupted:
  assumes "fd_contract net fds budget"
  shows "net_send net os h bs = (os', r) \<Longrightarrow> interrupted net r \<Longrightarrow> budget os' < budget os"
    and "net_recv net os h n = (os', r') \<Longrightarrow> interrupted net r' \<Longrightarrow> budget os' < budget os"
    and "net_poll net os h ev t = (os', rp) \<Longrightarrow> interrupted net rp \<Longrightarrow> budget os' < budget os"
    and "net_select net os nf h tv = (os', tv', rs) \<Longrightarrow> interrupted net rs \<Longrightarrow> budget os' < budget os"
    and "net_accept net os h = (os', ra) \<Longrightarrow> interrupted net ra \<Longrightarrow> budget os' < budget os"
  using assms unfolding fd_contract_def by (metis fst_conv snd_conv)+

lemma fd_opens:
  assumes "fd_contract net fds budget"
  shows "opens fds os (net_socket net os f t p)" and "opens fds os (net_accept net os h)"
  using assms unfolding fd_contract_def by metis+

text \<open>The loops around interrupted calls return and keep the descriptors.\<close>

lemma native_send_keeps:
  assumes con: "fd_contract net fds budget"
  shows "\<exists>os' r. native_send net os h bs = Some (os', r) \<and> fds os' = fds os"
proof (cases "on_windows net")
  case True
  obtain os' r where "windows_send net os h bs = (os', r)" by fastforce
  then show ?thesis using True fd_keeps(1) [OF con] by (auto simp: native_send_def windows_send_def Let_def)
next
  case False
  have "budget os' < budget os" if "net_send net os h bs = (os', Inl EINTR)" for os os'
    using fd_interrupted(1) [OF con that] False by (simp add: is_interrupted_def)
  then have "\<exists>os' r. posix_send net os h bs = Some (os', r) \<and> fds os' = fds os"
    using posix_send.returns [of "\<lambda>os1. fds os1 = fds os" net h bs budget os] fd_keeps(1) [OF con] by metis
  then show ?thesis using False by (simp add: native_send_def)
qed

lemma native_recv_keeps:
  assumes con: "fd_contract net fds budget"
  shows "\<exists>os' r. native_recv net os h n = Some (os', r) \<and> fds os' = fds os"
proof (cases "on_windows net")
  case True
  obtain os' r where "windows_recv net os h n = (os', r)" by fastforce
  then show ?thesis using True fd_keeps(2) [OF con] by (auto simp: native_recv_def windows_recv_def Let_def)
next
  case False
  have "budget os' < budget os" if "net_recv net os h n = (os', Inl EINTR)" for os os'
    using fd_interrupted(2) [OF con that] False by (simp add: is_interrupted_def)
  then have "\<exists>os' r. posix_recv net os h n = Some (os', r) \<and> fds os' = fds os"
    using posix_recv.returns [of "\<lambda>os1. fds os1 = fds os" net h n budget os] fd_keeps(2) [OF con] by metis
  then show ?thesis using False by (simp add: native_recv_def)
qed

lemma poll_one_keeps:
  assumes con: "fd_contract net fds budget"
  shows "\<exists>os' r. poll_one net os h ev t = Some (os', r) \<and> fds os' = fds os"
  using poll_one.returns [of "\<lambda>os1. fds os1 = fds os" net h ev t budget os] fd_keeps(3) [OF con] fd_interrupted(3) [OF con] by metis

lemma select_loop_keeps:
  assumes con: "fd_contract net fds budget"
  shows "\<exists>os' r. select_loop net os h tv = Some (os', r) \<and> fds os' = fds os"
proof -
  have k: "fds os' = fds os" "interrupted net r \<Longrightarrow> budget os' < budget os"
    if "(case net_select net os (select_nfds net h) h tv of (os', tv', r) \<Rightarrow> ((os', tv'), r)) = ((os', tv'), r)" for os tv os' tv' r
    using that fd_keeps(4) [OF con] fd_interrupted(4) [OF con] by (auto split: prod.splits)
  show ?thesis
    using select_loop.returns [of "\<lambda>s. fds (fst s) = fds os" net h "\<lambda>s. budget (fst s)" "(os, tv)"] k by fastforce
qed

lemma set_nonblocking_keeps:
  assumes con: "fd_contract net fds budget" and "set_nonblocking_native net os h b = (os', r)"
  shows "fds os' = fds os"
  using assms(2) by (auto simp: set_nonblocking_native_def posix_set_nonblocking_def windows_set_nonblocking_def split: option.splits prod.splits sum.splits
    dest: fd_keeps(7,8) [OF con] winsock_keeps(2) [OF con])

lemma get_so_error_keeps:
  assumes con: "fd_contract net fds budget" and "get_so_error net os h = (os', r)"
  shows "fds os' = fds os"
  using assms(2) by (auto simp: get_so_error_def split: prod.splits dest: fd_keeps(13) [OF con])

text \<open>A factory or \<open>accept\<close> returns an object with a new descriptor, or a closed one and no descriptor is left behind.\<close>

definition gains :: "int set \<Rightarrow> ('os \<Rightarrow> int set) \<Rightarrow> 'os \<Rightarrow> 'os \<Rightarrow> int \<Rightarrow> bool" where
  "gains R fds os os' h \<longleftrightarrow>
     (if h = -1 then fds os' = fds os
      else h \<in> R \<and> h \<notin> fds os \<and> fds os' = insert h (fds os))"

lemma fd_rangeD:
  assumes "fd_range net R"
  shows "net_socket net os f t p = (os', Inr fd) \<Longrightarrow> fd \<in> R" and "net_accept net os h = (os', Inr fd) \<Longrightarrow> fd \<in> R"
  using assms unfolding fd_range_def by (metis snd_conv sum.simps(6))+

lemma socket_cases:
  assumes con: "fd_contract net fds budget" and lim: "fd_range net R"
  shows "net_socket net os f t p = (os', Inl e) \<Longrightarrow> fds os' = fds os"
    and "net_socket net os f t p = (os', Inr fd) \<Longrightarrow> gains R fds os os' fd \<and> fd \<noteq> -1"
    and "net_accept net os h = (os', Inl e) \<Longrightarrow> fds os' = fds os"
    and "net_accept net os h = (os', Inr fd) \<Longrightarrow> gains R fds os os' fd \<and> fd \<noteq> -1"
  using fd_opens(1) [OF con, of os f t p] fd_opens(2) [OF con, of os h] fd_rangeD [OF lim]
  by (auto simp: opens_def gains_def)

text \<open>The set of descriptors after a new one has been used and closed again.\<close>

lemma gains_close:
  assumes "fd_contract net fds budget" and "gains R fds os os1 fd" and "fd \<noteq> -1" and "fds os2 = fds os1"
  shows "fds (net_close net os2 fd) = fds os"
  using assms by (simp add: gains_def fd_keeps)

lemma gains_cong: "gains R fds os os1 fd \<Longrightarrow> fds os2 = fds os1 \<Longrightarrow> gains R fds os os2 fd"
  by (simp add: gains_def)

lemma gains_from: "gains R fds os1 os' fd \<Longrightarrow> fds os1 = fds os \<Longrightarrow> gains R fds os os' fd"
  by (auto simp: gains_def split: if_splits)

lemma gains_none [simp]: "gains R fds os os' (-1) \<longleftrightarrow> fds os' = fds os"
  by (simp add: gains_def)

lemma connect_loop_gains:
  assumes con: "fd_contract net fds budget" and lim: "fd_range net R"
  shows "connect_loop net nb os ais e = (os', r) \<Longrightarrow> gains R fds os os' (case r of Inl e \<Rightarrow> -1 | Inr fd \<Rightarrow> fd)"
proof (induction ais arbitrary: os e)
  case Nil
  then show ?case by (auto simp: gains_def)
next
  case (Cons ai rest)
  obtain os1 r1 where 1: "net_socket net os (ai_family ai) (ai_socktype ai) (ai_protocol ai) = (os1, r1)" by fastforce
  show ?case
  proof (cases r1)
    case (Inl e1)
    then have "connect_loop net nb os1 rest e1 = (os', r)" using Cons.prems 1 by simp
    from gains_from [OF Cons.IH [OF this] socket_cases(1) [OF con lim 1 [unfolded Inl]]] show ?thesis .
  next
    case (Inr fd)
    note g = socket_cases(2) [OF con lim 1 [unfolded Inr]]
    obtain os2 r2 where 2: "(if nb then set_nonblocking_native net os1 fd True else (os1, None)) = (os2, r2)" by fastforce
    have k2: "fds os2 = fds os1" using 2 set_nonblocking_keeps [OF con] by (auto split: if_splits)
    obtain os3 r3 where 3: "net_connect net os2 fd (ai_addr ai) = (os3, r3)" by fastforce
    have k3: "fds os3 = fds os1" using fd_keeps(9) [OF con 3] k2 by simp
    note undo = gains_from [OF Cons.IH gains_close [OF con conjunct1 [OF g] conjunct2 [OF g]]]
    have eq: "connect_loop net nb os (ai # rest) e =
      (case r2 of Some x \<Rightarrow> connect_loop net nb (net_close net os2 fd) rest x
       | None \<Rightarrow> (case r3 of None \<Rightarrow> (os3, Inr fd)
         | Some x \<Rightarrow> if is_in_progress net x then (os3, Inr fd) else connect_loop net nb (net_close net os3 fd) rest x))"
      by (simp only: connect_loop.simps 1 2 3 Inr prod.case sum.case split: option.split)
    consider x where "connect_loop net nb (net_close net os2 fd) rest x = (os', r)" | "os3 = os'" "r = Inr fd"
      | x where "connect_loop net nb (net_close net os3 fd) rest x = (os', r)"
      using Cons.prems [unfolded eq] by (auto split: option.splits if_splits)
    then show ?thesis
    proof cases
      case 2
      then show ?thesis using gains_cong [OF conjunct1 [OF g] k3] by simp
    qed (erule undo, rule k2 k3)+
  qed
qed

lemma tcp_connect_gains:
  assumes con: "fd_contract net fds budget" and lim: "fd_range net R" and "tcp_connect net os host port nb = (os', s)"
  shows "gains R fds os os' (ts_handle s)"
proof -
  obtain os1 r1 where 1: "net_getaddrinfo net (ensure_started net os) (c_str host) (nat_digits (unat port)) = (os1, r1)" by fastforce
  note k1 = fd_keeps(5) [OF con 1, unfolded winsock_keeps(1) [OF con]]
  have eq: "tcp_connect net os host port nb =
    (case r1 of Inl e \<Rightarrow> (os1, ts_closed\<lparr>ts_non_blocking := nb, ts_error := e\<rparr>)
     | Inr ais \<Rightarrow> (case connect_loop net nb os1 ais 0 of
         (os2, Inr fd) \<Rightarrow> (os2, ts_closed\<lparr>ts_non_blocking := nb, ts_handle := fd\<rparr>)
       | (os2, Inl e) \<Rightarrow> (os2, ts_closed\<lparr>ts_non_blocking := nb, ts_error := e\<rparr>)))"
    by (simp only: tcp_connect_def 1 Let_def prod.case)
  show ?thesis
    using assms(3) [unfolded eq] k1 connect_loop_gains [OF con lim]
    by (fastforce simp: ts_closed_def intro: gains_from split: sum.splits prod.splits)
qed

lemma tcp_listen_gains:
  assumes con: "fd_contract net fds budget" and lim: "fd_range net R" and l: "tcp_listen net os port b nb = (os', s)"
  shows "gains R fds os os' (sv_handle s)"
proof -
  let ?os = "ensure_started net os"
  note k0 = winsock_keeps(1) [OF con, of os]
  obtain os1 r1 where 1: "net_socket net ?os AF_INET SOCK_STREAM IPPROTO_TCP = (os1, r1)" by fastforce
  show ?thesis
  proof (cases r1)
    case (Inl e)
    then show ?thesis using l 1 socket_cases(1) [OF con lim 1 [unfolded Inl]] k0 by (auto simp: tcp_listen_def sv_closed_def gains_def)
  next
    case (Inr fd)
    have g: "gains R fds os os1 fd \<and> fd \<noteq> -1" using socket_cases(2) [OF con lim 1 [unfolded Inr]] unfolding gains_def k0 by simp
    let ?os2 = "net_reuse_addr net os1 fd"
    obtain os3 r3 where 3: "(if nb then set_nonblocking_native net ?os2 fd True else (?os2, None)) = (os3, r3)" by fastforce
    have k3: "fds os3 = fds os1" using 3 set_nonblocking_keeps [OF con] fd_keeps(6) [OF con] by (auto split: if_splits)
    obtain os4 r4 where 4: "net_bind net os3 fd INADDR_ANY port = (os4, r4)" by fastforce
    have k4: "fds os4 = fds os1" using fd_keeps(10) [OF con 4] k3 by simp
    obtain os5 r5 where 5: "net_listen net os4 fd b = (os5, r5)" by fastforce
    have k5: "fds os5 = fds os1" using fd_keeps(11) [OF con 5] k4 by simp
    obtain os6 r6 where 6: "net_getsockname net os5 fd = (os6, r6)" by fastforce
    have k6: "fds os6 = fds os1" using fd_keeps(12) [OF con 6] k5 by simp
    note undo = gains_close [OF con conjunct1 [OF g] conjunct2 [OF g]]
    have eq: "tcp_listen net os port b nb =
      (case r3 of Some e \<Rightarrow> (net_close net os3 fd, sv_closed\<lparr>sv_non_blocking := nb, sv_error := e\<rparr>)
       | None \<Rightarrow> (case r4 of Some e \<Rightarrow> (net_close net os4 fd, sv_closed\<lparr>sv_non_blocking := nb, sv_error := e\<rparr>)
       | None \<Rightarrow> (case r5 of Some e \<Rightarrow> (net_close net os5 fd, sv_closed\<lparr>sv_non_blocking := nb, sv_error := e\<rparr>)
       | None \<Rightarrow> (os6, sv_closed\<lparr>sv_non_blocking := nb, sv_local_port := (case r6 of Inr bound \<Rightarrow> bound | Inl e \<Rightarrow> port), sv_handle := fd\<rparr>))))"
      using 1 3 4 5 6 Inr by (simp add: tcp_listen_def split: option.split)
    show ?thesis using l [unfolded eq] undo [OF k3] undo [OF k4] undo [OF k5] gains_cong [OF conjunct1 [OF g] k6]
      by (auto simp: sv_closed_def gains_def split: option.splits)
  qed
qed

lemma tcp_accept_gains:
  assumes con: "fd_contract net fds budget" and lim: "fd_range net R"
  shows "\<exists>os' s' r. tcp_accept net (os, s) = Some ((os', s'), r) \<and> sv_handle s' = sv_handle s \<and>
    gains R fds os os' (case r of None \<Rightarrow> -1 | Some p \<Rightarrow> ts_handle p)"
proof -
  have "\<exists>os' s' r. accept_loop net (os, s) = Some ((os', s'), r) \<and> sv_handle s' = sv_handle s \<and>
      gains R fds os os' (case r of None \<Rightarrow> -1 | Some p \<Rightarrow> ts_handle p)" for s
  proof (induction "budget os" arbitrary: os rule: less_induct)
    case less
    obtain os1 r1 where 1: "net_accept net os (sv_handle s) = (os1, r1)" by fastforce
    show ?case
    proof (cases r1)
      case (Inl e)
      then show ?thesis
        using less [of os1] 1 fd_interrupted(5) [OF con 1] socket_cases(3) [OF con lim 1 [unfolded Inl]]
        by (subst accept_loop.simps) (auto intro: gains_from)
    next
      case (Inr fd)
      note g = socket_cases(4) [OF con lim 1 [unfolded Inr]]
      obtain os2 r2 where 2: "set_nonblocking_native net os1 fd (sv_non_blocking s) = (os2, r2)" by fastforce
      note k2 = set_nonblocking_keeps [OF con 2]
      show ?thesis
        using 1 2 Inr gains_close [OF con conjunct1 [OF g] conjunct2 [OF g] k2] gains_cong [OF conjunct1 [OF g] k2]
        by (subst accept_loop.simps) (auto split: option.split)
    qed
  qed
  from this [of "s\<lparr>sv_error := 0\<rparr>"] show ?thesis by (auto simp: tcp_accept_def)
qed

text \<open>Operations that keep the handle return and keep the descriptors.\<close>

lemma socket_op_keeps:
  assumes con: "fd_contract net fds budget"
  shows "ts_handle (snd (fst (set_non_blocking net b (os, s)))) = ts_handle s \<and> fds (fst (fst (set_non_blocking net b (os, s)))) = fds os"
    and "ts_handle (snd (fst (shutdown_write net (os, s)))) = ts_handle s \<and> fds (fst (fst (shutdown_write net (os, s)))) = fds os"
    and "\<exists>os' s' r. wait_readable net t (os, s) = Some ((os', s'), r) \<and> ts_handle s' = ts_handle s \<and> fds os' = fds os"
    and "\<exists>os' s' r. tcp_send net bs (os, s) = Some ((os', s'), r) \<and> ts_handle s' = ts_handle s \<and> fds os' = fds os"
    and "\<exists>os' s' r. tcp_recv net n (os, s) = Some ((os', s'), r) \<and> ts_handle s' = ts_handle s \<and> fds os' = fds os"
proof -
  show "ts_handle (snd (fst (set_non_blocking net b (os, s)))) = ts_handle s \<and> fds (fst (fst (set_non_blocking net b (os, s)))) = fds os"
    by (auto simp: set_non_blocking_def split: prod.split option.split dest: set_nonblocking_keeps [OF con])
  show "ts_handle (snd (fst (shutdown_write net (os, s)))) = ts_handle s \<and> fds (fst (fst (shutdown_write net (os, s)))) = fds os"
    by (auto simp: shutdown_write_def split: prod.split option.split dest: fd_keeps(14) [OF con])
  show "\<exists>os' s' r. wait_readable net t (os, s) = Some ((os', s'), r) \<and> ts_handle s' = ts_handle s \<and> fds os' = fds os"
  proof -
    obtain os1 r rev e where "poll_one net os (ts_handle s) (POLLIN net) t = Some (os1, r, rev, e)" "fds os1 = fds os"
      using poll_one_keeps [OF con, of os "ts_handle s" "POLLIN net" t] by auto
    then show ?thesis by (cases "r = Wait_error") (simp_all add: wait_readable_def)
  qed
  show "\<exists>os' s' r. tcp_send net bs (os, s) = Some ((os', s'), r) \<and> ts_handle s' = ts_handle s \<and> fds os' = fds os"
  proof -
    obtain os1 r where "native_send net os (ts_handle s) bs = Some (os1, r)" "fds os1 = fds os"
      using native_send_keeps [OF con] by blast
    then show ?thesis by (cases r) (simp_all add: tcp_send_def)
  qed
  show "\<exists>os' s' r. tcp_recv net n (os, s) = Some ((os', s'), r) \<and> ts_handle s' = ts_handle s \<and> fds os' = fds os"
  proof -
    obtain os1 r where "native_recv net os (ts_handle s) n = Some (os1, r)" "fds os1 = fds os"
      using native_recv_keeps [OF con] by blast
    then show ?thesis by (cases r) (simp_all add: tcp_recv_def)
  qed
qed

lemma wait_writable_keeps:
  assumes con: "fd_contract net fds budget"
  shows "\<exists>os' s' r. wait_writable net t (os, s) = Some ((os', s'), r) \<and> ts_handle s' = ts_handle s \<and> fds os' = fds os"
proof -
  obtain os1 r rev e where 1: "poll_one net os (ts_handle s) (POLLOUT net) t = Some (os1, r, rev, e)" "fds os1 = fds os"
    using poll_one_keeps [OF con, of os "ts_handle s" "POLLOUT net" t] by auto
  then show ?thesis by (auto simp: wait_writable_def split: prod.split dest: get_so_error_keeps [OF con])
qed

lemma wait_connected_keeps:
  assumes con: "fd_contract net fds budget" and "ts_is_open s \<Longrightarrow> ts_handle s \<in> fd_safe net"
  shows "\<exists>os' s' r. wait_connected net t (os, s) = Some (Inr ((os', s'), r)) \<and> ts_handle s' = ts_handle s \<and> fds os' = fds os"
proof -
  obtain os1 r e where 1: "select_loop net os (ts_handle s) (select_timeout t) = Some (os1, r, e)" "fds os1 = fds os"
    using select_loop_keeps [OF con, of os "ts_handle s" "select_timeout t"] by auto
  show ?thesis
  proof (cases "ts_is_open s")
    case True
    then have "wait_connect_resolved net os (ts_handle s) t = Some (Inr (os1, r, e))"
      using assms(2) 1 by (auto simp: wait_connect_resolved_def fd_safe_def split: if_splits)
    then show ?thesis using 1(2) True
      by (cases r) (auto simp: wait_connected_def split: prod.split dest: get_so_error_keeps [OF con])
  qed (simp add: wait_connected_def)
qed

lemma server_wait_keeps:
  assumes con: "fd_contract net fds budget"
  shows "\<exists>os' s' r. server_wait_readable net t (os, s) = Some ((os', s'), r) \<and> sv_handle s' = sv_handle s \<and> fds os' = fds os"
proof -
  obtain os1 r rev e where "poll_one net os (sv_handle s) (POLLIN net) t = Some (os1, r, rev, e)" "fds os1 = fds os"
    using poll_one_keeps [OF con, of os "sv_handle s" "POLLIN net" t] by auto
  then show ?thesis by (cases "r = Wait_error") (simp_all add: server_wait_readable_def)
qed

section \<open>One owner for each descriptor\<close>

definition one :: "int \<Rightarrow> int multiset" where
  "one h = (if h = -1 then {#} else {#h#})"

definition tcp_inv :: "int set \<Rightarrow> ('os \<Rightarrow> int set) \<Rightarrow> int set \<Rightarrow> 'os tcp_world \<Rightarrow> bool" where
  "tcp_inv R fds base w \<longleftrightarrow>
     base \<subseteq> fds (tw_os w) \<and> finite (fds (tw_os w) - base) \<and>
     mset (open_handles w) = mset_set (fds (tw_os w) - base) \<and> fds (tw_os w) - base \<subseteq> R"

lemma owned_update:
  assumes "i < length xs"
  shows "mset (filter (\<lambda>h. h \<noteq> -1) (map f (xs[i := y]))) + one (f (xs ! i)) = mset (filter (\<lambda>h. h \<noteq> -1) (map f xs)) + one (f y)"
proof -
  have "mset (filter (\<lambda>h. h \<noteq> -1) (map f (take i xs @ z # drop (Suc i) xs))) =
      mset (filter (\<lambda>h. h \<noteq> -1) (map f (take i xs))) + one (f z) + mset (filter (\<lambda>h. h \<noteq> -1) (map f (drop (Suc i) xs)))" for z
    by (simp add: one_def)
  from this [of y] this [of "xs ! i"] show ?thesis
    using assms by (simp add: upd_conv_take_nth_drop id_take_nth_drop [symmetric] ac_simps)
qed

lemma handles_put_sock:
  assumes "i < length (tw_socks w)"
  shows "mset (open_handles (w\<lparr>tw_os := os, tw_socks := (tw_socks w)[i := s]\<rparr>)) + one (ts_handle (tw_socks w ! i)) =
    mset (open_handles w) + one (ts_handle s)"
  using owned_update [OF assms, of ts_handle s] by (simp add: open_handles_def ac_simps)

lemma handles_put_server:
  assumes "i < length (tw_servers w)"
  shows "mset (open_handles (w\<lparr>tw_os := os, tw_servers := (tw_servers w)[i := s]\<rparr>)) + one (sv_handle (tw_servers w ! i)) =
    mset (open_handles w) + one (sv_handle s)"
  using owned_update [OF assms, of sv_handle s] by (simp add: open_handles_def ac_simps)

lemma handles_add:
  "mset (open_handles (w\<lparr>tw_os := os, tw_socks := tw_socks w @ [s]\<rparr>)) = mset (open_handles w) + one (ts_handle s)"
  "mset (open_handles (w\<lparr>tw_socks := tw_socks w @ [s]\<rparr>)) = mset (open_handles w) + one (ts_handle s)"
  "mset (open_handles (w\<lparr>tw_os := os, tw_servers := tw_servers w @ [v]\<rparr>)) = mset (open_handles w) + one (sv_handle v)"
  by (simp_all add: open_handles_def one_def)

lemma tcp_inv_keep:
  assumes "tcp_inv R fds base w" and "mset (open_handles w') = mset (open_handles w)" and "fds (tw_os w') = fds (tw_os w)"
  shows "tcp_inv R fds base w'"
  using assms by (simp add: tcp_inv_def)

lemma tcp_inv_gain:
  assumes "tcp_inv R fds base w" and "mset (open_handles w') = mset (open_handles w) + one h" and "gains R fds (tw_os w) (tw_os w') h"
  shows "tcp_inv R fds base w'"
proof (cases "h = -1")
  case True
  then show ?thesis using assms by (simp add: tcp_inv_def one_def)
next
  case False
  have 1: "h \<notin> fds (tw_os w)" "fds (tw_os w') = insert h (fds (tw_os w))" "h \<in> R"
    using assms(3) False by (simp_all add: gains_def)
  then have "fds (tw_os w') - base = insert h (fds (tw_os w) - base)" using assms(1) by (auto simp: tcp_inv_def)
  then show ?thesis using assms(1,2) 1 False by (auto simp: tcp_inv_def one_def)
qed

lemma tcp_inv_lose:
  assumes "tcp_inv R fds base w" and "mset (open_handles w') + one h = mset (open_handles w)"
    and "fds (tw_os w') = (if h = -1 then fds (tw_os w) else fds (tw_os w) - {h})"
  shows "tcp_inv R fds base w'"
proof (cases "h = -1")
  case True
  then show ?thesis using assms by (simp add: tcp_inv_def one_def)
next
  case False
  let ?A = "fds (tw_os w) - base"
  have m: "mset (open_handles w') + {#h#} = mset_set ?A" and fin: "finite ?A"
    using assms(1,2) False by (simp_all add: tcp_inv_def one_def)
  then have h: "h \<in> ?A" by (metis elem_mset_set multi_member_last union_iff)
  have "mset (open_handles w') = mset_set (?A - {h})"
    using m h fin by (metis add_mset_add_single diff_union_cancelR mset_set_Diff mset_set.empty mset_set.insert empty_iff empty_subsetI finite.emptyI insert_subset)
  moreover have "fds (tw_os w') - base = ?A - {h}" using assms(3) False by auto
  ultimately show ?thesis using assms(1,3) False h by (auto simp: tcp_inv_def)
qed

text \<open>The three kinds of change, for sockets and servers.\<close>

lemma tcp_inv_put_sock:
  assumes "tcp_inv R fds base w" and "i < length (tw_socks w)" and "ts_handle s = ts_handle (tw_socks w ! i)" and "fds os = fds (tw_os w)"
  shows "tcp_inv R fds base (put_sock i (os, s) w)"
  using tcp_inv_keep [OF assms(1)] handles_put_sock [OF assms(2), of s os] assms(3,4) by (simp add: put_sock_def)

lemma tcp_inv_put_server:
  assumes "tcp_inv R fds base w" and "i < length (tw_servers w)" and "sv_handle s = sv_handle (tw_servers w ! i)" and "fds os = fds (tw_os w)"
  shows "tcp_inv R fds base (put_server i (os, s) w)"
  using tcp_inv_keep [OF assms(1)] handles_put_server [OF assms(2), of s os] assms(3,4) by (simp add: put_server_def)

lemma tcp_inv_close:
  assumes con: "fd_contract net fds budget" and inv: "tcp_inv R fds base w"
  shows "i < length (tw_socks w) \<Longrightarrow> tcp_inv R fds base (put_sock i (fst (tcp_close net (sock w i))) w)"
    and "i < length (tw_servers w) \<Longrightarrow> tcp_inv R fds base (put_server i (fst (server_close net (server w i))) w)"
proof -
  assume i: "i < length (tw_socks w)"
  show "tcp_inv R fds base (put_sock i (fst (tcp_close net (sock w i))) w)"
  proof (rule tcp_inv_lose [OF inv, of _ "ts_handle (tw_socks w ! i)"])
    show "mset (open_handles (put_sock i (fst (tcp_close net (sock w i))) w)) + one (ts_handle (tw_socks w ! i)) = mset (open_handles w)"
      using handles_put_sock [OF i] by (auto simp: put_sock_def tcp_close_def ts_is_open_def one_def)
  qed (auto simp: put_sock_def tcp_close_def ts_is_open_def fd_keeps [OF con])
next
  assume i: "i < length (tw_servers w)"
  show "tcp_inv R fds base (put_server i (fst (server_close net (server w i))) w)"
  proof (rule tcp_inv_lose [OF inv, of _ "sv_handle (tw_servers w ! i)"])
    show "mset (open_handles (put_server i (fst (server_close net (server w i))) w)) + one (sv_handle (tw_servers w ! i)) = mset (open_handles w)"
      using handles_put_server [OF i] by (auto simp: put_server_def server_close_def sv_is_open_def one_def)
  qed (auto simp: put_server_def server_close_def sv_is_open_def fd_keeps [OF con])
qed

lemma owned_move:
  fixes f :: "'a \<Rightarrow> int"
  assumes "i < length xs" and "f old = -1" and "f new = f (xs ! i)"
  shows "mset (filter (\<lambda>h. h \<noteq> -1) (map f (xs[i := old] @ [new]))) = mset (filter (\<lambda>h. h \<noteq> -1) (map f xs))"
  using owned_update [OF assms(1), where f = f and y = old] assms(2,3) by (simp add: one_def split: if_splits)

lemma owned_assign:
  assumes "i < length xs" and "j < length xs" and "i \<noteq> j" and "f old = -1" and "f new = f (xs ! j)"
  shows "mset (filter (\<lambda>h. h \<noteq> -1) (map f (xs[i := new, j := old]))) + one (f (xs ! i)) = mset (filter (\<lambda>h. h \<noteq> -1) (map f xs))"
proof -
  let ?m = "\<lambda>xs. mset (filter (\<lambda>h. h \<noteq> -1) (map f xs))"
  have 1: "?m (xs[i := new]) + one (f (xs ! i)) = ?m xs + one (f (xs ! j))"
    using owned_update [OF assms(1), where f = f and y = new] assms(5) by simp
  have 2: "?m (xs[i := new]) = ?m (xs[i := new, j := old]) + one (f (xs ! j))"
    using owned_update [of j "xs[i := new]" f old] assms by (simp add: one_def [of "-1"])
  show ?thesis using 1 [unfolded 2] by (simp add: add.commute add.left_commute)
qed

lemma tcp_inv_assign:
  assumes con: "fd_contract net fds budget" and inv: "tcp_inv R fds base w"
  shows "op_ok w (Assign i j) \<Longrightarrow> \<exists>w'. tcp_exec net (Assign i j) w = Some (Inr w') \<and> tcp_inv R fds base w'"
    and "op_ok w (Server_assign i j) \<Longrightarrow> \<exists>w'. tcp_exec net (Server_assign i j) w = Some (Inr w') \<and> tcp_inv R fds base w'"
proof -
  assume ok: "op_ok w (Assign i j)"
  let ?s = "tw_socks w ! i" and ?o = "tw_socks w ! j"
  let ?w = "w\<lparr>tw_os := fst (fst (tcp_close net (tw_os w, ?s))), tw_socks := (tw_socks w)[i := ?o, j := ?o\<lparr>ts_handle := -1\<rparr>]\<rparr>"
  have "mset (open_handles ?w) + one (ts_handle ?s) = mset (open_handles w)"
    using ok owned_assign [of i "tw_socks w" j ts_handle "?o\<lparr>ts_handle := -1\<rparr>" ?o] by (simp add: open_handles_def ac_simps)
  then have "tcp_inv R fds base ?w"
    by (rule tcp_inv_lose [OF inv]) (auto simp: tcp_close_def ts_is_open_def fd_keeps [OF con])
  then show "\<exists>w'. tcp_exec net (Assign i j) w = Some (Inr w') \<and> tcp_inv R fds base w'"
    by (simp add: tcp_assign_def tcp_move_def)
next
  assume ok: "op_ok w (Server_assign i j)"
  let ?s = "tw_servers w ! i" and ?o = "tw_servers w ! j"
  let ?old = "?o\<lparr>sv_handle := -1, sv_local_port := 0\<rparr>"
  let ?w = "w\<lparr>tw_os := fst (fst (server_close net (tw_os w, ?s))), tw_servers := (tw_servers w)[i := ?o, j := ?old]\<rparr>"
  have "mset (open_handles ?w) + one (sv_handle ?s) = mset (open_handles w)"
    using ok owned_assign [of i "tw_servers w" j sv_handle ?old ?o] by (simp add: open_handles_def ac_simps)
  then have "tcp_inv R fds base ?w"
    by (rule tcp_inv_lose [OF inv]) (auto simp: server_close_def sv_is_open_def fd_keeps [OF con])
  then show "\<exists>w'. tcp_exec net (Server_assign i j) w = Some (Inr w') \<and> tcp_inv R fds base w'"
    by (simp add: server_assign_def server_move_def)
qed

lemma tcp_inv_move:
  assumes inv: "tcp_inv R fds base w"
  shows "op_ok w (Move i) \<Longrightarrow> \<exists>w'. tcp_exec net (Move i) w = Some (Inr w') \<and> tcp_inv R fds base w'"
    and "op_ok w (Server_move i) \<Longrightarrow> \<exists>w'. tcp_exec net (Server_move i) w = Some (Inr w') \<and> tcp_inv R fds base w'"
proof -
  assume ok: "op_ok w (Move i)"
  let ?w = "w\<lparr>tw_socks := (tw_socks w)[i := (tw_socks w ! i)\<lparr>ts_handle := -1\<rparr>] @ [tw_socks w ! i]\<rparr>"
  have "mset (open_handles ?w) = mset (open_handles w)"
    using ok owned_move [of i "tw_socks w" ts_handle "(tw_socks w ! i)\<lparr>ts_handle := -1\<rparr>" "tw_socks w ! i"]
    by (simp only: open_handles_def filter_append mset_append) simp
  then show "\<exists>w'. tcp_exec net (Move i) w = Some (Inr w') \<and> tcp_inv R fds base w'"
    using tcp_inv_keep [OF inv, of ?w] by (simp add: tcp_move_def)
next
  assume ok: "op_ok w (Server_move i)"
  let ?old = "(tw_servers w ! i)\<lparr>sv_handle := -1, sv_local_port := 0\<rparr>"
  let ?w = "w\<lparr>tw_servers := (tw_servers w)[i := ?old] @ [tw_servers w ! i]\<rparr>"
  have "mset (open_handles ?w) = mset (open_handles w)"
    using ok owned_move [of i "tw_servers w" sv_handle ?old "tw_servers w ! i"]
    by (simp only: open_handles_def filter_append mset_append) simp
  then show "\<exists>w'. tcp_exec net (Server_move i) w = Some (Inr w') \<and> tcp_inv R fds base w'"
    using tcp_inv_keep [OF inv, of ?w] by (simp add: server_move_def)
qed

lemma tcp_inv_accept:
  assumes con: "fd_contract net fds budget" and lim: "fd_range net R" and inv: "tcp_inv R fds base w" and ok: "op_ok w (Accept i)"
  shows "\<exists>w'. tcp_exec net (Accept i) w = Some (Inr w') \<and> tcp_inv R fds base w'"
proof -
  obtain os' s' r where 1: "tcp_accept net (server w i) = Some ((os', s'), r)" "sv_handle s' = sv_handle (tw_servers w ! i)"
    "gains R fds (tw_os w) os' (case r of None \<Rightarrow> -1 | Some p \<Rightarrow> ts_handle p)"
    using tcp_accept_gains [OF con lim] by blast
  let ?w = "put_server i (os', s') w"
  have m: "mset (open_handles ?w) = mset (open_handles w)"
    using handles_put_server [of i w s' os'] ok 1(2) by (simp add: put_server_def)
  show ?thesis
  proof (cases r)
    case None
    then show ?thesis using 1 m tcp_inv_keep [OF inv, of ?w] by (simp add: put_server_def)
  next
    case (Some p)
    have "tcp_inv R fds base (?w\<lparr>tw_socks := tw_socks ?w @ [p]\<rparr>)"
    proof (rule tcp_inv_gain [OF inv])
      show "mset (open_handles (?w\<lparr>tw_socks := tw_socks ?w @ [p]\<rparr>)) = mset (open_handles w) + one (ts_handle p)"
        by (simp only: handles_add m)
    qed (use Some 1(3) in \<open>simp add: put_server_def\<close>)
    then show ?thesis using 1(1) Some by (simp add: Let_def)
  qed
qed

lemma tcp_inv_set:
  assumes "tcp_inv R fds base w"
  shows "set (open_handles w) = fds (tw_os w) - base"
  using assms unfolding tcp_inv_def by (metis finite_set_mset_mset_set set_mset_mset)

lemma tcp_inv_handle:
  assumes "tcp_inv R fds base w" and "i < length (tw_socks w)" and "ts_is_open (tw_socks w ! i)"
  shows "ts_handle (tw_socks w ! i) \<in> R"
proof -
  have "ts_handle (tw_socks w ! i) \<in> set (open_handles w)"
    using assms(2,3) by (auto simp: open_handles_def ts_is_open_def)
  then show ?thesis using assms(1) by (auto simp: tcp_inv_set [OF assms(1)] tcp_inv_def)
qed

lemma tcp_inv_exec:
  assumes con: "fd_contract net fds budget" and lim: "fd_limit net" and inv: "tcp_inv (fd_safe net) fds base w" and ok: "op_ok w x"
  shows "\<exists>w'. tcp_exec net x w = Some (Inr w') \<and> tcp_inv (fd_safe net) fds base w'"
proof (cases x)
  case (Connect host port nb)
  obtain os s where 1: "tcp_connect net (tw_os w) host port nb = (os, s)" by fastforce
  show ?thesis using Connect 1 tcp_inv_gain [OF inv handles_add(1)] tcp_connect_gains [OF con lim 1] by simp
next
  case (Listen port b nb)
  obtain os s where 1: "tcp_listen net (tw_os w) port b nb = (os, s)" by fastforce
  show ?thesis using Listen 1 tcp_inv_gain [OF inv handles_add(3)] tcp_listen_gains [OF con lim 1] by simp
next
  case (Set_non_blocking i b)
  then show ?thesis
    using socket_op_keeps(1) [OF con, of b "tw_os w" "tw_socks w ! i"] ok tcp_inv_put_sock [OF inv]
    by (cases "fst (set_non_blocking net b (sock w i))") simp
next
  case (Shutdown_write i)
  then show ?thesis
    using socket_op_keeps(2) [OF con, of "tw_os w" "tw_socks w ! i"] ok tcp_inv_put_sock [OF inv]
    by (cases "fst (shutdown_write net (sock w i))") simp
next
  case (Wait_readable i t)
  then show ?thesis
    using socket_op_keeps(3) [OF con, of t "tw_os w" "tw_socks w ! i"] ok tcp_inv_put_sock [OF inv] by auto
next
  case (Send i bs)
  then show ?thesis
    using socket_op_keeps(4) [OF con, of bs "tw_os w" "tw_socks w ! i"] ok tcp_inv_put_sock [OF inv] by auto
next
  case (Recv i n)
  then show ?thesis
    using socket_op_keeps(5) [OF con, of n "tw_os w" "tw_socks w ! i"] ok tcp_inv_put_sock [OF inv] by auto
next
  case (Wait_writable i t)
  then show ?thesis
    using wait_writable_keeps [OF con, of t "tw_os w" "tw_socks w ! i"] ok tcp_inv_put_sock [OF inv] by auto
next
  case (Wait_connected i t)
  then show ?thesis
    using wait_connected_keeps [OF con tcp_inv_handle [OF inv], of i t "tw_os w"] ok tcp_inv_put_sock [OF inv] by auto
next
  case (Server_wait i t)
  then show ?thesis
    using server_wait_keeps [OF con, of t "tw_os w" "tw_servers w ! i"] ok tcp_inv_put_server [OF inv] by auto
qed (use ok tcp_inv_close [OF con inv] tcp_inv_assign [OF con inv] tcp_inv_move [OF inv] tcp_inv_accept [OF con lim inv]
      in \<open>simp_all only: tcp_exec.simps op_ok.simps tcp_destroy_def server_destroy_def, simp_all\<close>)

lemma tcp_inv_run:
  assumes con: "fd_contract net fds budget" and lim: "fd_limit net"
  shows "tcp_inv (fd_safe net) fds base w \<Longrightarrow> \<exists>w'. tcp_run net xs w = Some (Inr w') \<and> tcp_inv (fd_safe net) fds base w'"
proof (induction xs arbitrary: w)
  case (Cons x xs)
  show ?case
  proof (cases "op_ok w x")
    case True
    from tcp_inv_exec [OF con lim Cons.prems this] Cons.IH True show ?thesis by auto
  qed (use Cons in simp)
qed simp


text \<open>
  Property C37. \<open>wait_connected\<close> is not safe in a process with many descriptors: when every descriptor below \<open>FD_SETSIZE\<close> is in use, \<open>connect\<close> still
  returns open sockets on POSIX, but waiting for one of them to be connected is undefined behaviour.
\<close>

theorem tcp_wait_connected_undefined:
  assumes "net_winsock net = None" and "fd_contract net fds budget" and "{0..<FD_SETSIZE} \<subseteq> fds os" and "tcp_connect net os host port nb = (os', s)" and "ts_is_open s"
  shows "wait_connected net timeout_ms (os', s) = Some (Inl Undefined_behaviour)"
proof -
  have "fd_range net UNIV" by (simp add: fd_range_def split: sum.split)
  from tcp_connect_gains [OF assms(2) this assms(4)] have "ts_handle s \<notin> fds os"
    using assms(5) by (simp add: gains_def ts_is_open_def)
  then have "\<not> (0 \<le> ts_handle s \<and> ts_handle s < FD_SETSIZE)" using assms(3) by auto
  then show ?thesis using assms(1,5) by (auto simp: wait_connected_def wait_connect_resolved_def)
qed

section \<open>Witnesses\<close>

text \<open>A small system: descriptors 3 to 7, the first address of a host refuses, and a few calls are interrupted.\<close>

type_synonym demo_os = "int list \<times> nat"

definition demo_free :: "demo_os \<Rightarrow> int list" where
  "demo_free os = filter (\<lambda>fd. fd \<notin> set (fst os)) [3, 4, 5, 6, 7]"

definition demo_fresh :: "demo_os \<Rightarrow> demo_os \<times> (int + int)" where
  "demo_fresh os = (case demo_free os of [] \<Rightarrow> (os, Inl 24) | fd # fds \<Rightarrow> ((fd # fst os, snd os), Inr fd))"

fun demo_interrupted :: "demo_os \<Rightarrow> (demo_os \<Rightarrow> demo_os \<times> (int + 'a)) \<Rightarrow> demo_os \<times> (int + 'a)" where
  "demo_interrupted (fds, 0) f = f (fds, 0)"
| "demo_interrupted (fds, Suc n) f = ((fds, n), Inl EINTR)"

definition demo_net :: "demo_os net" where
  "demo_net = \<lparr>net_getaddrinfo = (\<lambda>os host port. (os, Inr [\<lparr>ai_family = 10, ai_socktype = 1, ai_protocol = 6, ai_addr = [1]\<rparr>,
       \<lparr>ai_family = 2, ai_socktype = 1, ai_protocol = 6, ai_addr = [2]\<rparr>])),
     net_socket = (\<lambda>os f t p. demo_fresh os), net_reuse_addr = (\<lambda>os h. os), net_getfl = (\<lambda>os h. (os, Inr 2)), net_setfl = (\<lambda>os h fl. (os, None)),
     net_connect = (\<lambda>os h a. (os, if a = [1] then Some 111 else Some EINPROGRESS)), net_bind = (\<lambda>os h a p. (os, None)),
     net_listen = (\<lambda>os h b. (os, None)), net_getsockname = (\<lambda>os h. (os, Inr 40000)), net_accept = (\<lambda>os h. demo_interrupted os demo_fresh),
     net_send = (\<lambda>os h bs. demo_interrupted os (\<lambda>os. (os, Inr (length bs)))), net_recv = (\<lambda>os h n. demo_interrupted os (\<lambda>os. (os, Inr (replicate n 0)))),
     net_poll = (\<lambda>os h ev t. demo_interrupted os (\<lambda>os. (os, Inr (Some ev)))),
     net_select = (\<lambda>os n h t. case demo_interrupted os (\<lambda>os. (os, Inr True)) of (os', r) \<Rightarrow> (os', t, r)), net_so_error = (\<lambda>os h. (os, Some 0)),
     net_shutdown_write = (\<lambda>os h. (os, None)), net_close = (\<lambda>os h. (removeAll h (fst os), snd os)), net_winsock = None\<rparr>"

lemma demo_free_spec: "fd \<in> set (demo_free os) \<Longrightarrow> 0 \<le> fd \<and> fd < FD_SETSIZE \<and> fd \<notin> set (fst os)"
  unfolding demo_free_def set_filter FD_SETSIZE_def by auto

lemma demo_fresh_spec:
  shows demo_fresh_opens: "opens (\<lambda>os. set (fst os)) os (demo_fresh os)"
    and demo_fresh_limit: "case snd (demo_fresh os) of Inr fd \<Rightarrow> fd \<in> {0..<FD_SETSIZE} | Inl e \<Rightarrow> True"
  using demo_free_spec [of "hd (demo_free os)" os] by (auto simp: opens_def demo_fresh_def split: list.split)

lemma demo_interrupted_cases:
  "demo_interrupted os f = (case snd os of 0 \<Rightarrow> f os | Suc n \<Rightarrow> ((fst os, n), Inl EINTR))"
  by (cases os; cases "snd os") auto

lemma demo_net_contract: "fd_contract demo_net (\<lambda>os. set (fst os)) snd" and demo_net_limit: "fd_limit demo_net"
proof -
  have f: "\<not> interrupted net (snd (demo_fresh os))" for net :: "demo_os net" and os by (simp add: demo_fresh_def is_interrupted_def EINTR_def split: list.splits)
  show "fd_contract demo_net (\<lambda>os. set (fst os)) snd"
    using demo_fresh_opens f
    by (auto simp: fd_contract_def demo_net_def demo_interrupted_cases split: nat.split prod.split) (auto simp: opens_def)
  have "fd_range demo_net {0..<FD_SETSIZE}"
    using demo_fresh_limit unfolding fd_range_def by (auto simp: demo_net_def demo_interrupted_cases split: nat.split)
  moreover have "fd_safe demo_net = {0..<FD_SETSIZE}" by (simp add: fd_safe_def demo_net_def)
  ultimately show "fd_limit demo_net" by simp
qed

definition demo_ops :: "tcp_op list" where
  "demo_ops = [Listen 0 8 True, Connect ''host'' 80 True, Wait_connected 0 100, Accept 0, Move 0, Send 2 [1, 2], Server_destroy 0, Destroy 1]"

text \<open>The same calls on Windows, where no call counts as interrupted and a socket has any number but -1.\<close>

definition demo_winsock :: "demo_os net" where
  "demo_winsock = demo_net\<lparr>net_winsock := Some \<lparr>ws_ioctlsocket = (\<lambda>os h m. (os, None)), ws_once = (\<lambda>os. False), ws_startup = (\<lambda>os. os)\<rparr>\<rparr>"

lemma demo_winsock_contract: "fd_contract demo_winsock (\<lambda>os. set (fst os)) snd" and demo_winsock_limit: "fd_limit demo_winsock"
proof -
  show "fd_contract demo_winsock (\<lambda>os. set (fst os)) snd"
    using demo_net_contract unfolding fd_contract_def by (simp add: demo_winsock_def)
  show "fd_limit demo_winsock" by (simp add: fd_range_def fd_safe_def demo_winsock_def split: sum.split)
qed


text \<open>A process with 1024 descriptors, some of which it may close: new ones are 1024 and 1025. The state is what it opened and closed.\<close>

type_synonym crowded_os = "int list \<times> int list"

definition crowded_fds :: "crowded_os \<Rightarrow> int set" where
  "crowded_fds os = ({0..<FD_SETSIZE} - set (snd os)) \<union> set (fst os)"

definition crowded_fresh :: "crowded_os \<Rightarrow> crowded_os \<times> (int + int)" where
  "crowded_fresh os =
     (if 1024 \<notin> set (fst os) then ((1024 # fst os, snd os), Inr 1024)
      else if 1025 \<notin> set (fst os) then ((1025 # fst os, snd os), Inr 1025) else (os, Inl 24))"

definition crowded_net :: "crowded_os net" where
  "crowded_net = \<lparr>net_getaddrinfo = (\<lambda>os host port. (os, Inr [\<lparr>ai_family = 2, ai_socktype = 1, ai_protocol = 6, ai_addr = [2]\<rparr>])),
     net_socket = (\<lambda>os f t p. crowded_fresh os), net_reuse_addr = (\<lambda>os h. os), net_getfl = (\<lambda>os h. (os, Inr 2)), net_setfl = (\<lambda>os h fl. (os, None)),
     net_connect = (\<lambda>os h a. (os, Some EINPROGRESS)), net_bind = (\<lambda>os h a p. (os, None)), net_listen = (\<lambda>os h b. (os, None)),
     net_getsockname = (\<lambda>os h. (os, Inr 40000)), net_accept = (\<lambda>os h. crowded_fresh os), net_send = (\<lambda>os h bs. (os, Inr (length bs))),
     net_recv = (\<lambda>os h n. (os, Inr [])), net_poll = (\<lambda>os h ev t. (os, Inr (Some ev))), net_select = (\<lambda>os n h t. (os, t, Inr True)),
     net_so_error = (\<lambda>os h. (os, Some 0)), net_shutdown_write = (\<lambda>os h. (os, None)),
     net_close = (\<lambda>os h. (removeAll h (fst os), h # snd os)), net_winsock = None\<rparr>"

lemma crowded_net_contract: "fd_contract crowded_net crowded_fds (\<lambda>os. 0)"
proof -
  have o: "opens crowded_fds os (crowded_fresh os)" and e: "\<not> interrupted net (snd (crowded_fresh os))" for os and net :: "crowded_os net"
    by (auto simp: opens_def crowded_fresh_def crowded_fds_def FD_SETSIZE_def is_interrupted_def EINTR_def)
  show ?thesis using o e by (auto simp: fd_contract_def crowded_net_def) (auto simp: crowded_fds_def)
qed

theorem tcp_wait_connected_undefined_witness:
  "\<exists>os' s. tcp_connect crowded_net ([], []) ''host'' 80 True = (os', s) \<and> ts_is_open s \<and>
     wait_connected crowded_net 100 (os', s) = Some (Inl Undefined_behaviour)"
proof -
  let ?c = "tcp_connect crowded_net ([], []) ''host'' 80 True"
  have o: "ts_is_open (snd ?c)" by code_simp
  have "{0..<FD_SETSIZE} \<subseteq> crowded_fds ([], [])" by (simp add: crowded_fds_def)
  have "net_winsock crowded_net = None" by (simp add: crowded_net_def)
  from tcp_wait_connected_undefined [OF this crowded_net_contract \<open>{0..<FD_SETSIZE} \<subseteq> crowded_fds ([], [])\<close> _ o, of _ _ _ "fst ?c" 100]
  show ?thesis using o by (cases ?c) auto
qed

end
