(* ===== verification/Log_Sinks.thy ===== *)
theory Log_Sinks
  imports Log_Record Tcp_Descriptors
begin

text \<open>
  Opening and closing the sinks of the logger (logger.hpp, logger.cpp, on both platforms), and the id of a thread. Streams and sockets are
  calls of the platform and parameters; the socket calls are those of \<open>Tcp_Socket\<close>.
\<close>

section \<open>ConsoleSink and FileSink\<close>

datatype console_stream = Standard_output | Standard_error

definition console_new :: "'f \<Rightarrow> 'f \<Rightarrow> console_stream \<Rightarrow> 'f" where
  "console_new stdout stderr stream = (if stream = Standard_error then stderr else stdout)"

text \<open>\<open>open_file\<close> opens a file for appending or truncates it, or fails.\<close>

definition file_sink_new :: "('p \<Rightarrow> string \<Rightarrow> bool \<Rightarrow> 'p \<times> 'f option) \<Rightarrow> 'p \<Rightarrow> string \<Rightarrow> bool \<Rightarrow> 'p \<times> 'f file_sink cpp" where
  "file_sink_new open_file os path appending =
     (case open_file os path appending of
        (os', None) \<Rightarrow> (os', Inl (Runtime_error (''FileSink: cannot open '' @ [CHR 0x27] @ path @ [CHR 0x27])))
      | (os', Some f) \<Rightarrow> (os', Inr \<lparr>fs_file = f, fs_bad = False\<rparr>))"

section \<open>UdpSink\<close>

text \<open>
  \<open>getaddrinfo\<close> for numeric literals returns its own error code, \<open>sendto\<close> of the first so many characters of a text whether it took the
  datagram, \<open>WSAStartup\<close> its status. The last two are only called on Windows.
\<close>

record 'os udp_calls =
  uc_getaddrinfo :: "'os \<Rightarrow> string \<Rightarrow> string \<Rightarrow> 'os \<times> (int + addrinfo list)"
  uc_sendto :: "'os \<Rightarrow> int \<Rightarrow> string \<Rightarrow> int \<Rightarrow> u8 list \<Rightarrow> 'os \<times> bool"
  uc_WSAStartup :: "'os \<Rightarrow> 'os \<times> int"
  uc_WSACleanup :: "'os \<Rightarrow> 'os"

definition wsa_session_new :: "'os net \<Rightarrow> 'os udp_calls \<Rightarrow> 'os \<Rightarrow> 'os \<times> unit cpp" where
  "wsa_session_new net uc os =
     (if on_windows net then
        (case uc_WSAStartup uc os of (os', status) \<Rightarrow>
           (os', if status \<noteq> 0 then Inl (Runtime_error (''UdpSink: WSAStartup failed (error '' @ int_digits status @ '')'')) else Inr ()))
      else (os, Inr ()))"

definition wsa_session_destroy :: "'os net \<Rightarrow> 'os udp_calls \<Rightarrow> 'os \<Rightarrow> 'os" where
  "wsa_session_destroy net uc os = (if on_windows net then uc_WSACleanup uc os else os)"

record udp_sink =
  us_socket :: int
  us_address :: "u8 list"
  us_address_length :: nat

text \<open>
  The body of the constructor. A successful \<open>getaddrinfo\<close> has at least one result; the code takes the first without looking.
\<close>

definition udp_sink_body :: "'os net \<Rightarrow> 'os udp_calls \<Rightarrow> 'os \<Rightarrow> string \<Rightarrow> u16 \<Rightarrow> 'os \<times> udp_sink cpp" where
  "udp_sink_body net uc os host port =
     (case uc_getaddrinfo uc os (c_str host) (nat_digits (unat port)) of
        (os1, Inl status) \<Rightarrow>
          (os1, Inl (Invalid_argument (''UdpSink: '' @ [CHR 0x27] @ host @ [CHR 0x27] @ '' is not a numeric host literal (getaddrinfo error '' @
             int_digits status @ '')'')))
      | (os1, Inr []) \<Rightarrow> (os1, Inl Undefined_behaviour)
      | (os1, Inr (ai # rest)) \<Rightarrow>
          if length (ai_addr ai) > 128 then (os1, Inl (Runtime_error ''UdpSink: resolved address exceeds sockaddr_storage''))
          else (case net_socket net os1 (ai_family ai) (ai_socktype ai) (ai_protocol ai) of
              (os2, Inl e) \<Rightarrow> (os2, Inl (Runtime_error ''UdpSink: cannot create a UDP socket''))
            | (os2, Inr fd) \<Rightarrow>
                (os2, Inr \<lparr>us_socket = fd, us_address = ai_addr ai @ replicate (128 - length (ai_addr ai)) 0,
                           us_address_length = length (ai_addr ai)\<rparr>)))"

text \<open>The session is a member: it is there before the body runs, and it is destroyed when the body throws.\<close>

definition udp_sink_new :: "'os net \<Rightarrow> 'os udp_calls \<Rightarrow> 'os \<Rightarrow> string \<Rightarrow> u16 \<Rightarrow> 'os \<times> udp_sink cpp" where
  "udp_sink_new net uc os host port =
     (case wsa_session_new net uc os of
        (os0, Inl e) \<Rightarrow> (os0, Inl e)
      | (os0, Inr u) \<Rightarrow>
          (case udp_sink_body net uc os0 host port of
             (os1, Inl e) \<Rightarrow> (wsa_session_destroy net uc os1, Inl e)
           | (os1, Inr sink) \<Rightarrow> (os1, Inr sink)))"

text \<open>On Windows the size of the payload is cast to \<open>int\<close>.\<close>

definition windows_send_datagram :: "'os udp_calls \<Rightarrow> udp_sink \<Rightarrow> 'os \<Rightarrow> string \<Rightarrow> 'os \<times> bool" where
  "windows_send_datagram uc sink os payload =
     uc_sendto uc os (us_socket sink) payload (sint (word_of_nat (length payload) :: u32)) (take (us_address_length sink) (us_address sink))"

definition posix_send_datagram :: "'os udp_calls \<Rightarrow> udp_sink \<Rightarrow> 'os \<Rightarrow> string \<Rightarrow> 'os \<times> bool" where
  "posix_send_datagram uc sink os payload =
     uc_sendto uc os (us_socket sink) payload (int (length payload)) (take (us_address_length sink) (us_address sink))"

definition send_datagram :: "'os net \<Rightarrow> 'os udp_calls \<Rightarrow> udp_sink \<Rightarrow> 'os \<Rightarrow> string \<Rightarrow> 'os \<times> bool" where
  "send_datagram net uc sink os payload =
     (if on_windows net then windows_send_datagram uc sink os payload else posix_send_datagram uc sink os payload)"

definition udp_sink_destroy :: "'os net \<Rightarrow> 'os udp_calls \<Rightarrow> udp_sink \<Rightarrow> 'os \<Rightarrow> 'os" where
  "udp_sink_destroy net uc sink os =
     wsa_session_destroy net uc (if us_socket sink \<noteq> -1 then net_close net os (us_socket sink) else os)"

section \<open>Thread ids\<close>

text \<open>A thread asks the system once; \<open>cache\<close> is its thread-local variable.\<close>

definition current_thread_id :: "('t \<Rightarrow> u64) \<Rightarrow> ('t \<Rightarrow> u64 option) \<Rightarrow> 't \<Rightarrow> ('t \<Rightarrow> u64 option) \<times> u64" where
  "current_thread_id compute cache t =
     (case cache t of Some i \<Rightarrow> (cache, i) | None \<Rightarrow> (cache(t \<mapsto> compute t), compute t))"

section \<open>What a UDP sink does\<close>

fun udp_writes :: "'os net \<Rightarrow> 'os udp_calls \<Rightarrow> udp_sink \<Rightarrow> (log_record \<times> string) list \<Rightarrow> 'os \<Rightarrow> 'os \<times> bool list" where
  "udp_writes net uc sink [] os = (os, [])"
| "udp_writes net uc sink ((r, line) # xs) os =
     (case udp_write (send_datagram net uc sink) os r line of
        (os1, failed) \<Rightarrow> (case udp_writes net uc sink xs os1 of (os2, fs) \<Rightarrow> (os2, failed # fs)))"

text \<open>
  What a call may change: \<open>fds\<close> are the open descriptors, \<open>datagrams\<close> those that left, with the address they were sent to, and \<open>sessions\<close>
  counts the Winsock sessions. \<open>sendto\<close> adds a datagram or fails and adds none, a successful \<open>WSAStartup\<close> adds a session and
  \<open>WSACleanup\<close> takes one away; nothing else changes datagrams or sessions.
\<close>

definition udp_contract ::
  "'os net \<Rightarrow> 'os udp_calls \<Rightarrow> ('os \<Rightarrow> int set) \<Rightarrow> ('os \<Rightarrow> (string \<times> u8 list) list) \<Rightarrow> ('os \<Rightarrow> int) \<Rightarrow> bool" where
  "udp_contract net uc fds datagrams sessions \<longleftrightarrow>
     (\<forall>os host port os' r. uc_getaddrinfo uc os host port = (os', r) \<longrightarrow>
        fds os' = fds os \<and> datagrams os' = datagrams os \<and> sessions os' = sessions os) \<and>
     (\<forall>os h s n a os' sent. uc_sendto uc os h s n a = (os', sent) \<and> 0 \<le> n \<and> n \<le> int (length s) \<longrightarrow>
        fds os' = fds os \<and> datagrams os' = datagrams os @ (if sent then [(take (nat n) s, a)] else []) \<and> sessions os' = sessions os) \<and>
     (\<forall>os f t p os' r. net_socket net os f t p = (os', r) \<longrightarrow> datagrams os' = datagrams os \<and> sessions os' = sessions os) \<and>
     (\<forall>os h. datagrams (net_close net os h) = datagrams os \<and> sessions (net_close net os h) = sessions os) \<and>
     (\<forall>os os' status. uc_WSAStartup uc os = (os', status) \<longrightarrow>
        fds os' = fds os \<and> datagrams os' = datagrams os \<and> sessions os' = sessions os + (if status = 0 then 1 else 0)) \<and>
     (\<forall>os. fds (uc_WSACleanup uc os) = fds os \<and> datagrams (uc_WSACleanup uc os) = datagrams os \<and> sessions (uc_WSACleanup uc os) = sessions os - 1)"

lemma udp_contractD:
  assumes "udp_contract net uc fds datagrams sessions"
  shows "uc_getaddrinfo uc os host port = (os', r) \<Longrightarrow> fds os' = fds os \<and> datagrams os' = datagrams os \<and> sessions os' = sessions os"
    and "uc_sendto uc os h s n a = (os', sent) \<Longrightarrow> 0 \<le> n \<Longrightarrow> n \<le> int (length s) \<Longrightarrow>
      fds os' = fds os \<and> datagrams os' = datagrams os @ (if sent then [(take (nat n) s, a)] else []) \<and> sessions os' = sessions os"
    and "net_socket net os f t p = (os', rs) \<Longrightarrow> datagrams os' = datagrams os \<and> sessions os' = sessions os"
    and "datagrams (net_close net os h) = datagrams os \<and> sessions (net_close net os h) = sessions os"
    and "uc_WSAStartup uc os = (os', status) \<Longrightarrow>
      fds os' = fds os \<and> datagrams os' = datagrams os \<and> sessions os' = sessions os + (if status = 0 then 1 else 0)"
    and "fds (uc_WSACleanup uc os) = fds os \<and> datagrams (uc_WSACleanup uc os) = datagrams os \<and> sessions (uc_WSACleanup uc os) = sessions os - 1"
  using assms unfolding udp_contract_def by metis+

text \<open>A session that is alive counts once, on Windows.\<close>

abbreviation live :: "'os net \<Rightarrow> int" where
  "live net \<equiv> (if on_windows net then 1 else 0)"

lemma wsa_session_new_spec:
  assumes "udp_contract net uc fds datagrams sessions" and "wsa_session_new net uc os = (os', r)"
  shows "fds os' = fds os \<and> datagrams os' = datagrams os \<and> sessions os' = sessions os + (case r of Inl e \<Rightarrow> 0 | Inr u \<Rightarrow> live net)"
  using assms(2) udp_contractD(5) [OF assms(1), of os]
  by (auto simp: wsa_session_new_def split: if_splits prod.splits)

lemma wsa_session_destroy_spec:
  assumes "udp_contract net uc fds datagrams sessions"
  shows "fds (wsa_session_destroy net uc os) = fds os \<and> datagrams (wsa_session_destroy net uc os) = datagrams os \<and>
    sessions (wsa_session_destroy net uc os) = sessions os - live net"
  using udp_contractD(6) [OF assms] by (simp add: wsa_session_destroy_def)

text \<open>A line whose size is an \<open>int\<close> leaves whole.\<close>

lemma send_datagram_spec:
  assumes con: "udp_contract net uc fds datagrams sessions" and "send_datagram net uc sink os line = (os', sent)"
    and "on_windows net \<Longrightarrow> length line \<le> INT_MAX"
  shows "fds os' = fds os \<and> sessions os' = sessions os \<and>
    datagrams os' = datagrams os @ (if sent then [(line, take (us_address_length sink) (us_address sink))] else [])"
proof -
  have "sint (word_of_nat (length line) :: u32) = int (length line)" if "on_windows net"
    using assms(3) [OF that] by (simp add: INT_MAX_def signed_of_nat signed_take_bit_int_eq_self)
  then have "uc_sendto uc os (us_socket sink) line (int (length line)) (take (us_address_length sink) (us_address sink)) = (os', sent)"
    using assms(2) by (simp add: send_datagram_def windows_send_datagram_def posix_send_datagram_def split: if_splits)
  from udp_contractD(2) [OF con this] show ?thesis by simp
qed

lemma udp_writes_spec:
  assumes con: "udp_contract net uc fds datagrams sessions" and "udp_writes net uc sink xs os = (os', fs)"
    and "on_windows net \<Longrightarrow> list_all (\<lambda>x. length (snd x) \<le> INT_MAX) xs"
  shows "fds os' = fds os \<and> sessions os' = sessions os \<and> length fs = length xs \<and>
    datagrams os' = datagrams os @ map (\<lambda>(x, failed). (snd x, take (us_address_length sink) (us_address sink))) (filter (\<lambda>x. \<not> snd x) (zip xs fs))"
  using assms(2,3)
proof (induction xs arbitrary: os os' fs)
  case (Cons x xs)
  obtain r line where x: "x = (r, line)" by fastforce
  obtain os1 ok where 1: "send_datagram net uc sink os line = (os1, ok)" by fastforce
  note k = send_datagram_spec [OF con 1]
  obtain os2 fs2 where 2: "udp_writes net uc sink xs os1 = (os2, fs2)" by fastforce
  have "os' = os2" "fs = (\<not> ok) # fs2" using Cons.prems(1) 1 2 by (simp_all add: x udp_write_def)
  then show ?case using Cons.IH [OF 2] Cons.prems(2) k by (auto simp: x)
qed simp

lemma udp_sink_body_spec:
  assumes con: "fd_contract net fds budget" and udp: "udp_contract net uc fds datagrams sessions" and b: "udp_sink_body net uc os host port = (os', r)"
  shows "datagrams os' = datagrams os \<and> sessions os' = sessions os \<and> gains UNIV fds os os' (case r of Inl e \<Rightarrow> -1 | Inr sink \<Rightarrow> us_socket sink) \<and>
    (case r of Inl e \<Rightarrow> True | Inr sink \<Rightarrow> us_socket sink \<noteq> -1)"
proof -
  have lim: "fd_range net UNIV" by (simp add: fd_range_def split: sum.split)
  obtain os1 rg where g: "uc_getaddrinfo uc os (c_str host) (nat_digits (unat port)) = (os1, rg)" by fastforce
  note kg = udp_contractD(1) [OF udp g]
  consider e where "os' = os1" "r = Inl e"
    | f t p e e' where "net_socket net os1 f t p = (os', Inl e)" "r = Inl e'"
    | f t p fd sink where "net_socket net os1 f t p = (os', Inr fd)" "r = Inr sink" "us_socket sink = fd"
    using b g unfolding udp_sink_body_def by (auto simp del: nat_digits.simps split: sum.splits list.splits if_splits prod.splits)
  then show ?thesis
  proof cases
    case 1
    then show ?thesis using kg by simp
  next
    case 2
    then show ?thesis using kg udp_contractD(3) [OF udp 2(1)] socket_cases(1) [OF con lim 2(1)] by simp
  next
    case 3
    then show ?thesis using kg udp_contractD(3) [OF udp 3(1)] socket_cases(2) [OF con lim 3(1)] gains_from [of UNIV fds os1 os' _ os] by simp
  qed
qed

text \<open>
  A UDP sink owns one descriptor and sends one datagram per line: construction throws and leaves no descriptor and no Winsock session behind, or opens
  exactly one; every line written is one datagram to the resolved address, in order, unless the call reports a failure; and destroying the sink closes what
  was opened. On Windows this needs lines whose size is an \<open>int\<close>.
\<close>

theorem udp_sink_datagrams:
  assumes "fd_contract net fds budget" and "udp_contract net uc fds datagrams sessions" and "udp_sink_new net uc os host port = (os1, res)"
    and "on_windows net \<Longrightarrow> list_all (\<lambda>x. length (snd x) \<le> INT_MAX) xs"
  shows "case res of
      Inl e \<Rightarrow> fds os1 = fds os \<and> datagrams os1 = datagrams os \<and> sessions os1 = sessions os
    | Inr sink \<Rightarrow>
        (case udp_writes net uc sink xs os1 of
           (os2, fs) \<Rightarrow>
             fds os1 = insert (us_socket sink) (fds os) \<and> us_socket sink \<notin> fds os \<and> length fs = length xs \<and>
             datagrams os2 = datagrams os @ map (\<lambda>(x, failed). (snd x, take (us_address_length sink) (us_address sink))) (filter (\<lambda>x. \<not> snd x) (zip xs fs)) \<and>
             fds (udp_sink_destroy net uc sink os2) = fds os \<and> sessions (udp_sink_destroy net uc sink os2) = sessions os)"
proof -
  obtain os0 r0 where 0: "wsa_session_new net uc os = (os0, r0)" by fastforce
  note k0 = wsa_session_new_spec [OF assms(2) 0] and kd = wsa_session_destroy_spec [OF assms(2)]
  show ?thesis
  proof (cases r0)
    case (Inl e)
    then show ?thesis using assms(3) 0 k0 by (auto simp: udp_sink_new_def)
  next
    case (Inr u)
    obtain osb rb where b: "udp_sink_body net uc os0 host port = (osb, rb)" by fastforce
    note kb = udp_sink_body_spec [OF assms(1,2) b]
    show ?thesis
    proof (cases rb)
      case (Inl e)
      then have "res = Inl e" "os1 = wsa_session_destroy net uc osb" using assms(3) 0 Inr b by (simp_all add: udp_sink_new_def)
      then show ?thesis using kd [of osb] kb k0 Inl Inr by simp
    next
      case sink: (Inr sink)
      then have res: "res = Inr sink" "os1 = osb" using assms(3) 0 Inr b by (simp_all add: udp_sink_new_def)
      have f: "us_socket sink \<noteq> -1" "us_socket sink \<notin> fds os" "fds os1 = insert (us_socket sink) (fds os)" "datagrams os1 = datagrams os"
          "sessions os1 = sessions os + live net"
        using kb k0 sink Inr res(2) by (auto simp: gains_def)
      obtain os2 fs where w: "udp_writes net uc sink xs os1 = (os2, fs)" by fastforce
      note ws = udp_writes_spec [OF assms(2) w assms(4)]
      have "fds (udp_sink_destroy net uc sink os2) = fds os" "sessions (udp_sink_destroy net uc sink os2) = sessions os"
        using ws f kd udp_contractD(4) [OF assms(2), of os2] by (simp_all add: udp_sink_destroy_def fd_keeps [OF assms(1)])
      then show ?thesis using res w ws f by simp
    qed
  qed
qed

text \<open>
  The small system of \<open>Tcp_Descriptors\<close> on Windows, with the datagrams it has sent and the number of Winsock sessions beside it; a
  datagram of more than five characters is refused.
\<close>

type_synonym demo_udp = "demo_os \<times> (string \<times> u8 list) list \<times> int"

definition demo_udp_net :: "demo_udp net" where
  "demo_udp_net = \<lparr>net_getaddrinfo = (\<lambda>os host port. (os, Inl 0)), net_socket = (\<lambda>os f t p. case demo_fresh (fst os) of (o', r) \<Rightarrow> ((o', snd os), r)),
     net_reuse_addr = (\<lambda>os h. os), net_getfl = (\<lambda>os h. (os, Inr 2)), net_setfl = (\<lambda>os h fl. (os, None)), net_connect = (\<lambda>os h a. (os, None)),
     net_bind = (\<lambda>os h a p. (os, None)), net_listen = (\<lambda>os h b. (os, None)), net_getsockname = (\<lambda>os h. (os, Inr 0)), net_accept = (\<lambda>os h. (os, Inl EAGAIN)),
     net_send = (\<lambda>os h bs. (os, Inr 0)), net_recv = (\<lambda>os h n. (os, Inr [])), net_poll = (\<lambda>os h ev t. (os, Inr None)),
     net_select = (\<lambda>os n h t. (os, t, Inr True)), net_so_error = (\<lambda>os h. (os, None)), net_shutdown_write = (\<lambda>os h. (os, None)),
     net_close = (\<lambda>os h. ((removeAll h (fst (fst os)), snd (fst os)), snd os)),
     net_winsock = Some \<lparr>ws_ioctlsocket = (\<lambda>os h m. (os, None)), ws_once = (\<lambda>os. True), ws_startup = (\<lambda>os. os)\<rparr>\<rparr>"

definition demo_udp_calls :: "demo_udp udp_calls" where
  "demo_udp_calls = \<lparr>uc_getaddrinfo = (\<lambda>os host port. (os, Inr [\<lparr>ai_family = 2, ai_socktype = 2, ai_protocol = 17, ai_addr = [127, 1]\<rparr>])),
     uc_sendto = (\<lambda>os h s n a. if n \<le> 5 then ((fst os, fst (snd os) @ [(take (nat n) s, a)], snd (snd os)), True) else (os, False)),
     uc_WSAStartup = (\<lambda>os. ((fst os, fst (snd os), snd (snd os) + 1), 0)), uc_WSACleanup = (\<lambda>os. (fst os, fst (snd os), snd (snd os) - 1))\<rparr>"

lemma demo_udp_contracts:
  "fd_contract demo_udp_net (\<lambda>os. set (fst (fst os))) (\<lambda>os. 0)"
  "udp_contract demo_udp_net demo_udp_calls (\<lambda>os. set (fst (fst os))) (\<lambda>os. fst (snd os)) (\<lambda>os. snd (snd os))"
proof -
  have f: "opens (\<lambda>os. set (fst (fst os))) os (case demo_fresh (fst os) of (o', r) \<Rightarrow> ((o', snd os), r))" for os :: demo_udp
  proof -
    obtain o' r where "demo_fresh (fst os) = (o', r)" by fastforce
    then show ?thesis using demo_fresh_opens [of "fst os"] by (cases r) (simp_all add: opens_def)
  qed
  have n: "opens (\<lambda>os. set (fst (fst os))) os (os, Inl e)" for os :: demo_udp and e by (simp add: opens_def)
  show "fd_contract demo_udp_net (\<lambda>os. set (fst (fst os))) (\<lambda>os. 0)"
    unfolding fd_contract_def by (simp add: demo_udp_net_def EAGAIN_def is_interrupted_def f n)
  show "udp_contract demo_udp_net demo_udp_calls (\<lambda>os. set (fst (fst os))) (\<lambda>os. fst (snd os)) (\<lambda>os. snd (snd os))"
    unfolding udp_contract_def by (auto simp: demo_udp_net_def demo_udp_calls_def split: prod.splits if_splits)
qed

definition demo_udp_start :: demo_udp where
  "demo_udp_start = (([0, 1, 2], 0), [], 0)"

definition demo_udp_records :: "(log_record \<times> string) list" where
  "demo_udp_records = map (Pair \<lparr>lr_time = 0, lr_level = Info, lr_thread_id = 1, lr_message = ''m''\<rparr>) [''one'', ''too long'', ''two'']"

definition demo_udp_sink :: udp_sink where
  "demo_udp_sink = \<lparr>us_socket = 3, us_address = [127, 1] @ replicate 126 0, us_address_length = 2\<rparr>"

theorem udp_sink_datagrams_witness:
  "\<exists>os1 os2. udp_sink_new demo_udp_net demo_udp_calls demo_udp_start ''127.0.0.1'' 514 = (os1, Inr demo_udp_sink) \<and>
     udp_writes demo_udp_net demo_udp_calls demo_udp_sink demo_udp_records os1 = (os2, [False, True, False]) \<and>
     fst (snd os2) = [(''one'', [127, 1]), (''two'', [127, 1])] \<and>
     set (fst (fst (udp_sink_destroy demo_udp_net demo_udp_calls demo_udp_sink os2))) = {0, 1, 2}"
proof -
  let ?os1 = "(([3, 0, 1, 2], 0), [], 1) :: demo_udp"
  have n: "udp_sink_new demo_udp_net demo_udp_calls demo_udp_start ''127.0.0.1'' 514 = (?os1, Inr demo_udp_sink)"
    by (simp add: udp_sink_new_def udp_sink_body_def wsa_session_new_def demo_udp_calls_def demo_udp_net_def demo_udp_start_def demo_fresh_def demo_free_def
        demo_udp_sink_def)
  have w: "snd (udp_writes demo_udp_net demo_udp_calls demo_udp_sink demo_udp_records ?os1) = [False, True, False]"
    by (simp add: demo_udp_records_def udp_write_def send_datagram_def windows_send_datagram_def posix_send_datagram_def demo_udp_calls_def demo_udp_net_def)
  obtain os2 where 2: "udp_writes demo_udp_net demo_udp_calls demo_udp_sink demo_udp_records ?os1 = (os2, [False, True, False])"
    using w by (metis prod.collapse)
  have l: "list_all (\<lambda>x. length (snd x) \<le> INT_MAX) demo_udp_records" by (simp add: demo_udp_records_def INT_MAX_def)
  note r = udp_sink_datagrams [OF demo_udp_contracts n, of demo_udp_records, unfolded sum.case 2 prod.case, OF l]
  then have "fst (snd os2) = [(''one'', [127, 1]), (''two'', [127, 1])]"
    by (simp only: conj_assoc) (simp add: demo_udp_start_def demo_udp_records_def demo_udp_sink_def)
  moreover have "set (fst (fst (udp_sink_destroy demo_udp_net demo_udp_calls demo_udp_sink os2))) = {0, 1, 2}"
    using r by (simp add: demo_udp_start_def)
  ultimately show ?thesis using n 2 by blast
qed

end
