(* ===== verification/Log_Calls.thy ===== *)
theory Log_Calls
  imports Logger_Shutdown String_Formatter
begin

text \<open>
  The calls that a program makes to log (logger.hpp): the format string that was checked when the program was compiled, the
  arguments, the clock and the id of the thread become a record, which \<open>enqueue\<close> takes. This is where the logger meets the
  formatter.
\<close>

section \<open>Logging a formatted message\<close>

text \<open>The time and the thread id that the call finds, and what it was given.\<close>

record 'f log_args =
  la_now :: int
  la_thread :: u64
  la_format :: string
  la_values :: "'f format_arg list"

text \<open>A call below the filter returns before it formats anything.\<close>

definition log_formatted ::
  "('f \<Rightarrow> string option) \<Rightarrow> bool \<Rightarrow> nat \<Rightarrow> log_level \<Rightarrow> 'f log_args \<Rightarrow> 'k logger \<Rightarrow> 'k logger \<times> unit cpp option" where
  "log_formatted render_float on_pump i level a s =
     (if level = Off then (s, Some (Inl (Invalid_argument ''Logger: off is a filter threshold, not a loggable level'')))
      else if level < lg_min_level s then (s, Some (Inr ()))
      else (case format render_float (la_format a) (la_values a) of
          Inl e \<Rightarrow> (s, Some (Inl e))
        | Inr message \<Rightarrow>
            enqueue on_pump i \<lparr>lr_time = la_now a, lr_level = level, lr_thread_id = la_thread a, lr_message = message\<rparr> s))"

section \<open>The helpers and the accessors\<close>

definition log_trace where
  "log_trace render_float on_pump i a s = log_formatted render_float on_pump i Trace a s"

definition log_debug where
  "log_debug render_float on_pump i a s = log_formatted render_float on_pump i Debug a s"

definition log_info where
  "log_info render_float on_pump i a s = log_formatted render_float on_pump i Info a s"

definition log_warning where
  "log_warning render_float on_pump i a s = log_formatted render_float on_pump i Warning a s"

definition log_error where
  "log_error render_float on_pump i a s = log_formatted render_float on_pump i Error a s"

definition log_critical where
  "log_critical render_float on_pump i a s = log_formatted render_float on_pump i Critical a s"

definition logger_level :: "'k logger \<Rightarrow> log_level" where
  "logger_level s = lg_min_level s"

definition logger_dropped :: "'k logger \<Rightarrow> u64" where
  "logger_dropped s = lg_dropped s"

definition logger_sink_failures :: "'k logger \<Rightarrow> u64" where
  "logger_sink_failures s = lg_failures s"

section \<open>What a call does\<close>

text \<open>What the compiler has checked of a call: the format string for the number of values, and the type of each value.\<close>

definition call_ok :: "'f log_args \<Rightarrow> bool" where
  "call_ok a \<longleftrightarrow> basic_format_string (la_format a) (length (la_values a)) = Some (la_format a) \<and> list_all arg_ok (la_values a)"

text \<open>The text that the format string and the values stand for.\<close>

definition message_text :: "('f \<Rightarrow> string option) \<Rightarrow> 'f log_args \<Rightarrow> string" where
  "message_text render_float a = fill_holes (map (arg_text render_float) (la_values a)) (the (parse_format (la_format a)))"

definition call_record :: "('f \<Rightarrow> string option) \<Rightarrow> log_level \<Rightarrow> 'f log_args \<Rightarrow> log_record" where
  "call_record render_float level a =
     \<lparr>lr_time = la_now a, lr_level = level, lr_thread_id = la_thread a, lr_message = message_text render_float a\<rparr>"

text \<open>A checked call never fails to format: it is \<open>log\<close> of one record, so that what is shown of \<open>log\<close> holds of it.\<close>

lemma log_formatted_record:
  assumes "call_ok a"
  shows "log_formatted render_float on_pump i level a s = log on_pump i (call_record render_float level a) s"
proof -
  have c: "basic_format_string (la_format a) (length (la_values a)) = Some (la_format a)" "list_all arg_ok (la_values a)"
    using assms by (simp_all add: call_ok_def)
  have "format render_float (la_format a) (la_values a) = Inr (message_text render_float a)"
    using format_renders [OF c, of render_float] by (auto simp: message_text_def)
  then show ?thesis by (simp add: log_formatted_def log_def call_record_def)
qed

text \<open>The level passes and there is room: the record is appended to the queue.\<close>

lemma log_formatted_accepted:
  assumes "call_ok a" and "level \<noteq> Off" and "logger_level s \<le> level" and "\<not> lg_stopping s" and "length (lg_queue s) < lg_capacity s"
  shows "log_formatted render_float on_pump i level a s = (admit (call_record render_float level a) s, Some (Inr ()))"
  using assms by (simp add: log_formatted_record log_def enqueue_def call_record_def logger_level_def)

text \<open>A call below the filter does nothing, not even with a format string that could not be rendered.\<close>

lemma log_formatted_filtered:
  "level \<noteq> Off \<Longrightarrow> level < logger_level s \<Longrightarrow> log_formatted render_float on_pump i level a s = (s, Some (Inr ()))"
  by (simp add: log_formatted_def logger_level_def)

text \<open>Only a full queue under the policy \<open>Drop\<close> counts a record as dropped, and then nothing else changes.\<close>

lemma log_formatted_dropped:
  assumes "call_ok a" and "level \<noteq> Off" and "logger_level s \<le> level" and "\<not> lg_stopping s" and "lg_capacity s \<le> length (lg_queue s)"
    and "lg_policy s = Drop"
  shows "log_formatted render_float on_pump i level a s = (s\<lparr>lg_dropped := logger_dropped s + 1\<rparr>, Some (Inr ()))"
  using assms by (simp add: log_formatted_record log_def enqueue_def call_record_def logger_level_def logger_dropped_def)

section \<open>From the call to the line\<close>

lemma deliver_states: "lg_sinks (deliver ops gmtime False r s) = map (\<lambda>k. fst (so_write ops k r (render_line gmtime r))) (lg_sinks s)"
  by (simp add: deliver_def each_sink_map comp_def)

text \<open>
  What a sink gets for a call: when the pump delivers the record of a checked call, every sink is written the timestamp, the
  level, the thread and, to the end of the line, the format string with the values in the places of its holes.
\<close>

theorem logger_call_line:
  assumes "call_ok a" and "gmtime (la_now a div 1000000000) = Some utc" and "tm_valid utc"
    and "level \<noteq> Off" and "logger_level s \<le> level" and "\<not> lg_stopping s" and "length (lg_queue s) < lg_capacity s"
  shows "\<exists>r ts. log_formatted render_float on_pump i level a s = (admit r s, Some (Inr ())) \<and> lg_queue (admit r s) = lg_queue s @ [Record r] \<and>
    length ts = 23 \<and>
    (\<forall>s'. lg_sinks (deliver ops gmtime False r s') =
       map (\<lambda>k. fst (so_write ops k r (''['' @ ts @ ''] ['' @ level_name level @ ''] ['' @ int_digits (uint (la_thread a)) @ ''] '' @ message_text render_float a)))
         (lg_sinks s'))"
proof -
  let ?r = "call_record render_float level a"
  let ?ms = "lr_time ?r div 1000000 mod 1000"
  have g: "gmtime (lr_time ?r div 1000000000) = Some utc" using assms(2) by (simp add: call_record_def)
  note line = render_line_text [of gmtime ?r utc, OF g assms(3)]
  have "0 \<le> ?ms" "?ms < 1000" by simp_all
  note ts = timestamp_fields [OF assms(3) this]
  show ?thesis using log_formatted_accepted [OF assms(1,4-7)] line ts deliver_states [of ops gmtime ?r]
    by (intro exI [of _ ?r]) (auto simp: call_record_def admit_def)
qed

text \<open>A logger with one sink that keeps its lines.\<close>

definition demo_line_ops :: "string list sink_ops" where
  "demo_line_ops = \<lparr>so_write = (\<lambda>k r line. (k @ [line], False)), so_flush = (\<lambda>k. (k, False))\<rparr>"

definition demo_call :: "unit log_args" where
  "demo_call = \<lparr>la_now = -1, la_thread = 7, la_format = ''x = {}'', la_values = [Int_arg 3]\<rparr>"

definition demo_utc :: tm where
  "demo_utc = \<lparr>tm_year = 69, tm_mon = 11, tm_mday = 31, tm_hour = 23, tm_min = 59, tm_sec = 59\<rparr>"

theorem logger_call_line_witness:
  "\<exists>s r ts. logger_new [[]] 8 Block 1 = Inr s \<and> log_info (\<lambda>_. None) False 0 demo_call s = (admit r s, Some (Inr ())) \<and>
     lg_sinks (deliver demo_line_ops (\<lambda>_. Some demo_utc) False r s) = [[''['' @ ts @ ''] [info] [7] x = 3'']]"
proof -
  obtain s :: "string list logger" where s: "logger_new [[]] 8 Block 1 = Inr s" "lg_sinks s = [[]]" "lg_min_level s = Trace" "\<not> lg_stopping s"
      "length (lg_queue s) < lg_capacity s"
    by (simp add: logger_new_def)
  have ok: "call_ok demo_call" "message_text (\<lambda>_. None) demo_call = ''x = 3''" "int_digits 7 = ''7''" by code_simp+
  have "tm_valid demo_utc" "logger_level s \<le> Info" using s(3) by (simp_all add: tm_valid_def demo_utc_def logger_level_def less_eq_log_level_def)
  from logger_call_line [where gmtime = "\<lambda>_. Some demo_utc" and render_float = "\<lambda>_. None" and ops = demo_line_ops and i = 0 and on_pump = False,
      OF ok(1) refl this(1) _ this(2) s(4,5)]
  show ?thesis using s(1,2) ok(2,3) by (auto simp: log_info_def demo_line_ops_def demo_call_def)
qed

end
