(* ===== verification/Tcp_Stream.thy ===== *)
theory Tcp_Stream
  imports Tcp_Socket
begin

text \<open>What a connected \<open>TcpSocket\<close> transfers: the byte counts and states that \<open>send\<close> and \<open>recv\<close> report are those of the connection.\<close>

section \<open>What the system calls promise\<close>

text \<open>
  \<open>sent\<close> is what the connection has taken from this side, \<open>incoming\<close> what the other side sends until it shuts down and
  this side has not received yet. \<open>send\<close> takes a prefix; \<open>recv\<close> hands out a prefix, which is empty only at the end or when nothing
  was asked for; a call that fails transfers nothing, and is interrupted finitely often in a row. Winsock only promises it of blocks
  whose size is an \<open>int\<close>.
\<close>

definition stream_contract ::
  "'os net \<Rightarrow> int \<Rightarrow> ('os \<Rightarrow> u8 list) \<Rightarrow> ('os \<Rightarrow> u8 list) \<Rightarrow> ('os \<Rightarrow> nat) \<Rightarrow> bool" where
  "stream_contract net h sent incoming budget \<longleftrightarrow>
     (\<forall>os bs. (on_windows net \<longrightarrow> length bs \<le> INT_MAX) \<longrightarrow> (case net_send net os h bs of
        (os', Inr n) \<Rightarrow> n \<le> length bs \<and> sent os' = sent os @ take n bs \<and> incoming os' = incoming os
      | (os', Inl e) \<Rightarrow> sent os' = sent os \<and> incoming os' = incoming os \<and> (is_interrupted net e \<longrightarrow> budget os' < budget os))) \<and>
     (\<forall>os n. (on_windows net \<longrightarrow> n \<le> INT_MAX) \<longrightarrow> (case net_recv net os h n of
        (os', Inr bs) \<Rightarrow> length bs \<le> n \<and> incoming os = bs @ incoming os' \<and> (bs = [] \<and> 0 < n \<longrightarrow> incoming os = []) \<and> sent os' = sent os
      | (os', Inl e) \<Rightarrow> sent os' = sent os \<and> incoming os' = incoming os \<and> (is_interrupted net e \<longrightarrow> budget os' < budget os)))"

section \<open>Sequences of transfers\<close>

datatype transfer = Out "u8 list" | In nat

fun do_transfer :: "'os net \<Rightarrow> transfer \<Rightarrow> 'os \<times> tcp_socket \<Rightarrow> (('os \<times> tcp_socket) \<times> io_result \<times> u8 list) option" where
  "do_transfer net (Out bs) st = map_option (\<lambda>(st', r). (st', r, [])) (tcp_send net bs st)"
| "do_transfer net (In n) st = tcp_recv net n st"

fun transfer_run :: "'os net \<Rightarrow> transfer list \<Rightarrow> 'os \<times> tcp_socket \<Rightarrow> (('os \<times> tcp_socket) \<times> (io_result \<times> u8 list) list) option" where
  "transfer_run net [] st = Some (st, [])"
| "transfer_run net (x # xs) st =
     do { (st', r) \<leftarrow> do_transfer net x st; (st'', rs) \<leftarrow> transfer_run net xs st'; Some (st'', r # rs) }"

text \<open>What a caller takes as sent and as received, from the results alone.\<close>

fun sent_bytes :: "transfer \<times> io_result \<times> u8 list \<Rightarrow> u8 list" where
  "sent_bytes (Out bs, r, _) = take (io_bytes r) bs"
| "sent_bytes (In n, r, _) = []"

fun received_bytes :: "transfer \<times> io_result \<times> u8 list \<Rightarrow> u8 list" where
  "received_bytes (Out bs, r, _) = []"
| "received_bytes (In n, r, bs) = take (io_bytes r) bs"

text \<open>The end of the stream is reported to a call that asked for something.\<close>

fun end_reported :: "transfer \<times> io_result \<times> u8 list \<Rightarrow> bool" where
  "end_reported (Out bs, r, _) = False"
| "end_reported (In n, r, bs) = (0 < n \<and> io_status r = Closed)"

fun counts_ok :: "transfer \<times> io_result \<times> u8 list \<Rightarrow> bool" where
  "counts_ok (Out bs, r, _) = (io_bytes r \<le> length bs \<and> (io_status r \<noteq> Ok \<longrightarrow> io_bytes r = 0))"
| "counts_ok (In n, r, bs) = (io_bytes r \<le> n \<and> (io_status r = Ok \<longleftrightarrow> 0 < io_bytes r))"

lemma native_send_stream:
  assumes con: "stream_contract net h sent incoming budget"
  shows "\<exists>os' r. native_send net os h bs = Some (os', r) \<and> incoming os' = incoming os \<and>
    (case r of Inr n \<Rightarrow> n \<le> length bs \<and> sent os' = sent os @ take n bs | Inl e \<Rightarrow> sent os' = sent os)"
proof -
  have c: "case r of
      Inr n \<Rightarrow> n \<le> length bs \<and> sent os1 = sent os @ take n bs \<and> incoming os1 = incoming os
    | Inl e \<Rightarrow> sent os1 = sent os \<and> incoming os1 = incoming os \<and> (is_interrupted net e \<longrightarrow> budget os1 < budget os)"
    if "net_send net os h bs = (os1, r)" "on_windows net \<longrightarrow> length bs \<le> INT_MAX" for os os1 r bs
    using conjunct1 [OF con [unfolded stream_contract_def], rule_format, of bs os] that by simp
  show ?thesis
  proof (cases "on_windows net")
    case True
    obtain os1 r where 1: "net_send net os h (take (min (length bs) INT_MAX) bs) = (os1, r)" by fastforce
    then show ?thesis using c [OF 1] True by (cases r) (auto simp: native_send_def windows_send_def min_absorb1)
  next
    case False
    obtain os0 os1 r where 1: "sent os0 = sent os \<and> incoming os0 = incoming os" "net_send net os0 h bs = (os1, r)"
        "posix_send net os h bs = Some (os1, r)"
      using posix_send.returns [of "\<lambda>os1. sent os1 = sent os \<and> incoming os1 = incoming os" net h bs budget os] c False
      by (fastforce simp: is_interrupted_def)
    then show ?thesis using c [OF 1(2)] False by (cases r) (auto simp: native_send_def)
  qed
qed

lemma native_recv_stream:
  assumes con: "stream_contract net h sent incoming budget"
  shows "\<exists>os' r. native_recv net os h n = Some (os', r) \<and> sent os' = sent os \<and>
    (case r of Inr bs \<Rightarrow> length bs \<le> n \<and> incoming os = bs @ incoming os' \<and> (bs = [] \<and> 0 < n \<longrightarrow> incoming os = [])
     | Inl e \<Rightarrow> incoming os' = incoming os)"
proof -
  have c: "case r of
      Inr bs \<Rightarrow> length bs \<le> n \<and> incoming os = bs @ incoming os1 \<and> (bs = [] \<and> 0 < n \<longrightarrow> incoming os = []) \<and> sent os1 = sent os
    | Inl e \<Rightarrow> sent os1 = sent os \<and> incoming os1 = incoming os \<and> (is_interrupted net e \<longrightarrow> budget os1 < budget os)"
    if "net_recv net os h n = (os1, r)" "on_windows net \<longrightarrow> n \<le> INT_MAX" for os os1 r n
    using conjunct2 [OF con [unfolded stream_contract_def], rule_format, of n os] that by simp
  show ?thesis
  proof (cases "on_windows net")
    case True
    obtain os1 r where 1: "net_recv net os h (min n INT_MAX) = (os1, r)" by fastforce
    have "0 < min n INT_MAX \<longleftrightarrow> 0 < n" by (simp add: INT_MAX_def)
    then show ?thesis using c [OF 1] True 1 by (cases r) (auto simp: native_recv_def windows_recv_def)
  next
    case False
    obtain os0 os1 r where 1: "sent os0 = sent os \<and> incoming os0 = incoming os" "net_recv net os0 h n = (os1, r)"
        "posix_recv net os h n = Some (os1, r)"
      using posix_recv.returns [of "\<lambda>os1. sent os1 = sent os \<and> incoming os1 = incoming os" net h n budget os] c False
      by (fastforce simp: is_interrupted_def)
    then show ?thesis using c [OF 1(2)] False by (cases r) (auto simp: native_recv_def)
  qed
qed

text \<open>One transfer. The error of the socket changes only when it is reported.\<close>

lemma transfer_spec:
  assumes con: "stream_contract net (ts_handle s) sent incoming budget" and op: "ts_is_open s"
  shows "\<exists>os' s' r. do_transfer net x (os, s) = Some ((os', s'), r) \<and> ts_handle s' = ts_handle s \<and> counts_ok (x, r) \<and>
    sent os' = sent os @ sent_bytes (x, r) \<and> incoming os = received_bytes (x, r) @ incoming os' \<and>
    (end_reported (x, r) \<longrightarrow> incoming os = []) \<and> (io_status (fst r) \<noteq> Io_error \<longrightarrow> s' = s)"
proof (cases x)
  case (Out bs)
  obtain os1 r where 1: "native_send net os (ts_handle s) bs = Some (os1, r)" "incoming os1 = incoming os"
    "case r of Inr n \<Rightarrow> n \<le> length bs \<and> sent os1 = sent os @ take n bs | Inl e \<Rightarrow> sent os1 = sent os"
    using native_send_stream [OF con] by blast
  then show ?thesis using Out op by (cases r) (simp_all add: tcp_send_def io_def)
next
  case (In n)
  obtain os1 r where 1: "native_recv net os (ts_handle s) n = Some (os1, r)" "sent os1 = sent os"
    "case r of Inr bs \<Rightarrow> length bs \<le> n \<and> incoming os = bs @ incoming os1 \<and> (bs = [] \<and> 0 < n \<longrightarrow> incoming os = [])
     | Inl e \<Rightarrow> incoming os1 = incoming os"
    using native_recv_stream [OF con] by blast
  then show ?thesis using In op by (cases r) (auto simp: tcp_recv_def io_def)
qed


section \<open>Witnesses\<close>

text \<open>A connection that takes two bytes at a time, hands out three, and then interrupts or refuses a call: what was sent, what is to come, and what happens next.\<close>

datatype mood = Fine | Interrupt | Busy

type_synonym duplex = "u8 list \<times> u8 list \<times> mood list"

fun duplex_call :: "duplex \<Rightarrow> (u8 list \<Rightarrow> u8 list \<Rightarrow> u8 list \<times> u8 list \<times> 'a) \<Rightarrow> duplex \<times> (int + 'a)" where
  "duplex_call (out, inc, Interrupt # ms) f = ((out, inc, ms), Inl EINTR)"
| "duplex_call (out, inc, Busy # ms) f = ((out, inc, ms), Inl EAGAIN)"
| "duplex_call (out, inc, Fine # ms) f = (case f out inc of (out', inc', r) \<Rightarrow> ((out', inc', ms), Inr r))"
| "duplex_call (out, inc, []) f = (case f out inc of (out', inc', r) \<Rightarrow> ((out', inc', []), Inr r))"

definition duplex_net :: "duplex net" where
  "duplex_net = \<lparr>net_getaddrinfo = (\<lambda>os host port. (os, Inl 0)), net_socket = (\<lambda>os f t p. (os, Inl 24)), net_reuse_addr = (\<lambda>os h. os),
     net_getfl = (\<lambda>os h. (os, Inr 2)), net_setfl = (\<lambda>os h fl. (os, None)), net_connect = (\<lambda>os h a. (os, None)), net_bind = (\<lambda>os h a p. (os, None)),
     net_listen = (\<lambda>os h b. (os, None)), net_getsockname = (\<lambda>os h. (os, Inr 0)), net_accept = (\<lambda>os h. (os, Inl EAGAIN)),
     net_send = (\<lambda>os h bs. duplex_call os (\<lambda>out inc. (out @ take 2 bs, inc, min 2 (length bs)))),
     net_recv = (\<lambda>os h n. duplex_call os (\<lambda>out inc. (out, drop (min 3 n) inc, take (min 3 n) inc))),
     net_poll = (\<lambda>os h ev t. (os, Inr (Some ev))), net_select = (\<lambda>os n h t. (os, t, Inr True)), net_so_error = (\<lambda>os h. (os, Some 0)),
     net_shutdown_write = (\<lambda>os h. (os, None)), net_close = (\<lambda>os h. os), net_winsock = None\<rparr>"

definition duplex_winsock :: "duplex net" where
  "duplex_winsock = duplex_net\<lparr>net_winsock := Some \<lparr>ws_ioctlsocket = (\<lambda>os h m. (os, None)), ws_once = (\<lambda>os. True), ws_startup = (\<lambda>os. os)\<rparr>\<rparr>"

lemma duplex_contract:
  shows "stream_contract duplex_net h fst (\<lambda>os. fst (snd os)) (\<lambda>os. length (snd (snd os)))"
    and "stream_contract duplex_winsock h fst (\<lambda>os. fst (snd os)) (\<lambda>os. length (snd (snd os)))"
proof -
  have one: "case duplex_call os (\<lambda>out inc. (out @ take 2 bs, inc, min 2 (length bs))) of
        (os', Inr n) \<Rightarrow> n \<le> length bs \<and> fst os' = fst os @ take n bs \<and> fst (snd os') = fst (snd os)
      | (os', Inl e) \<Rightarrow> fst os' = fst os \<and> fst (snd os') = fst (snd os) \<and> (e = EINTR \<longrightarrow> length (snd (snd os')) < length (snd (snd os)))"
    for os and bs :: "u8 list"
    by (induction os "\<lambda>out inc :: u8 list. (out @ take 2 bs, inc, min 2 (length bs))" rule: duplex_call.induct) (auto simp: EAGAIN_def EINTR_def min_def)
  have two: "case duplex_call os (\<lambda>out inc. (out, drop (min 3 n) inc, take (min 3 n) inc)) of
        (os', Inr bs) \<Rightarrow> length bs \<le> n \<and> fst (snd os) = bs @ fst (snd os') \<and> (bs = [] \<and> 0 < n \<longrightarrow> fst (snd os) = []) \<and> fst os' = fst os
      | (os', Inl e) \<Rightarrow> fst os' = fst os \<and> fst (snd os') = fst (snd os) \<and> (e = EINTR \<longrightarrow> length (snd (snd os')) < length (snd (snd os)))"
    for os and n :: nat
    by (induction os "\<lambda>out :: u8 list. \<lambda>inc :: u8 list. (out, drop (min 3 n) inc, take (min 3 n) inc)" rule: duplex_call.induct)
      (auto simp: EAGAIN_def EINTR_def min_def)
  have n: "net_send duplex_net = (\<lambda>os h bs. duplex_call os (\<lambda>out inc. (out @ take 2 bs, inc, min 2 (length bs))))"
    "net_recv duplex_net = (\<lambda>os h n. duplex_call os (\<lambda>out inc. (out, drop (min 3 n) inc, take (min 3 n) inc)))"
    "net_send duplex_winsock = net_send duplex_net" "net_recv duplex_winsock = net_recv duplex_net"
    "is_interrupted duplex_net = (\<lambda>e. e = EINTR)" "is_interrupted duplex_winsock = (\<lambda>e. False)"
    by (simp_all add: duplex_net_def duplex_winsock_def is_interrupted_def fun_eq_iff)
  show "stream_contract duplex_net h fst (\<lambda>os. fst (snd os)) (\<lambda>os. length (snd (snd os)))"
    unfolding stream_contract_def n by (intro conjI allI impI) (rule one, rule two)
  show "stream_contract duplex_winsock h fst (\<lambda>os. fst (snd os)) (\<lambda>os. length (snd (snd os)))"
    unfolding stream_contract_def n
  proof (intro conjI allI impI, goal_cases)
    case (1 os bs)
    then show ?case using one [of os bs] by (auto split: prod.splits sum.splits)
  next
    case (2 os n)
    then show ?case using two [of os n] by (auto split: prod.splits sum.splits)
  qed
qed

definition demo_socket :: tcp_socket where
  "demo_socket = \<lparr>ts_handle = 5, ts_error = 0, ts_non_blocking = True\<rparr>"


end
