(* ===== verification/Ownership.thy ===== *)
theory Ownership
  imports Egl_Prelude "HOL-Library.Multiset"
begin

text \<open>
  Exclusive ownership: objects in a list hold at most one resource each, and together they hold every resource of a set exactly once.
  Objects are moved, assigned and destroyed, and what that does to the resources held is the same for descriptors and for
  pointers.
\<close>

definition one :: "'r option \<Rightarrow> 'r multiset" where
  "one r = (case r of None \<Rightarrow> {#} | Some x \<Rightarrow> {#x#})"

lemma one_simps [simp]: "one None = {#}" "one (Some x) = {#x#}"
  by (simp_all add: one_def)

definition held :: "('o \<Rightarrow> 'r option) \<Rightarrow> 'o list \<Rightarrow> 'r multiset" where
  "held f xs = (\<Sum>x\<leftarrow>xs. one (f x))"

lemma held_simps [simp]: "held f [] = {#}" "held f (x # xs) = one (f x) + held f xs" "held f (xs @ ys) = held f xs + held f ys"
  by (simp_all add: held_def)

lemma held_update:
  assumes "i < length xs"
  shows "held f (xs[i := y]) + one (f (xs ! i)) = held f xs + one (f y)"
proof -
  have "held f (take i xs @ z # drop (Suc i) xs) = held f (take i xs) + one (f z) + held f (drop (Suc i) xs)" for z
    by (simp add: ac_simps)
  from this [of y] this [of "xs ! i"] show ?thesis
    using assms by (simp only: upd_conv_take_nth_drop id_take_nth_drop [symmetric]) (simp add: ac_simps)
qed

text \<open>A new object takes over what one holds; an object gives up what it holds and takes over what another holds; two objects swap.\<close>

lemma held_move:
  assumes "i < length xs" and "f old = None" and "f new = f (xs ! i)"
  shows "held f (xs[i := old] @ [new]) = held f xs"
  using held_update [OF assms(1), where f = f and y = old] assms(2,3) by simp

lemma held_assign:
  assumes "i < length xs" and "j < length xs" and "i \<noteq> j" and "f old = None" and "f new = f (xs ! j)"
  shows "held f (xs[i := new, j := old]) + one (f (xs ! i)) = held f xs"
proof -
  have 1: "held f (xs[i := new]) + one (f (xs ! i)) = held f xs + one (f (xs ! j))"
    using held_update [OF assms(1), where f = f and y = new] assms(5) by simp
  have 2: "held f (xs[i := new]) = held f (xs[i := new, j := old]) + one (f (xs ! j))"
    using held_update [of j "xs[i := new]" f old] assms by simp
  show ?thesis using 1 [unfolded 2] by (simp add: add.commute add.left_commute)
qed

lemma held_swap:
  assumes "i < length xs" and "j < length xs"
  shows "held f (xs[i := xs ! j, j := xs ! i]) = held f xs"
proof -
  have "mset (xs[i := xs ! j, j := xs ! i]) = mset xs" using mset_swap [OF assms(2,1)] .
  then show ?thesis by (simp add: held_def sum_mset_sum_list [symmetric])
qed

section \<open>Holding a set exactly\<close>

definition exactly :: "'r multiset \<Rightarrow> 'r set \<Rightarrow> bool" where
  "exactly M A \<longleftrightarrow> finite A \<and> M = mset_set A"

lemma exactly_empty [simp]: "exactly {#} {}"
  by (simp add: exactly_def)

lemma exactly_gain: "exactly M A \<Longrightarrow> x \<notin> A \<Longrightarrow> exactly (M + {#x#}) (insert x A)"
  by (simp add: exactly_def)

lemma exactly_lose:
  assumes "exactly (M + {#x#}) A"
  shows "x \<in> A" and "exactly M (A - {x})"
proof -
  have A: "finite A" "M + {#x#} = mset_set A" using assms by (simp_all add: exactly_def)
  then show x: "x \<in> A" by (metis elem_mset_set multi_member_last union_iff)
  have "mset_set A = add_mset x (mset_set (A - {x}))" using A(1) x by (metis mset_set.remove)
  then show "exactly M (A - {x})" using A by (simp add: exactly_def)
qed

lemma exactly_set: "exactly (mset xs) A \<Longrightarrow> set xs = A"
  by (metis exactly_def finite_set_mset_mset_set set_mset_mset)

lemma exactly_distinct:
  assumes "exactly (mset xs) A"
  shows "distinct xs"
  unfolding distinct_count_atmost_1 using assms exactly_set [OF assms] by (simp add: exactly_def)

end
