(* ===== verification/Unique_Ref.thy ===== *)
theory Unique_Ref
  imports Ownership
begin

text \<open>
  \<open>UniqueRef\<close> (unique\_ref.hpp): a pointer to one object on the heap that is only empty after it was moved from. The heap is a list
  of objects, \<open>None\<close> for one that was deleted; a pointer is an index or null.
\<close>

section \<open>Pointers and references\<close>

type_synonym 'a heap = "'a option list"
type_synonym ptr = "nat option"

definition live :: "'a heap \<Rightarrow> nat set" where
  "live heap = {a. a < length heap \<and> heap ! a \<noteq> None}"

text \<open>Deleting an object twice is undefined. The deleter of a \<open>std::unique_ptr\<close> is not called for null.\<close>

definition delete :: "'a heap \<Rightarrow> ptr \<Rightarrow> 'a heap cpp" where
  "delete heap p =
     (case p of
        None \<Rightarrow> Inr heap
      | Some a \<Rightarrow> if a < length heap \<and> heap ! a \<noteq> None then Inr (heap[a := None]) else Inl Undefined_behaviour)"

definition ur_construct :: "ptr \<Rightarrow> ptr cpp" where
  "ur_construct owned = (if owned \<noteq> None then Inr owned else Inl Assert_failed)"

text \<open>\<open>None\<close> is an object that cannot be allocated.\<close>

definition make_unique_ref :: "'a heap \<Rightarrow> 'a option \<Rightarrow> ('a heap \<times> ptr) cpp" where
  "make_unique_ref heap v =
     (case v of
        None \<Rightarrow> Inl Bad_alloc
      | Some x \<Rightarrow> map_sum id (Pair (heap @ [Some x])) (ur_construct (Some (length heap))))"

text \<open>Moving out: the pointer, and what is left of the reference.\<close>

definition to_unique_ptr :: "ptr \<Rightarrow> ptr \<times> ptr" where
  "to_unique_ptr r = (r, None)"

definition ur_move :: "ptr \<Rightarrow> ptr \<times> ptr" where
  "ur_move other = (other, None)"

definition ur_convert :: "ptr \<Rightarrow> ptr \<times> ptr" where
  "ur_convert other = to_unique_ptr other"

definition ur_deref :: "'a heap \<Rightarrow> ptr \<Rightarrow> 'a cpp" where
  "ur_deref heap r =
     (case r of
        None \<Rightarrow> Inl Assert_failed
      | Some a \<Rightarrow> if a < length heap then (case heap ! a of None \<Rightarrow> Inl Undefined_behaviour | Some v \<Rightarrow> Inr v) else Inl Undefined_behaviour)"

definition ur_arrow :: "ptr \<Rightarrow> nat cpp" where
  "ur_arrow r = (case r of None \<Rightarrow> Inl Assert_failed | Some a \<Rightarrow> Inr a)"

definition ur_get :: "ptr \<Rightarrow> ptr" where
  "ur_get r = r"

definition ur_swap :: "ptr \<Rightarrow> ptr \<Rightarrow> ptr \<times> ptr" where
  "ur_swap lhs rhs = (rhs, lhs)"

section \<open>Programs\<close>

record 'a refs_world =
  rw_heap :: "'a heap"
  rw_refs :: "ptr list"
  rw_ptrs :: "ptr list"

datatype 'a ref_op =
    Make "'a option" | Make_ptr 'a | Null_ptr | Adopt nat | Move nat | Convert nat | Assign nat nat | Deref nat
  | Store nat 'a | To_unique_ptr nat | Swap nat nat | Destroy nat | Destroy_ptr nat

text \<open>
  A defaulted move assignment releases the source, stores the pointer and then deletes the old object, so that self-assignment
  changes nothing. A reference that is destroyed stays in its list as an empty one.
\<close>

definition ur_assign :: "'a heap \<Rightarrow> ptr list \<Rightarrow> nat \<Rightarrow> nat \<Rightarrow> ('a heap \<times> ptr list) cpp" where
  "ur_assign heap refs i j =
     (let p = refs ! j; released = refs[j := None]; old = released ! i in
      map_sum id (\<lambda>heap'. (heap', released[i := p])) (delete heap old))"

fun ref_op_ok :: "'a refs_world \<Rightarrow> 'a ref_op \<Rightarrow> bool" where
  "ref_op_ok w (Adopt j) = (j < length (rw_ptrs w))"
| "ref_op_ok w (Move i) = (i < length (rw_refs w))"
| "ref_op_ok w (Convert i) = (i < length (rw_refs w))"
| "ref_op_ok w (Assign i j) = (i < length (rw_refs w) \<and> j < length (rw_refs w))"
| "ref_op_ok w (Deref i) = (i < length (rw_refs w))"
| "ref_op_ok w (Store i v) = (i < length (rw_refs w))"
| "ref_op_ok w (To_unique_ptr i) = (i < length (rw_refs w))"
| "ref_op_ok w (Swap i j) = (i < length (rw_refs w) \<and> j < length (rw_refs w))"
| "ref_op_ok w (Destroy i) = (i < length (rw_refs w))"
| "ref_op_ok w (Destroy_ptr j) = (j < length (rw_ptrs w))"
| "ref_op_ok w x = True"

fun ref_exec :: "'a ref_op \<Rightarrow> 'a refs_world \<Rightarrow> 'a refs_world cpp" where
  "ref_exec (Make v) w = map_sum id (\<lambda>(heap, r). w\<lparr>rw_heap := heap, rw_refs := rw_refs w @ [r]\<rparr>) (make_unique_ref (rw_heap w) v)"
| "ref_exec (Make_ptr v) w = Inr (w\<lparr>rw_heap := rw_heap w @ [Some v], rw_ptrs := rw_ptrs w @ [Some (length (rw_heap w))]\<rparr>)"
| "ref_exec Null_ptr w = Inr (w\<lparr>rw_ptrs := rw_ptrs w @ [None]\<rparr>)"
| "ref_exec (Adopt j) w =
     map_sum id (\<lambda>r. w\<lparr>rw_refs := rw_refs w @ [r], rw_ptrs := (rw_ptrs w)[j := None]\<rparr>) (ur_construct (rw_ptrs w ! j))"
| "ref_exec (Move i) w = (case ur_move (rw_refs w ! i) of (new, old) \<Rightarrow> Inr (w\<lparr>rw_refs := (rw_refs w)[i := old] @ [new]\<rparr>))"
| "ref_exec (Convert i) w = (case ur_convert (rw_refs w ! i) of (new, old) \<Rightarrow> Inr (w\<lparr>rw_refs := (rw_refs w)[i := old] @ [new]\<rparr>))"
| "ref_exec (Assign i j) w = map_sum id (\<lambda>(heap, refs). w\<lparr>rw_heap := heap, rw_refs := refs\<rparr>) (ur_assign (rw_heap w) (rw_refs w) i j)"
| "ref_exec (Deref i) w = map_sum id (\<lambda>v. w) (ur_deref (rw_heap w) (rw_refs w ! i))"
| "ref_exec (Store i v) w = map_sum id (\<lambda>a. w\<lparr>rw_heap := (rw_heap w)[a := Some v]\<rparr>) (ur_arrow (rw_refs w ! i))"
| "ref_exec (To_unique_ptr i) w =
     (case to_unique_ptr (rw_refs w ! i) of (p, left) \<Rightarrow> Inr (w\<lparr>rw_refs := (rw_refs w)[i := left], rw_ptrs := rw_ptrs w @ [p]\<rparr>))"
| "ref_exec (Swap i j) w =
     (case ur_swap (rw_refs w ! i) (rw_refs w ! j) of (ri, rj) \<Rightarrow> Inr (w\<lparr>rw_refs := (rw_refs w)[i := ri, j := rj]\<rparr>))"
| "ref_exec (Destroy i) w =
     map_sum id (\<lambda>heap. w\<lparr>rw_heap := heap, rw_refs := (rw_refs w)[i := None]\<rparr>) (delete (rw_heap w) (rw_refs w ! i))"
| "ref_exec (Destroy_ptr j) w =
     map_sum id (\<lambda>heap. w\<lparr>rw_heap := heap, rw_ptrs := (rw_ptrs w)[j := None]\<rparr>) (delete (rw_heap w) (rw_ptrs w ! j))"

text \<open>The operations that failed are collected, with what they did; they change nothing.\<close>

fun ref_run :: "'a ref_op list \<Rightarrow> 'a refs_world \<Rightarrow> 'a refs_world \<times> ('a ref_op \<times> cpp_error) list" where
  "ref_run [] w = (w, [])"
| "ref_run (x # xs) w =
     (if ref_op_ok w x then
        (case ref_exec x w of
           Inl e \<Rightarrow> (case ref_run xs w of (w', es) \<Rightarrow> (w', (x, e) # es))
         | Inr w' \<Rightarrow> ref_run xs w')
      else ref_run xs w)"

definition ref_empty :: "'a refs_world" where
  "ref_empty = \<lparr>rw_heap = [], rw_refs = [], rw_ptrs = []\<rparr>"

definition owners :: "'a refs_world \<Rightarrow> nat list" where
  "owners w = List.map_filter id (rw_refs w @ rw_ptrs w)"

section \<open>One owner for each object\<close>

lemma heap_update_nth: "heap[a := x] ! b = (if a = b \<and> a < length heap then x else heap ! b)"
  by (cases "a < length heap") (simp_all add: nth_list_update list_update_beyond)

lemma live_heap_simps:
  "live [] = {}" "live (heap @ [Some v]) = insert (length heap) (live heap)" "live (heap[a := None]) = live heap - {a}"
  "a \<in> live heap \<Longrightarrow> live (heap[a := Some v]) = live heap" "length heap \<notin> live heap"
  by (auto simp: live_def nth_append heap_update_nth split: if_splits)

lemma owners_held: "mset (owners w) = held id (rw_refs w) + held id (rw_ptrs w)"
proof -
  have "mset (List.map_filter id xs) = held id xs" for xs :: "ptr list"
    by (induction xs) (auto simp: map_filter_simps split: option.split)
  then show ?thesis by (simp add: owners_def)
qed

definition refs_inv :: "'a refs_world \<Rightarrow> bool" where
  "refs_inv w \<longleftrightarrow> exactly (held id (rw_refs w) + held id (rw_ptrs w)) (live (rw_heap w))"

lemma delete_live:
  assumes "exactly (M + one p) (live heap)"
  shows "\<exists>heap'. delete heap p = Inr heap' \<and> exactly M (live heap')"
proof (cases p)
  case None
  then show ?thesis using assms by (simp add: delete_def)
next
  case (Some a)
  with assms have "exactly (M + {#a#}) (live heap)" by simp
  from exactly_lose [OF this] show ?thesis using Some by (simp add: delete_def live_heap_simps) (simp add: live_def)
qed

lemma held_member:
  assumes "i < length xs" and "xs ! i = Some a"
  shows "a \<in># held id xs"
proof -
  have "held id xs = held id (xs[i := None]) + {#a#}" using held_update [OF assms(1), where f = id and y = None] assms(2) by simp
  then show ?thesis by simp
qed

lemma refs_inv_live:
  assumes "refs_inv w" and "i < length (rw_refs w)" and "rw_refs w ! i = Some a"
  shows "a \<in> live (rw_heap w)"
proof -
  have e: "finite (live (rw_heap w))" "held id (rw_refs w) + held id (rw_ptrs w) = mset_set (live (rw_heap w))"
    using assms(1) by (simp_all add: refs_inv_def exactly_def)
  have "a \<in># mset_set (live (rw_heap w))" unfolding e(2) [symmetric] using held_member [OF assms(2,3)] by simp
  then show ?thesis using e(1) by simp
qed

lemma ur_deref_live: "a \<in> live heap \<Longrightarrow> \<exists>v. ur_deref heap (Some a) = Inr v"
  by (auto simp: live_def ur_deref_def)

text \<open>The pointer that an assignment replaces is held besides those that are left.\<close>

lemma ur_assign_held:
  assumes "i < length refs" and "j < length refs"
  shows "held id (refs[j := None, i := refs ! j]) + one (refs[j := None] ! i) = held id refs"
proof -
  have "held id (refs[j := None, i := refs ! j]) + one (refs[j := None] ! i) = held id (refs[j := None]) + one (refs ! j)"
    using held_update [of i "refs[j := None]" id "refs ! j"] assms by simp
  also have "\<dots> = held id refs" using held_update [of j refs id None] assms by simp
  finally show ?thesis .
qed

lemma refs_inv_exec:
  assumes inv: "refs_inv w" and ok: "ref_op_ok w x"
  shows "case ref_exec x w of Inr w' \<Rightarrow> refs_inv w' | Inl e \<Rightarrow> e = Assert_failed \<or> e = Bad_alloc"
proof (cases x)
  case (Make v)
  then show ?thesis using inv exactly_gain [OF inv [unfolded refs_inv_def], of "length (rw_heap w)"]
    by (cases v) (simp_all add: make_unique_ref_def ur_construct_def refs_inv_def live_heap_simps)
next
  case (Make_ptr v)
  then show ?thesis using exactly_gain [OF inv [unfolded refs_inv_def], of "length (rw_heap w)"]
    by (simp add: refs_inv_def live_heap_simps)
next
  case (Adopt j)
  then show ?thesis using inv ok held_update [of j "rw_ptrs w" id None]
    by (auto simp: ur_construct_def refs_inv_def ac_simps)
next
  case (Move i)
  then show ?thesis using inv ok held_move [of i "rw_refs w" id None "rw_refs w ! i"] by (simp add: ur_move_def refs_inv_def)
next
  case (Convert i)
  then show ?thesis using inv ok held_move [of i "rw_refs w" id None "rw_refs w ! i"]
    by (simp add: ur_convert_def to_unique_ptr_def refs_inv_def)
next
  case (Assign i j)
  have "exactly (held id ((rw_refs w)[j := None, i := rw_refs w ! j]) + held id (rw_ptrs w) + one ((rw_refs w)[j := None] ! i)) (live (rw_heap w))"
    using inv ok Assign ur_assign_held [of i "rw_refs w" j] by (simp add: refs_inv_def ac_simps)
  from delete_live [OF this] show ?thesis using Assign by (auto simp: ur_assign_def Let_def refs_inv_def)
next
  case (Deref i)
  then show ?thesis using inv ok ur_deref_live refs_inv_live [OF inv, of i] by (cases "rw_refs w ! i") (fastforce simp: ur_deref_def)+
next
  case (Store i v)
  then show ?thesis using inv ok refs_inv_live [OF inv, of i]
    by (cases "rw_refs w ! i") (simp_all add: ur_arrow_def refs_inv_def live_heap_simps)
next
  case (To_unique_ptr i)
  then show ?thesis using inv ok held_update [of i "rw_refs w" id None]
    by (auto simp: to_unique_ptr_def refs_inv_def ac_simps)
next
  case (Swap i j)
  then show ?thesis using inv ok held_swap [of i "rw_refs w" j id] by (simp add: ur_swap_def refs_inv_def)
next
  case (Destroy i)
  have "exactly (held id ((rw_refs w)[i := None]) + held id (rw_ptrs w) + one (rw_refs w ! i)) (live (rw_heap w))"
    using inv ok Destroy held_update [of i "rw_refs w" id None] by (simp add: refs_inv_def ac_simps)
  from delete_live [OF this] show ?thesis using Destroy by (auto simp: refs_inv_def)
next
  case (Destroy_ptr j)
  have "exactly (held id (rw_refs w) + held id ((rw_ptrs w)[j := None]) + one (rw_ptrs w ! j)) (live (rw_heap w))"
    using inv ok Destroy_ptr held_update [of j "rw_ptrs w" id None] by (simp add: refs_inv_def ac_simps)
  from delete_live [OF this] show ?thesis using Destroy_ptr by (auto simp: refs_inv_def)
qed (use inv in \<open>simp add: refs_inv_def\<close>)

lemma refs_inv_run:
  "refs_inv w \<Longrightarrow> ref_run xs w = (w', es) \<Longrightarrow> refs_inv w' \<and> snd ` set es \<subseteq> {Assert_failed, Bad_alloc}"
proof (induction xs arbitrary: w w' es)
  case (Cons x xs)
  show ?case
  proof (cases "ref_op_ok w x")
    case True
    note step = refs_inv_exec [OF Cons.prems(1) True]
    show ?thesis
    proof (cases "ref_exec x w")
      case (Inl e)
      obtain w1 es1 where 1: "ref_run xs w = (w1, es1)" by fastforce
      then show ?thesis using Cons.IH [OF Cons.prems(1) 1] Cons.prems(2) True Inl step by (auto simp: image_subset_iff)
    next
      case (Inr w1)
      then show ?thesis using Cons.IH [of w1] Cons.prems(2) True step by simp
    qed
  qed (use Cons in simp)
qed simp



end
