(* ===== verification/Stack_Trace.thy ===== *)
theory Stack_Trace
  imports String_Builder
begin

text \<open>
  \<open>StackTrace\<close> (stack\_trace.hpp, stack\_trace.cpp), in both branches of the file. Walking the stack, looking up a symbol and
  demangling a name are calls of the platform and parameters here.
\<close>

section \<open>The platform\<close>

text \<open>
  POSIX: \<open>backtrace n\<close> are the addresses that the platform stores in an array of \<open>n\<close>, \<open>dladdr\<close> finds the name of a symbol or nothing,
  \<open>demangle\<close> turns it into a readable one or fails.
\<close>

record posix_trace =
  backtrace :: "nat \<Rightarrow> u64 list"
  dladdr :: "u64 \<Rightarrow> string option"
  cxa_demangle :: "string \<Rightarrow> string option"

text \<open>
  Windows: \<open>CaptureStackBackTrace k n\<close> leaves out \<open>k\<close> frames and stores up to \<open>n\<close>, \<open>SymFromAddr a n\<close> finds a symbol, its name in at
  most \<open>n\<close> characters, and how far behind it the address is. \<open>SymInitialize\<close> is the outcome of the one call that the process makes.
\<close>

record win_trace =
  CaptureStackBackTrace :: "u32 \<Rightarrow> u32 \<Rightarrow> u64 list"
  SymInitialize :: bool
  SymFromAddr :: "u64 \<Rightarrow> u32 \<Rightarrow> (string \<times> u64) option"

datatype trace_platform = Trace_posix posix_trace | Trace_windows win_trace

section \<open>Rendering an address\<close>

definition hex_char :: "nat \<Rightarrow> char" where
  "hex_char d = (if d < 10 then char_of (48 + d) else char_of (87 + d))"

fun nat_hex :: "nat \<Rightarrow> string" where
  "nat_hex n = (if n < 16 then [hex_char n] else nat_hex (n div 16) @ [hex_char (n mod 16)])"

declare nat_hex.simps [simp del]

text \<open>\<open>std::to_chars\<close> in base 16 into a range of \<open>size\<close> characters.\<close>

definition to_chars_hex :: "nat \<Rightarrow> u64 \<Rightarrow> string option" where
  "to_chars_hex size_arg v = (if length (nat_hex (unat v)) \<le> size_arg then Some (nat_hex (unat v)) else None)"

definition append_address :: "string_builder \<Rightarrow> u64 \<Rightarrow> string_builder" where
  "append_address out address =
     (let out = append_text out ''0x'' in
      case to_chars_hex 18 address of Some digits \<Rightarrow> append_text out digits | None \<Rightarrow> out)"

definition address_only :: "u64 \<Rightarrow> string" where
  "address_only address = snd (sb_take (append_address sb_empty_builder address))"

definition posix_describe_address :: "posix_trace \<Rightarrow> u64 \<Rightarrow> string" where
  "posix_describe_address p address =
     (case dladdr p address of
        None \<Rightarrow> address_only address
      | Some sname \<Rightarrow>
          (let name = (case cxa_demangle p sname of Some demangled \<Rightarrow> demangled | None \<Rightarrow> sname);
               builder = append_text (append_char (append_address sb_empty_builder address) (CHR '' '')) name
           in snd (sb_take builder)))"

definition windows_describe_address :: "win_trace \<Rightarrow> u64 \<Rightarrow> string" where
  "windows_describe_address w address =
     (if \<not> SymInitialize w then address_only address
      else (case SymFromAddr w address (256 - 1) of
          None \<Rightarrow> address_only address
        | Some (name, displacement) \<Rightarrow>
            (let builder = append_address sb_empty_builder address;
                 builder = append_text (append_char builder (CHR '' '')) name;
                 builder = append_int (append_text builder '' + '') (uint displacement)
             in snd (sb_take builder))))"

fun describe_address :: "trace_platform \<Rightarrow> u64 \<Rightarrow> string" where
  "describe_address (Trace_posix p) address = posix_describe_address p address"
| "describe_address (Trace_windows w) address = windows_describe_address w address"

section \<open>Capturing\<close>

definition posix_capture_addresses :: "posix_trace \<Rightarrow> nat \<Rightarrow> nat \<Rightarrow> u64 list" where
  "posix_capture_addresses p skip max_frames =
     (let raw = backtrace p (max_frames + skip + 1);
          collected = length raw;
          dropped = min collected (skip + 1);
          keep = min (collected - dropped) max_frames
      in take keep (drop dropped raw))"

definition windows_capture_addresses :: "win_trace \<Rightarrow> nat \<Rightarrow> nat \<Rightarrow> u64 list" where
  "windows_capture_addresses w skip max_frames = CaptureStackBackTrace w (word_of_nat (skip + 1)) (word_of_nat max_frames)"

fun capture_addresses :: "trace_platform \<Rightarrow> nat \<Rightarrow> nat \<Rightarrow> u64 list" where
  "capture_addresses (Trace_posix p) skip max_frames = posix_capture_addresses p skip max_frames"
| "capture_addresses (Trace_windows w) skip max_frames = windows_capture_addresses w skip max_frames"

record stack_trace =
  st_addresses :: "u64 list"

definition capture :: "trace_platform \<Rightarrow> nat \<Rightarrow> nat \<Rightarrow> stack_trace" where
  "capture p skip max_frames =
     (if max_frames = 0 then \<lparr>st_addresses = []\<rparr>
      else \<lparr>st_addresses = capture_addresses p (min skip 1024) (min max_frames 1024)\<rparr>)"

record frame =
  fr_address :: u64
  fr_description :: string

definition symbolize :: "trace_platform \<Rightarrow> stack_trace \<Rightarrow> frame list" where
  "symbolize p t =
     map (\<lambda>address. \<lparr>fr_address = address, fr_description = describe_address p address\<rparr>) (st_addresses t)"

definition append_frame :: "string_builder \<times> nat \<Rightarrow> frame \<Rightarrow> string_builder \<times> nat" where
  "append_frame bi frame =
     (case bi of (builder, index) \<Rightarrow>
      (append_char (append_text (append_char (append_int (append_char builder (CHR ''#'')) (int index)) (CHR '' '')) (fr_description frame)) (CHR 0x0A),
       index + 1))"

definition trace_to_string :: "trace_platform \<Rightarrow> stack_trace \<Rightarrow> string" where
  "trace_to_string p t =
     snd (sb_take (fst (foldl append_frame (sb_empty_builder, 0) (symbolize p t))))"

section \<open>Reading a trace\<close>

definition is_hex_char :: "char \<Rightarrow> bool" where
  "is_hex_char c \<longleftrightarrow> is_digit c \<or> 97 \<le> (of_char c :: nat) \<and> (of_char c :: nat) \<le> 102"

definition hex_char_value :: "char \<Rightarrow> nat" where
  "hex_char_value c = (if is_digit c then of_char c - 48 else of_char c - 87)"

definition hex_value :: "string \<Rightarrow> nat" where
  "hex_value s = foldl (\<lambda>v c. 16 * v + hex_char_value c) 0 s"

fun split_lines :: "string \<Rightarrow> string list" where
  "split_lines [] = []"
| "split_lines (c # cs) =
     takeWhile (\<lambda>x. x \<noteq> CHR 0x0A) (c # cs) # split_lines (drop (length (takeWhile (\<lambda>x. x \<noteq> CHR 0x0A) (c # cs))) cs)"

text \<open>The index and the address of a line \<open>#index 0xaddress name\<close>.\<close>

definition read_frame :: "string \<Rightarrow> nat \<times> nat" where
  "read_frame line =
     (digits_value (takeWhile is_digit (tl line)), hex_value (takeWhile is_hex_char (drop 3 (dropWhile is_digit (tl line)))))"

lemma hex_char_spec:
  assumes "d < 16"
  shows "is_hex_char (hex_char d)" and "hex_char_value (hex_char d) = d" and "hex_char d \<noteq> CHR 0x0A"
proof -
  have n: "(of_char (hex_char d) :: nat) = (if d < 10 then 48 + d else 87 + d)"
    using assms by (simp add: hex_char_def)
  show "is_hex_char (hex_char d)" and "hex_char_value (hex_char d) = d"
    using n assms by (auto simp: is_hex_char_def hex_char_value_def is_digit_def)
  have "(of_char (hex_char d) :: nat) \<noteq> of_char (CHR 0x0A)" unfolding n by simp
  then show "hex_char d \<noteq> CHR 0x0A" by metis
qed

lemma nat_hex_all: "list_all (\<lambda>c. is_hex_char c \<and> c \<noteq> CHR 0x0A) (nat_hex n)"
  by (induction n rule: nat_hex.induct) (simp add: nat_hex.simps hex_char_spec)

lemma nat_hex_value: "hex_value (nat_hex n) = n"
  unfolding hex_value_def
proof (induction n rule: nat_hex.induct)
  case (1 n)
  then show ?case by (cases "n < 16") (simp_all add: nat_hex.simps [of n] hex_char_spec)
qed

lemma length_nat_hex: "n < 16 ^ Suc k \<Longrightarrow> length (nat_hex n) \<le> Suc k"
proof (induction n arbitrary: k rule: nat_hex.induct)
  case (1 n)
  show ?case
  proof (cases "n < 16")
    case False
    with 1(2) obtain j where k: "k = Suc j" by (cases k) auto
    with 1(2) have "n div 16 < 16 ^ Suc j" by (simp add: less_mult_imp_div_less mult.commute)
    from 1(1) [OF False this] False k show ?thesis by (simp add: nat_hex.simps [of n])
  qed (simp add: nat_hex.simps)
qed

lemma append_address_text [simp]: "sb_view (append_address b a) = sb_view b @ ''0x'' @ nat_hex (unat a)"
proof -
  have "unat a < 16 ^ Suc 15" using unat_less64 [of a] by simp
  then have "length (nat_hex (unat a)) \<le> 18" using length_nat_hex by fastforce
  then show ?thesis by (simp add: append_address_def to_chars_hex_def)
qed

section \<open>What a trace says\<close>

text \<open>What follows the address: a space and the name of the symbol, on Windows with the distance from it.\<close>

fun frame_name :: "trace_platform \<Rightarrow> u64 \<Rightarrow> string" where
  "frame_name (Trace_posix p) a =
     (case dladdr p a of None \<Rightarrow> [] | Some sname \<Rightarrow> CHR '' '' # (case cxa_demangle p sname of Some d \<Rightarrow> d | None \<Rightarrow> sname))"
| "frame_name (Trace_windows w) a =
     (case (if SymInitialize w then SymFromAddr w a 255 else None) of
        None \<Rightarrow> [] | Some (name, d) \<Rightarrow> CHR '' '' # name @ '' + '' @ nat_digits (unat d))"

text \<open>What the platform is relied on for: one walk of the stack, innermost frame first, and names without line breaks.\<close>

fun walks :: "trace_platform \<Rightarrow> u64 list \<Rightarrow> bool" where
  "walks (Trace_posix p) stack \<longleftrightarrow> (\<forall>n. backtrace p n = take n stack)"
| "walks (Trace_windows w) stack \<longleftrightarrow> (\<forall>k n. CaptureStackBackTrace w k n = take (unat n) (drop (unat k) stack))"

fun one_line_names :: "trace_platform \<Rightarrow> bool" where
  "one_line_names (Trace_posix p) \<longleftrightarrow>
     (\<forall>a s. dladdr p a = Some s \<longrightarrow> CHR 0x0A \<notin> set s) \<and> (\<forall>s d. cxa_demangle p s = Some d \<longrightarrow> CHR 0x0A \<notin> set d)"
| "one_line_names (Trace_windows w) \<longleftrightarrow> (\<forall>a n name d. SymFromAddr w a n = Some (name, d) \<longrightarrow> CHR 0x0A \<notin> set name)"

definition frame_line :: "trace_platform \<Rightarrow> nat \<times> u64 \<Rightarrow> string" where
  "frame_line p f =
     CHR ''#'' # nat_digits (fst f) @ '' 0x'' @ nat_hex (unat (snd f)) @ frame_name p (snd f)"

lemma sb_take_view: "snd (sb_take b) = sb_view b"
  by (simp add: sb_take_def sb_view_def)

lemma sb_view_empty [simp]: "sb_view sb_empty_builder = []"
  by (simp add: sb_view_def sb_empty_builder_def)

lemma describe_address_text: "describe_address p a = ''0x'' @ nat_hex (unat a) @ frame_name p a"
proof (cases p)
  case (Trace_posix q)
  then show ?thesis by (simp add: posix_describe_address_def address_only_def sb_take_view split: option.split)
next
  case (Trace_windows w)
  have "sb_view (append_int b (uint d)) = sb_view b @ nat_digits (unat d)" for b and d :: u64
  proof -
    have u: "uint d = int (unat d)" "- (2 ^ 63) \<le> uint d" by (simp_all add: order_trans [OF _ uint_ge_0])
    moreover have "uint d < 2 ^ 64" using uint_lt2p [of d] by simp
    ultimately show ?thesis using sb_view_append_int [of "uint d" b] by (simp only: u(1) int_digits_def of_nat_less_0_iff if_False nat_int)
  qed
  then show ?thesis using Trace_windows
    by (cases "SymFromAddr w a 255") (auto simp: windows_describe_address_def address_only_def sb_take_view)
qed

lemma append_frames_text:
  assumes "i + length as < 2 ^ 64"
  shows "sb_view (fst (foldl append_frame (b, i) (map (\<lambda>a. \<lparr>fr_address = a, fr_description = describe_address p a\<rparr>) as))) =
    sb_view b @ concat (map (\<lambda>f. frame_line p f @ [CHR 0x0A]) (enumerate i as))"
  using assms
proof (induction as arbitrary: b i)
  case (Cons a as)
  have i: "- (2 ^ 63) \<le> int i" "int i < 2 ^ 64" using Cons.prems by simp_all
  show ?case
    using Cons.IH [of "Suc i"] Cons.prems sb_view_append_int [OF i]
    by (simp add: append_frame_def describe_address_text frame_line_def int_digits_def)
qed simp

lemma split_lines_concat:
  assumes "\<forall>l \<in> set ls. CHR 0x0A \<notin> set l \<and> l \<noteq> []"
  shows "split_lines (concat (map (\<lambda>l. l @ [CHR 0x0A]) ls)) = ls"
  using assms
proof (induction ls)
  case (Cons l ls)
  obtain c cs where l: "l = c # cs" using Cons.prems by (cases l) auto
  have t: "takeWhile (\<lambda>x. x \<noteq> CHR 0x0A) (l @ CHR 0x0A # xs) = l" for xs
    using Cons.prems by (subst takeWhile_append2) auto
  from Cons t [of "concat (map (\<lambda>l. l @ [CHR 0x0A]) ls)"] show ?case by (simp add: l)
qed simp

lemma read_frame_line: "read_frame (frame_line p f) = (fst f, unat (snd f))"
proof -
  have d: "\<forall>c \<in> set (nat_digits n). is_digit c" for n using nat_digits_all by (simp add: list_all_iff)
  have h: "\<forall>c \<in> set (nat_hex n). is_hex_char c" for n using nat_hex_all by (simp add: list_all_iff)
  have n: "takeWhile is_hex_char (frame_name p a) = []" for a
    by (cases p) (simp_all add: is_hex_char_def is_digit_def split: option.split)
  have s: "\<not> is_digit (CHR '' '')" by (simp add: is_digit_def)
  show ?thesis using d h by (simp add: read_frame_def frame_line_def takeWhile_append2 dropWhile_append2 n s nat_hex_value)
qed

lemma posix_capture_frames:
  assumes "\<forall>n. backtrace p n = take n stack"
  shows "posix_capture_addresses p skip max_frames = take max_frames (drop (Suc skip) stack)"
proof -
  let ?raw = "take (max_frames + skip + 1) stack"
  have d: "drop (min (length xs) k) xs = drop k xs" "take (min (length xs) k) xs = take k xs" for xs :: "u64 list" and k
    by (simp_all add: min_def)
  have "posix_capture_addresses p skip max_frames = take (min (length (drop (skip + 1) ?raw)) max_frames) (drop (min (length ?raw) (skip + 1)) ?raw)"
    using assms by (simp only: posix_capture_addresses_def Let_def length_drop) (auto simp: min_def)
  also have "\<dots> = take max_frames (drop (skip + 1) ?raw)" unfolding d ..
  also have "\<dots> = take max_frames (drop (Suc skip) stack)" by (simp add: drop_take)
  finally show ?thesis .
qed

text \<open>The clamp keeps the arguments of \<open>CaptureStackBackTrace\<close> within a \<open>DWORD\<close>.\<close>

lemma capture_addresses_frames:
  assumes "walks p stack" and "skip \<le> 1024" and "max_frames \<le> 1024"
  shows "capture_addresses p skip max_frames = take max_frames (drop (Suc skip) stack)"
proof (cases p)
  case (Trace_posix q)
  then show ?thesis using assms(1) posix_capture_frames by simp
next
  case (Trace_windows w)
  have "unat (word_of_nat n :: u32) = n" if "n \<le> 1025" for n using that by (simp add: unsigned_of_nat take_bit_nat_eq_self)
  from this [of "Suc skip"] this [of max_frames] show ?thesis
    using assms Trace_windows by (simp add: windows_capture_addresses_def del: of_nat_Suc)
qed

lemma capture_frames:
  assumes "walks p stack"
  shows "st_addresses (capture p skip max_frames) = take (min max_frames 1024) (drop (Suc (min skip 1024)) stack)"
  by (simp add: capture_def capture_addresses_frames [OF assms])

lemma frame_name_line: "one_line_names p \<Longrightarrow> CHR 0x0A \<notin> set (frame_name p a)"
proof (cases p)
  case (Trace_windows w)
  assume "one_line_names p"
  then have "CHR 0x0A \<notin> set name" if "SymFromAddr w a 255 = Some (name, d)" for name d using that Trace_windows by auto
  moreover have "CHR 0x0A \<notin> set (nat_digits k)" for k using nat_digits_all [of k] by (auto simp: list_all_iff is_digit_def)
  ultimately show ?thesis using Trace_windows by (cases "SymFromAddr w a 255") auto
qed (auto split: option.split)

text \<open>
  Property C40. A trace says what the stack was: the lines of its text, read back, are the frames of the walk from \<open>skip\<close> on behind the innermost one,
  numbered from zero, in order and each with its address, up to \<open>max_frames\<close> of them (both limited to 1024), whatever symbols are found, as
  long as their names have no line breaks.
\<close>

theorem stack_trace_reads_back:
  assumes "walks p stack" and "one_line_names p"
  shows "map read_frame (split_lines (trace_to_string p (capture p skip max_frames))) =
    enumerate 0 (map unat (take (min max_frames 1024) (drop (Suc (min skip 1024)) stack)))"
proof -
  let ?as = "take (min max_frames 1024) (drop (Suc (min skip 1024)) stack)"
  note n = frame_name_line [OF assms(2)]
  have d: "CHR 0x0A \<notin> set (nat_digits k)" for k using nat_digits_all [of k] by (auto simp: list_all_iff is_digit_def)
  have h: "CHR 0x0A \<notin> set (nat_hex k)" for k using nat_hex_all [of k] by (auto simp: list_all_iff)
  have "\<forall>l \<in> set (map (frame_line p) (enumerate 0 ?as)). CHR 0x0A \<notin> set l \<and> l \<noteq> []"
    using n d h by (auto simp: frame_line_def)
  note lines = split_lines_concat [OF this]
  have "trace_to_string p (capture p skip max_frames) =
      concat (map (\<lambda>l. l @ [CHR 0x0A]) (map (frame_line p) (enumerate 0 ?as)))"
    using append_frames_text [of 0 ?as sb_empty_builder p] capture_frames [OF assms(1)]
    by (simp add: trace_to_string_def symbolize_def sb_take_view comp_def)
  then have "split_lines (trace_to_string p (capture p skip max_frames)) = map (frame_line p) (enumerate 0 ?as)"
    using lines by simp
  then show ?thesis by (simp add: read_frame_line comp_def enumerate_map_upt map_upt_eqI enumerate_eq_zip zip_map2 split_beta)
qed

definition demo_posix_trace :: trace_platform where
  "demo_posix_trace = Trace_posix \<lparr>backtrace = (\<lambda>n. take n [9, 43, 255]), dladdr = (\<lambda>a. if a = 43 then Some ''main'' else None), cxa_demangle = (\<lambda>s. None)\<rparr>"

definition demo_win_trace :: trace_platform where
  "demo_win_trace = Trace_windows \<lparr>CaptureStackBackTrace = (\<lambda>k n. take (unat n) (drop (unat k) [9, 43, 255])), SymInitialize = True,
     SymFromAddr = (\<lambda>a n. if a = 43 then Some (''main'', 7) else None)\<rparr>"

theorem stack_trace_reads_back_witness:
  "map read_frame (split_lines (trace_to_string demo_posix_trace (capture demo_posix_trace 0 64))) = [(0, 43), (1, 255)] \<and>
   map read_frame (split_lines (trace_to_string demo_win_trace (capture demo_win_trace 1 64))) = [(0, 255)]"
proof
  have "walks demo_posix_trace [9, 43, 255]" "one_line_names demo_posix_trace" by (simp_all add: demo_posix_trace_def)
  from stack_trace_reads_back [OF this, of 0 64]
  show "map read_frame (split_lines (trace_to_string demo_posix_trace (capture demo_posix_trace 0 64))) = [(0, 43), (1, 255)]" by simp
  have "walks demo_win_trace [9, 43, 255]" "one_line_names demo_win_trace" by (simp_all add: demo_win_trace_def)
  from stack_trace_reads_back [OF this, of 1 64]
  show "map read_frame (split_lines (trace_to_string demo_win_trace (capture demo_win_trace 1 64))) = [(0, 255)]" by simp
qed

end
