(* ===== verification/Task_Waiting.thy ===== *)
theory Task_Waiting
  imports Task_Future Monitor
begin

text \<open>
  The threads that wait on a \<open>SharedTaskState\<close> (task\_future.hpp): \<open>wait\<close>, \<open>wait_for\<close>, \<open>wait_until\<close> and \<open>get\<close> against \<open>set_value\<close>, \<open>set_exception\<close>
  and \<open>abandon\<close>. Each critical section of the mutex is one step, and so are each notification, a spurious wake-up and
  the expiry of a timeout. \<open>Task_Future\<close> has the operations on the state.
\<close>

section \<open>Operations\<close>

datatype wait_kind = Wait | Wait_for | Get

datatype ('v, 'e) wait_out = Waited | In_time bool | Delivery "('v, 'e) delivery"

text \<open>A thread outside, one about to test whether there is an outcome (with the timeout expired or not), one asleep, and one that has come back.\<close>

datatype ('v, 'e) waiter = Idle | Test wait_kind bool | Sleep wait_kind | Returned wait_kind "('v, 'e) wait_out"

text \<open>\<open>ws_notify\<close> counts the calls that have left their critical section and not yet called \<open>notify_all\<close>.\<close>

record ('v, 'e) waiting =
  ws_state :: "('v, 'e) shared_state"
  ws_threads :: "('v, 'e) waiter list"
  ws_notify :: nat

definition ws_new :: "nat \<Rightarrow> ('v, 'e) waiting" where
  "ws_new n = \<lparr>ws_state = ss_new, ws_threads = replicate n Idle, ws_notify = 0\<rparr>"

fun wait_return :: "wait_kind \<Rightarrow> ('v, 'e) shared_state \<Rightarrow> ('v, 'e) wait_out" where
  "wait_return Wait st = Waited"
| "wait_return Wait_for st = In_time True"
| "wait_return Get st = Delivery (ss_get st)"

text \<open>The test of the predicate inside a wait, with the code after it.\<close>

definition ws_test :: "nat \<Rightarrow> wait_kind \<Rightarrow> bool \<Rightarrow> ('v, 'e) waiting \<Rightarrow> ('v, 'e) waiting" where
  "ws_test i kind expired w =
     w\<lparr>ws_threads := (ws_threads w)[i :=
         if has_outcome (ws_state w) then Returned kind (wait_return kind (ws_state w))
         else if kind = Wait_for \<and> expired then Returned kind (In_time False)
         else Sleep kind]\<rparr>"

definition ws_set :: "('v, 'e) task_result \<Rightarrow> ('v, 'e) waiting \<Rightarrow> ('v, 'e) waiting cpp" where
  "ws_set r w = map_sum id (\<lambda>st. w\<lparr>ws_state := st, ws_notify := Suc (ws_notify w)\<rparr>) (ss_set r (ws_state w))"

definition ws_abandon :: "('v, 'e) waiting \<Rightarrow> ('v, 'e) waiting" where
  "ws_abandon w =
     (if ss_result (ws_state w) = Unset \<and> \<not> ss_abandoned (ws_state w)
      then w\<lparr>ws_state := ss_abandon (ws_state w), ws_notify := Suc (ws_notify w)\<rparr> else w)"

fun wake_waiter :: "('v, 'e) waiter \<Rightarrow> ('v, 'e) waiter" where
  "wake_waiter (Sleep kind) = Test kind False"
| "wake_waiter x = x"

section \<open>Executions\<close>

datatype ('v, 'e) waiting_label =
    Call nat wait_kind | Store "('v, 'e) task_result" | Abandon | Notify_all | Retest nat | Spurious nat | Expire nat

text \<open>A value or an exception is stored, never the empty alternative.\<close>

fun ws_step :: "('v, 'e) waiting_label \<Rightarrow> ('v, 'e) waiting \<Rightarrow> ('v, 'e) waiting option" where
  "ws_step (Call i kind) w = (if i < length (ws_threads w) \<and> ws_threads w ! i = Idle then Some (ws_test i kind False w) else None)"
| "ws_step (Store r) w = (if r = Unset then None else case ws_set r w of Inl e \<Rightarrow> Some w | Inr w' \<Rightarrow> Some w')"
| "ws_step Abandon w = Some (ws_abandon w)"
| "ws_step Notify_all w =
     (if ws_notify w = 0 then None else Some (w\<lparr>ws_notify := ws_notify w - 1, ws_threads := map wake_waiter (ws_threads w)\<rparr>))"
| "ws_step (Retest i) w =
     (if i < length (ws_threads w) then (case ws_threads w ! i of Test kind expired \<Rightarrow> Some (ws_test i kind expired w) | _ \<Rightarrow> None) else None)"
| "ws_step (Spurious i) w =
     (if i < length (ws_threads w) then
        (case ws_threads w ! i of Sleep kind \<Rightarrow> Some (w\<lparr>ws_threads := (ws_threads w)[i := Test kind False]\<rparr>) | _ \<Rightarrow> None) else None)"
| "ws_step (Expire i) w =
     (if i < length (ws_threads w) \<and> ws_threads w ! i = Sleep Wait_for
      then Some (w\<lparr>ws_threads := (ws_threads w)[i := Test Wait_for True]\<rparr>) else None)"

section \<open>Invariant\<close>

text \<open>Nobody sleeps beside an outcome that has been announced; what a call returned is the outcome.\<close>

fun thread_ok :: "('v, 'e) shared_state \<Rightarrow> bool \<Rightarrow> ('v, 'e) waiter \<Rightarrow> bool" where
  "thread_ok st due Idle = True"
| "thread_ok st due (Test kind expired) = True"
| "thread_ok st due (Sleep kind) = (has_outcome st \<longrightarrow> due)"
| "thread_ok st due (Returned kind out) = (kind = Wait_for \<and> out = In_time False \<or> has_outcome st \<and> out = wait_return kind st)"

definition waiting_inv :: "('v, 'e) waiting \<Rightarrow> bool" where
  "waiting_inv w \<longleftrightarrow> list_all (thread_ok (ws_state w) (0 < ws_notify w)) (ws_threads w)"

lemma waiting_inv_update:
  assumes "waiting_inv w" and "thread_ok (ws_state w) (0 < ws_notify w) x"
  shows "waiting_inv (w\<lparr>ws_threads := (ws_threads w)[i := x]\<rparr>)"
  using assms set_update_subset_insert [of "ws_threads w" i x] by (auto simp: waiting_inv_def list_all_iff)

lemma waiting_inv_test: "waiting_inv w \<Longrightarrow> waiting_inv (ws_test i kind expired w)"
  unfolding ws_test_def by (rule waiting_inv_update) auto

lemma thread_ok_outcome: "thread_ok st due x \<Longrightarrow> \<not> has_outcome st \<Longrightarrow> thread_ok st' True x"
  by (cases x) auto

lemma thread_ok_wake: "thread_ok st due x \<Longrightarrow> thread_ok st due' (wake_waiter x)"
  by (cases x) auto

lemma waiting_inv_outcome:
  assumes "waiting_inv w" and "\<not> has_outcome (ws_state w)"
  shows "waiting_inv (w\<lparr>ws_state := st, ws_notify := Suc n\<rparr>)"
  using assms thread_ok_outcome by (fastforce simp: waiting_inv_def list_all_iff)

lemma waiting_inv_step:
  assumes inv: "waiting_inv w" and step: "ws_step l w = Some w'"
  shows "waiting_inv w'"
proof (cases l)
  case (Store r)
  then show ?thesis using step inv waiting_inv_outcome [OF inv]
    by (auto simp: ws_set_def ss_set_def split: if_splits sum.splits)
next
  case Abandon
  then show ?thesis using step inv waiting_inv_outcome [OF inv] by (auto simp: ws_abandon_def has_outcome_def)
next
  case Notify_all
  then show ?thesis using step inv thread_ok_wake by (fastforce simp: waiting_inv_def list_all_iff split: if_splits)
next
  case (Spurious i)
  then show ?thesis using step waiting_inv_update [OF inv] by (auto split: if_splits waiter.splits)
next
  case (Expire i)
  then show ?thesis using step waiting_inv_update [OF inv] by (auto split: if_splits)
qed (use step waiting_inv_test [OF inv] in \<open>auto split: if_splits waiter.splits\<close>)

interpretation waiting: step_invariant ws_step waiting_inv
  by unfold_locales (rule waiting_inv_step)

lemma waiting_inv_new: "waiting_inv (ws_new n)"
  by (simp add: waiting_inv_def ws_new_def list_all_iff)

text \<open>
  Nobody waits for ever on a future that has an outcome: in every interleaving, when the outcome is there and neither a notification nor a test
  of a woken thread is left to run, every call has come back: \<open>get\<close> with exactly that outcome, and a timed wait with \<open>true\<close> unless its
  timeout expired first.
\<close>

theorem task_future_waiters_return:
  assumes "run_steps ws_step ls (ws_new n) = Some w" and "has_outcome (ws_state w)"
    and "ws_step Notify_all w = None" and "\<And>i. ws_step (Retest i) w = None"
  shows "list_all (\<lambda>x. x = Idle \<or> (\<exists>kind. x = Returned kind (wait_return kind (ws_state w))) \<or> x = Returned Wait_for (In_time False)) (ws_threads w)"
proof -
  have inv: "waiting_inv w" using waiting.run_inv [OF waiting_inv_new assms(1)] .
  have n: "ws_notify w = 0" using assms(3) by (simp split: if_splits)
  show ?thesis unfolding list_all_length
  proof (intro allI impI)
    fix i assume i: "i < length (ws_threads w)"
    have ok: "thread_ok (ws_state w) False (ws_threads w ! i)" using inv i n by (simp add: waiting_inv_def list_all_length)
    show "ws_threads w ! i = Idle \<or> (\<exists>kind. ws_threads w ! i = Returned kind (wait_return kind (ws_state w))) \<or>
        ws_threads w ! i = Returned Wait_for (In_time False)"
      using ok assms(2) assms(4) [of i] i by (cases "ws_threads w ! i") auto
  qed
qed

theorem task_future_waiters_return_witness:
  "\<exists>w :: (nat, nat) waiting. run_steps ws_step [Call 0 Get, Call 1 Wait_for, Expire 1, Retest 1, Store (Value 7), Notify_all, Retest 0, Call 2 Wait] (ws_new 3) = Some w \<and>
     ws_threads w = [Returned Get (Delivery (Delivered 7)), Returned Wait_for (In_time False), Returned Wait Waited] \<and>
     list_all (\<lambda>x. x = Idle \<or> (\<exists>kind. x = Returned kind (wait_return kind (ws_state w))) \<or> x = Returned Wait_for (In_time False)) (ws_threads w)"
proof -
  let ?ls = "[Call 0 Get, Call 1 Wait_for, Expire 1, Retest 1, Store (Value 7), Notify_all, Retest 0, Call 2 Wait] :: (nat, nat) waiting_label list"
  let ?w = "\<lparr>ws_state = \<lparr>ss_result = Value 7, ss_abandoned = False\<rparr>,
    ws_threads = [Returned Get (Delivery (Delivered 7)), Returned Wait_for (In_time False), Returned Wait Waited], ws_notify = 0\<rparr> :: (nat, nat) waiting"
  have r: "run_steps ws_step ?ls (ws_new 3) = Some ?w"
    by (simp add: ws_new_def ws_test_def ws_set_def ss_set_def ss_new_def has_outcome_def ss_get_def numeral_eq_Suc)
  have "ws_step (Retest i) ?w = None" for i by (auto simp: less_Suc_eq)
  from task_future_waiters_return [OF r _ _ this] show ?thesis using r by (simp add: has_outcome_def)
qed

end
