(* ===== verification/Type_Traits.thy ===== *)
theory Type_Traits
  imports Egl_Prelude
begin

text \<open>
  The traits of type\_traits.hpp, as functions of types: what the compiler computes when it picks a specialization. An alias
  template is a partial function, whose value \<open>None\<close> is a failed substitution.
\<close>

section \<open>Types\<close>

text \<open>
  A type is a type that is no specialization of a template, a qualified type, a pointer, a reference, or a specialization of a
  class template whose parameters are all types. \<open>Nonesuch\<close> is the sentinel of the detection idiom.
\<close>

datatype cpp_type =
    Nonesuch | Plain string | Const_of cpp_type | Pointer_to cpp_type | Reference_to cpp_type | Specialization string "cpp_type list"

type_synonym alias_template = "cpp_type list \<Rightarrow> cpp_type option"

definition always_false_v :: "cpp_type list \<Rightarrow> bool" where
  "always_false_v ts = False"

section \<open>Detection\<close>

record detector =
  value_t :: bool
  type_of :: cpp_type

text \<open>The partial specialization when the alias is well-formed, the primary template otherwise.\<close>

definition detector_for :: "cpp_type \<Rightarrow> alias_template \<Rightarrow> cpp_type list \<Rightarrow> detector" where
  "detector_for default_type op_alias args =
     (case op_alias args of
        Some t \<Rightarrow> \<lparr>value_t = True, type_of = t\<rparr>
      | None \<Rightarrow> \<lparr>value_t = False, type_of = default_type\<rparr>)"

definition is_detected_v :: "alias_template \<Rightarrow> cpp_type list \<Rightarrow> bool" where
  "is_detected_v op_alias args = value_t (detector_for Nonesuch op_alias args)"

definition detected_t :: "alias_template \<Rightarrow> cpp_type list \<Rightarrow> cpp_type" where
  "detected_t op_alias args = type_of (detector_for Nonesuch op_alias args)"

definition detected_or_t :: "cpp_type \<Rightarrow> alias_template \<Rightarrow> cpp_type list \<Rightarrow> cpp_type" where
  "detected_or_t default_type op_alias args = type_of (detector_for default_type op_alias args)"

section \<open>Specializations and alternatives\<close>

fun is_specialization_of_v :: "cpp_type \<Rightarrow> string \<Rightarrow> bool" where
  "is_specialization_of_v (Specialization primary args) p = (primary = p)"
| "is_specialization_of_v t p = False"

definition is_any_of_v :: "cpp_type \<Rightarrow> cpp_type list \<Rightarrow> bool" where
  "is_any_of_v t us = foldr (\<lambda>u b. t = u \<or> b) us False"

section \<open>What the traits say\<close>

text \<open>The three views of a detection agree: the sentinel or the default stands for exactly the aliases that are ill-formed.\<close>

lemma detection_agrees:
  "detected_or_t d op_alias args = (if is_detected_v op_alias args then detected_t op_alias args else d)"
  and "op_alias args \<noteq> Some Nonesuch \<Longrightarrow> is_detected_v op_alias args \<longleftrightarrow> detected_t op_alias args \<noteq> Nonesuch"
  by (auto simp: detected_or_t_def is_detected_v_def detected_t_def detector_for_def split: option.split)

lemma is_specialization_of_iff: "is_specialization_of_v t p \<longleftrightarrow> (\<exists>args. t = Specialization p args)"
  by (cases "(t, p)" rule: is_specialization_of_v.cases) auto

lemma is_any_of_iff: "is_any_of_v t us \<longleftrightarrow> t \<in> set us"
  by (induction us) (auto simp: is_any_of_v_def)

text \<open>The match is exact: a qualified type is neither a specialization nor one of the unqualified alternatives.\<close>

lemma traits_ignore_nothing:
  "\<not> is_specialization_of_v (Const_of t) p" and "is_any_of_v (Const_of t) (map Plain ns) = False"
  by (auto simp: is_any_of_iff)

end
