(* ===== verification/Version.thy ===== *)
theory Version
  imports Decimal
begin

text \<open>The version constants (version.hpp) and the version that the compiled tier reports (version.cpp).\<close>

definition version_major :: int where "version_major = 1"
definition version_minor :: int where "version_minor = 1"
definition version_patch :: int where "version_patch = 0"
definition version_string :: string where "version_string = ''1.1.0''"

definition library_version :: string where
  "library_version = ''1.1.0''"

text \<open>The four constants agree, and so do the two tiers.\<close>

lemma version_consistent:
  "version_string = int_digits version_major @ ''.'' @ int_digits version_minor @ ''.'' @ int_digits version_patch"
  by code_simp

lemma library_version_matches: "library_version = version_string"
  by (simp add: library_version_def version_string_def)

end
