(* ===== verification/Spec2Isabelle.thy ===== *)
theory Spec2Isabelle
  imports
    Flat_Map Flat_Set Circular_Buffer Object_Pool Stack_Allocator Heap_Array
    Binary_Serializer Hash_Functions Sha256 String_Splitter String_Formatter
    Json_String Cli_Grammar
    Lock_Free_Concurrent Thread_Pool_Workers Semaphore Reader_Writer_Lock
    Logger_Shutdown File_Stream_Write File_Stream_Read Stopwatch
    Log_Sinks Log_Calls Tcp_Stream Unique_Ref Stack_Trace Task_Waiting
    Type_Traits Version
begin

text \<open>
  A verification of egl-utils-cpp, a C++20 library of small utilities (src/main/cpp/it/d4np/util under src/).
  The library is a set of headers with a compiled tier (logger.cpp, file\_stream.cpp, tcp\_socket.cpp,
  stack\_trace.cpp, version.cpp). Its parts are containers, memory, hashing, text, serialization and concurrency;
  they are used on their own, and call each other in few places: \<open>StringFormatter\<close> writes through
  \<open>StringBuilder\<close>, \<open>CliParser\<close> and \<open>JsonParser\<close> use both, \<open>ThreadPool\<close> hands results over through \<open>TaskFuture\<close>,
  and \<open>Logger\<close> formats its messages with \<open>StringFormatter\<close>.

  \<^bold>\<open>How the code is modelled.\<close> A class is a \<^theory_text>\<open>record\<close> of its members, an enumeration or variant a
  \<^theory_text>\<open>datatype\<close>, an operation a function from the state to the new state and the value returned. A
  function that throws returns \<open>cpp_error + 'a\<close> (\<open>Egl_Prelude\<close>); a failed \<open>assert\<close> and an access the standard
  leaves undefined are errors of that type, so a theorem that the result is \<open>Inr\<close> also says that they
  do not happen. Integers are machine words where they can wrap around, and natural numbers where the code
  bounds them. Template arguments that are code (a comparison, a factory, a parser for floating-point numbers,
  the platform's byte order) are arguments of the definitions.

  \<^bold>\<open>Sequential components.\<close>
  \<^item> \<open>Std_Algorithms\<close> and \<open>Std_Heap\<close>: what the library uses of the C++ algorithms, with the interfaces \<open>strict_weak\<close>,
    \<open>std_sort\<close> and \<open>heap_queue\<close> as locales, so that nothing is proved from more than the standard promises.
    \<open>Sorted_Vector\<close>: searching and updating a sorted vector, for the next two.
  \<^item> \<open>Flat_Map\<close> (flat\_map.hpp), \<open>Flat_Set\<close> (flat\_set.hpp): every sequence of operations behaves like a finite map or
    set; compile-time and run-time construction agree.
  \<^item> \<open>Bounded_Queue\<close>: the interface of a bounded FIFO. \<open>Circular_Buffer\<close> (circular\_buffer.hpp) and \<open>Lock_Free_Queue\<close>
    implement it.
  \<^item> \<open>Object_Pool\<close> (object\_pool.hpp): handles are exclusive and slots are never lost. \<open>Stack_Allocator\<close>
    (stack\_allocator.hpp): blocks are aligned, disjoint and inside the buffer. \<open>Heap_Array\<close> (heap\_array.hpp).
  \<^item> \<open>Binary_Serializer\<close> (binary\_serializer.hpp): round trips between hosts of any byte order, refused writes change nothing.
  \<^item> \<open>Egl_Words\<close>, \<open>Hash_Functions\<close>, \<open>Sha256\<close> (hash.hpp): FNV-1a, MurmurHash3 (differences that never collide) and
    SHA-256, which is proved equal to the definition of the standard, given in \<open>Sha256\<close> itself.
  \<^item> \<open>Decimal\<close>, \<open>String_Builder\<close> (string\_builder.hpp), \<open>String_Splitter\<close> (string\_splitter.hpp), \<open>String_Formatter\<close>
    (string\_formatter.hpp): \<open>to_chars\<close> and \<open>from_chars\<close> of integers, appending, splitting, and the compile-time check of
    format strings, which makes formatting safe.
  \<^item> \<open>Json_Parser\<close>, \<open>Json_Safety\<close>, \<open>Json_Text\<close>, \<open>Json_String\<close> (json\_parser.hpp): the pull parser ends on every input,
    yields the walk of one value, accepts every text of the grammar, and decodes what was escaped.
  \<^item> \<open>Cli_Parser\<close>, \<open>Cli_Registration\<close>, \<open>Cli_Parsing\<close>, \<open>Cli_Grammar\<close> (cli\_parser.hpp): registration, the scan of the
    arguments for every argument vector, and its effect on every command line of the documented grammar.
  \<^item> \<open>File_System\<close>, \<open>File_Stream\<close>, \<open>File_Stream_Write\<close>, \<open>File_Stream_Read\<close> (file\_stream.hpp and .cpp): the layer of system calls in its
    POSIX and its Windows branch, and the stream over either. The calls are an argument of the definitions. What is proved of
    writing and reading rests on contracts that the platforms document: a transfer
    takes a prefix, a failed one nothing, and only finitely many calls are interrupted or transfer nothing. The
    loops are partial functions, and that they return is part of the theorems; \<open>Retry\<close> has what all loops around an interrupted
    call share, and all loops that transfer a block piece by piece, as locales that each of them interprets.
  \<^item> \<open>Tcp_Socket\<close>, \<open>Tcp_Stream\<close>, \<open>Tcp_Descriptors\<close> (tcp\_socket.hpp and .cpp, as compiled on Linux and on Windows): sockets and servers over the
    socket calls, which are an argument. Under what POSIX and Winsock document of them, the results of transfers are those of the
    connection, and descriptors are never leaked, shared or closed twice, error paths included.
  \<^item> \<open>Ownership\<close>: exclusive ownership of resources by objects that are moved, assigned and destroyed, for descriptors and for the
    pointers of \<open>Unique_Ref\<close> (unique\_ref.hpp).
  \<^item> \<open>Stopwatch\<close> (stopwatch.hpp): the readings of the clock are arguments. \<open>Stack_Trace\<close> (stack\_trace.hpp and .cpp): what is
    captured and rendered, for any stack and any symbols, on both platforms. \<open>Log_Record\<close>, \<open>Log_Sinks\<close> (logger.hpp, logger.cpp): levels, the
    rendering of a line, and the sinks over the stream and socket operations they call. \<open>Log_Calls\<close> (logger.hpp): the calls that
    log, where a checked format string and its arguments become the line that the sinks get.
  \<^item> \<open>Type_Traits\<close> (type\_traits.hpp): the traits as functions of types. \<open>Version\<close> (version.hpp, version.cpp).

  \<^bold>\<open>Concurrent components.\<close> A monitor is a step function: one critical section of its mutex is one step, and so are each
  notification, a spurious wake-up and the expiry of a timeout; notifications are steps of their own
  because the code sends them after it has released the mutex. Steps of all threads interleave freely.
  \<open>Monitor\<close> has the runs and the counting of threads that the monitors share.
  \<^item> \<open>Lock_Free_Queue\<close>, \<open>Lock_Free_Concurrent\<close> (lock\_free\_queue.hpp): Vyukov's queue at the grain of its atomic accesses.
    Accesses interleave sequentially; that acquire and release make the payload visible is assumed. Fewer
    than \<open>2 ^ 64\<close> tickets are drawn in the concurrent theorems, none is bounded in the sequential one.
  \<^item> \<open>Task_Future\<close>, \<open>Task_Waiting\<close> (task\_future.hpp): promises and futures as objects that are moved, assigned and destroyed, and
    the threads that wait for an outcome.
  \<^item> \<open>Thread_Pool\<close>, \<open>Thread_Pool_Workers\<close> (thread\_pool.hpp): the queue of tasks refines a stable priority queue, for fewer
    than \<open>2 ^ 64\<close> operations; workers, wake-ups, and shutdown, which drains and ends.
  \<^item> \<open>Semaphore\<close> (semaphore.hpp), \<open>Reader_Writer_Lock\<close> (reader\_writer\_lock.hpp): conservation of units, mutual exclusion,
    writer preference, and that no wake-up is lost.
  \<^item> \<open>Logger\<close>, \<open>Logger_Queue\<close>, \<open>Logger_Wakeups\<close>, \<open>Logger_Shutdown\<close> (logger.hpp, logger.cpp): producers, the bounded queue with its
    overflow policies, the pump thread, the flush barrier and shutdown. The sinks are an argument and may throw; they do not call the
    logger they belong to. Fewer than \<open>2 ^ 64\<close> flushes are requested.

  \<^bold>\<open>Termination.\<close> Loops are recursive functions with a measure, so that they return is part of their definition. The
  retry loops of the lock-free queue are cut into steps; that a call with nobody else at the queue returns
  is a theorem. The parser's fuel is the length of the source plus one. The measures of a shutdown of the pool
  and of the logger bound its steps in every interleaving.

  \<^bold>\<open>Platforms.\<close> Where the compiled tier has a POSIX and a Windows branch, both are modelled, and the functions above them take the
  platform as an argument (\<open>platform\<close>, \<open>trace_platform\<close>, the member \<open>net_winsock\<close> of \<open>net\<close>), as the
  preprocessor does. Of POSIX it is Linux: macOS differs in a socket option and in how a thread gets its id.

  \<^bold>\<open>Not modelled.\<close> What the system calls, the symbol lookup and the C++ streams do, beyond the contracts named; the
  conversion of floating-point numbers, which is an argument; iterators and other views that
  expose a container's elements without changing it; util.hpp, which only includes. Tests, benchmarks, fuzzers and build files are not part of the library.
\<close>

end
